(* ===== verification/JsPrelude.thy ===== *)
theory JsPrelude
  imports Main
begin

text \<open>
  What the components share: the result type of code that may throw, JavaScript strings,
  numbers and objects as the web client's template engine
  (\<open>a-sync-webclient/src/main/resources/web/lib/handlebars.js\<close>) uses them, and the lemma
  collections of the development.

  A JavaScript string is a list of \<open>char\<close>, that is, of code units below 256. A number is the
  decimal it prints as; this is exact for literals of at most 15 significant digits and of a
  magnitude that JavaScript prints without an exponent. An object is its list of own properties
  in the order \<open>for ... in\<close> visits them: the integer keys ascending, then the others in the
  order of their insertion.
\<close>

named_theorems result_simps \<open>rewriting of computations that may throw\<close>
named_theorems obj_simps \<open>reading and writing properties of JavaScript objects\<close>

section \<open>Exceptions\<close>

text \<open>
  \<open>exn\<close> is what a \<open>throw\<close> carries: whether it is the engine's own \<open>Exception\<close>, a plain \<open>Error\<close> or
  a \<open>TypeError\<close> of the language, the message and, when the exception was given an AST node with a
  location, its line and column.
\<close>

datatype exn_kind = EngineException | PlainError | TypeError | RangeError

record exn =
  exn_kind :: exn_kind
  message :: string
  lineNumber :: "nat option"
  column :: "nat option"

type_synonym 'a result = "exn + 'a"

definition plain_error :: "string \<Rightarrow> exn" where
  "plain_error m = \<lparr>exn_kind = PlainError, message = m, lineNumber = None, column = None\<rparr>"

definition type_error :: "string \<Rightarrow> exn" where
  "type_error m = \<lparr>exn_kind = TypeError, message = m, lineNumber = None, column = None\<rparr>"

definition range_error :: "string \<Rightarrow> exn" where
  "range_error m = \<lparr>exn_kind = RangeError, message = m, lineNumber = None, column = None\<rparr>"

definition bindR :: "'a result \<Rightarrow> ('a \<Rightarrow> 'b result) \<Rightarrow> 'b result" where
  "bindR m f = (case m of Inl e \<Rightarrow> Inl e | Inr x \<Rightarrow> f x)"

definition throws :: "'a result \<Rightarrow> bool" where
  "throws m \<longleftrightarrow> (case m of Inl _ \<Rightarrow> True | Inr _ \<Rightarrow> False)"

lemma exn_kind_error [simp]: "exn_kind (plain_error m) = PlainError" "exn_kind (type_error m) = TypeError"
  by (simp_all add: plain_error_def type_error_def)

lemma bindR_Inl [simp, result_simps]: "bindR (Inl e) f = Inl e"
  by (simp add: bindR_def)

lemma bindR_Inr [simp, result_simps]: "bindR (Inr x) f = f x"
  by (simp add: bindR_def)

lemma bindR_eq_Inr [result_simps]: "bindR m f = Inr y \<longleftrightarrow> (\<exists>x. m = Inr x \<and> f x = Inr y)"
  by (cases m) auto

lemma bindR_eq_Inl [result_simps]: "bindR m f = Inl e \<longleftrightarrow> m = Inl e \<or> (\<exists>x. m = Inr x \<and> f x = Inl e)"
  by (cases m) auto

lemma bindR_assoc [result_simps]: "bindR (bindR m f) g = bindR m (\<lambda>x. bindR (f x) g)"
  by (cases m) auto

lemma bindR_InrE [elim!]:
  assumes "bindR m f = Inr y"
  obtains x where "m = Inr x" and "f x = Inr y"
  using assms by (auto simp: bindR_eq_Inr)

lemma bindR_cong [fundef_cong]:
  assumes "m = m'" and "\<And>x. m' = Inr x \<Longrightarrow> f x = g x"
  shows "bindR m f = bindR m' g"
  using assms by (cases m') auto

lemma throws_simps [simp]: "throws (Inl e)" "\<not> throws (Inr x)"
  by (simp_all add: throws_def)

fun mapR :: "('a \<Rightarrow> 'b result) \<Rightarrow> 'a list \<Rightarrow> 'b list result" where
  "mapR f [] = Inr []"
| "mapR f (x # xs) = bindR (f x) (\<lambda>y. bindR (mapR f xs) (\<lambda>ys. Inr (y # ys)))"

lemma mapR_cong [fundef_cong]:
  assumes "xs = ys" and "\<And>x. x \<in> set ys \<Longrightarrow> f x = g x"
  shows "mapR f xs = mapR g ys"
  using assms(2) unfolding assms(1) by (induction ys) simp_all

text \<open>Code that also reads and writes a state: a function from states to results.\<close>

type_synonym ('s, 'a) action = "'s \<Rightarrow> ('a \<times> 's) result"

definition retS :: "'a \<Rightarrow> ('s, 'a) action" where
  "retS x s = Inr (x, s)"

definition bindS :: "('s, 'a) action \<Rightarrow> ('a \<Rightarrow> ('s, 'b) action) \<Rightarrow> ('s, 'b) action" where
  "bindS m f s = bindR (m s) (\<lambda>(x, s'). f x s')"

definition readS :: "('s \<Rightarrow> 'a) \<Rightarrow> ('s, 'a) action" where
  "readS f s = Inr (f s, s)"

definition modS :: "('s \<Rightarrow> 's) \<Rightarrow> ('s, unit) action" where
  "modS f s = Inr ((), f s)"

definition throwS :: "exn \<Rightarrow> ('s, 'a) action" where
  "throwS e s = Inl e"

abbreviation thenS :: "('s, 'a) action \<Rightarrow> ('s, 'b) action \<Rightarrow> ('s, 'b) action" where
  "thenS m n \<equiv> bindS m (\<lambda>_. n)"

lemmas action_defs = retS_def readS_def modS_def throwS_def

lemma bindS_Inr [result_simps]: "m s = Inr (x, s') \<Longrightarrow> bindS m f s = f x s'"
  by (simp add: bindS_def)

lemma bindS_Inl [result_simps]: "m s = Inl e \<Longrightarrow> bindS m f s = Inl e"
  by (simp add: bindS_def)

text \<open>
  \<open>runs P m Q\<close>: from a state with \<open>P\<close> the action returns, and its result and new state are in \<open>Q\<close>.
\<close>

definition runs :: "('s \<Rightarrow> bool) \<Rightarrow> ('s, 'a) action \<Rightarrow> ('a \<Rightarrow> 's \<Rightarrow> bool) \<Rightarrow> bool" where
  "runs P m Q \<longleftrightarrow> (\<forall>s. P s \<longrightarrow> (\<exists>x s'. m s = Inr (x, s') \<and> Q x s'))"

lemma runsD: "runs P m Q \<Longrightarrow> P s \<Longrightarrow> \<exists>x s'. m s = Inr (x, s') \<and> Q x s'"
  by (simp add: runs_def)

lemma runs_bind: "runs P m R \<Longrightarrow> (\<And>x. runs (R x) (f x) Q) \<Longrightarrow> runs P (bindS m f) Q"
  unfolding runs_def bindS_def by fastforce

lemma runs_weaken: "runs P m Q \<Longrightarrow> (\<And>s. P' s \<Longrightarrow> P s) \<Longrightarrow> (\<And>x s. Q x s \<Longrightarrow> Q' x s) \<Longrightarrow> runs P' m Q'"
  unfolding runs_def by blast

lemma runs_pre: "runs P m Q \<Longrightarrow> (\<And>s. P' s \<Longrightarrow> P s) \<Longrightarrow> runs P' m Q"
  by (rule runs_weaken)

lemma runs_ret: "(\<And>s. P s \<Longrightarrow> Q x s) \<Longrightarrow> runs P (retS x) Q"
  by (simp add: runs_def retS_def)

lemma runs_mod: "(\<And>s. P s \<Longrightarrow> Q () (f s)) \<Longrightarrow> runs P (modS f) Q"
  by (simp add: runs_def modS_def)

lemma runs_read: "(\<And>s. P s \<Longrightarrow> Q (f s) s) \<Longrightarrow> runs P (readS f) Q"
  by (simp add: runs_def readS_def)

lemma runs_if: "(b \<Longrightarrow> runs P m Q) \<Longrightarrow> (\<not> b \<Longrightarrow> runs P m' Q) \<Longrightarrow> runs P (if b then m else m') Q"
  by simp

text \<open>
  Code that changes a state which stays changed when it throws: the result and the new state.
\<close>

type_synonym ('s, 'a) effect = "'s \<Rightarrow> 'a result \<times> 's"

definition retE :: "'a \<Rightarrow> ('s, 'a) effect" where
  "retE x s = (Inr x, s)"

definition bindE :: "('s, 'a) effect \<Rightarrow> ('a \<Rightarrow> ('s, 'b) effect) \<Rightarrow> ('s, 'b) effect" where
  "bindE m f s = (case m s of (Inl e, s') \<Rightarrow> (Inl e, s') | (Inr x, s') \<Rightarrow> f x s')"

definition liftE :: "'a result \<Rightarrow> ('s, 'a) effect" where
  "liftE r s = (r, s)"

definition throwE :: "exn \<Rightarrow> ('s, 'a) effect" where
  "throwE e s = (Inl e, s)"

definition readE :: "('s \<Rightarrow> 'a) \<Rightarrow> ('s, 'a) effect" where
  "readE f s = (Inr (f s), s)"

definition modE :: "('s \<Rightarrow> 's) \<Rightarrow> ('s, unit) effect" where
  "modE f s = (Inr (), f s)"

lemmas effect_defs = retE_def liftE_def throwE_def readE_def modE_def

lemma bindE_simps [simp]:
  "bindE (retE x) f = f x" "bindE (throwE e) f = throwE e" "bindE (liftE (Inr x)) f = f x"
  by (auto simp: bindE_def effect_defs fun_eq_iff)

lemma bindE_assoc: "bindE (bindE m f) g = bindE m (\<lambda>x. bindE (f x) g)"
  by (auto simp: bindE_def fun_eq_iff split: prod.splits sum.splits)

lemma bindE_cong [fundef_cong]:
  assumes "m = m'" and "\<And>x. f x = g x"
  shows "bindE m f = bindE m' g"
proof -
  have "m = m'" and "f = g"
    using assms by (simp_all add: fun_eq_iff)
  then show ?thesis
    by simp
qed

section \<open>Characters and strings\<close>

definition char_in :: "nat \<Rightarrow> nat \<Rightarrow> char \<Rightarrow> bool" where
  "char_in lo hi c \<longleftrightarrow> lo \<le> of_char c \<and> of_char c \<le> hi"

definition is_digit :: "char \<Rightarrow> bool" where
  "is_digit c \<longleftrightarrow> char_in 48 57 c"

text \<open>The class \<open>\s\<close> of a regular expression, on code units below 256.\<close>

definition is_space :: "char \<Rightarrow> bool" where
  "is_space c \<longleftrightarrow> char_in 9 13 c \<or> c = CHR 0x20 \<or> c = CHR 0xA0"

text \<open>The class \<open>\w\<close>: letters, digits and the underscore.\<close>

definition is_word :: "char \<Rightarrow> bool" where
  "is_word c \<longleftrightarrow> is_digit c \<or> char_in 65 90 c \<or> char_in 97 122 c \<or> c = CHR ''_''"

abbreviation nl :: char where "nl \<equiv> CHR 0x0A"
abbreviation cr :: char where "cr \<equiv> CHR 0x0D"
abbreviation backslash :: char where "backslash \<equiv> CHR 0x5C"
abbreviation dquote :: char where "dquote \<equiv> CHR 0x22"
abbreviation squote :: char where "squote \<equiv> CHR 0x27"
abbreviation backtick :: char where "backtick \<equiv> CHR 0x60"

fun starts_with :: "string \<Rightarrow> string \<Rightarrow> bool" where
  "starts_with [] s = True"
| "starts_with (p # ps) [] = False"
| "starts_with (p # ps) (c # s) \<longleftrightarrow> p = c \<and> starts_with ps s"

lemma starts_with_iff: "starts_with p s \<longleftrightarrow> (\<exists>r. s = p @ r)"
  by (induction p s rule: starts_with.induct) auto

lemma starts_with_append [simp]: "starts_with p (p @ r)"
  by (auto simp: starts_with_iff)

lemma starts_with_take: "starts_with p s \<Longrightarrow> take (length p) s = p"
  by (auto simp: starts_with_iff)

text \<open>\<open>ends_with\<close> and the two ways of stripping a suffix that a predicate describes.\<close>

definition ends_with :: "string \<Rightarrow> string \<Rightarrow> bool" where
  "ends_with p s \<longleftrightarrow> starts_with (rev p) (rev s)"

definition strip_right :: "(char \<Rightarrow> bool) \<Rightarrow> string \<Rightarrow> string" where
  "strip_right P s = rev (dropWhile P (rev s))"

lemma strip_right_split: "\<exists>w. s = strip_right P s @ w \<and> list_all P w"
proof -
  have "rev s = takeWhile P (rev s) @ dropWhile P (rev s)" by simp
  then have "s = rev (dropWhile P (rev s)) @ rev (takeWhile P (rev s))"
    by (metis rev_append rev_rev_ident)
  moreover have "list_all P (rev (takeWhile P (rev s)))"
    by (auto simp: list_all_iff dest: set_takeWhileD)
  ultimately show ?thesis unfolding strip_right_def by blast
qed

fun contains_char :: "char \<Rightarrow> string \<Rightarrow> bool" where
  "contains_char c s \<longleftrightarrow> c \<in> set s"

text \<open>\<open>s.split(sep)\<close> for a single character, and \<open>xs.join(sep)\<close>.\<close>

fun split_on :: "char \<Rightarrow> string \<Rightarrow> string list" where
  "split_on c [] = [[]]"
| "split_on c (x # s) =
     (if x = c then [] # split_on c s
      else (case split_on c s of [] \<Rightarrow> [[x]] | l # ls \<Rightarrow> (x # l) # ls))"

fun join_with :: "string \<Rightarrow> string list \<Rightarrow> string" where
  "join_with sep [] = []"
| "join_with sep [x] = x"
| "join_with sep (x # y # xs) = x @ sep @ join_with sep (y # xs)"

lemma split_on_nonempty [simp]: "split_on c s \<noteq> []"
  by (induction s) (auto split: list.splits)

lemma join_split [simp]: "join_with [c] (split_on c s) = s"
proof (induction s)
  case Nil
  then show ?case by simp
next
  case (Cons x s)
  obtain l ls where "split_on c s = l # ls" by (cases "split_on c s") auto
  with Cons show ?case by (cases ls) auto
qed

lemma split_on_no_sep: "l \<in> set (split_on c s) \<Longrightarrow> c \<notin> set l"
  by (induction s arbitrary: l) (auto split: list.splits if_splits)

lemma split_on_plain: "c \<notin> set s \<Longrightarrow> split_on c s = [s]"
  by (induction s) auto

lemma split_on_append: "split_on c (p @ c # w) = split_on c p @ split_on c w"
  by (induction p) (auto split: list.splits)

lemma split_join: "ls \<noteq> [] \<Longrightarrow> (\<And>l. l \<in> set ls \<Longrightarrow> c \<notin> set l) \<Longrightarrow> split_on c (join_with [c] ls) = ls"
  by (induction "[c]" ls rule: join_with.induct) (auto simp: split_on_plain split_on_append)

text \<open>\<open>toLowerCase\<close>, on code units below 256.\<close>

definition lower_char :: "char \<Rightarrow> char" where
  "lower_char c =
     (let n = of_char c :: nat
      in if 65 \<le> n \<and> n \<le> 90 \<or> 192 \<le> n \<and> n \<le> 222 \<and> n \<noteq> 215 then char_of (n + 32) else c)"

definition lower :: "string \<Rightarrow> string" where
  "lower s = map lower_char s"

section \<open>Numbers\<close>

fun show_nat :: "nat \<Rightarrow> string" where
  "show_nat n = (if n < 10 then [char_of (48 + n)] else show_nat (n div 10) @ [char_of (48 + n mod 10)])"

declare show_nat.simps [simp del]

definition digit_val :: "char \<Rightarrow> nat" where
  "digit_val c = of_char c - 48"

definition read_nat :: "string \<Rightarrow> nat" where
  "read_nat s = foldl (\<lambda>n c. 10 * n + digit_val c) 0 s"

lemma of_char_digit: "n < 10 \<Longrightarrow> of_char (char_of (48 + n) :: char) = (48 + n :: nat)"
  by (simp add: of_char_of)

lemma is_digit_char_of: "(n::nat) < 10 \<Longrightarrow> is_digit (char_of (48 + n))"
  by (simp add: is_digit_def char_in_def of_char_of)

lemma show_nat_digits: "list_all is_digit (show_nat n)"
proof (induction n rule: show_nat.induct)
  case (1 n)
  then show ?case
    by (subst show_nat.simps) (simp add: is_digit_char_of)
qed

lemma show_nat_nonempty [simp]: "show_nat n \<noteq> []"
  by (subst show_nat.simps) simp

lemma read_nat_snoc: "read_nat (s @ [c]) = 10 * read_nat s + digit_val c"
  by (simp add: read_nat_def)

lemma read_show_nat [simp]: "read_nat (show_nat n) = n"
proof (induction n rule: show_nat.induct)
  case (1 n)
  show ?case
  proof (cases "n < 10")
    case True
    then show ?thesis
      by (subst show_nat.simps) (simp add: read_nat_def digit_val_def of_char_of)
  next
    case False
    with 1 have "read_nat (show_nat (n div 10)) = n div 10" by simp
    with False show ?thesis
      by (subst show_nat.simps) (simp add: read_nat_snoc digit_val_def of_char_of)
  qed
qed

lemma show_nat_inj: "show_nat m = show_nat n \<longleftrightarrow> m = n"
  by (metis read_show_nat)

lemma show_0: "show_nat 0 = ''0''" by code_simp
lemma show_nat_hd: "hd (show_nat n) \<noteq> CHR ''0'' \<or> show_nat n = ''0''"
proof (induction n rule: show_nat.induct)
  case (1 n)
  show ?case
  proof (cases "n < 10")
    case True
    then have s: "show_nat n = [char_of (48 + n)]"
      by (simp add: show_nat.simps [of n])
    show ?thesis
    proof (cases "n = 0")
      case True
      then show ?thesis by (simp add: show_0)
    next
      case False
      with True have "of_char (char_of (48 + n) :: char) \<noteq> (of_char CHR ''0'' :: nat)"
        by (simp add: of_char_of)
      then have "char_of (48 + n) \<noteq> CHR ''0''"
        by metis
      with s show ?thesis by simp
    qed
  next
    case False
    then have "show_nat n = show_nat (n div 10) @ [char_of (48 + n mod 10)]" and "show_nat (n div 10) \<noteq> ''0''"
      by (simp_all add: show_nat.simps [of n] show_nat_inj flip: show_0)
    with 1 False show ?thesis by simp
  qed
qed

text \<open>
  A number is a sign, its integer digits without leading zeros and its fraction digits without
  trailing zeros, or one of the values that are not finite.
\<close>

datatype jsnum = Decimal bool string string | NaN | Infinity bool

definition num_of_nat :: "nat \<Rightarrow> jsnum" where
  "num_of_nat n = Decimal False (show_nat n) []"

definition num_is_zero :: "jsnum \<Rightarrow> bool" where
  "num_is_zero x = (case x of Decimal _ i f \<Rightarrow> i = ''0'' \<and> f = [] | _ \<Rightarrow> False)"

definition num_truthy :: "jsnum \<Rightarrow> bool" where
  "num_truthy x \<longleftrightarrow> \<not> num_is_zero x \<and> x \<noteq> NaN"

text \<open>\<open>x + ''\<close> for a number \<open>x\<close>; negative zero prints as \<open>0\<close>.\<close>

fun num_to_string :: "jsnum \<Rightarrow> string" where
  "num_to_string (Decimal neg i f) =
     (if neg \<and> \<not> (i = ''0'' \<and> f = []) then ''-'' else '''') @ i @ (if f = [] then [] else ''.'' @ f)"
| "num_to_string NaN = ''NaN''"
| "num_to_string (Infinity neg) = (if neg then ''-'' else '''') @ ''Infinity''"

text \<open>
  \<open>Number(s)\<close> on the text of a NUMBER token, \<open>-?[0-9]+(\.[0-9]+)?\<close>.
\<close>

definition to_number :: "string \<Rightarrow> jsnum" where
  "to_number s =
     (let neg = starts_with ''-'' s;
          t = (if neg then tl s else s);
          i = takeWhile is_digit t;
          f = drop 1 (dropWhile is_digit t);
          i' = dropWhile (\<lambda>c. c = CHR ''0'') i
      in Decimal neg (if i' = [] then ''0'' else i') (strip_right (\<lambda>c. c = CHR ''0'') f))"

section \<open>Objects\<close>

type_synonym 'v obj = "(string \<times> 'v) list"

text \<open>An array index key: a canonical decimal below \<open>2^32 - 1\<close>.\<close>

definition is_index :: "string \<Rightarrow> bool" where
  "is_index k \<longleftrightarrow> k \<noteq> [] \<and> list_all is_digit k \<and> (hd k \<noteq> CHR ''0'' \<or> k = ''0'')
     \<and> read_nat k < 2 ^ 32 - 1"

lemma is_index_show: "n < 2 ^ 32 - 1 \<Longrightarrow> is_index (show_nat n)"
  using show_nat_hd [of n] by (simp add: is_index_def show_nat_digits)

definition key_before :: "string \<Rightarrow> string \<Rightarrow> bool" where
  "key_before k k' \<longleftrightarrow> is_index k \<and> (is_index k' \<longrightarrow> read_nat k < read_nat k')"

fun obj_insert :: "string \<Rightarrow> 'v \<Rightarrow> 'v obj \<Rightarrow> 'v obj" where
  "obj_insert k v [] = [(k, v)]"
| "obj_insert k v ((k', v') # ps) =
     (if key_before k k' then (k, v) # (k', v') # ps else (k', v') # obj_insert k v ps)"

fun obj_replace :: "string \<Rightarrow> 'v \<Rightarrow> 'v obj \<Rightarrow> 'v obj" where
  "obj_replace k v [] = []"
| "obj_replace k v ((k', v') # ps) =
     (if k = k' then (k, v) # ps else (k', v') # obj_replace k v ps)"

definition obj_get :: "'v obj \<Rightarrow> string \<Rightarrow> 'v option" where
  "obj_get ps k = map_of ps k"

definition obj_set :: "string \<Rightarrow> 'v \<Rightarrow> 'v obj \<Rightarrow> 'v obj" where
  "obj_set k v ps = (if k \<in> fst ` set ps then obj_replace k v ps else obj_insert k v ps)"

definition obj_delete :: "string \<Rightarrow> 'v obj \<Rightarrow> 'v obj" where
  "obj_delete k ps = filter (\<lambda>p. fst p \<noteq> k) ps"

definition obj_keys :: "'v obj \<Rightarrow> string list" where
  "obj_keys ps = map fst ps"

definition obj_ok :: "'v obj \<Rightarrow> bool" where
  "obj_ok ps \<longleftrightarrow> distinct (map fst ps)"

lemma obj_insert_get: "k \<notin> fst ` set ps \<Longrightarrow> map_of (obj_insert k v ps) = (map_of ps)(k \<mapsto> v)"
  by (induction k v ps rule: obj_insert.induct) (auto simp: fun_eq_iff)

lemma obj_replace_get: "k \<in> fst ` set ps \<Longrightarrow> map_of (obj_replace k v ps) = (map_of ps)(k \<mapsto> v)"
  by (induction k v ps rule: obj_replace.induct) (force simp: fun_eq_iff)+

lemma set_obj_insert: "set (obj_insert k v ps) = insert (k, v) (set ps)"
  by (induction k v ps rule: obj_insert.induct) auto

lemma keys_obj_replace [simp]: "map fst (obj_replace k v ps) = map fst ps"
  by (induction k v ps rule: obj_replace.induct) auto

lemma distinct_obj_insert:
  "k \<notin> fst ` set ps \<Longrightarrow> distinct (map fst ps) \<Longrightarrow> distinct (map fst (obj_insert k v ps))"
  by (induction k v ps rule: obj_insert.induct) (auto simp: set_obj_insert image_iff)

lemma obj_get_set [obj_simps]: "obj_get (obj_set k v ps) = (obj_get ps)(k \<mapsto> v)"
  by (auto simp: obj_get_def [abs_def] obj_set_def obj_insert_get obj_replace_get fun_eq_iff)

lemma obj_get_delete [obj_simps]: "obj_get (obj_delete k ps) = (obj_get ps)(k := None)"
  by (induction ps) (auto simp: obj_get_def [abs_def] obj_delete_def fun_eq_iff)

lemma obj_get_empty [obj_simps]: "obj_get [] = Map.empty"
  by (simp add: obj_get_def [abs_def])

lemma obj_ok_set: "obj_ok ps \<Longrightarrow> obj_ok (obj_set k v ps)"
  by (auto simp: obj_ok_def obj_set_def distinct_obj_insert)

lemma obj_ok_delete: "obj_ok ps \<Longrightarrow> obj_ok (obj_delete k ps)"
  by (induction ps) (auto simp: obj_ok_def obj_delete_def)

lemma obj_keys_set: "set (obj_keys (obj_set k v ps)) = insert k (set (obj_keys ps))"
proof (cases "k \<in> fst ` set ps")
  case True
  then show ?thesis
    by (metis (no_types, lifting) image_set insert_absorb keys_obj_replace obj_keys_def obj_set_def)
next
  case False
  then show ?thesis by (auto simp: obj_keys_def obj_set_def set_obj_insert)
qed

text \<open>
  Reading \<open>o[k]\<close> of an object literal also reaches the properties that every object inherits
  from \<open>Object.prototype\<close>; all of them are truthy.
\<close>

definition object_prototype :: "string list" where
  "object_prototype = [''constructor'', ''__defineGetter__'', ''__defineSetter__'', ''hasOwnProperty'',
     ''__lookupGetter__'', ''__lookupSetter__'', ''isPrototypeOf'', ''propertyIsEnumerable'',
     ''toString'', ''valueOf'', ''__proto__'', ''toLocaleString'']"

definition truthy_key :: "bool obj \<Rightarrow> string \<Rightarrow> bool" where
  "truthy_key ps k = (case obj_get ps k of Some b \<Rightarrow> b | None \<Rightarrow> k \<in> set object_prototype)"

end
