(* ===== verification/HbUtils.thy ===== *)
theory HbUtils
  imports JsPrelude
begin

text \<open>
  Runtime values and the helpers of \<open>handlebars.js\<close>, modules 5 (utils), 6 (exception) and
  18 (SafeString): property copying, HTML escaping, emptiness, data frames.
\<close>

section \<open>Values\<close>

text \<open>
  A value of the page. An array is a list of optional elements, \<open>None\<close> being a hole. A function
  of the page is a number, and what it does is in \<open>host\<close>: it is code outside this program. A
  function of the engine itself is \<open>VBuiltin\<close> with its name. Objects and arrays print as the
  default \<open>toString\<close> prints them.
\<close>

datatype jsval =
    Undefined
  | Null
  | VBool bool
  | VNum jsnum
  | VStr string
  | VObj "(string \<times> jsval) list"
  | VArr "jsval option list"
  | VFun nat
  | VBuiltin string
  | VSafe jsval

record host =
  fun_call :: "nat \<Rightarrow> jsval \<Rightarrow> jsval list \<Rightarrow> jsval result"
  fun_text :: "nat \<Rightarrow> string"
  builtin_text :: "string \<Rightarrow> string"
  builtin_call :: "string \<Rightarrow> jsval \<Rightarrow> jsval list \<Rightarrow> jsval result"

fun truthy :: "jsval \<Rightarrow> bool" where
  "truthy Undefined = False"
| "truthy Null = False"
| "truthy (VBool b) = b"
| "truthy (VNum n) = num_truthy n"
| "truthy (VStr s) = (s \<noteq> [])"
| "truthy _ = True"

definition nullish :: "jsval \<Rightarrow> bool" where
  "nullish v \<longleftrightarrow> v = Undefined \<or> v = Null"

text \<open>\<open>'' + v\<close>. \<open>VSafe\<close> is the class \<open>SafeString\<close>, whose \<open>toString\<close> and \<open>toHTML\<close> are this.\<close>

fun to_string :: "host \<Rightarrow> jsval \<Rightarrow> string" where
  "to_string h Undefined = ''undefined''"
| "to_string h Null = ''null''"
| "to_string h (VBool b) = (if b then ''true'' else ''false'')"
| "to_string h (VNum n) = num_to_string n"
| "to_string h (VStr s) = s"
| "to_string h (VObj ps) = ''[object Object]''"
| "to_string h (VArr xs) = join_with '',''
     (map (\<lambda>x. case x of None \<Rightarrow> [] | Some v \<Rightarrow> if v = Undefined \<or> v = Null then [] else to_string h v) xs)"
| "to_string h (VFun f) = fun_text h f"
| "to_string h (VBuiltin n) = builtin_text h n"
| "to_string h (VSafe v) = to_string h v"

definition isFunction :: "jsval \<Rightarrow> bool" where
  "isFunction v = (case v of VFun _ \<Rightarrow> True | VBuiltin _ \<Rightarrow> True | _ \<Rightarrow> False)"

definition isArray :: "jsval \<Rightarrow> bool" where
  "isArray v = (case v of VArr _ \<Rightarrow> True | _ \<Rightarrow> False)"

definition call_value :: "host \<Rightarrow> jsval \<Rightarrow> jsval \<Rightarrow> jsval list \<Rightarrow> jsval result" where
  "call_value h f this args = (case f of
      VFun n \<Rightarrow> fun_call h n this args
    | VBuiltin n \<Rightarrow> builtin_call h n this args
    | _ \<Rightarrow> Inl (type_error ''value is not a function''))"

text \<open>
  What an object inherits under a name: the functions of \<open>Object.prototype\<close>, or that object itself,
  which has no property a loop would see.
\<close>

definition inherited :: "string \<Rightarrow> jsval" where
  "inherited k =
     (if k = ''__proto__'' then VObj [] else if k \<in> set object_prototype then VBuiltin k else Undefined)"

text \<open>A property read \<open>v[k]\<close>; \<open>null\<close> and \<open>undefined\<close> have none and throw. Methods
  that arrays, strings, numbers and functions inherit are not properties here.\<close>

definition get_prop :: "jsval \<Rightarrow> string \<Rightarrow> jsval result" where
  "get_prop v k = (case v of
      Undefined \<Rightarrow> Inl (type_error (''Cannot read property '' @ k @ '' of undefined''))
    | Null \<Rightarrow> Inl (type_error (''Cannot read property '' @ k @ '' of null''))
    | VObj ps \<Rightarrow> Inr (case obj_get ps k of None \<Rightarrow> inherited k | Some x \<Rightarrow> x)
    | VArr xs \<Rightarrow> Inr (if k = ''length'' then VNum (num_of_nat (length xs))
        else if is_index k \<and> read_nat k < length xs
        then (case xs ! read_nat k of None \<Rightarrow> Undefined | Some x \<Rightarrow> x) else Undefined)
    | VStr s \<Rightarrow> Inr (if k = ''length'' then VNum (num_of_nat (length s))
        else if is_index k \<and> read_nat k < length s then VStr [s ! read_nat k] else Undefined)
    | VSafe x \<Rightarrow> Inr (if k = ''string'' then x else Undefined)
    | _ \<Rightarrow> Inr Undefined)"

section \<open>Copying properties\<close>

fun obj_extend1 :: "'v obj \<Rightarrow> 'v obj \<Rightarrow> 'v obj" where
  "obj_extend1 o1 [] = o1"
| "obj_extend1 o1 ((k, v) # ps) = obj_extend1 (obj_set k v o1) ps"

fun obj_extend :: "'v obj \<Rightarrow> 'v obj list \<Rightarrow> 'v obj" where
  "obj_extend o1 [] = o1"
| "obj_extend o1 (s # ss) = obj_extend (obj_extend1 o1 s) ss"

lemma obj_get_extend1: "obj_ok ps \<Longrightarrow> obj_get (obj_extend1 o1 ps) = obj_get o1 ++ obj_get ps"
proof (induction o1 ps rule: obj_extend1.induct)
  case (1 o1)
  then show ?case by (simp add: obj_simps)
next
  case (2 o1 k v ps)
  then have ok: "obj_ok ps" and k: "obj_get ps k = None"
    by (auto simp: obj_ok_def obj_get_def map_of_eq_None_iff)
  from 2 ok show ?case
    using k by (auto simp: obj_simps obj_get_def map_add_def fun_eq_iff split: option.splits)
qed

lemma obj_ok_extend1: "obj_ok o1 \<Longrightarrow> obj_ok (obj_extend1 o1 ps)"
  by (induction o1 ps rule: obj_extend1.induct) (auto simp: obj_ok_set)

lemma obj_ok_extend: "obj_ok o1 \<Longrightarrow> obj_ok (obj_extend o1 ss)"
  by (induction o1 ss rule: obj_extend.induct) (auto simp: obj_ok_extend1)

lemma obj_ok_Nil [simp]: "obj_ok []"
  by (simp add: obj_ok_def)

section \<open>Escaping\<close>

definition escapeChar :: "char \<Rightarrow> string" where
  "escapeChar c =
     (if c = CHR ''&'' then ''&amp;''
      else if c = CHR ''<'' then ''&lt;''
      else if c = CHR ''>'' then ''&gt;''
      else if c = dquote then ''&quot;''
      else if c = squote then ''&#x27;''
      else if c = backtick then ''&#x60;''
      else if c = CHR ''='' then ''&#x3D;''
      else [c])"

definition badChars :: "char set" where
  "badChars = {CHR ''&'', CHR ''<'', CHR ''>'', dquote, squote, backtick, CHR ''=''}"

definition escape_string :: "string \<Rightarrow> string" where
  "escape_string s =
     (if \<not> list_ex (\<lambda>c. c \<in> badChars) s then s
      else concat (map (\<lambda>c. if c \<in> badChars then escapeChar c else [c]) s))"

definition escapeExpression :: "host \<Rightarrow> jsval \<Rightarrow> jsval result" where
  "escapeExpression h v = (case v of
      VStr s \<Rightarrow> Inr (VStr (escape_string s))
    | VSafe x \<Rightarrow> Inr (VStr (to_string h x))
    | VObj ps \<Rightarrow>
        (case obj_get ps ''toHTML'' of
           Some t \<Rightarrow>
             if truthy t then
               (if isFunction t then call_value h t v [] else Inl (type_error ''string.toHTML is not a function''))
             else Inr (VStr (escape_string (to_string h v)))
         | None \<Rightarrow> Inr (VStr (escape_string (to_string h v))))
    | _ \<Rightarrow>
        if nullish v then Inr (VStr [])
        else if \<not> truthy v then Inr (VStr (to_string h v))
        else Inr (VStr (escape_string (to_string h v))))"

text \<open>The early return for strings without a special character does not change the result.\<close>

lemma escape_string_eq: "escape_string s = concat (map escapeChar s)"
proof -
  have one: "(if c \<in> badChars then escapeChar c else [c]) = escapeChar c" for c
    by (auto simp: escapeChar_def badChars_def)
  have "\<not> list_ex (\<lambda>c. c \<in> badChars) s \<Longrightarrow> concat (map escapeChar s) = s"
    by (induction s) (auto simp: escapeChar_def badChars_def)
  then show ?thesis by (auto simp: escape_string_def one)
qed

text \<open>A decoder for the seven entities, as a browser reads the escaped text back.\<close>

definition entities :: "(string \<times> char) list" where
  "entities = [(''&amp;'', CHR ''&''), (''&lt;'', CHR ''<''), (''&gt;'', CHR ''>''),
     (''&quot;'', dquote), (''&#x27;'', squote), (''&#x60;'', backtick), (''&#x3D;'', CHR ''='')]"

function unescape_html :: "string \<Rightarrow> string" where
  "unescape_html [] = []"
| "unescape_html (c # s) =
     (case find (\<lambda>e. starts_with (fst e) (c # s)) entities of
        Some (t, d) \<Rightarrow> d # unescape_html (drop (length t - 1) s)
      | None \<Rightarrow> c # unescape_html s)"
  by pat_completeness auto
termination
  by (relation "measure length") auto

declare unescape_html.simps(2) [simp del]

lemma unescape_plain: "c \<noteq> CHR ''&'' \<Longrightarrow> unescape_html (c # s) = c # unescape_html s"
  by (subst unescape_html.simps) (simp add: entities_def)

lemma unescape_entity:
  "unescape_html (''&amp;'' @ s) = CHR ''&'' # unescape_html s"
  "unescape_html (''&lt;'' @ s) = CHR ''<'' # unescape_html s"
  "unescape_html (''&gt;'' @ s) = CHR ''>'' # unescape_html s"
  "unescape_html (''&quot;'' @ s) = dquote # unescape_html s"
  "unescape_html (''&#x27;'' @ s) = squote # unescape_html s"
  "unescape_html (''&#x60;'' @ s) = backtick # unescape_html s"
  "unescape_html (''&#x3D;'' @ s) = CHR ''='' # unescape_html s"
  by (simp only: append.simps, subst unescape_html.simps(2), simp add: entities_def)+

lemma escapeChar_unescape: "unescape_html (escapeChar c @ s) = c # unescape_html s"
proof (cases "c \<in> badChars")
  case True
  then show ?thesis
    unfolding badChars_def by (auto simp: escapeChar_def unescape_entity simp del: append.simps)
next
  case False
  then have "escapeChar c = [c]" and "c \<noteq> CHR ''&''" by (auto simp: escapeChar_def badChars_def)
  then show ?thesis by (simp add: unescape_plain)
qed

lemma unescape_escape_string: "unescape_html (escape_string s) = s"
proof -
  have "unescape_html (concat (map escapeChar s)) = s"
    by (induction s) (simp_all add: escapeChar_unescape)
  then show ?thesis by (simp add: escape_string_eq)
qed

lemma escapeChar_safe: "set (escapeChar c) \<inter> (badChars - {CHR ''&''}) = {}"
proof (cases "c \<in> badChars")
  case True
  then show ?thesis unfolding badChars_def by (elim insertE emptyE; simp add: escapeChar_def)
next
  case False
  then have "escapeChar c = [c]" by (auto simp: escapeChar_def badChars_def)
  with False show ?thesis by simp
qed

lemma escape_string_safe: "set (escape_string s) \<inter> (badChars - {CHR ''&''}) = {}"
  unfolding escape_string_eq using escapeChar_safe by fastforce

lemma escape_string_append: "escape_string (s @ t) = escape_string s @ escape_string t"
  by (simp add: escape_string_eq)

section \<open>Emptiness, frames and paths\<close>

definition isEmpty :: "jsval \<Rightarrow> bool" where
  "isEmpty v =
     (if \<not> truthy v \<and> \<not> (case v of VNum n \<Rightarrow> num_is_zero n | _ \<Rightarrow> False) then True
      else if v = VArr [] then True
      else False)"

definition createFrame :: "jsval obj \<Rightarrow> jsval obj" where
  "createFrame ob = obj_set ''_parent'' (VObj ob) (obj_extend [] [ob])"

type_synonym block_params = "jsval list \<times> jsval list"

text \<open>\<open>blockParams(params, ids)\<close> sets \<open>params.path\<close>: the pair of the array and that property.\<close>

definition blockParams :: "jsval list \<Rightarrow> jsval list \<Rightarrow> block_params" where
  "blockParams params ids = (params, ids)"

definition appendContextPath :: "host \<Rightarrow> jsval \<Rightarrow> jsval \<Rightarrow> string" where
  "appendContextPath h contextPath i =
     (if truthy contextPath then to_string h contextPath @ ''.'' else []) @ to_string h i"

fun indexOf_from :: "nat \<Rightarrow> 'a list \<Rightarrow> 'a \<Rightarrow> int" where
  "indexOf_from i [] x = -1"
| "indexOf_from i (y # ys) x = (if y = x then int i else indexOf_from (Suc i) ys x)"

definition indexOf :: "'a list \<Rightarrow> 'a \<Rightarrow> int" where
  "indexOf xs x = indexOf_from 0 xs x"

lemma indexOf_from_Some:
  "indexOf_from i xs x = int j \<Longrightarrow>
     i \<le> j \<and> j - i < length xs \<and> xs ! (j - i) = x \<and> (\<forall>m < j - i. xs ! m \<noteq> x)"
proof (induction i xs x rule: indexOf_from.induct)
  case (2 i y ys x)
  show ?case
  proof (cases "y = x")
    case True
    with 2 show ?thesis by simp
  next
    case False
    with 2 have IH: "Suc i \<le> j" "j - Suc i < length ys" "ys ! (j - Suc i) = x"
      "\<forall>m < j - Suc i. ys ! m \<noteq> x" by auto
    then have "j - i = Suc (j - Suc i)" by simp
    with IH False show ?thesis by (auto simp: nth_Cons split: nat.splits)
  qed
qed simp

lemma indexOf_from_neg: "indexOf_from i xs x < 0 \<longleftrightarrow> x \<notin> set xs"
  by (induction i xs x rule: indexOf_from.induct) auto

lemma indexOf_neg: "indexOf xs x < 0 \<longleftrightarrow> x \<notin> set xs"
  by (simp add: indexOf_def indexOf_from_neg)

lemma indexOf_Some:
  "indexOf xs x = int j \<Longrightarrow> j < length xs \<and> xs ! j = x \<and> (\<forall>m < j. xs ! m \<noteq> x)"
  using indexOf_from_Some [of 0 xs x j] by (simp add: indexOf_def)

lemma createFrame_get:
  "obj_ok ob \<Longrightarrow> obj_get (createFrame ob) k = (if k = ''_parent'' then Some (VObj ob) else obj_get ob k)"
  by (simp add: createFrame_def obj_simps obj_get_extend1)

lemma createFrame_ok: "obj_ok (createFrame ob)"
  unfolding createFrame_def by (intro obj_ok_set obj_ok_extend obj_ok_Nil)

section \<open>Exceptions\<close>

text \<open>
  The constructor \<open>Exception(message, node)\<close>: a node with a location adds it to the message. The
  location is given as the line and the column of its start.
\<close>

definition Exception :: "string \<Rightarrow> (nat \<times> nat) option \<Rightarrow> exn" where
  "Exception m loc = (case loc of
      None \<Rightarrow> \<lparr>exn_kind = EngineException, message = m, lineNumber = None, column = None\<rparr>
    | Some (l, c) \<Rightarrow> \<lparr>exn_kind = EngineException,
        message = m @ '' - '' @ show_nat l @ '':'' @ show_nat c,
        lineNumber = Some l, column = Some c\<rparr>)"

lemma exn_kind_Exception [simp]: "exn_kind (Exception m loc) = EngineException"
  by (auto simp: Exception_def split: option.splits)

section \<open>Properties\<close>

text \<open>C22: escaping a string never fails; the result holds none of the characters that HTML treats
  specially except in its entities, and a browser decodes it to the string it was made from.\<close>

theorem escapeExpression_decodes:
  "\<exists>e. escapeExpression h (VStr s) = Inr (VStr e) \<and> unescape_html e = s \<and> set e \<inter> (badChars - {CHR ''&''}) = {}"
  using unescape_escape_string [of s] escape_string_safe [of s] by (simp add: escapeExpression_def)

text \<open>\<open>createFrame\<close> gives a frame that reads like its parent, apart from \<open>_parent\<close>, which is the
  parent itself.\<close>

lemma createFrame_reads:
  assumes "obj_ok ob"
  shows "obj_get (createFrame ob) k = (if k = ''_parent'' then Some (VObj ob) else obj_get ob k)"
  by (rule createFrame_get [OF assms])

end
