(* ===== verification/HbAst.thy ===== *)
theory HbAst
  imports HbUtils
begin

text \<open>
  The syntax tree of a template and the functions that build its nodes: modules 21 (ast) and 26
  (helpers) of \<open>handlebars.js\<close>. An optional property of a node that may be \<open>undefined\<close> is an
  \<open>option\<close>; a property that is only tested for truth is a \<open>bool\<close>.
\<close>

section \<open>Locations\<close>

datatype pos = Pos (line: nat) (col: nat)

instantiation pos :: linorder
begin

definition less_eq_pos :: "pos \<Rightarrow> pos \<Rightarrow> bool" where
  "less_eq_pos p q \<longleftrightarrow> line p < line q \<or> (line p = line q \<and> col p \<le> col q)"

definition less_pos :: "pos \<Rightarrow> pos \<Rightarrow> bool" where
  "less_pos p q \<longleftrightarrow> line p < line q \<or> (line p = line q \<and> col p < col q)"

instance
  by standard (auto simp: less_eq_pos_def less_pos_def intro: pos.expand)

end

text \<open>The location of a token as the lexer keeps it, and a node's location.\<close>

record lexloc =
  first_line :: nat
  first_column :: nat
  last_line :: nat
  last_column :: nat

record source_loc =
  loc_source :: "string option"
  loc_start :: pos
  loc_end :: pos

definition SourceLocation :: "string option \<Rightarrow> lexloc \<Rightarrow> source_loc" where
  "SourceLocation src l = \<lparr>loc_source = src, loc_start = Pos (first_line l) (first_column l),
     loc_end = Pos (last_line l) (last_column l)\<rparr>"

definition exn_loc :: "source_loc option \<Rightarrow> (nat \<times> nat) option" where
  "exn_loc l = map_option (\<lambda>x. (line (loc_start x), col (loc_start x))) l"

section \<open>Nodes\<close>

record path =
  path_data :: bool
  depth :: nat
  parts :: "string list"
  original :: "string option"
  path_loc :: "source_loc option"

datatype literal =
    StringLiteral string
  | NumberLiteral jsnum
  | BooleanLiteral bool
  | UndefinedLiteral
  | NullLiteral

datatype expr =
    PathExpression path
  | LiteralExpression literal "source_loc option"
  | SubExpression expr "expr list" "hash option" "source_loc option"
and hash = Hash "hash_pair list" "source_loc option"
and hash_pair = HashPair string expr "source_loc option"

record strip_flags =
  strip_open :: bool
  strip_close :: bool

definition no_strip :: strip_flags where
  "no_strip = \<lparr>strip_open = False, strip_close = False\<rparr>"

text \<open>
  The first flag of \<open>Mustache\<close> and \<open>Block\<close> tells a decorator. A block carries its program, its
  inverse and the strip flags of its opening, inverse and closing tags.
\<close>

datatype stmt =
    Mustache bool expr "expr list" "hash option" bool strip_flags "source_loc option"
  | Block bool expr "expr list" "hash option" "program option" "program option"
      strip_flags "strip_flags option" "strip_flags option" "source_loc option"
  | Partial expr "expr list" "hash option" string strip_flags "source_loc option"
  | PartialBlock expr "expr list" "hash option" program strip_flags "strip_flags option"
      "source_loc option"
  | Content string string bool bool "source_loc option"
  | Comment string strip_flags "source_loc option"
and program = Program "stmt list" "string list option" bool "source_loc option"

fun program_body :: "program \<Rightarrow> stmt list" where
  "program_body (Program b _ _ _) = b"

fun program_blockParams :: "program \<Rightarrow> string list option" where
  "program_blockParams (Program _ bp _ _) = bp"

fun program_chained :: "program \<Rightarrow> bool" where
  "program_chained (Program _ _ c _) = c"

fun program_loc :: "program \<Rightarrow> source_loc option" where
  "program_loc (Program _ _ _ l) = l"

fun stmt_loc :: "stmt \<Rightarrow> source_loc option" where
  "stmt_loc (Mustache _ _ _ _ _ _ l) = l"
| "stmt_loc (Block _ _ _ _ _ _ _ _ _ l) = l"
| "stmt_loc (Partial _ _ _ _ _ l) = l"
| "stmt_loc (PartialBlock _ _ _ _ _ _ l) = l"
| "stmt_loc (Content _ _ _ _ l) = l"
| "stmt_loc (Comment _ _ l) = l"

fun expr_loc :: "expr \<Rightarrow> source_loc option" where
  "expr_loc (PathExpression p) = path_loc p"
| "expr_loc (LiteralExpression _ l) = l"
| "expr_loc (SubExpression _ _ _ l) = l"

text \<open>The property \<open>type\<close> of an expression.\<close>

fun literal_type :: "literal \<Rightarrow> string" where
  "literal_type (StringLiteral s) = ''StringLiteral''"
| "literal_type (NumberLiteral n) = ''NumberLiteral''"
| "literal_type (BooleanLiteral b) = ''BooleanLiteral''"
| "literal_type UndefinedLiteral = ''UndefinedLiteral''"
| "literal_type NullLiteral = ''NullLiteral''"

fun expr_type :: "expr \<Rightarrow> string" where
  "expr_type (PathExpression p) = ''PathExpression''"
| "expr_type (LiteralExpression l _) = literal_type l"
| "expr_type (SubExpression _ _ _ _) = ''SubExpression''"

text \<open>The property \<open>original\<close> of a node in the position of a path.\<close>

definition opt_string :: "string option \<Rightarrow> jsval" where
  "opt_string x = (case x of None \<Rightarrow> Undefined | Some s \<Rightarrow> VStr s)"

fun literal_value :: "literal \<Rightarrow> jsval" where
  "literal_value (StringLiteral s) = VStr s"
| "literal_value (NumberLiteral n) = VNum n"
| "literal_value (BooleanLiteral b) = VBool b"
| "literal_value UndefinedLiteral = Undefined"
| "literal_value NullLiteral = Null"

fun expr_original :: "expr \<Rightarrow> jsval" where
  "expr_original (PathExpression p) = opt_string (original p)"
| "expr_original (LiteralExpression l _) = literal_value l"
| "expr_original (SubExpression _ _ _ _) = Undefined"

text \<open>\<open>x + ''\<close> and \<open>x === y\<close> for such a value, which is primitive.\<close>

fun prim_string :: "jsval \<Rightarrow> string" where
  "prim_string Null = ''null''"
| "prim_string (VBool b) = (if b then ''true'' else ''false'')"
| "prim_string (VNum n) = num_to_string n"
| "prim_string (VStr s) = s"
| "prim_string _ = ''undefined''"

fun prim_eq :: "jsval \<Rightarrow> jsval \<Rightarrow> bool" where
  "prim_eq (VNum m) (VNum n) = (m \<noteq> NaN \<and> (m = n \<or> num_is_zero m \<and> num_is_zero n))"
| "prim_eq v w = (v = w)"

section \<open>Module 21: derived attributes\<close>

text \<open>
  The regular expression of \<open>scopedId\<close> is \<open>/^\.|this\b/\<close>. Its two alternatives are a dot at
  the start and \<open>this\<close> before a word boundary, the latter anywhere in the string.
\<close>

fun this_boundary :: "string \<Rightarrow> bool" where
  "this_boundary [] = False"
| "this_boundary (c # s) =
     ((starts_with ''this'' (c # s) \<and> (case drop 4 (c # s) of [] \<Rightarrow> True | d # _ \<Rightarrow> \<not> is_word d))
      \<or> this_boundary s)"

definition scopedId :: "path \<Rightarrow> bool" where
  "scopedId p =
     (let s = (case original p of None \<Rightarrow> ''undefined'' | Some t \<Rightarrow> t)
      in starts_with ''.'' s \<or> this_boundary s)"

definition simpleId :: "path \<Rightarrow> bool" where
  "simpleId p \<longleftrightarrow> length (parts p) = 1 \<and> \<not> scopedId p \<and> depth p = 0"

text \<open>\<open>helperExpression\<close> of a subexpression, and of a mustache or block.\<close>

definition helperExpression :: "bool \<Rightarrow> expr list \<Rightarrow> hash option \<Rightarrow> bool" where
  "helperExpression isSub ps h \<longleftrightarrow> isSub \<or> ps \<noteq> [] \<or> h \<noteq> None"

section \<open>Module 26: building nodes\<close>

text \<open>
  The semantic values of the open tags: path, parameters, hash, block parameters and flags; the
  text of the tag itself is kept by one production only. \<open>inv_prog\<close> is the inverse part.
\<close>

record open_tag =
  open_text :: "string option"
  open_path :: expr
  open_params :: "expr list"
  open_hash :: "hash option"
  open_blockParams :: "string list option"
  open_strip :: strip_flags

record inv_prog =
  inv_strip :: strip_flags
  inv_program :: program
  inv_chain :: bool

text \<open>What closes a block: the name of a raw block, or an object with an optional path.\<close>

datatype close_tag = CloseText string | CloseObj "expr option" strip_flags

fun close_strip :: "close_tag \<Rightarrow> strip_flags" where
  "close_strip (CloseText _) = no_strip"
| "close_strip (CloseObj _ s) = s"

fun close_path :: "close_tag \<Rightarrow> expr option" where
  "close_path (CloseText _) = None"
| "close_path (CloseObj p _) = p"

definition validateClose :: "open_tag \<Rightarrow> close_tag \<Rightarrow> unit result" where
  "validateClose ot cl =
     (let c = (case cl of CloseText s \<Rightarrow> VStr s
                | CloseObj (Some p) _ \<Rightarrow> expr_original p
                | CloseObj None _ \<Rightarrow> VStr ''[object Object]'')
      in if \<not> prim_eq (expr_original (open_path ot)) c
         then Inl (Exception (prim_string (expr_original (open_path ot)) @ '' doesn't match '' @ prim_string c)
                (exn_loc (expr_loc (open_path ot))))
         else Inr ())"

text \<open>\<open>/^\[.*\]$/\<close>: the dot does not match a line terminator.\<close>

definition is_line_end :: "char \<Rightarrow> bool" where
  "is_line_end c \<longleftrightarrow> c = nl \<or> c = cr"

definition id_bracketed :: "string \<Rightarrow> bool" where
  "id_bracketed t \<longleftrightarrow> length t \<ge> 2 \<and> hd t = CHR ''['' \<and> last t = CHR '']''
     \<and> \<not> list_ex is_line_end (butlast (tl t))"

definition id_token :: "string \<Rightarrow> string" where
  "id_token t = (if id_bracketed t then butlast (tl t) else t)"

definition char_at :: "string \<Rightarrow> int \<Rightarrow> char option" where
  "char_at s i = (if 0 \<le> i \<and> i < int (length s) then Some (s ! nat i) else None)"

definition stripFlags :: "string \<Rightarrow> string \<Rightarrow> strip_flags" where
  "stripFlags op cl = \<lparr>strip_open = (char_at op 2 = Some CHR ''~''),
     strip_close = (char_at cl (int (length cl) - 3) = Some CHR ''~'')\<rparr>"

definition drop_opt :: "char \<Rightarrow> string \<Rightarrow> string" where
  "drop_opt c s = (case s of d # r \<Rightarrow> if c = d then r else s | [] \<Rightarrow> [])"

definition stripComment :: "string \<Rightarrow> string" where
  "stripComment c =
     (let a = (if starts_with ''{{'' c
               then (case drop_opt CHR ''~'' (drop 2 c) of
                       CHR ''!'' # r \<Rightarrow> drop_opt CHR ''-'' (drop_opt CHR ''-'' r)
                     | _ \<Rightarrow> c)
               else c);
          r = rev a
      in if starts_with ''}}'' r
         then rev (drop_opt CHR ''-'' (drop_opt CHR ''-'' (drop_opt CHR ''~'' (drop 2 r))))
         else a)"

text \<open>One segment of a path: its name, the token it came from and the separator before it.\<close>

record segment =
  seg_part :: string
  seg_original :: string
  seg_separator :: "string option"

text \<open>The loop of \<open>preparePath\<close>, with its variables \<open>original\<close>, \<open>dig\<close> and \<open>depth\<close>.\<close>

fun path_loop :: "source_loc \<Rightarrow> segment list \<Rightarrow> string \<Rightarrow> string list \<Rightarrow> nat
    \<Rightarrow> (string \<times> string list \<times> nat) result" where
  "path_loop loc [] orig dig dep = Inr (orig, dig, dep)"
| "path_loop loc (s # ss) orig dig dep =
     (let part = seg_part s;
          isLiteral = (seg_original s \<noteq> part);
          orig' = orig @ (case seg_separator s of None \<Rightarrow> [] | Some x \<Rightarrow> x) @ part
      in if \<not> isLiteral \<and> (part = ''..'' \<or> part = ''.'' \<or> part = ''this'')
         then (if dig \<noteq> [] then Inl (Exception (''Invalid path: '' @ orig') (exn_loc (Some loc)))
               else if part = ''..'' then path_loop loc ss orig' dig (Suc dep)
               else path_loop loc ss orig' dig dep)
         else path_loop loc ss orig' (dig @ [part]) dep)"

definition preparePath :: "string option \<Rightarrow> bool \<Rightarrow> segment list \<Rightarrow> lexloc \<Rightarrow> path result" where
  "preparePath src isData segs l =
     (let loc = SourceLocation src l
      in bindR (path_loop loc segs (if isData then ''@'' else []) [] 0) (\<lambda>(orig, dig, dep).
           Inr \<lparr>path_data = isData, depth = dep, parts = dig, original = Some orig,
                path_loc = Some loc\<rparr>))"

definition prepareMustache :: "string option \<Rightarrow> expr \<Rightarrow> expr list \<Rightarrow> hash option \<Rightarrow> string
    \<Rightarrow> strip_flags \<Rightarrow> lexloc \<Rightarrow> stmt" where
  "prepareMustache src p ps h op strip l =
     (let escapeFlag = (case char_at op 3 of None \<Rightarrow> char_at op 2 | x \<Rightarrow> x);
          escaped = (escapeFlag \<noteq> Some CHR ''{'' \<and> escapeFlag \<noteq> Some CHR ''&'');
          decorator = (CHR ''*'' \<in> set op)
      in Mustache decorator p ps h escaped strip (Some (SourceLocation src l)))"

definition prepareProgram :: "stmt list \<Rightarrow> source_loc option \<Rightarrow> program" where
  "prepareProgram stmts loc =
     (let loc' = (if loc = None \<and> stmts \<noteq> []
                  then (case (stmt_loc (hd stmts), stmt_loc (last stmts)) of
                          (Some f, Some t) \<Rightarrow>
                            Some \<lparr>loc_source = loc_source f, loc_start = loc_start f, loc_end = loc_end t\<rparr>
                        | _ \<Rightarrow> None)
                  else loc)
      in Program stmts None False loc')"

definition prepareRawBlock :: "string option \<Rightarrow> open_tag \<Rightarrow> stmt list \<Rightarrow> string \<Rightarrow> lexloc \<Rightarrow> stmt result" where
  "prepareRawBlock src ot contents cl l =
     bindR (validateClose ot (CloseText cl)) (\<lambda>_.
       let loc = SourceLocation src l
       in Inr (Block False (open_path ot) (open_params ot) (open_hash ot)
            (Some (Program contents None False (Some loc))) None no_strip (Some no_strip) (Some no_strip)
            (Some loc)))"

fun set_closeStrip :: "strip_flags \<Rightarrow> stmt \<Rightarrow> stmt" where
  "set_closeStrip s (Block d p ps h pr iv os is cs l) = Block d p ps h pr iv os is (Some s) l"
| "set_closeStrip s (PartialBlock n ps h pr os cs l) = PartialBlock n ps h pr os (Some s) l"
| "set_closeStrip s st = st"

fun set_blockParams :: "string list option \<Rightarrow> program \<Rightarrow> program" where
  "set_blockParams bp (Program b _ c l) = Program b bp c l"

fun chain_closeStrip :: "strip_flags \<Rightarrow> program \<Rightarrow> program" where
  "chain_closeStrip s (Program [] bp c l) = Program [] bp c l"
| "chain_closeStrip s (Program (x # xs) bp c l) = Program (set_closeStrip s x # xs) bp c l"

definition prepareBlock :: "string option \<Rightarrow> open_tag \<Rightarrow> program \<Rightarrow> inv_prog option \<Rightarrow> close_tag option
    \<Rightarrow> bool \<Rightarrow> lexloc \<Rightarrow> stmt result" where
  "prepareBlock src ot prog ip cl inverted l =
     bindR (case cl of
              Some c \<Rightarrow> if close_path c \<noteq> None then validateClose ot c else Inr ()
            | None \<Rightarrow> Inr ()) (\<lambda>_.
     let decorator = (case open_text ot of None \<Rightarrow> False | Some t \<Rightarrow> CHR ''*'' \<in> set t);
         prog' = set_blockParams (open_blockParams ot) prog
     in bindR (case ip of
                 None \<Rightarrow> Inr (None, None)
               | Some i \<Rightarrow>
                   if decorator then Inl (Exception ''Unexpected inverse block on decorator'' None)
                   else if inv_chain i then
                     (case cl of
                        None \<Rightarrow> Inl (type_error ''Cannot read property strip of undefined'')
                      | Some c \<Rightarrow> Inr (Some (chain_closeStrip (close_strip c) (inv_program i)), Some (inv_strip i)))
                   else Inr (Some (inv_program i), Some (inv_strip i))) (\<lambda>(inverse, inverseStrip).
        let (pr, iv) = (if inverted then (inverse, Some prog') else (Some prog', inverse))
        in Inr (Block decorator (open_path ot) (open_params ot) (open_hash ot) pr iv
             (open_strip ot) inverseStrip (map_option close_strip cl) (Some (SourceLocation src l)))))"

definition preparePartialBlock :: "string option \<Rightarrow> open_tag \<Rightarrow> program \<Rightarrow> close_tag \<Rightarrow> lexloc \<Rightarrow> stmt result" where
  "preparePartialBlock src ot prog cl l =
     bindR (validateClose ot cl) (\<lambda>_.
       Inr (PartialBlock (open_path ot) (open_params ot) (open_hash ot) prog (open_strip ot)
         (Some (close_strip cl)) (Some (SourceLocation src l))))"

section \<open>Lemmas\<close>

text \<open>A step of a path that moves to a context rather than naming a property.\<close>

definition scope_step :: "segment \<Rightarrow> bool" where
  "scope_step s \<longleftrightarrow> seg_original s = seg_part s \<and> seg_part s \<in> {''..'', ''.'', ''this''}"

definition segs_text :: "segment list \<Rightarrow> string" where
  "segs_text ss = concat (map (\<lambda>s. (case seg_separator s of None \<Rightarrow> [] | Some x \<Rightarrow> x) @ seg_part s) ss)"

lemma path_loop_dug:
  "path_loop loc ss orig dig dep = Inr (o', d', n') \<Longrightarrow> dig \<noteq> [] \<Longrightarrow>
     list_all (\<lambda>s. \<not> scope_step s) ss \<and> d' = dig @ map seg_part ss \<and> n' = dep \<and> o' = orig @ segs_text ss"
  by (induction loc ss orig dig dep rule: path_loop.induct)
    (auto simp: scope_step_def segs_text_def Let_def split: if_splits)

lemma path_loop_result:
  "path_loop loc ss orig [] dep = Inr (o', d', n') \<Longrightarrow>
     \<exists>pre post. ss = pre @ post \<and> list_all scope_step pre \<and> list_all (\<lambda>s. \<not> scope_step s) post
       \<and> d' = map seg_part post \<and> n' = dep + length (filter (\<lambda>s. seg_part s = ''..'') pre)
       \<and> o' = orig @ segs_text ss"
proof (induction ss arbitrary: orig dep)
  case Nil
  then show ?case by (simp add: segs_text_def)
next
  case (Cons s ss)
  show ?case
  proof (cases "scope_step s")
    case True
    let ?o = "orig @ (case seg_separator s of None \<Rightarrow> [] | Some x \<Rightarrow> x) @ seg_part s"
    let ?d = "if seg_part s = ''..'' then Suc dep else dep"
    from Cons.prems True have "path_loop loc ss ?o [] ?d = Inr (o', d', n')"
      by (auto simp: scope_step_def Let_def split: if_splits)
    from Cons.IH [OF this] obtain pre post where IH: "ss = pre @ post" "list_all scope_step pre"
      "list_all (\<lambda>s. \<not> scope_step s) post" "d' = map seg_part post"
      "n' = ?d + length (filter (\<lambda>s. seg_part s = ''..'') pre)" "o' = ?o @ segs_text ss"
      by blast
    then have "s # ss = (s # pre) @ post \<and> list_all scope_step (s # pre)
      \<and> list_all (\<lambda>s. \<not> scope_step s) post \<and> d' = map seg_part post
      \<and> n' = dep + length (filter (\<lambda>s. seg_part s = ''..'') (s # pre)) \<and> o' = orig @ segs_text (s # ss)"
      using True by (simp add: segs_text_def)
    then show ?thesis by blast
  next
    case False
    let ?o = "orig @ (case seg_separator s of None \<Rightarrow> [] | Some x \<Rightarrow> x) @ seg_part s"
    from Cons.prems False have "path_loop loc ss ?o [seg_part s] dep = Inr (o', d', n')"
      by (auto simp: scope_step_def Let_def split: if_splits)
    from path_loop_dug [OF this] have "list_all (\<lambda>s. \<not> scope_step s) (s # ss)"
      "d' = map seg_part (s # ss)" "n' = dep" "o' = orig @ segs_text (s # ss)"
      using False by (simp_all add: segs_text_def)
    then show ?thesis by (intro exI [of _ "[]"] exI [of _ "s # ss"]) simp
  qed
qed

section \<open>Properties\<close>

text \<open>A path is some steps \<open>..\<close>, \<open>.\<close> or \<open>this\<close> followed by names only: \<open>preparePath\<close> returns the
  names as \<open>parts\<close>, counts the steps \<open>..\<close> as \<open>depth\<close> and keeps the text.\<close>

lemma preparePath_shape:
  assumes "preparePath src data ss l = Inr p"
  shows "\<exists>pre post. ss = pre @ post \<and> list_all scope_step pre \<and> list_all (\<lambda>s. \<not> scope_step s) post
    \<and> parts p = map seg_part post \<and> depth p = length (filter (\<lambda>s. seg_part s = ''..'') pre)
    \<and> original p = Some ((if data then ''@'' else []) @ segs_text ss)"
proof -
  from assms obtain o' d' n' where r: "path_loop (SourceLocation src l) ss (if data then ''@'' else []) [] 0 = Inr (o', d', n')"
    and p: "parts p = d'" "depth p = n'" "original p = Some o'"
    by (auto simp: preparePath_def Let_def split: if_splits)
  from path_loop_result [OF r] p show ?thesis by simp
qed

end
