(* ===== verification/HbLexer.thy ===== *)
theory HbLexer
  imports HbAst
begin

text \<open>
  The lexer of \<open>handlebars.js\<close> (module 23, \<open>lexer\<close>): its 45 rules, its five start conditions, the
  actions of the rules, and \<open>next\<close> and \<open>lex\<close>. A rule is a function from the remaining input to
  the length of the prefix that the regular expression matches, \<open>None\<close> if it does not match. The
  options \<open>flex\<close> and \<open>ranges\<close> are never set, and nothing calls \<open>more\<close>.
\<close>

section \<open>The rules\<close>

abbreviation nul :: char where "nul \<equiv> CHR 0x00"

text \<open>\<open>[^\x00]*?(?=p)\<close>: the shortest prefix before \<open>p\<close>.\<close>

fun lazy_until :: "string \<Rightarrow> string \<Rightarrow> nat option" where
  "lazy_until p s =
     (if starts_with p s then Some 0
      else (case s of [] \<Rightarrow> None
            | c # r \<Rightarrow> if c = nul then None else map_option Suc (lazy_until p r)))"

declare lazy_until.simps [simp del]

text \<open>The lookahead of rule 2, and its lazy scan once two characters are taken.\<close>

definition emu_stop :: "string \<Rightarrow> bool" where
  "emu_stop s \<longleftrightarrow> starts_with ''{{'' s \<or> starts_with (backslash # ''{{'') s
     \<or> starts_with (backslash # backslash # ''{{'') s \<or> s = []"

fun lazy_emu :: "string \<Rightarrow> nat option" where
  "lazy_emu s =
     (if emu_stop s then Some 0
      else (case s of [] \<Rightarrow> None
            | c # r \<Rightarrow> if c = nul then None else map_option Suc (lazy_emu r)))"

declare lazy_emu.simps [simp del]

text \<open>\<open>[\s\S]*?--(~)?\}\}\<close> and \<open>[\s\S]*?\}\}\<close>: up to and with the first terminator.\<close>

fun lazy_comment :: "string \<Rightarrow> nat option" where
  "lazy_comment [] = None"
| "lazy_comment (c # s) =
     (if starts_with ''--}}'' (c # s) then Some 4
      else if starts_with ''--~}}'' (c # s) then Some 5
      else map_option Suc (lazy_comment s))"

fun lazy_close :: "string \<Rightarrow> nat option" where
  "lazy_close [] = None"
| "lazy_close (c # s) =
     (if starts_with ''}}'' (c # s) then Some 2 else map_option Suc (lazy_close s))"

text \<open>The characters of an ID: \<open>[^\s!"#%-,\.\/;->@\[-\^`\{-~]\<close>.\<close>

definition is_id :: "char \<Rightarrow> bool" where
  "is_id c \<longleftrightarrow> \<not> (is_space c \<or> c = CHR ''!'' \<or> c = dquote \<or> c = CHR ''#'' \<or> char_in 37 44 c
     \<or> c = CHR ''.'' \<or> c = CHR ''/'' \<or> char_in 59 62 c \<or> c = CHR ''@'' \<or> char_in 91 94 c
     \<or> c = backtick \<or> char_in 123 126 c)"

text \<open>A lookahead at one character of a class; it fails at the end of the input.\<close>

definition peek :: "(char \<Rightarrow> bool) \<Rightarrow> string \<Rightarrow> bool" where
  "peek P s = (case s of [] \<Rightarrow> False | c # _ \<Rightarrow> P c)"

definition literal_end :: "char \<Rightarrow> bool" where
  "literal_end c \<longleftrightarrow> c = CHR ''~'' \<or> c = CHR ''}'' \<or> is_space c \<or> c = CHR '')''"

definition id_end :: "char \<Rightarrow> bool" where
  "id_end c \<longleftrightarrow> c = CHR ''='' \<or> literal_end c \<or> c = CHR ''/'' \<or> c = CHR ''.'' \<or> c = CHR ''|''"

text \<open>
  \<open>q(\\q|[^q])*q\<close> after its opening character. The star takes an escaped \<open>q\<close> as one item; if no
  bare \<open>q\<close> follows, backtracking lets the last escaped one close the string.
\<close>

fun quoted_end :: "char \<Rightarrow> string \<Rightarrow> nat \<Rightarrow> nat option \<Rightarrow> nat option" where
  "quoted_end q [] n esc = esc"
| "quoted_end q (c # s) n esc =
     (if c = q then Some (Suc n)
      else if c = backslash \<and> peek (\<lambda>d. d = q) s
      then quoted_end q (tl s) (n + 2) (Some (n + 2))
      else quoted_end q s (Suc n) esc)"

definition lit :: "string \<Rightarrow> string \<Rightarrow> nat option" where
  "lit p s = (if starts_with p s then Some (length p) else None)"

definition keyword :: "string \<Rightarrow> string \<Rightarrow> nat option" where
  "keyword p s = (if starts_with p s \<and> peek literal_end (drop (length p) s) then Some (length p) else None)"

text \<open>\<open>\{\{(~)?\<close> and then the rest of a rule.\<close>

definition open_then :: "(string \<Rightarrow> nat option) \<Rightarrow> string \<Rightarrow> nat option" where
  "open_then f s =
     (if starts_with ''{{~'' s then
        (case f (drop 3 s) of
           Some n \<Rightarrow> Some (n + 3)
         | None \<Rightarrow> map_option (\<lambda>n. n + 2) (f (drop 2 s)))
      else if starts_with ''{{'' s then map_option (\<lambda>n. n + 2) (f (drop 2 s))
      else None)"

text \<open>\<open>(~)?\}\}\<close>, rule 30 and the end of rules 15 and 16.\<close>

definition close_tilde :: "string \<Rightarrow> nat option" where
  "close_tilde s = (if starts_with ''~}}'' s then Some 3 else lit ''}}'' s)"

definition spaces :: "string \<Rightarrow> nat" where
  "spaces s = length (takeWhile is_space s)"

definition after_spaces :: "(string \<Rightarrow> nat option) \<Rightarrow> string \<Rightarrow> nat option" where
  "after_spaces f s = map_option (\<lambda>n. n + spaces s) (f (drop (spaces s) s))"

definition after_lit :: "string \<Rightarrow> (string \<Rightarrow> nat option) \<Rightarrow> string \<Rightarrow> nat option" where
  "after_lit p f s =
     (if starts_with p s then map_option (\<lambda>n. n + length p) (f (drop (length p) s)) else None)"

text \<open>\<open>-?[0-9]+(?:\.[0-9]+)?(?=([~}\s)]))\<close>.\<close>

definition number_rule :: "string \<Rightarrow> nat option" where
  "number_rule s =
     (let m = (if starts_with ''-'' s then 1 else 0);
          i = length (takeWhile is_digit (drop m s));
          r = drop (m + i) s;
          f = (if starts_with ''.'' r then length (takeWhile is_digit (tl r)) else 0);
          n = m + i + (if f > 0 then Suc f else 0)
      in if i > 0 \<and> peek literal_end (drop n s) then Some n else None)"

definition lexer_rule :: "nat \<Rightarrow> string \<Rightarrow> nat option" where
  "lexer_rule i s =
    (if i = 0 then lazy_until ''{{'' s
     else if i = 1 then
       (let n = length (takeWhile (\<lambda>c. c \<noteq> nul) s) in if n > 0 then Some n else None)
     else if i = 2 then
       (if length s \<ge> 2 \<and> s ! 0 \<noteq> nul \<and> s ! 1 \<noteq> nul
        then map_option (\<lambda>n. n + 2) (lazy_emu (drop 2 s)) else None)
     else if i = 3 then
       (if starts_with ''{{{{'' s \<and> peek (\<lambda>c. c \<noteq> CHR ''/'') (drop 4 s) then Some 4 else None)
     else if i = 4 then
       after_lit ''{{{{/'' (\<lambda>t. let n = length (takeWhile is_id t) in
         if n > 0 then after_lit (take n t) (lit ''}}}}'') t else None) s
     else if i = 5 then lazy_until ''{{{{'' s
     else if i = 6 then lazy_comment s
     else if i = 7 then lit ''('' s
     else if i = 8 then lit '')'' s
     else if i = 9 then lit ''{{{{'' s
     else if i = 10 then lit ''}}}}'' s
     else if i = 11 then open_then (lit ''>'') s
     else if i = 12 then open_then (lit ''#>'') s
     else if i = 13 then open_then (\<lambda>t. if starts_with ''#*'' t then Some 2 else lit ''#'' t) s
     else if i = 14 then open_then (lit ''/'') s
     else if i = 15 then open_then (after_lit ''^'' (after_spaces close_tilde)) s
     else if i = 16 then open_then (after_spaces (after_lit ''else'' (after_spaces close_tilde))) s
     else if i = 17 then open_then (lit ''^'') s
     else if i = 18 then
       open_then (after_spaces (\<lambda>t. if starts_with ''else'' t \<and> \<not> peek is_word (drop 4 t) then Some 4 else None)) s
     else if i = 19 then open_then (lit ''{'') s
     else if i = 20 then open_then (lit ''&'') s
     else if i = 21 then open_then (lit ''!--'') s
     else if i = 22 then open_then (after_lit ''!'' lazy_close) s
     else if i = 23 then open_then (\<lambda>t. if starts_with ''*'' t then Some 1 else Some 0) s
     else if i = 24 then lit ''='' s
     else if i = 25 then lit ''..'' s
     else if i = 26 then (if starts_with ''.'' s \<and> peek id_end (tl s) then Some 1 else None)
     else if i = 27 then (if peek (\<lambda>c. c = CHR ''/'' \<or> c = CHR ''.'') s then Some 1 else None)
     else if i = 28 then (if spaces s > 0 then Some (spaces s) else None)
     else if i = 29 then (if starts_with ''}~}}'' s then Some 4 else lit ''}}}'' s)
     else if i = 30 then close_tilde s
     else if i = 31 then (if starts_with [dquote] s then quoted_end dquote (tl s) 1 None else None)
     else if i = 32 then (if starts_with [squote] s then quoted_end squote (tl s) 1 None else None)
     else if i = 33 then lit ''@'' s
     else if i = 34 then keyword ''true'' s
     else if i = 35 then keyword ''false'' s
     else if i = 36 then keyword ''undefined'' s
     else if i = 37 then keyword ''null'' s
     else if i = 38 then number_rule s
     else if i = 39 then
       after_lit ''as'' (\<lambda>t. if spaces t > 0 then after_spaces (lit ''|'') t else None) s
     else if i = 40 then lit ''|'' s
     else if i = 41 then
       (let n = length (takeWhile is_id s) in if n > 0 \<and> peek id_end (drop n s) then Some n else None)
     else if i = 42 then (if starts_with ''['' s then quoted_end CHR '']'' (tl s) 1 None else None)
     else if i = 43 then (if peek (\<lambda>c. \<not> is_line_end c) s then Some 1 else None)
     else if i = 44 then (if s = [] then Some 0 else None)
     else None)"

datatype condition = INITIAL | Mu | Emu | Com | Raw

definition condition_rules :: "condition \<Rightarrow> nat list" where
  "condition_rules c = (case c of
      Mu \<Rightarrow> [7..<45] | Emu \<Rightarrow> [2] | Com \<Rightarrow> [6] | Raw \<Rightarrow> [3, 4, 5] | INITIAL \<Rightarrow> [0, 1, 44])"

section \<open>The state\<close>

text \<open>The condition stack has its top first. \<open>done\<close> is \<open>finished\<close>.\<close>

record lexer =
  input :: string
  finished :: bool
  yylineno :: nat
  yyleng :: nat
  yytext :: string
  matched :: string
  match_text :: string
  conditionStack :: "condition list"
  yylloc :: lexloc

datatype token = T nat | INVALID

definition setInput :: "string \<Rightarrow> lexer" where
  "setInput s = \<lparr>input = s, finished = False, yylineno = 0, yyleng = 0, yytext = [], matched = [],
     match_text = [], conditionStack = [INITIAL],
     yylloc = \<lparr>first_line = 1, first_column = 0, last_line = 1, last_column = 0\<rparr>\<rparr>"

text \<open>Splitting at the line breaks \<open>\r\n?|\n\<close>.\<close>

fun split_lines :: "string \<Rightarrow> string list" where
  "split_lines [] = [[]]"
| "split_lines (c # s) =
     (if c = cr \<and> (case s of d # _ \<Rightarrow> d = nl | [] \<Rightarrow> False) then split_lines s
      else if c = cr \<or> c = nl then [] # split_lines s
      else (case split_lines s of [] \<Rightarrow> [[c]] | l # ls \<Rightarrow> (c # l) # ls))"

definition unput :: "string \<Rightarrow> lexer \<Rightarrow> lexer" where
  "unput ch l =
     (let len = length ch;
          lns = split_lines ch;
          oldLines = split_lines (match_text l);
          ln = (if length lns - 1 \<noteq> 0 then yylineno l - (length lns - 1) else yylineno l);
          ll = yylloc l
      in l\<lparr>input := ch @ input l,
           yytext := take (length (yytext l) - len - 1) (yytext l),
           match_text := butlast (match_text l),
           matched := butlast (matched l),
           yylineno := ln,
           yylloc := ll\<lparr>last_line := Suc ln,
             last_column := (if length lns = length oldLines then first_column ll else 0)
               + length (oldLines ! (length oldLines - length lns)) - length (hd lns)\<rparr>\<rparr>)"

definition pastInput :: "lexer \<Rightarrow> string" where
  "pastInput l =
     (let past = take (length (matched l) - length (match_text l)) (matched l)
      in (if length past > 20 then ''...'' else []) @ filter (\<lambda>c. c \<noteq> nl) (drop (length past - 20) past))"

definition upcomingInput :: "lexer \<Rightarrow> string" where
  "upcomingInput l =
     (let nxt = (if length (match_text l) < 20
                 then match_text l @ take (20 - length (match_text l)) (input l) else match_text l)
      in filter (\<lambda>c. c \<noteq> nl) (take 20 nxt @ (if length nxt > 20 then ''...'' else [])))"

definition showPosition :: "lexer \<Rightarrow> string" where
  "showPosition l =
     pastInput l @ upcomingInput l @ [nl] @ replicate (length (pastInput l)) CHR ''-'' @ ''^''"

definition begin_cond :: "condition \<Rightarrow> lexer \<Rightarrow> lexer" where
  "begin_cond c l = l\<lparr>conditionStack := c # conditionStack l\<rparr>"

definition popState :: "lexer \<Rightarrow> lexer" where
  "popState l = l\<lparr>conditionStack := tl (conditionStack l)\<rparr>"

definition strip_text :: "nat \<Rightarrow> nat \<Rightarrow> lexer \<Rightarrow> string" where
  "strip_text start stop l = take (yyleng l - stop) (drop start (yytext l))"

fun unescape_quote :: "char \<Rightarrow> string \<Rightarrow> string" where
  "unescape_quote q [] = []"
| "unescape_quote q (c # s) =
     (if c = backslash \<and> peek (\<lambda>d. d = q) s then q # unescape_quote q (tl s) else c # unescape_quote q s)"

text \<open>\<open>replace(/\\([\\\]])/g, '$1')\<close>.\<close>

fun unescape_bracket :: "string \<Rightarrow> string" where
  "unescape_bracket [] = []"
| "unescape_bracket (c # s) =
     (if c = backslash \<and> peek (\<lambda>d. d = backslash \<or> d = CHR '']'') s
      then hd s # unescape_bracket (tl s) else c # unescape_bracket s)"

section \<open>The actions\<close>

text \<open>
  \<open>lexer.performAction\<close>: the token, \<open>None\<close> where the action returns nothing, and the new state.
\<close>

definition content_action :: "lexer \<Rightarrow> token option \<times> lexer" where
  "content_action l =
     (let l' = (if starts_with [backslash, backslash] (rev (yytext l))
                then begin_cond Mu (l\<lparr>yytext := strip_text 0 1 l\<rparr>)
                else if starts_with [backslash] (rev (yytext l))
                then begin_cond Emu (l\<lparr>yytext := strip_text 0 1 l\<rparr>)
                else begin_cond Mu l)
      in (if yytext l' \<noteq> [] then Some (T 15) else None, l'))"

definition end_raw_action :: "lexer \<Rightarrow> token option \<times> lexer" where
  "end_raw_action l =
     (let l' = popState l
      in if conditionStack l' \<noteq> [] \<and> hd (conditionStack l') = Raw then (Some (T 15), l')
         else (Some (T 18), l'\<lparr>yytext := take (yyleng l - 9) (drop 5 (yytext l))\<rparr>))"

definition lexer_action :: "nat \<Rightarrow> lexer \<Rightarrow> token option \<times> lexer" where
  "lexer_action i l =
    (if i = 0 then content_action l
     else if i = 1 then (Some (T 15), l)
     else if i = 2 then (Some (T 15), popState l)
     else if i = 3 then (Some (T 15), begin_cond Raw l)
     else if i = 4 then end_raw_action l
     else if i = 5 then (Some (T 15), l)
     else if i = 6 then (Some (T 14), popState l)
     else if i = 7 then (Some (T 65), l)
     else if i = 8 then (Some (T 68), l)
     else if i = 9 then (Some (T 19), l)
     else if i = 10 then (Some (T 23), begin_cond Raw (popState l))
     else if i = 11 then (Some (T 55), l)
     else if i = 12 then (Some (T 60), l)
     else if i = 13 then (Some (T 29), l)
     else if i = 14 then (Some (T 47), l)
     else if i = 15 then (Some (T 44), popState l)
     else if i = 16 then (Some (T 44), popState l)
     else if i = 17 then (Some (T 34), l)
     else if i = 18 then (Some (T 39), l)
     else if i = 19 then (Some (T 51), l)
     else if i = 20 then (Some (T 48), l)
     else if i = 21 then (None, begin_cond Com (popState (unput (yytext l) l)))
     else if i = 22 then (Some (T 14), popState l)
     else if i = 23 then (Some (T 48), l)
     else if i = 24 then (Some (T 73), l)
     else if i = 25 then (Some (T 72), l)
     else if i = 26 then (Some (T 72), l)
     else if i = 27 then (Some (T 87), l)
     else if i = 28 then (None, l)
     else if i = 29 then (Some (T 54), popState l)
     else if i = 30 then (Some (T 33), popState l)
     else if i = 31 then (Some (T 80), l\<lparr>yytext := unescape_quote dquote (strip_text 1 2 l)\<rparr>)
     else if i = 32 then (Some (T 80), l\<lparr>yytext := unescape_quote squote (strip_text 1 2 l)\<rparr>)
     else if i = 33 then (Some (T 85), l)
     else if i = 34 then (Some (T 82), l)
     else if i = 35 then (Some (T 82), l)
     else if i = 36 then (Some (T 83), l)
     else if i = 37 then (Some (T 84), l)
     else if i = 38 then (Some (T 81), l)
     else if i = 39 then (Some (T 75), l)
     else if i = 40 then (Some (T 77), l)
     else if i = 41 then (Some (T 72), l)
     else if i = 42 then (Some (T 72), l\<lparr>yytext := unescape_bracket (yytext l)\<rparr>)
     else if i = 43 then (Some INVALID, l)
     else if i = 44 then (Some (T 5), l)
     else (None, l))"

section \<open>Next and lex\<close>

fun first_match :: "nat list \<Rightarrow> string \<Rightarrow> (nat \<times> nat) option" where
  "first_match [] s = None"
| "first_match (i # is) s =
     (case lexer_rule i s of Some n \<Rightarrow> Some (i, n) | None \<Rightarrow> first_match is s)"

text \<open>The bookkeeping of a match: line numbers, location, text and remaining input.\<close>

definition take_match :: "nat \<Rightarrow> lexer \<Rightarrow> lexer" where
  "take_match n l =
     (let m = take n (input l);
          lns = split_lines m;
          ln = yylineno l + (length lns - 1);
          ll = yylloc l
      in l\<lparr>yylineno := ln,
           yylloc := \<lparr>first_line = last_line ll, first_column = last_column ll, last_line = Suc ln,
             last_column = (if length lns > 1 then length (last lns) else last_column ll + length m)\<rparr>,
           yytext := m, match_text := m, yyleng := length m,
           input := drop n (input l), matched := matched l @ m\<rparr>)"

definition lex_error :: "lexer \<Rightarrow> exn" where
  "lex_error l = plain_error (''Lexical error on line '' @ show_nat (yylineno l + 1) @ ''. Unrecognized text.''
     @ [nl] @ showPosition l)"

text \<open>The start of \<open>next\<close>: the input is at its end, and the text of the last token is dropped.\<close>

definition start_next :: "lexer \<Rightarrow> lexer" where
  "start_next l = (if input l = [] then l\<lparr>finished := True\<rparr> else l)\<lparr>yytext := [], match_text := []\<rparr>"

definition lexer_next :: "lexer \<Rightarrow> (token option \<times> lexer) result" where
  "lexer_next l =
     (if finished l then Inr (Some (T 1), l)
      else
        let l1 = start_next l
        in (case conditionStack l1 of
              [] \<Rightarrow> Inl (type_error ''Cannot read property rules of undefined'')
            | c # _ \<Rightarrow>
                (case first_match (condition_rules c) (input l1) of
                   Some (i, n) \<Rightarrow>
                     let (tok, l2) = lexer_action i (take_match n l1)
                     in Inr (tok, if finished l2 \<and> input l2 \<noteq> [] then l2\<lparr>finished := False\<rparr> else l2)
                 | None \<Rightarrow> if input l1 = [] then Inr (Some (T 1), l1) else Inl (lex_error l1))))"


text \<open>
  What makes \<open>lex\<close> stop: a call of \<open>next\<close> that returns no token consumes input, or moves from
  \<open>INITIAL\<close> to the inside of a tag, or from there to a comment.
\<close>

definition condition_rank :: "condition list \<Rightarrow> nat" where
  "condition_rank cs = (case cs of INITIAL # _ \<Rightarrow> 2 | Mu # _ \<Rightarrow> 1 | _ \<Rightarrow> 0)"

definition lexer_measure :: "lexer \<Rightarrow> nat" where
  "lexer_measure l = 3 * length (input l) + condition_rank (conditionStack l)"

lemma condition_rank_le: "condition_rank cs \<le> 2"
  by (auto simp: condition_rank_def split: list.splits condition.splits)

lemma first_match_Some:
  "first_match is s = Some (i, n) \<Longrightarrow> i \<in> set is \<and> lexer_rule i s = Some n"
  by (induction "is" s rule: first_match.induct) (auto split: option.splits)

lemma condition_rules_0: "0 \<in> set (condition_rules c) \<Longrightarrow> c = INITIAL"
  and condition_rules_21: "21 \<in> set (condition_rules c) \<Longrightarrow> c = Mu"
  and condition_rules_28: "28 \<in> set (condition_rules c) \<Longrightarrow> c = Mu"
  and condition_rules_le: "i \<in> set (condition_rules c) \<Longrightarrow> i \<le> 44"
  by (auto simp: condition_rules_def split: condition.splits)

lemma upt_0_45: "[0..<45] = [0, 1, 2, 3, 4, 5, 6, 7, 8, 9, 10, 11, 12, 13, 14, 15, 16, 17, 18, 19, 20,
    21, 22, 23, 24, 25, 26, 27, 28, 29, 30, 31, 32, 33, 34, 35, 36, 37, 38, 39, 40, 41, 42, 43, 44]"
  by code_simp

lemma set_ConsE: "x \<in> set (y # ys) \<Longrightarrow> (x = y \<Longrightarrow> P) \<Longrightarrow> (x \<in> set ys \<Longrightarrow> P) \<Longrightarrow> P"
  by auto

lemma lexer_action_None:
  assumes "lexer_action i l = (None, l')" and "i \<le> 44"
  shows "i = 0 \<or> i = 21 \<or> i = 28"
proof -
  have "i \<in> set [0..<45]" using assms(2) by simp
  then show ?thesis
    using assms(1) unfolding upt_0_45
    by (elim set_ConsE; simp add: lexer_action_def end_raw_action_def Let_def split: if_splits)
qed

lemma lazy_until_le: "lazy_until p s = Some n \<Longrightarrow> n + length p \<le> length s"
proof (induction p s arbitrary: n rule: lazy_until.induct)
  case (1 p s)
  show ?case
  proof (cases "starts_with p s")
    case True
    with 1 show ?thesis by (auto simp: lazy_until.simps [of p s] starts_with_iff)
  next
    case False
    with 1 show ?thesis
      by (auto simp: lazy_until.simps [of p s] split: list.splits if_splits)
  qed
qed

lemma split_lines_nonempty [simp]: "split_lines s \<noteq> []"
  by (induction s) (auto split: list.splits)

lemma input_take_match [simp]: "input (take_match n l) = drop n (input l)"
  and conditionStack_take_match [simp]: "conditionStack (take_match n l) = conditionStack l"
  and finished_take_match [simp]: "finished (take_match n l) = finished l"
  and yytext_take_match [simp]: "yytext (take_match n l) = take n (input l)"
  by (simp_all add: take_match_def Let_def)

lemma input_unput [simp]: "input (unput ch l) = ch @ input l"
  and conditionStack_unput [simp]: "conditionStack (unput ch l) = conditionStack l"
  and finished_unput [simp]: "finished (unput ch l) = finished l"
  by (simp_all add: unput_def Let_def)

lemma conditionStack_begin [simp]: "conditionStack (begin_cond c l) = c # conditionStack l"
  and input_begin [simp]: "input (begin_cond c l) = input l"
  and finished_begin [simp]: "finished (begin_cond c l) = finished l"
  and yytext_begin [simp]: "yytext (begin_cond c l) = yytext l"
  and yylloc_begin [simp]: "yylloc (begin_cond c l) = yylloc l"
  by (simp_all add: begin_cond_def)

lemma conditionStack_pop [simp]: "conditionStack (popState l) = tl (conditionStack l)"
  and input_pop [simp]: "input (popState l) = input l"
  and finished_pop [simp]: "finished (popState l) = finished l"
  and yytext_pop [simp]: "yytext (popState l) = yytext l"
  and yylloc_pop [simp]: "yylloc (popState l) = yylloc l"
  by (simp_all add: popState_def)

lemma input_start [simp]: "input (start_next l) = input l"
  and conditionStack_start [simp]: "conditionStack (start_next l) = conditionStack l"
  and yylloc_start [simp]: "yylloc (start_next l) = yylloc l"
  and yylineno_start [simp]: "yylineno (start_next l) = yylineno l"
  by (simp_all add: start_next_def)

text \<open>The shapes of a call of \<open>next\<close> that returns.\<close>

lemma lexer_next_cases:
  assumes "lexer_next l = Inr (t, l')"
  obtains (finished) "finished l" "t = Some (T 1)" "l' = l"
  | (ended) "\<not> finished l" "input l = []" "t = Some (T 1)" "input l' = []"
      "conditionStack l' = conditionStack l" "yylloc l' = yylloc l"
  | (matched) c cs i n l2 where "\<not> finished l" "conditionStack l = c # cs"
      "i \<in> set (condition_rules c)" "lexer_rule i (input l) = Some n"
      "lexer_action i (take_match n (start_next l)) = (t, l2)" "input l' = input l2"
      "conditionStack l' = conditionStack l2" "yylloc l' = yylloc l2"
proof (cases "finished l")
  case True
  with assms have "(Some (T 1), l) = (t, l')" by (simp add: lexer_next_def)
  with True show ?thesis by (intro that(1)) simp_all
next
  case False
  have "conditionStack l \<noteq> []"
    using assms False by (cases "conditionStack l") (simp_all add: lexer_next_def)
  then obtain c cs where cs: "conditionStack l = c # cs" by (cases "conditionStack l") simp_all
  show ?thesis
  proof (cases "first_match (condition_rules c) (input l)")
    case None
    then have "input l = []" and "t = Some (T 1)" and "l' = start_next l"
      using assms False cs by (simp_all add: lexer_next_def Let_def split: if_splits)
    then show ?thesis using False by (intro that(2)) simp_all
  next
    case (Some p)
    obtain i n where p: "p = (i, n)" by (cases p)
    obtain t2 l2 where act: "lexer_action i (take_match n (start_next l)) = (t2, l2)"
      by (cases "lexer_action i (take_match n (start_next l))")
    have "t2 = t" and l': "l' = (if finished l2 \<and> input l2 \<noteq> [] then l2\<lparr>finished := False\<rparr> else l2)"
      using assms False cs Some p act by (simp_all add: lexer_next_def Let_def)
    from Some p have i: "i \<in> set (condition_rules c)" and n: "lexer_rule i (input l) = Some n"
      by (auto dest: first_match_Some)
    show ?thesis
    proof (rule that(3) [OF False cs i n])
      show "lexer_action i (take_match n (start_next l)) = (t, l2)" using act \<open>t2 = t\<close> by simp
    qed (simp_all add: l')
  qed
qed

lemma lexer_next_progress:
  assumes "lexer_next l = Inr (None, l')"
  shows "lexer_measure l' < lexer_measure l"
  using assms
proof (cases rule: lexer_next_cases)
  case (matched c cs i n l2)
  from matched have i: "i = 0 \<or> i = 21 \<or> i = 28"
    by (auto dest: lexer_action_None condition_rules_le)
  then show ?thesis
  proof (elim disjE)
    assume i: "i = 0"
    with matched have c: "c = INITIAL" by (auto dest: condition_rules_0)
    have l2: "input l2 = drop n (input l)"
      and top: "conditionStack l2 = Mu # c # cs \<or> conditionStack l2 = Emu # c # cs"
      using matched(2,5) i
      by (auto simp: lexer_action_def content_action_def Let_def split: if_splits)
    have "n \<le> length (input l)"
      using matched(4) i by (auto simp: lexer_rule_def dest: lazy_until_le)
    with l2 top c matched(2,6,7) show ?thesis
      by (cases n) (auto simp: lexer_measure_def condition_rank_def)
  next
    assume i: "i = 21"
    with matched have c: "c = Mu" by (auto dest: condition_rules_21)
    have "input l2 = input l" and "conditionStack l2 = Com # cs"
      using matched(2,5) i by (auto simp: lexer_action_def)
    with c matched(2,6,7) show ?thesis by (auto simp: lexer_measure_def condition_rank_def)
  next
    assume i: "i = 28"
    have l2: "input l2 = drop n (input l)" and cs2: "conditionStack l2 = c # cs"
      using matched(2,5) i by (auto simp: lexer_action_def)
    have "n > 0" and "input l \<noteq> []"
      using matched(4) i by (auto simp: lexer_rule_def spaces_def split: if_splits)
    then have "length (drop n (input l)) < length (input l)" by simp
    with l2 cs2 matched(2,6,7) show ?thesis
      by (simp add: lexer_measure_def)
  qed
qed simp_all

function lexer_lex :: "lexer \<Rightarrow> (token \<times> lexer) result" where
  "lexer_lex l = bindR (lexer_next l) (\<lambda>r. case r of
      (Some t, l') \<Rightarrow> Inr (t, l')
    | (None, l') \<Rightarrow> lexer_lex l')"
  by pat_completeness auto
termination
  by (relation "measure lexer_measure") (auto intro: lexer_next_progress)

declare lexer_lex.simps [simp del]

section \<open>Invariants of a run\<close>

text \<open>
  The condition stack holds \<open>INITIAL\<close> at its bottom and above it one tag, escape or comment, or
  any number of raw blocks.
\<close>

definition stack_ok :: "condition list \<Rightarrow> bool" where
  "stack_ok cs \<longleftrightarrow> cs \<noteq> [] \<and> last cs = INITIAL
     \<and> (length cs \<le> 2 \<and> (length cs = 2 \<longrightarrow> hd cs \<noteq> INITIAL) \<or> list_all (\<lambda>c. c = Raw) (butlast cs))"

definition popping :: "nat list" where
  "popping = [2, 4, 6, 15, 16, 22, 29, 30]"

lemma lexer_action_stack:
  assumes "lexer_action i l = (t, l')" and "i \<le> 44"
  shows "i = 0 \<and> (conditionStack l' = Mu # conditionStack l \<or> conditionStack l' = Emu # conditionStack l)
    \<or> i \<in> set popping \<and> conditionStack l' = tl (conditionStack l)
    \<or> i = 3 \<and> conditionStack l' = Raw # conditionStack l
    \<or> i = 10 \<and> conditionStack l' = Raw # tl (conditionStack l)
    \<or> i = 21 \<and> conditionStack l' = Com # tl (conditionStack l)
    \<or> i \<notin> {0, 3, 10, 21} \<union> set popping \<and> conditionStack l' = conditionStack l"
proof -
  have "i \<in> set [0..<45]" using assms(2) by simp
  then show ?thesis
    using assms(1) unfolding upt_0_45 popping_def
    by (elim set_ConsE; simp add: lexer_action_def content_action_def end_raw_action_def Let_def
        split: if_splits)
      (auto)
qed

lemma lexer_action_input:
  assumes "lexer_action i l = (t, l')" and "i \<le> 44"
  shows "input l' = (if i = 21 then yytext l @ input l else input l)"
proof -
  have "i \<in> set [0..<45]" using assms(2) by simp
  then show ?thesis
    using assms(1) unfolding upt_0_45
    by (elim set_ConsE; simp add: lexer_action_def content_action_def end_raw_action_def Let_def
        split: if_splits)
      (auto)
qed

lemma stack_ok_cases:
  assumes "stack_ok (c # cs)"
  obtains "c = INITIAL" "cs = []" | "c \<noteq> INITIAL" "cs = [INITIAL]" | "c = Raw" "stack_ok cs" "cs \<noteq> [INITIAL]"
proof -
  consider "cs = []" | d where "cs = [d]" | d e ds where "cs = d # e # ds"
    by (metis list.exhaust)
  then show ?thesis
  proof cases
    case 1
    with assms that(1) show ?thesis by (simp add: stack_ok_def)
  next
    case 2
    with assms that(2) show ?thesis by (auto simp: stack_ok_def)
  next
    case 3
    with assms show ?thesis by (intro that(3)) (auto simp: stack_ok_def)
  qed
qed

lemma stack_ok_singleton [simp]: "stack_ok [INITIAL]"
  and stack_ok_two: "c \<noteq> INITIAL \<Longrightarrow> stack_ok [c, INITIAL]"
  by (simp_all add: stack_ok_def)

lemma stack_ok_raws: "stack_ok [Raw, Raw, INITIAL]"
  by (simp add: stack_ok_def)

lemma stack_ok_Raw: "stack_ok cs \<Longrightarrow> hd cs = Raw \<or> cs = [INITIAL] \<Longrightarrow> stack_ok (Raw # cs)"
  by (cases cs) (auto simp: stack_ok_def length_Suc_conv le_Suc_eq)

lemma lexer_next_stack_ok:
  assumes "stack_ok (conditionStack l)" and "lexer_next l = Inr (t, l')"
  shows "stack_ok (conditionStack l')"
  using assms(2)
proof (cases rule: lexer_next_cases)
  case (matched c cs i n l2)
  let ?l = "take_match n (start_next l)"
  have i: "i \<le> 44" using matched(3) by (rule condition_rules_le)
  have st: "conditionStack ?l = c # cs" using matched(2) by simp
  note step = lexer_action_stack [OF matched(5) i, unfolded st popping_def]
  have ok: "stack_ok (c # cs)" using assms(1) matched(2) by simp
  from ok show ?thesis
  proof (cases rule: stack_ok_cases)
    case 1
    then have "i \<in> {0, 1, 44}" using matched(3) by (auto simp: condition_rules_def)
    with step 1 matched(7) show ?thesis by (auto simp: stack_ok_two)
  next
    case 2
    with step matched(3,7) show ?thesis
      by (cases c) (auto simp: condition_rules_def stack_ok_two stack_ok_raws)
  next
    case 3
    then have "i \<in> {3, 4, 5}" using matched(3) by (auto simp: condition_rules_def)
    moreover have "stack_ok (Raw # c # cs)" by (rule stack_ok_Raw [OF ok]) (simp add: 3)
    ultimately show ?thesis using step 3 ok matched(7) by auto
  qed
qed (use assms in simp_all)

lemma lexer_next_suffix:
  assumes "lexer_next l = Inr (t, l')"
  shows "\<exists>m. input l = m @ input l'"
  using assms
proof (cases rule: lexer_next_cases)
  case (matched c cs i n l2)
  have "i \<le> 44" using matched(3) by (rule condition_rules_le)
  with matched(5) have "input l2 = (if i = 21 then take n (input l) @ drop n (input l) else drop n (input l))"
    by (simp add: lexer_action_input)
  with matched(6) show ?thesis
    by (cases "i = 21") (simp, metis append_take_drop_id)
qed simp_all

lemma lexer_next_error:
  assumes "stack_ok (conditionStack l)" and "lexer_next l = Inl e"
  shows "input l \<noteq> [] \<and> e = lex_error (start_next l)"
proof -
  have "\<not> finished l" using assms(2) by (auto simp: lexer_next_def)
  moreover obtain c cs where "conditionStack l = c # cs"
    using assms(1) by (cases "conditionStack l") (auto simp: stack_ok_def)
  ultimately show ?thesis
    using assms(2) by (simp add: lexer_next_def Let_def split: option.splits prod.splits if_splits)
qed

text \<open>The states a run over the text \<open>s\<close> reaches.\<close>

inductive lexed :: "string \<Rightarrow> lexer \<Rightarrow> bool" for s :: string where
  lexed_start: "lexed s (setInput s)"
| lexed_next: "lexed s l \<Longrightarrow> lexer_next l = Inr (t, l') \<Longrightarrow> lexed s l'"

lemma lexed_stack_ok: "lexed s l \<Longrightarrow> stack_ok (conditionStack l)"
  by (induction rule: lexed.induct) (auto simp: setInput_def intro: lexer_next_stack_ok)

lemma lexed_suffix: "lexed s l \<Longrightarrow> \<exists>m. s = m @ input l"
proof (induction rule: lexed.induct)
  case lexed_start
  show ?case by (simp add: setInput_def)
next
  case (lexed_next l t l')
  then obtain m where "s = m @ input l" by blast
  moreover obtain k where "input l = k @ input l'"
    using lexer_next_suffix [OF lexed_next.hyps(2)] by blast
  ultimately show ?case by (intro exI [of _ "m @ k"]) simp
qed

text \<open>
  In a raw block, an opening \<open>{{{{/\<close> that is not a closing tag matches rule 5 only, with the
  empty text: the lexer returns content and does not move.
\<close>

lemma lexer_next_raw_stuck:
  assumes "conditionStack l = Raw # cs" and "\<not> finished l"
    and "starts_with ''{{{{/'' (input l)" and "lexer_rule 4 (input l) = None"
  shows "\<exists>l'. lexer_next l = Inr (Some (T 15), l') \<and> input l' = input l
    \<and> conditionStack l' = conditionStack l \<and> \<not> finished l' \<and> yytext l' = []"
proof -
  obtain r where r: "input l = ''{{{{/'' @ r" using assms(3) by (auto simp: starts_with_iff)
  have "lexer_rule 3 (input l) = None" by (simp add: r lexer_rule_def peek_def)
  moreover have "lexer_rule 5 (input l) = Some 0"
    by (simp add: r lexer_rule_def lazy_until.simps [of "''{{{{''"])
  ultimately have fm: "first_match (condition_rules Raw) (input l) = Some (5, 0)"
    using assms(4) by (simp add: condition_rules_def)
  have "\<not> finished (start_next l)" using assms(2) r by (simp add: start_next_def)
  then show ?thesis
    using assms(1,2) fm by (simp add: lexer_next_def Let_def lexer_action_def)
qed

section \<open>Properties\<close>

text \<open>C23: the lexer always comes to an end of \<open>lex\<close>: a step that returns no token consumes input or
  moves from text into a tag, or from a tag into a comment.\<close>

theorem lexer_makes_progress:
  assumes "lexer_next l = Inr (None, l')"
  shows "3 * length (input l') + condition_rank (conditionStack l') < 3 * length (input l) + condition_rank (conditionStack l)"
  using lexer_next_progress [OF assms] by (simp add: lexer_measure_def)


text \<open>Inside a raw block an opening \<open>{{{{/\<close> that closes nothing is never consumed: the lexer returns
  empty content and stays where it is.\<close>

lemma raw_opening_stuck:
  assumes "conditionStack l = Raw # cs" and "\<not> finished l"
    and "starts_with ''{{{{/'' (input l)" and "lexer_rule 4 (input l) = None"
  shows "\<exists>l'. lexer_next l = Inr (Some (T 15), l') \<and> input l' = input l
    \<and> conditionStack l' = conditionStack l \<and> \<not> finished l' \<and> yytext l' = []"
  by (rule lexer_next_raw_stuck [OF assms])

theorem lexer_makes_progress_witness:
  "\<exists>l'. lexer_next (setInput ''{{a}}'') = Inr (None, l') \<and>
     3 * length (input l') + condition_rank (conditionStack l') < 17"
proof -
  have "case lexer_next (setInput ''{{a}}'') of Inr (None, _) \<Rightarrow> True | _ \<Rightarrow> False"
    by code_simp
  then obtain l' where l: "lexer_next (setInput ''{{a}}'') = Inr (None, l')"
    by (auto split: sum.splits option.splits)
  from lexer_makes_progress [OF l] l show ?thesis
    by (simp add: setInput_def condition_rank_def)
qed


end
