(* ===== verification/HbGrammar.thy ===== *)
theory HbGrammar
  imports HbLexer
begin

text \<open>
  The tables of the generated parser of \<open>handlebars.js\<close> (module 23): \<open>terminals_\<close>, \<open>productions_\<close>
  (the left side and the length of the right side of each production), \<open>table\<close> and
  \<open>defaultActions\<close>. A row of the table maps a symbol to what to do: \<open>[1, n]\<close> is \<open>Shift n\<close>,
  \<open>[2, n]\<close> is \<open>Reduce n\<close>, \<open>[3]\<close> is \<open>Accept\<close> and a bare number, found under a nonterminal, is
  \<open>Goto\<close>.
\<close>

datatype parse_action = Shift nat | Reduce nat | Accept | Goto nat

definition parse_table :: "(nat \<times> parse_action) list list" where
  "parse_table = [
    [(3, Goto 1), (4, Goto 2), (5, Reduce 46), (6, Goto 3), (14, Reduce 46), (15, Reduce 46),
      (19, Reduce 46), (29, Reduce 46), (34, Reduce 46), (48, Reduce 46), (51, Reduce 46),
      (55, Reduce 46), (60, Reduce 46)],
    [(1, Accept)],
    [(5, Shift 4)],
    [(5, Reduce 2), (7, Goto 5), (8, Goto 6), (9, Goto 7), (10, Goto 8), (11, Goto 9),
      (12, Goto 10), (13, Goto 11), (14, Shift 12), (15, Shift 20), (16, Goto 17),
      (19, Shift 23), (24, Goto 15), (27, Goto 16), (29, Shift 21), (34, Shift 22),
      (39, Reduce 2), (44, Reduce 2), (47, Reduce 2), (48, Shift 13), (51, Shift 14),
      (55, Shift 18), (59, Goto 19), (60, Shift 24)],
    [(1, Reduce 1)],
    [(5, Reduce 47), (14, Reduce 47), (15, Reduce 47), (19, Reduce 47), (29, Reduce 47),
      (34, Reduce 47), (39, Reduce 47), (44, Reduce 47), (47, Reduce 47), (48, Reduce 47),
      (51, Reduce 47), (55, Reduce 47), (60, Reduce 47)],
    [(5, Reduce 3), (14, Reduce 3), (15, Reduce 3), (19, Reduce 3), (29, Reduce 3),
      (34, Reduce 3), (39, Reduce 3), (44, Reduce 3), (47, Reduce 3), (48, Reduce 3),
      (51, Reduce 3), (55, Reduce 3), (60, Reduce 3)],
    [(5, Reduce 4), (14, Reduce 4), (15, Reduce 4), (19, Reduce 4), (29, Reduce 4),
      (34, Reduce 4), (39, Reduce 4), (44, Reduce 4), (47, Reduce 4), (48, Reduce 4),
      (51, Reduce 4), (55, Reduce 4), (60, Reduce 4)],
    [(5, Reduce 5), (14, Reduce 5), (15, Reduce 5), (19, Reduce 5), (29, Reduce 5),
      (34, Reduce 5), (39, Reduce 5), (44, Reduce 5), (47, Reduce 5), (48, Reduce 5),
      (51, Reduce 5), (55, Reduce 5), (60, Reduce 5)],
    [(5, Reduce 6), (14, Reduce 6), (15, Reduce 6), (19, Reduce 6), (29, Reduce 6),
      (34, Reduce 6), (39, Reduce 6), (44, Reduce 6), (47, Reduce 6), (48, Reduce 6),
      (51, Reduce 6), (55, Reduce 6), (60, Reduce 6)],
    [(5, Reduce 7), (14, Reduce 7), (15, Reduce 7), (19, Reduce 7), (29, Reduce 7),
      (34, Reduce 7), (39, Reduce 7), (44, Reduce 7), (47, Reduce 7), (48, Reduce 7),
      (51, Reduce 7), (55, Reduce 7), (60, Reduce 7)],
    [(5, Reduce 8), (14, Reduce 8), (15, Reduce 8), (19, Reduce 8), (29, Reduce 8),
      (34, Reduce 8), (39, Reduce 8), (44, Reduce 8), (47, Reduce 8), (48, Reduce 8),
      (51, Reduce 8), (55, Reduce 8), (60, Reduce 8)],
    [(5, Reduce 9), (14, Reduce 9), (15, Reduce 9), (19, Reduce 9), (29, Reduce 9),
      (34, Reduce 9), (39, Reduce 9), (44, Reduce 9), (47, Reduce 9), (48, Reduce 9),
      (51, Reduce 9), (55, Reduce 9), (60, Reduce 9)],
    [(20, Goto 25), (72, Shift 35), (78, Goto 26), (79, Goto 27), (80, Shift 28),
      (81, Shift 29), (82, Shift 30), (83, Shift 31), (84, Shift 32), (85, Shift 34),
      (86, Goto 33)],
    [(20, Goto 36), (72, Shift 35), (78, Goto 26), (79, Goto 27), (80, Shift 28),
      (81, Shift 29), (82, Shift 30), (83, Shift 31), (84, Shift 32), (85, Shift 34),
      (86, Goto 33)],
    [(4, Goto 37), (6, Goto 3), (14, Reduce 46), (15, Reduce 46), (19, Reduce 46),
      (29, Reduce 46), (34, Reduce 46), (39, Reduce 46), (44, Reduce 46), (47, Reduce 46),
      (48, Reduce 46), (51, Reduce 46), (55, Reduce 46), (60, Reduce 46)],
    [(4, Goto 38), (6, Goto 3), (14, Reduce 46), (15, Reduce 46), (19, Reduce 46),
      (29, Reduce 46), (34, Reduce 46), (44, Reduce 46), (47, Reduce 46), (48, Reduce 46),
      (51, Reduce 46), (55, Reduce 46), (60, Reduce 46)],
    [(13, Goto 40), (15, Shift 20), (17, Goto 39)],
    [(20, Goto 42), (56, Goto 41), (64, Goto 43), (65, Shift 44), (72, Shift 35),
      (78, Goto 26), (79, Goto 27), (80, Shift 28), (81, Shift 29), (82, Shift 30),
      (83, Shift 31), (84, Shift 32), (85, Shift 34), (86, Goto 33)],
    [(4, Goto 45), (6, Goto 3), (14, Reduce 46), (15, Reduce 46), (19, Reduce 46),
      (29, Reduce 46), (34, Reduce 46), (47, Reduce 46), (48, Reduce 46), (51, Reduce 46),
      (55, Reduce 46), (60, Reduce 46)],
    [(5, Reduce 10), (14, Reduce 10), (15, Reduce 10), (18, Reduce 10), (19, Reduce 10),
      (29, Reduce 10), (34, Reduce 10), (39, Reduce 10), (44, Reduce 10), (47, Reduce 10),
      (48, Reduce 10), (51, Reduce 10), (55, Reduce 10), (60, Reduce 10)],
    [(20, Goto 46), (72, Shift 35), (78, Goto 26), (79, Goto 27), (80, Shift 28),
      (81, Shift 29), (82, Shift 30), (83, Shift 31), (84, Shift 32), (85, Shift 34),
      (86, Goto 33)],
    [(20, Goto 47), (72, Shift 35), (78, Goto 26), (79, Goto 27), (80, Shift 28),
      (81, Shift 29), (82, Shift 30), (83, Shift 31), (84, Shift 32), (85, Shift 34),
      (86, Goto 33)],
    [(20, Goto 48), (72, Shift 35), (78, Goto 26), (79, Goto 27), (80, Shift 28),
      (81, Shift 29), (82, Shift 30), (83, Shift 31), (84, Shift 32), (85, Shift 34),
      (86, Goto 33)],
    [(20, Goto 42), (56, Goto 49), (64, Goto 43), (65, Shift 44), (72, Shift 35),
      (78, Goto 26), (79, Goto 27), (80, Shift 28), (81, Shift 29), (82, Shift 30),
      (83, Shift 31), (84, Shift 32), (85, Shift 34), (86, Goto 33)],
    [(33, Reduce 78), (49, Goto 50), (65, Reduce 78), (72, Reduce 78), (80, Reduce 78),
      (81, Reduce 78), (82, Reduce 78), (83, Reduce 78), (84, Reduce 78), (85, Reduce 78)],
    [(23, Reduce 33), (33, Reduce 33), (54, Reduce 33), (65, Reduce 33), (68, Reduce 33),
      (72, Reduce 33), (75, Reduce 33), (80, Reduce 33), (81, Reduce 33), (82, Reduce 33),
      (83, Reduce 33), (84, Reduce 33), (85, Reduce 33)],
    [(23, Reduce 34), (33, Reduce 34), (54, Reduce 34), (65, Reduce 34), (68, Reduce 34),
      (72, Reduce 34), (75, Reduce 34), (80, Reduce 34), (81, Reduce 34), (82, Reduce 34),
      (83, Reduce 34), (84, Reduce 34), (85, Reduce 34)],
    [(23, Reduce 35), (33, Reduce 35), (54, Reduce 35), (65, Reduce 35), (68, Reduce 35),
      (72, Reduce 35), (75, Reduce 35), (80, Reduce 35), (81, Reduce 35), (82, Reduce 35),
      (83, Reduce 35), (84, Reduce 35), (85, Reduce 35)],
    [(23, Reduce 36), (33, Reduce 36), (54, Reduce 36), (65, Reduce 36), (68, Reduce 36),
      (72, Reduce 36), (75, Reduce 36), (80, Reduce 36), (81, Reduce 36), (82, Reduce 36),
      (83, Reduce 36), (84, Reduce 36), (85, Reduce 36)],
    [(23, Reduce 37), (33, Reduce 37), (54, Reduce 37), (65, Reduce 37), (68, Reduce 37),
      (72, Reduce 37), (75, Reduce 37), (80, Reduce 37), (81, Reduce 37), (82, Reduce 37),
      (83, Reduce 37), (84, Reduce 37), (85, Reduce 37)],
    [(23, Reduce 38), (33, Reduce 38), (54, Reduce 38), (65, Reduce 38), (68, Reduce 38),
      (72, Reduce 38), (75, Reduce 38), (80, Reduce 38), (81, Reduce 38), (82, Reduce 38),
      (83, Reduce 38), (84, Reduce 38), (85, Reduce 38)],
    [(23, Reduce 39), (33, Reduce 39), (54, Reduce 39), (65, Reduce 39), (68, Reduce 39),
      (72, Reduce 39), (75, Reduce 39), (80, Reduce 39), (81, Reduce 39), (82, Reduce 39),
      (83, Reduce 39), (84, Reduce 39), (85, Reduce 39)],
    [(23, Reduce 43), (33, Reduce 43), (54, Reduce 43), (65, Reduce 43), (68, Reduce 43),
      (72, Reduce 43), (75, Reduce 43), (80, Reduce 43), (81, Reduce 43), (82, Reduce 43),
      (83, Reduce 43), (84, Reduce 43), (85, Reduce 43), (87, Shift 51)],
    [(72, Shift 35), (86, Goto 52)],
    [(23, Reduce 45), (33, Reduce 45), (54, Reduce 45), (65, Reduce 45), (68, Reduce 45),
      (72, Reduce 45), (75, Reduce 45), (80, Reduce 45), (81, Reduce 45), (82, Reduce 45),
      (83, Reduce 45), (84, Reduce 45), (85, Reduce 45), (87, Reduce 45)],
    [(52, Goto 53), (54, Reduce 82), (65, Reduce 82), (72, Reduce 82), (80, Reduce 82),
      (81, Reduce 82), (82, Reduce 82), (83, Reduce 82), (84, Reduce 82), (85, Reduce 82)],
    [(25, Goto 54), (38, Goto 56), (39, Shift 58), (43, Goto 57), (44, Shift 59),
      (45, Goto 55), (47, Reduce 54)],
    [(28, Goto 60), (43, Goto 61), (44, Shift 59), (47, Reduce 56)],
    [(13, Goto 63), (15, Shift 20), (18, Shift 62)],
    [(15, Reduce 48), (18, Reduce 48)],
    [(33, Reduce 86), (57, Goto 64), (65, Reduce 86), (72, Reduce 86), (80, Reduce 86),
      (81, Reduce 86), (82, Reduce 86), (83, Reduce 86), (84, Reduce 86), (85, Reduce 86)],
    [(33, Reduce 40), (65, Reduce 40), (72, Reduce 40), (80, Reduce 40), (81, Reduce 40),
      (82, Reduce 40), (83, Reduce 40), (84, Reduce 40), (85, Reduce 40)],
    [(33, Reduce 41), (65, Reduce 41), (72, Reduce 41), (80, Reduce 41), (81, Reduce 41),
      (82, Reduce 41), (83, Reduce 41), (84, Reduce 41), (85, Reduce 41)],
    [(20, Goto 65), (72, Shift 35), (78, Goto 26), (79, Goto 27), (80, Shift 28),
      (81, Shift 29), (82, Shift 30), (83, Shift 31), (84, Shift 32), (85, Shift 34),
      (86, Goto 33)],
    [(26, Goto 66), (47, Shift 67)],
    [(30, Goto 68), (33, Reduce 58), (65, Reduce 58), (72, Reduce 58), (75, Reduce 58),
      (80, Reduce 58), (81, Reduce 58), (82, Reduce 58), (83, Reduce 58), (84, Reduce 58),
      (85, Reduce 58)],
    [(33, Reduce 64), (35, Goto 69), (65, Reduce 64), (72, Reduce 64), (75, Reduce 64),
      (80, Reduce 64), (81, Reduce 64), (82, Reduce 64), (83, Reduce 64), (84, Reduce 64),
      (85, Reduce 64)],
    [(21, Goto 70), (23, Reduce 50), (65, Reduce 50), (72, Reduce 50), (80, Reduce 50),
      (81, Reduce 50), (82, Reduce 50), (83, Reduce 50), (84, Reduce 50), (85, Reduce 50)],
    [(33, Reduce 90), (61, Goto 71), (65, Reduce 90), (72, Reduce 90), (80, Reduce 90),
      (81, Reduce 90), (82, Reduce 90), (83, Reduce 90), (84, Reduce 90), (85, Reduce 90)],
    [(20, Goto 75), (33, Reduce 80), (50, Goto 72), (63, Goto 73), (64, Goto 76),
      (65, Shift 44), (69, Goto 74), (70, Goto 77), (71, Goto 78), (72, Shift 79),
      (78, Goto 26), (79, Goto 27), (80, Shift 28), (81, Shift 29), (82, Shift 30),
      (83, Shift 31), (84, Shift 32), (85, Shift 34), (86, Goto 33)],
    [(72, Shift 80)],
    [(23, Reduce 42), (33, Reduce 42), (54, Reduce 42), (65, Reduce 42), (68, Reduce 42),
      (72, Reduce 42), (75, Reduce 42), (80, Reduce 42), (81, Reduce 42), (82, Reduce 42),
      (83, Reduce 42), (84, Reduce 42), (85, Reduce 42), (87, Shift 51)],
    [(20, Goto 75), (53, Goto 81), (54, Reduce 84), (63, Goto 82), (64, Goto 76),
      (65, Shift 44), (69, Goto 83), (70, Goto 77), (71, Goto 78), (72, Shift 79),
      (78, Goto 26), (79, Goto 27), (80, Shift 28), (81, Shift 29), (82, Shift 30),
      (83, Shift 31), (84, Shift 32), (85, Shift 34), (86, Goto 33)],
    [(26, Goto 84), (47, Shift 67)],
    [(47, Reduce 55)],
    [(4, Goto 85), (6, Goto 3), (14, Reduce 46), (15, Reduce 46), (19, Reduce 46),
      (29, Reduce 46), (34, Reduce 46), (39, Reduce 46), (44, Reduce 46), (47, Reduce 46),
      (48, Reduce 46), (51, Reduce 46), (55, Reduce 46), (60, Reduce 46)],
    [(47, Reduce 20)],
    [(20, Goto 86), (72, Shift 35), (78, Goto 26), (79, Goto 27), (80, Shift 28),
      (81, Shift 29), (82, Shift 30), (83, Shift 31), (84, Shift 32), (85, Shift 34),
      (86, Goto 33)],
    [(4, Goto 87), (6, Goto 3), (14, Reduce 46), (15, Reduce 46), (19, Reduce 46),
      (29, Reduce 46), (34, Reduce 46), (47, Reduce 46), (48, Reduce 46), (51, Reduce 46),
      (55, Reduce 46), (60, Reduce 46)],
    [(26, Goto 88), (47, Shift 67)],
    [(47, Reduce 57)],
    [(5, Reduce 11), (14, Reduce 11), (15, Reduce 11), (19, Reduce 11), (29, Reduce 11),
      (34, Reduce 11), (39, Reduce 11), (44, Reduce 11), (47, Reduce 11), (48, Reduce 11),
      (51, Reduce 11), (55, Reduce 11), (60, Reduce 11)],
    [(15, Reduce 49), (18, Reduce 49)],
    [(20, Goto 75), (33, Reduce 88), (58, Goto 89), (63, Goto 90), (64, Goto 76),
      (65, Shift 44), (69, Goto 91), (70, Goto 77), (71, Goto 78), (72, Shift 79),
      (78, Goto 26), (79, Goto 27), (80, Shift 28), (81, Shift 29), (82, Shift 30),
      (83, Shift 31), (84, Shift 32), (85, Shift 34), (86, Goto 33)],
    [(65, Reduce 94), (66, Goto 92), (68, Reduce 94), (72, Reduce 94), (80, Reduce 94),
      (81, Reduce 94), (82, Reduce 94), (83, Reduce 94), (84, Reduce 94), (85, Reduce 94)],
    [(5, Reduce 25), (14, Reduce 25), (15, Reduce 25), (19, Reduce 25), (29, Reduce 25),
      (34, Reduce 25), (39, Reduce 25), (44, Reduce 25), (47, Reduce 25), (48, Reduce 25),
      (51, Reduce 25), (55, Reduce 25), (60, Reduce 25)],
    [(20, Goto 93), (72, Shift 35), (78, Goto 26), (79, Goto 27), (80, Shift 28),
      (81, Shift 29), (82, Shift 30), (83, Shift 31), (84, Shift 32), (85, Shift 34),
      (86, Goto 33)],
    [(20, Goto 75), (31, Goto 94), (33, Reduce 60), (63, Goto 95), (64, Goto 76),
      (65, Shift 44), (69, Goto 96), (70, Goto 77), (71, Goto 78), (72, Shift 79),
      (75, Reduce 60), (78, Goto 26), (79, Goto 27), (80, Shift 28), (81, Shift 29),
      (82, Shift 30), (83, Shift 31), (84, Shift 32), (85, Shift 34), (86, Goto 33)],
    [(20, Goto 75), (33, Reduce 66), (36, Goto 97), (63, Goto 98), (64, Goto 76),
      (65, Shift 44), (69, Goto 99), (70, Goto 77), (71, Goto 78), (72, Shift 79),
      (75, Reduce 66), (78, Goto 26), (79, Goto 27), (80, Shift 28), (81, Shift 29),
      (82, Shift 30), (83, Shift 31), (84, Shift 32), (85, Shift 34), (86, Goto 33)],
    [(20, Goto 75), (22, Goto 100), (23, Reduce 52), (63, Goto 101), (64, Goto 76),
      (65, Shift 44), (69, Goto 102), (70, Goto 77), (71, Goto 78), (72, Shift 79),
      (78, Goto 26), (79, Goto 27), (80, Shift 28), (81, Shift 29), (82, Shift 30),
      (83, Shift 31), (84, Shift 32), (85, Shift 34), (86, Goto 33)],
    [(20, Goto 75), (33, Reduce 92), (62, Goto 103), (63, Goto 104), (64, Goto 76),
      (65, Shift 44), (69, Goto 105), (70, Goto 77), (71, Goto 78), (72, Shift 79),
      (78, Goto 26), (79, Goto 27), (80, Shift 28), (81, Shift 29), (82, Shift 30),
      (83, Shift 31), (84, Shift 32), (85, Shift 34), (86, Goto 33)],
    [(33, Shift 106)],
    [(33, Reduce 79), (65, Reduce 79), (72, Reduce 79), (80, Reduce 79), (81, Reduce 79),
      (82, Reduce 79), (83, Reduce 79), (84, Reduce 79), (85, Reduce 79)],
    [(33, Reduce 81)],
    [(23, Reduce 27), (33, Reduce 27), (54, Reduce 27), (65, Reduce 27), (68, Reduce 27),
      (72, Reduce 27), (75, Reduce 27), (80, Reduce 27), (81, Reduce 27), (82, Reduce 27),
      (83, Reduce 27), (84, Reduce 27), (85, Reduce 27)],
    [(23, Reduce 28), (33, Reduce 28), (54, Reduce 28), (65, Reduce 28), (68, Reduce 28),
      (72, Reduce 28), (75, Reduce 28), (80, Reduce 28), (81, Reduce 28), (82, Reduce 28),
      (83, Reduce 28), (84, Reduce 28), (85, Reduce 28)],
    [(23, Reduce 30), (33, Reduce 30), (54, Reduce 30), (68, Reduce 30), (71, Goto 107),
      (72, Shift 108), (75, Reduce 30)],
    [(23, Reduce 98), (33, Reduce 98), (54, Reduce 98), (68, Reduce 98), (72, Reduce 98),
      (75, Reduce 98)],
    [(23, Reduce 45), (33, Reduce 45), (54, Reduce 45), (65, Reduce 45), (68, Reduce 45),
      (72, Reduce 45), (73, Shift 109), (75, Reduce 45), (80, Reduce 45), (81, Reduce 45),
      (82, Reduce 45), (83, Reduce 45), (84, Reduce 45), (85, Reduce 45), (87, Reduce 45)],
    [(23, Reduce 44), (33, Reduce 44), (54, Reduce 44), (65, Reduce 44), (68, Reduce 44),
      (72, Reduce 44), (75, Reduce 44), (80, Reduce 44), (81, Reduce 44), (82, Reduce 44),
      (83, Reduce 44), (84, Reduce 44), (85, Reduce 44), (87, Reduce 44)],
    [(54, Shift 110)],
    [(54, Reduce 83), (65, Reduce 83), (72, Reduce 83), (80, Reduce 83), (81, Reduce 83),
      (82, Reduce 83), (83, Reduce 83), (84, Reduce 83), (85, Reduce 83)],
    [(54, Reduce 85)],
    [(5, Reduce 13), (14, Reduce 13), (15, Reduce 13), (19, Reduce 13), (29, Reduce 13),
      (34, Reduce 13), (39, Reduce 13), (44, Reduce 13), (47, Reduce 13), (48, Reduce 13),
      (51, Reduce 13), (55, Reduce 13), (60, Reduce 13)],
    [(38, Goto 56), (39, Shift 58), (43, Goto 57), (44, Shift 59), (45, Goto 112),
      (46, Goto 111), (47, Reduce 76)],
    [(33, Reduce 70), (40, Goto 113), (65, Reduce 70), (72, Reduce 70), (75, Reduce 70),
      (80, Reduce 70), (81, Reduce 70), (82, Reduce 70), (83, Reduce 70), (84, Reduce 70),
      (85, Reduce 70)],
    [(47, Reduce 18)],
    [(5, Reduce 14), (14, Reduce 14), (15, Reduce 14), (19, Reduce 14), (29, Reduce 14),
      (34, Reduce 14), (39, Reduce 14), (44, Reduce 14), (47, Reduce 14), (48, Reduce 14),
      (51, Reduce 14), (55, Reduce 14), (60, Reduce 14)],
    [(33, Shift 114)],
    [(33, Reduce 87), (65, Reduce 87), (72, Reduce 87), (80, Reduce 87), (81, Reduce 87),
      (82, Reduce 87), (83, Reduce 87), (84, Reduce 87), (85, Reduce 87)],
    [(33, Reduce 89)],
    [(20, Goto 75), (63, Goto 116), (64, Goto 76), (65, Shift 44), (67, Goto 115),
      (68, Reduce 96), (69, Goto 117), (70, Goto 77), (71, Goto 78), (72, Shift 79),
      (78, Goto 26), (79, Goto 27), (80, Shift 28), (81, Shift 29), (82, Shift 30),
      (83, Shift 31), (84, Shift 32), (85, Shift 34), (86, Goto 33)],
    [(33, Shift 118)],
    [(32, Goto 119), (33, Reduce 62), (74, Goto 120), (75, Shift 121)],
    [(33, Reduce 59), (65, Reduce 59), (72, Reduce 59), (75, Reduce 59), (80, Reduce 59),
      (81, Reduce 59), (82, Reduce 59), (83, Reduce 59), (84, Reduce 59), (85, Reduce 59)],
    [(33, Reduce 61), (75, Reduce 61)],
    [(33, Reduce 68), (37, Goto 122), (74, Goto 123), (75, Shift 121)],
    [(33, Reduce 65), (65, Reduce 65), (72, Reduce 65), (75, Reduce 65), (80, Reduce 65),
      (81, Reduce 65), (82, Reduce 65), (83, Reduce 65), (84, Reduce 65), (85, Reduce 65)],
    [(33, Reduce 67), (75, Reduce 67)],
    [(23, Shift 124)],
    [(23, Reduce 51), (65, Reduce 51), (72, Reduce 51), (80, Reduce 51), (81, Reduce 51),
      (82, Reduce 51), (83, Reduce 51), (84, Reduce 51), (85, Reduce 51)],
    [(23, Reduce 53)],
    [(33, Shift 125)],
    [(33, Reduce 91), (65, Reduce 91), (72, Reduce 91), (80, Reduce 91), (81, Reduce 91),
      (82, Reduce 91), (83, Reduce 91), (84, Reduce 91), (85, Reduce 91)],
    [(33, Reduce 93)],
    [(5, Reduce 22), (14, Reduce 22), (15, Reduce 22), (19, Reduce 22), (29, Reduce 22),
      (34, Reduce 22), (39, Reduce 22), (44, Reduce 22), (47, Reduce 22), (48, Reduce 22),
      (51, Reduce 22), (55, Reduce 22), (60, Reduce 22)],
    [(23, Reduce 99), (33, Reduce 99), (54, Reduce 99), (68, Reduce 99), (72, Reduce 99),
      (75, Reduce 99)],
    [(73, Shift 109)],
    [(20, Goto 75), (63, Goto 126), (64, Goto 76), (65, Shift 44), (72, Shift 35),
      (78, Goto 26), (79, Goto 27), (80, Shift 28), (81, Shift 29), (82, Shift 30),
      (83, Shift 31), (84, Shift 32), (85, Shift 34), (86, Goto 33)],
    [(5, Reduce 23), (14, Reduce 23), (15, Reduce 23), (19, Reduce 23), (29, Reduce 23),
      (34, Reduce 23), (39, Reduce 23), (44, Reduce 23), (47, Reduce 23), (48, Reduce 23),
      (51, Reduce 23), (55, Reduce 23), (60, Reduce 23)],
    [(47, Reduce 19)],
    [(47, Reduce 77)],
    [(20, Goto 75), (33, Reduce 72), (41, Goto 127), (63, Goto 128), (64, Goto 76),
      (65, Shift 44), (69, Goto 129), (70, Goto 77), (71, Goto 78), (72, Shift 79),
      (75, Reduce 72), (78, Goto 26), (79, Goto 27), (80, Shift 28), (81, Shift 29),
      (82, Shift 30), (83, Shift 31), (84, Shift 32), (85, Shift 34), (86, Goto 33)],
    [(5, Reduce 24), (14, Reduce 24), (15, Reduce 24), (19, Reduce 24), (29, Reduce 24),
      (34, Reduce 24), (39, Reduce 24), (44, Reduce 24), (47, Reduce 24), (48, Reduce 24),
      (51, Reduce 24), (55, Reduce 24), (60, Reduce 24)],
    [(68, Shift 130)],
    [(65, Reduce 95), (68, Reduce 95), (72, Reduce 95), (80, Reduce 95), (81, Reduce 95),
      (82, Reduce 95), (83, Reduce 95), (84, Reduce 95), (85, Reduce 95)],
    [(68, Reduce 97)],
    [(5, Reduce 21), (14, Reduce 21), (15, Reduce 21), (19, Reduce 21), (29, Reduce 21),
      (34, Reduce 21), (39, Reduce 21), (44, Reduce 21), (47, Reduce 21), (48, Reduce 21),
      (51, Reduce 21), (55, Reduce 21), (60, Reduce 21)],
    [(33, Shift 131)],
    [(33, Reduce 63)],
    [(72, Shift 133), (76, Goto 132)],
    [(33, Shift 134)],
    [(33, Reduce 69)],
    [(15, Reduce 12)],
    [(14, Reduce 26), (15, Reduce 26), (19, Reduce 26), (29, Reduce 26), (34, Reduce 26),
      (47, Reduce 26), (48, Reduce 26), (51, Reduce 26), (55, Reduce 26), (60, Reduce 26)],
    [(23, Reduce 31), (33, Reduce 31), (54, Reduce 31), (68, Reduce 31), (72, Reduce 31),
      (75, Reduce 31)],
    [(33, Reduce 74), (42, Goto 135), (74, Goto 136), (75, Shift 121)],
    [(33, Reduce 71), (65, Reduce 71), (72, Reduce 71), (75, Reduce 71), (80, Reduce 71),
      (81, Reduce 71), (82, Reduce 71), (83, Reduce 71), (84, Reduce 71), (85, Reduce 71)],
    [(33, Reduce 73), (75, Reduce 73)],
    [(23, Reduce 29), (33, Reduce 29), (54, Reduce 29), (65, Reduce 29), (68, Reduce 29),
      (72, Reduce 29), (75, Reduce 29), (80, Reduce 29), (81, Reduce 29), (82, Reduce 29),
      (83, Reduce 29), (84, Reduce 29), (85, Reduce 29)],
    [(14, Reduce 15), (15, Reduce 15), (19, Reduce 15), (29, Reduce 15), (34, Reduce 15),
      (39, Reduce 15), (44, Reduce 15), (47, Reduce 15), (48, Reduce 15), (51, Reduce 15),
      (55, Reduce 15), (60, Reduce 15)],
    [(72, Shift 138), (77, Shift 137)],
    [(72, Reduce 100), (77, Reduce 100)],
    [(14, Reduce 16), (15, Reduce 16), (19, Reduce 16), (29, Reduce 16), (34, Reduce 16),
      (44, Reduce 16), (47, Reduce 16), (48, Reduce 16), (51, Reduce 16), (55, Reduce 16),
      (60, Reduce 16)],
    [(33, Shift 139)],
    [(33, Reduce 75)],
    [(33, Reduce 32)],
    [(72, Reduce 101), (77, Reduce 101)],
    [(14, Reduce 17), (15, Reduce 17), (19, Reduce 17), (29, Reduce 17), (34, Reduce 17),
      (39, Reduce 17), (44, Reduce 17), (47, Reduce 17), (48, Reduce 17), (51, Reduce 17),
      (55, Reduce 17), (60, Reduce 17)]]"

definition defaultActions :: "(nat \<times> parse_action) list" where
  "defaultActions = [
    (4, Reduce 1), (55, Reduce 55), (57, Reduce 20), (61, Reduce 57), (74, Reduce 81),
    (83, Reduce 85), (87, Reduce 18), (91, Reduce 89), (102, Reduce 53), (105, Reduce 93),
    (111, Reduce 19), (112, Reduce 77), (117, Reduce 97), (120, Reduce 63), (123, Reduce 69),
    (124, Reduce 12), (136, Reduce 75), (137, Reduce 32)]"

definition terminals :: "(nat \<times> string) list" where
  "terminals = [
    (2, ''error''), (5, ''EOF''), (14, ''COMMENT''), (15, ''CONTENT''),
    (18, ''END_RAW_BLOCK''), (19, ''OPEN_RAW_BLOCK''), (23, ''CLOSE_RAW_BLOCK''),
    (29, ''OPEN_BLOCK''), (33, ''CLOSE''), (34, ''OPEN_INVERSE''),
    (39, ''OPEN_INVERSE_CHAIN''), (44, ''INVERSE''), (47, ''OPEN_ENDBLOCK''), (48, ''OPEN''),
    (51, ''OPEN_UNESCAPED''), (54, ''CLOSE_UNESCAPED''), (55, ''OPEN_PARTIAL''),
    (60, ''OPEN_PARTIAL_BLOCK''), (65, ''OPEN_SEXPR''), (68, ''CLOSE_SEXPR''), (72, ''ID''),
    (73, ''EQUALS''), (75, ''OPEN_BLOCK_PARAMS''), (77, ''CLOSE_BLOCK_PARAMS''),
    (80, ''STRING''), (81, ''NUMBER''), (82, ''BOOLEAN''), (83, ''UNDEFINED''), (84, ''NULL''),
    (85, ''DATA''), (87, ''SEP'')]"

definition productions :: "(nat \<times> nat) list" where
  "productions = [
    (0, 0), (3, 2), (4, 1), (7, 1), (7, 1), (7, 1), (7, 1), (7, 1), (7, 1), (7, 1), (13, 1),
    (10, 3), (16, 5), (9, 4), (9, 4), (24, 6), (27, 6), (38, 6), (43, 2), (45, 3), (45, 1),
    (26, 3), (8, 5), (8, 5), (11, 5), (12, 3), (59, 5), (63, 1), (63, 1), (64, 5), (69, 1),
    (71, 3), (74, 3), (20, 1), (20, 1), (20, 1), (20, 1), (20, 1), (20, 1), (20, 1), (56, 1),
    (56, 1), (79, 2), (78, 1), (86, 3), (86, 1), (6, 0), (6, 2), (17, 1), (17, 2), (21, 0),
    (21, 2), (22, 0), (22, 1), (25, 0), (25, 1), (28, 0), (28, 1), (30, 0), (30, 2), (31, 0),
    (31, 1), (32, 0), (32, 1), (35, 0), (35, 2), (36, 0), (36, 1), (37, 0), (37, 1), (40, 0),
    (40, 2), (41, 0), (41, 1), (42, 0), (42, 1), (46, 0), (46, 1), (49, 0), (49, 2), (50, 0),
    (50, 1), (52, 0), (52, 2), (53, 0), (53, 1), (57, 0), (57, 2), (58, 0), (58, 1), (61, 0),
    (61, 2), (62, 0), (62, 1), (66, 0), (66, 2), (67, 0), (67, 1), (70, 1), (70, 2), (76, 1),
    (76, 2)]"

end
