(* ===== verification/HbParser.thy ===== *)
theory HbParser
  imports HbGrammar
begin

text \<open>
  The generated parser of \<open>handlebars.js\<close> (module 23): the semantic actions and the loop of
  \<open>parse\<close>. The three stacks have their top first; the stack of symbols is left out, since the loop
  reads only the symbol it has just pushed. The loop need not stop, so it is a partial function.
\<close>

section \<open>Semantic values\<close>

datatype sv =
    SUndef
  | SText string
  | SExpr expr
  | SExprs "expr list"
  | SHash hash
  | SPair hash_pair
  | SPairs "hash_pair list"
  | STexts "string list"
  | SIds "string list"
  | SSegs "segment list"
  | SStmt stmt
  | SStmts "stmt list"
  | SProg program
  | SOpen open_tag
  | SInv inv_prog
  | SClose close_tag

text \<open>The optional values: \<open>undefined\<close> where an optional part is missing.\<close>

definition opt_hash :: "sv \<Rightarrow> hash option" where
  "opt_hash v = (case v of SHash h \<Rightarrow> Some h | _ \<Rightarrow> None)"

definition opt_ids :: "sv \<Rightarrow> string list option" where
  "opt_ids v = (case v of SIds xs \<Rightarrow> Some xs | _ \<Rightarrow> None)"

definition opt_inv :: "sv \<Rightarrow> inv_prog option" where
  "opt_inv v = (case v of SInv i \<Rightarrow> Some i | _ \<Rightarrow> None)"

text \<open>An inverse part as the closing argument of a chained block: an object without a path.\<close>

definition inv_close :: "sv \<Rightarrow> close_tag option" where
  "inv_close v = map_option (\<lambda>i. CloseObj None (inv_strip i)) (opt_inv v)"

definition shape_error :: "sv result" where
  "shape_error = Inl (type_error ''unexpected semantic value'')"

section \<open>The actions\<close>

text \<open>
  \<open>performAction(yystate)\<close> for the productions of statements, 1 to 26. \<open>vs ! k\<close> is \<open>$$[$0 - k]\<close>,
  \<open>d\<close> the default value of \<open>this.$\<close>, \<open>l\<close> the location \<open>this._$\<close>.
\<close>

definition action_statement :: "string option \<Rightarrow> nat \<Rightarrow> sv \<Rightarrow> lexloc \<Rightarrow> sv list \<Rightarrow> sv result" where
  "action_statement src i d l vs =
    (if i = 2 then (case vs of SStmts b # _ \<Rightarrow> Inr (SProg (prepareProgram b None)) | _ \<Rightarrow> shape_error)
     else if i \<in> {3, 4, 5, 6, 7, 8, 20} then (case vs of v # _ \<Rightarrow> Inr v | _ \<Rightarrow> shape_error)
     else if i = 9 then
       (case vs of SText t # _ \<Rightarrow>
          Inr (SStmt (Comment (stripComment t) (stripFlags t t) (Some (SourceLocation src l))))
        | _ \<Rightarrow> shape_error)
     else if i = 10 then
       (case vs of SText t # _ \<Rightarrow> Inr (SStmt (Content t t False False (Some (SourceLocation src l))))
        | _ \<Rightarrow> shape_error)
     else if i = 11 then
       (case vs of SText c # SStmts b # SOpen t # _ \<Rightarrow> map_sum id SStmt (prepareRawBlock src t b c l)
        | _ \<Rightarrow> shape_error)
     else if i = 12 then
       (case vs of _ # h # SExprs ps # SExpr p # _ \<Rightarrow>
          Inr (SOpen \<lparr>open_text = None, open_path = p, open_params = ps, open_hash = opt_hash h,
            open_blockParams = None, open_strip = no_strip\<rparr>)
        | _ \<Rightarrow> shape_error)
     else if i = 13 \<or> i = 14 then
       (case vs of SClose c # iv # SProg pr # SOpen t # _ \<Rightarrow>
          map_sum id SStmt (prepareBlock src t pr (opt_inv iv) (Some c) (i = 14) l)
        | _ \<Rightarrow> shape_error)
     else if i = 15 then
       (case vs of SText c # b # h # SExprs ps # SExpr p # SText t # _ \<Rightarrow>
          Inr (SOpen \<lparr>open_text = Some t, open_path = p, open_params = ps, open_hash = opt_hash h,
            open_blockParams = opt_ids b, open_strip = stripFlags t c\<rparr>)
        | _ \<Rightarrow> shape_error)
     else if i = 16 \<or> i = 17 then
       (case vs of SText c # b # h # SExprs ps # SExpr p # SText t # _ \<Rightarrow>
          Inr (SOpen \<lparr>open_text = None, open_path = p, open_params = ps, open_hash = opt_hash h,
            open_blockParams = opt_ids b, open_strip = stripFlags t c\<rparr>)
        | _ \<Rightarrow> shape_error)
     else if i = 18 then
       (case vs of SProg pr # SText t # _ \<Rightarrow>
          Inr (SInv \<lparr>inv_strip = stripFlags t t, inv_program = pr, inv_chain = False\<rparr>)
        | _ \<Rightarrow> shape_error)
     else if i = 19 then
       (case vs of iv # SProg pr # SOpen t # _ \<Rightarrow>
          bindR (prepareBlock src t pr (opt_inv iv) (inv_close iv) False l) (\<lambda>inverse.
            case prepareProgram [inverse] (program_loc pr) of Program b bp _ pl \<Rightarrow>
              Inr (SInv \<lparr>inv_strip = open_strip t, inv_program = Program b bp True pl, inv_chain = True\<rparr>))
        | _ \<Rightarrow> shape_error)
     else if i = 21 then
       (case vs of SText c # SExpr p # SText t # _ \<Rightarrow> Inr (SClose (CloseObj (Some p) (stripFlags t c)))
        | _ \<Rightarrow> shape_error)
     else if i = 22 \<or> i = 23 then
       (case vs of SText c # h # SExprs ps # SExpr p # SText t # _ \<Rightarrow>
          Inr (SStmt (prepareMustache src p ps (opt_hash h) t (stripFlags t c) l))
        | _ \<Rightarrow> shape_error)
     else if i = 24 then
       (case vs of SText c # h # SExprs ps # SExpr p # SText t # _ \<Rightarrow>
          Inr (SStmt (Partial p ps (opt_hash h) [] (stripFlags t c) (Some (SourceLocation src l))))
        | _ \<Rightarrow> shape_error)
     else if i = 25 then
       (case vs of SClose c # SProg pr # SOpen t # _ \<Rightarrow>
          map_sum id SStmt (preparePartialBlock src t pr c l)
        | _ \<Rightarrow> shape_error)
     else if i = 26 then
       (case vs of SText c # h # SExprs ps # SExpr p # SText t # _ \<Rightarrow>
          Inr (SOpen \<lparr>open_text = None, open_path = p, open_params = ps, open_hash = opt_hash h,
            open_blockParams = None, open_strip = stripFlags t c\<rparr>)
        | _ \<Rightarrow> shape_error)
     else Inr d)"

text \<open>
  Production 32 calls \<open>yy.id\<close> on the array of block parameters: the regular expression is tested
  on the text of the array, and a match calls \<open>substr\<close>, which an array does not have.
\<close>

definition block_param_ids :: "string list \<Rightarrow> sv result" where
  "block_param_ids xs =
     (if id_bracketed (join_with '','' xs) then Inl (type_error ''token.substr is not a function'')
      else Inr (SIds xs))"

text \<open>\<open>performAction(yystate)\<close> for the productions of expressions and lists, 27 to 101.\<close>

definition action_expression :: "string option \<Rightarrow> nat \<Rightarrow> sv \<Rightarrow> lexloc \<Rightarrow> sv list \<Rightarrow> sv result" where
  "action_expression src i d l vs =
    (let loc = Some (SourceLocation src l) in
     if i \<in> {27, 28, 33, 34, 40, 41} then (case vs of v # _ \<Rightarrow> Inr v | _ \<Rightarrow> shape_error)
     else if i = 29 then
       (case vs of _ # h # SExprs ps # SExpr p # _ \<Rightarrow> Inr (SExpr (SubExpression p ps (opt_hash h) loc))
        | _ \<Rightarrow> shape_error)
     else if i = 30 then (case vs of SPairs ps # _ \<Rightarrow> Inr (SHash (Hash ps loc)) | _ \<Rightarrow> shape_error)
     else if i = 31 then
       (case vs of SExpr e # _ # SText k # _ \<Rightarrow> Inr (SPair (HashPair (id_token k) e loc))
        | _ \<Rightarrow> shape_error)
     else if i = 32 then (case vs of _ # STexts xs # _ \<Rightarrow> block_param_ids xs | _ \<Rightarrow> shape_error)
     else if i = 35 then
       (case vs of SText t # _ \<Rightarrow> Inr (SExpr (LiteralExpression (StringLiteral t) loc)) | _ \<Rightarrow> shape_error)
     else if i = 36 then
       (case vs of SText t # _ \<Rightarrow> Inr (SExpr (LiteralExpression (NumberLiteral (to_number t)) loc))
        | _ \<Rightarrow> shape_error)
     else if i = 37 then
       (case vs of SText t # _ \<Rightarrow> Inr (SExpr (LiteralExpression (BooleanLiteral (t = ''true'')) loc))
        | _ \<Rightarrow> shape_error)
     else if i = 38 then Inr (SExpr (LiteralExpression UndefinedLiteral loc))
     else if i = 39 then Inr (SExpr (LiteralExpression NullLiteral loc))
     else if i = 42 \<or> i = 43 then
       (case vs of SSegs ss # _ \<Rightarrow> map_sum id (\<lambda>p. SExpr (PathExpression p)) (preparePath src (i = 42) ss l)
        | _ \<Rightarrow> shape_error)
     else if i = 44 then
       (case vs of SText t # SText sep # SSegs ss # _ \<Rightarrow>
          Inr (SSegs (ss @ [\<lparr>seg_part = id_token t, seg_original = t, seg_separator = Some sep\<rparr>]))
        | _ \<Rightarrow> shape_error)
     else if i = 45 then
       (case vs of SText t # _ \<Rightarrow>
          Inr (SSegs [\<lparr>seg_part = id_token t, seg_original = t, seg_separator = None\<rparr>])
        | _ \<Rightarrow> shape_error)
     else if i = 46 then Inr (SStmts [])
     else if i = 47 \<or> i = 49 then
       (case vs of SStmt s # SStmts ss # _ \<Rightarrow> Inr (SStmts (ss @ [s])) | _ \<Rightarrow> shape_error)
     else if i = 48 then (case vs of SStmt s # _ \<Rightarrow> Inr (SStmts [s]) | _ \<Rightarrow> shape_error)
     else if i \<in> {50, 58, 64, 70, 78, 82, 86, 90, 94} then Inr (SExprs [])
     else if i \<in> {51, 59, 65, 71, 79, 83, 87, 91, 95} then
       (case vs of SExpr e # SExprs es # _ \<Rightarrow> Inr (SExprs (es @ [e])) | _ \<Rightarrow> shape_error)
     else if i = 98 then (case vs of SPair p # _ \<Rightarrow> Inr (SPairs [p]) | _ \<Rightarrow> shape_error)
     else if i = 99 then
       (case vs of SPair p # SPairs ps # _ \<Rightarrow> Inr (SPairs (ps @ [p])) | _ \<Rightarrow> shape_error)
     else if i = 100 then (case vs of SText t # _ \<Rightarrow> Inr (STexts [t]) | _ \<Rightarrow> shape_error)
     else if i = 101 then
       (case vs of SText t # STexts ts # _ \<Rightarrow> Inr (STexts (ts @ [t])) | _ \<Rightarrow> shape_error)
     else Inr d)"

definition performAction :: "string option \<Rightarrow> nat \<Rightarrow> sv \<Rightarrow> lexloc \<Rightarrow> sv list \<Rightarrow> sv result" where
  "performAction src i d l vs =
     (if i \<le> 26 then action_statement src i d l vs else action_expression src i d l vs)"

section \<open>The loop\<close>

record parser =
  stack :: "nat list"
  vstack :: "sv list"
  lstack :: "lexloc list"
  symbol :: "token option"
  lexer_state :: lexer
  token_line :: nat

datatype outcome = Done sv | Continue parser

definition init_parser :: "string \<Rightarrow> parser" where
  "init_parser s = (let l = setInput s in
     \<lparr>stack = [0], vstack = [SUndef], lstack = [yylloc l], symbol = None, lexer_state = l,
      token_line = 0\<rparr>)"

fun token_name :: "token \<Rightarrow> string" where
  "token_name (T n) = (case map_of terminals n of Some t \<Rightarrow> t | None \<Rightarrow> show_nat n)"
| "token_name INVALID = ''INVALID''"

definition parse_error :: "nat \<Rightarrow> token \<Rightarrow> parser \<Rightarrow> exn" where
  "parse_error st t p =
     (let expected = map (\<lambda>k. squote # the (map_of terminals k) @ [squote])
            (filter (\<lambda>k. map_of terminals k \<noteq> None \<and> k > 2) (map fst (parse_table ! st)))
      in plain_error (''Parse error on line '' @ show_nat (token_line p + 1) @ '':'' @ [nl]
           @ showPosition (lexer_state p) @ [nl] @ ''Expecting '' @ join_with '', '' expected
           @ '', got '' @ [squote] @ token_name t @ [squote]))"

text \<open>The symbol the loop looks at: the pending one, or the next token.\<close>

definition fetch :: "parser \<Rightarrow> (token \<times> parser) result" where
  "fetch p = (case symbol p of
      Some t \<Rightarrow> Inr (t, p)
    | None \<Rightarrow> bindR (lexer_lex (lexer_state p)) (\<lambda>(t, l).
        Inr (t, p\<lparr>symbol := Some t, lexer_state := l\<rparr>)))"

definition table_action :: "nat \<Rightarrow> token \<Rightarrow> parse_action option" where
  "table_action st t = (case t of T n \<Rightarrow> map_of (parse_table ! st) n | INVALID \<Rightarrow> None)"

definition shift :: "token \<Rightarrow> nat \<Rightarrow> parser \<Rightarrow> parser" where
  "shift t st p = p\<lparr>stack := st # stack p, vstack := SText (yytext (lexer_state p)) # vstack p,
     lstack := yylloc (lexer_state p) # lstack p, symbol := None, token_line := yylineno (lexer_state p)\<rparr>"

text \<open>
  A reduction: the default value and the location of the right side, the action, then the pops and
  the push of the left side. Production 1 makes \<open>parse\<close> return.
\<close>

definition reduce :: "string option \<Rightarrow> nat \<Rightarrow> parser \<Rightarrow> outcome result" where
  "reduce src n p =
     (let (lhs, len) = productions ! n;
          vs = vstack p;
          d = (if len = 0 then SUndef else vs ! (len - 1));
          top = lstack p ! 0;
          bot = lstack p ! ((if len = 0 then 1 else len) - 1);
          loc = \<lparr>first_line = first_line bot, first_column = first_column bot,
                 last_line = last_line top, last_column = last_column top\<rparr>
      in if n = 1 then Inr (Done (vs ! 1))
         else bindR (performAction src n d loc vs) (\<lambda>v.
           let rest = drop len (stack p)
           in case map_of (parse_table ! hd rest) lhs of
                Some (Goto g) \<Rightarrow>
                  Inr (Continue (p\<lparr>stack := g # rest, vstack := v # drop len vs,
                    lstack := loc # drop len (lstack p)\<rparr>))
              | _ \<Rightarrow> Inl (type_error ''no goto'')))"

definition parse_step :: "string option \<Rightarrow> parser \<Rightarrow> outcome result" where
  "parse_step src p =
     (let st = hd (stack p)
      in case map_of defaultActions st of
           Some (Reduce n) \<Rightarrow> reduce src n p
         | _ \<Rightarrow>
           bindR (fetch p) (\<lambda>(t, p').
             case table_action st t of
               Some (Shift s) \<Rightarrow> Inr (Continue (shift t s p'))
             | Some (Reduce n) \<Rightarrow> reduce src n p'
             | Some Accept \<Rightarrow> Inr (Done SUndef)
             | _ \<Rightarrow> Inl (parse_error st t p')))"

partial_function (option) parse_run :: "string option \<Rightarrow> parser \<Rightarrow> sv result option" where
  "parse_run src p =
     (case parse_step src p of
        Inl e \<Rightarrow> Some (Inl e)
      | Inr (Done v) \<Rightarrow> Some (Inr v)
      | Inr (Continue p') \<Rightarrow> parse_run src p')"

declare parse_run.simps [code]

definition parser_parse :: "string option \<Rightarrow> string \<Rightarrow> sv result option" where
  "parser_parse src s = parse_run src (init_parser s)"

section \<open>A template that hangs the parser\<close>

lemma parse_run_diverges:
  assumes inv: "\<And>p. I p \<Longrightarrow> \<exists>q. parse_step src p = Inr (Continue q) \<and> I q" and "I p"
  shows "parse_run src p = None"
proof -
  have "src = src \<longrightarrow> \<not> I p" if r: "parse_run src p = Some r" for r
  proof (rule parse_run.raw_induct [where P = "\<lambda>s p r. s = src \<longrightarrow> \<not> I p", OF _ r])
    fix run s p y
    assume IH: "\<And>s p y. run s p = Some y \<Longrightarrow> s = src \<longrightarrow> \<not> I p"
      and step: "(case parse_step s p of Inl e \<Rightarrow> Some (Inl e) | Inr (Done v) \<Rightarrow> Some (Inr v)
        | Inr (Continue p') \<Rightarrow> run s p') = Some y"
    show "s = src \<longrightarrow> \<not> I p"
    proof (intro impI notI)
      assume "s = src" and "I p"
      with inv obtain q where "parse_step s p = Inr (Continue q)" and "I q"
        by blast
      with step IH [of s q y] \<open>s = src\<close> show False
        by simp
    qed
  qed
  with assms(2) show ?thesis
    by (cases "parse_run src p") auto
qed

text \<open>
  The states of the loop over the content of a raw block, when the lexer stands before an opening
  that closes nothing.
\<close>

definition lexer_stuck :: "lexer \<Rightarrow> bool" where
  "lexer_stuck l \<longleftrightarrow> conditionStack l \<noteq> [] \<and> hd (conditionStack l) = Raw \<and> \<not> finished l
     \<and> starts_with ''{{{{/'' (input l) \<and> lexer_rule 4 (input l) = None"

definition raw_loop :: "parser \<Rightarrow> bool" where
  "raw_loop p \<longleftrightarrow> lexer_stuck (lexer_state p) \<and>
     (take 2 (stack p) = [39, 17] \<and> symbol p = Some (T 15) \<and> (case vstack p of SStmts b # _ \<Rightarrow> True | _ \<Rightarrow> False)
      \<or> take 3 (stack p) = [20, 39, 17] \<and> symbol p = None
        \<and> (case vstack p of SText t # SStmts b # _ \<Rightarrow> True | _ \<Rightarrow> False)
      \<or> take 3 (stack p) = [63, 39, 17] \<and> symbol p = Some (T 15)
        \<and> (case vstack p of SStmt s # SStmts b # _ \<Rightarrow> True | _ \<Rightarrow> False))"

lemma take_stack: "take 2 xs = [a, b] \<longleftrightarrow> (\<exists>ys. xs = a # b # ys)"
  "take 3 xs = [a, b, c] \<longleftrightarrow> (\<exists>ys. xs = a # b # c # ys)"
  by (cases xs; cases "tl xs"; auto) (cases xs; cases "tl xs"; cases "tl (tl xs)"; auto)

lemma lexer_lex_stuck: "lexer_stuck l \<Longrightarrow> \<exists>l'. lexer_lex l = Inr (T 15, l') \<and> lexer_stuck l'"
proof -
  assume l: "lexer_stuck l"
  then obtain cs where "conditionStack l = Raw # cs"
    by (cases "conditionStack l") (auto simp: lexer_stuck_def)
  with l lexer_next_raw_stuck [of l cs] obtain l' where "lexer_next l = Inr (Some (T 15), l')" "input l' = input l"
    "conditionStack l' = conditionStack l" "\<not> finished l'"
    by (auto simp: lexer_stuck_def)
  with l show ?thesis
    by (auto simp: lexer_lex.simps [of l] lexer_stuck_def)
qed

lemma loop_tables:
  "map_of defaultActions 39 = None" "map_of defaultActions 20 = None" "map_of defaultActions 63 = None"
  "table_action 39 (T 15) = Some (Shift 20)" "table_action 20 (T 15) = Some (Reduce 10)"
  "table_action 63 (T 15) = Some (Reduce 49)" "productions ! 10 = (13, 1)" "productions ! 49 = (17, 2)"
  "map_of (parse_table ! 39) 13 = Some (Goto 63)" "map_of (parse_table ! 17) 17 = Some (Goto 39)"
  by code_simp+

lemma shift_step:
  assumes "raw_loop p" and "stack p = 39 # 17 # st"
  shows "\<exists>q. parse_step src p = Inr (Continue q) \<and> raw_loop q"
proof -
  from assms obtain b vs where v: "vstack p = SStmts b # vs" "symbol p = Some (T 15)" "lexer_stuck (lexer_state p)"
    by (auto simp: raw_loop_def split: list.splits sv.splits)
  then have "parse_step src p = Inr (Continue (shift (T 15) 20 p))"
    using assms(2) by (simp add: parse_step_def loop_tables fetch_def)
  moreover have "raw_loop (shift (T 15) 20 p)"
    using assms(2) v by (simp add: raw_loop_def shift_def)
  ultimately show ?thesis by blast
qed

lemma content_step:
  assumes "raw_loop p" and "stack p = 20 # 39 # 17 # st"
  shows "\<exists>q. parse_step src p = Inr (Continue q) \<and> raw_loop q"
proof -
  from assms obtain t b vs where v: "vstack p = SText t # SStmts b # vs" "symbol p = None" "lexer_stuck (lexer_state p)"
    by (auto simp: raw_loop_def split: list.splits sv.splits)
  then obtain l where l: "lexer_lex (lexer_state p) = Inr (T 15, l)" "lexer_stuck l"
    using lexer_lex_stuck by blast
  then show ?thesis
    using assms(2) v
    by (simp add: parse_step_def loop_tables fetch_def reduce_def Let_def performAction_def action_statement_def
        raw_loop_def)
qed

lemma list_step:
  assumes "raw_loop p" and "stack p = 63 # 39 # 17 # st"
  shows "\<exists>q. parse_step src p = Inr (Continue q) \<and> raw_loop q"
proof -
  from assms obtain s b vs where v: "vstack p = SStmt s # SStmts b # vs" "symbol p = Some (T 15)"
    "lexer_stuck (lexer_state p)"
    by (auto simp: raw_loop_def split: list.splits sv.splits)
  then show ?thesis
    using assms(2)
    by (simp add: parse_step_def loop_tables fetch_def reduce_def Let_def performAction_def action_expression_def
        raw_loop_def numeral_2_eq_2)
qed

lemma raw_loop_step: "raw_loop p \<Longrightarrow> \<exists>q. parse_step src p = Inr (Continue q) \<and> raw_loop q"
proof -
  assume p: "raw_loop p"
  then have "(\<exists>st. stack p = 39 # 17 # st) \<or> (\<exists>st. stack p = 20 # 39 # 17 # st) \<or> (\<exists>st. stack p = 63 # 39 # 17 # st)"
    by (auto simp: raw_loop_def take_stack)
  with p show ?thesis
    using shift_step content_step list_step by blast
qed

fun parse_steps :: "nat \<Rightarrow> string option \<Rightarrow> parser \<Rightarrow> parser option" where
  "parse_steps 0 src p = Some p"
| "parse_steps (Suc n) src p = (case parse_step src p of Inr (Continue q) \<Rightarrow> parse_steps n src q | _ \<Rightarrow> None)"

lemma parse_run_steps: "parse_steps n src p = Some q \<Longrightarrow> parse_run src p = parse_run src q"
proof (induction n src p rule: parse_steps.induct)
  case (2 n src p)
  then obtain p' where "parse_step src p = Inr (Continue p')" and "parse_steps n src p' = Some q"
    by (auto split: sum.splits outcome.splits)
  with 2 show ?case
    by (simp add: parse_run.simps [of src p])
qed simp

text \<open>C37: the parser does not return on a raw block that contains the opening of another closing tag
  that is none: rule 5 of the lexer matches the empty text again and again.\<close>

theorem raw_block_hangs:
  "parser_parse None ''{{{{a}}}} {{{{/ }}}}'' = None"
proof -
  have "case parse_steps 13 None (init_parser ''{{{{a}}}} {{{{/ }}}}'') of None \<Rightarrow> False | Some q \<Rightarrow> raw_loop q"
    by code_simp
  then obtain q where "parse_steps 13 None (init_parser ''{{{{a}}}} {{{{/ }}}}'') = Some q" and "raw_loop q"
    by (auto split: option.splits)
  moreover from this(2) have "parse_run None q = None"
    using parse_run_diverges [of raw_loop None q] raw_loop_step by blast
  ultimately show ?thesis
    by (simp add: parser_parse_def parse_run_steps)
qed

text \<open>A block whose only block parameter is written in brackets, \<open>as |[x]|\<close>, makes the parser throw a
  \<open>TypeError\<close>: the action strips the brackets of the list of the names instead of each name.\<close>

lemma bracketed_block_param_throws:
  "parser_parse None ''{{#a as |[x]|}}{{/a}}'' = Some (Inl (type_error ''token.substr is not a function''))"
proof -
  let ?s = "''{{#a as |[x]|}}{{/a}}''"
  have "case parse_steps 12 None (init_parser ?s) of None \<Rightarrow> False
      | Some q \<Rightarrow> parse_step None q = Inl (type_error ''token.substr is not a function'')"
    by code_simp
  then obtain q where "parse_steps 12 None (init_parser ?s) = Some q"
    and "parse_step None q = Inl (type_error ''token.substr is not a function'')"
    by (auto split: option.splits)
  then show ?thesis
    by (simp add: parser_parse_def parse_run_steps parse_run.simps [of None q])
qed

end
