(* ===== verification/HbWhitespace.thy ===== *)
theory HbWhitespace
  imports HbParser
begin

text \<open>
  Module 24 of \<open>handlebars.js\<close>, the pass over a parsed template that removes the whitespace around
  tags with a \<open>~\<close> flag and around tags that stand alone on their line. The pass changes the nodes
  in place; here each function returns the changed list of nodes. An index that the source leaves
  out (or passes as \<open>null\<close>) is \<open>None\<close>.
\<close>

section \<open>The tests and the stripping of one node\<close>

definition item :: "stmt list \<Rightarrow> int \<Rightarrow> stmt option" where
  "item body k = (if 0 \<le> k \<and> k < int (length body) then Some (body ! nat k) else None)"

text \<open>
  \<open>/\r?\n\s*?$/\<close> and, with the flag, \<open>/(^|\r?\n)\s*?$/\<close>; \<open>/^\s*?\r?\n/\<close> and, with the flag,
  \<open>/^\s*?(\r?\n|$)/\<close>.
\<close>

definition ends_blank :: "bool \<Rightarrow> string \<Rightarrow> bool" where
  "ends_blank orStart s \<longleftrightarrow> nl \<in> set (takeWhile is_space (rev s)) \<or> orStart \<and> list_all is_space s"

definition starts_blank :: "bool \<Rightarrow> string \<Rightarrow> bool" where
  "starts_blank orEnd s \<longleftrightarrow> nl \<in> set (takeWhile is_space s) \<or> orEnd \<and> list_all is_space s"

definition isPrevWhitespace :: "stmt list \<Rightarrow> nat option \<Rightarrow> bool \<Rightarrow> bool" where
  "isPrevWhitespace body i isRoot =
     (let k = (case i of None \<Rightarrow> int (length body) | Some j \<Rightarrow> int j);
          sibling = item body (k - 2)
      in case item body (k - 1) of
           None \<Rightarrow> isRoot
         | Some (Content orig _ _ _ _) \<Rightarrow> ends_blank (\<not> (sibling \<noteq> None \<or> \<not> isRoot)) orig
         | Some _ \<Rightarrow> False)"

definition isNextWhitespace :: "stmt list \<Rightarrow> nat option \<Rightarrow> bool \<Rightarrow> bool" where
  "isNextWhitespace body i isRoot =
     (let k = (case i of None \<Rightarrow> -1 | Some j \<Rightarrow> int j);
          sibling = item body (k + 2)
      in case item body (k + 1) of
           None \<Rightarrow> isRoot
         | Some (Content orig _ _ _ _) \<Rightarrow> starts_blank (\<not> (sibling \<noteq> None \<or> \<not> isRoot)) orig
         | Some _ \<Rightarrow> False)"

definition is_blank :: "char \<Rightarrow> bool" where
  "is_blank c \<longleftrightarrow> c = CHR '' '' \<or> c = CHR 0x09"

definition trim_start :: "bool \<Rightarrow> string \<Rightarrow> string" where
  "trim_start multiple v =
     (if multiple then dropWhile is_space v else drop_opt nl (drop_opt cr (dropWhile is_blank v)))"

definition trim_end :: "bool \<Rightarrow> string \<Rightarrow> string" where
  "trim_end multiple v = strip_right (if multiple then is_space else is_blank) v"

definition omitRight :: "stmt list \<Rightarrow> nat option \<Rightarrow> bool \<Rightarrow> stmt list" where
  "omitRight body i multiple =
     (let k = (case i of None \<Rightarrow> 0 | Some j \<Rightarrow> j + 1)
      in case item body (int k) of
           Some (Content orig v rs ls l) \<Rightarrow>
             if \<not> multiple \<and> rs then body
             else body[k := Content orig (trim_start multiple v) (trim_start multiple v \<noteq> v) ls l]
         | _ \<Rightarrow> body)"

text \<open>\<open>omitLeft\<close> also returns whether it removed something.\<close>

definition omitLeft :: "stmt list \<Rightarrow> nat option \<Rightarrow> bool \<Rightarrow> stmt list \<times> bool" where
  "omitLeft body i multiple =
     (let k = (case i of None \<Rightarrow> int (length body) - 1 | Some j \<Rightarrow> int j - 1)
      in case item body k of
           Some (Content orig v rs ls l) \<Rightarrow>
             if \<not> multiple \<and> ls then (body, False)
             else (body[nat k := Content orig (trim_end multiple v) rs (trim_end multiple v \<noteq> v) l],
                   trim_end multiple v \<noteq> v)
         | _ \<Rightarrow> (body, False))"

section \<open>Blocks\<close>

record strip =
  open_s :: bool
  close_s :: bool
  openStandalone :: bool
  closeStandalone :: bool
  inlineStandalone :: bool

fun map_body :: "(stmt list \<Rightarrow> stmt list) \<Rightarrow> program \<Rightarrow> program" where
  "map_body f (Program b bp c l) = Program (f b) bp c l"

text \<open>The property \<open>program\<close> of a node, read and replaced.\<close>

fun stmt_program :: "stmt \<Rightarrow> program option" where
  "stmt_program (Block _ _ _ _ pr _ _ _ _ _) = pr"
| "stmt_program (PartialBlock _ _ _ pr _ _ _) = Some pr"
| "stmt_program _ = None"

fun set_program :: "program \<Rightarrow> stmt \<Rightarrow> stmt" where
  "set_program q (Block d p ps h pr iv os is cs l) = Block d p ps h (Some q) iv os is cs l"
| "set_program q (PartialBlock n ps h pr os cs l) = PartialBlock n ps h q os cs l"
| "set_program q st = st"

definition no_property :: "string \<Rightarrow> exn" where
  "no_property p = type_error (''Cannot read property '' @ p @ '' of undefined'')"

text \<open>
  \<open>firstInverse\<close> as \<open>BlockStatement\<close> computes it from the inverse, and a change of its body.
\<close>

fun first_inverse :: "program \<Rightarrow> program option result" where
  "first_inverse (Program b bp c l) =
     (if \<not> c then Inr (Some (Program b bp c l))
      else case b of [] \<Rightarrow> Inl (no_property ''program'') | st # _ \<Rightarrow> Inr (stmt_program st))"

fun map_first_inverse :: "(stmt list \<Rightarrow> stmt list) \<Rightarrow> program \<Rightarrow> program result" where
  "map_first_inverse f (Program b bp c l) =
     (if \<not> c then Inr (Program (f b) bp c l)
      else case b of
             [] \<Rightarrow> Inl (no_property ''program'')
           | st # sts \<Rightarrow> (case stmt_program st of
                 None \<Rightarrow> Inl (no_property ''body'')
               | Some q \<Rightarrow> Inr (Program (set_program (map_body f q) st # sts) bp c l)))"

lemma stmt_program_size [termination_simp]:
  "b \<noteq> [] \<Longrightarrow> stmt_program (last b) = Some q \<Longrightarrow> size q < Suc (size_list size b)"
proof -
  assume "b \<noteq> []" "stmt_program (last b) = Some q"
  moreover from this have "size q < Suc (size (last b))"
    by (cases "last b") (auto split: option.splits)
  moreover have "size (last b) < Suc (size_list size b)"
    using \<open>b \<noteq> []\<close> by (simp add: less_Suc_eq_le size_list_estimation' [OF last_in_set])
  ultimately show ?thesis by linarith
qed

text \<open>A change of the body of \<open>lastInverse\<close>, the end of the chain of \<open>else\<close> blocks.\<close>

fun map_last_inverse :: "(stmt list \<Rightarrow> stmt list) \<Rightarrow> program \<Rightarrow> program result" where
  "map_last_inverse f (Program b bp c l) =
     (if \<not> c then Inr (Program (f b) bp c l)
      else if b = [] then Inl (no_property ''program'')
      else case stmt_program (last b) of
             None \<Rightarrow> Inl (no_property ''chained'')
           | Some q \<Rightarrow> bindR (map_last_inverse f q) (\<lambda>q'.
               Inr (Program (butlast b @ [set_program q' (last b)]) bp c l)))"

text \<open>
  The part of \<open>BlockStatement\<close> after its two programs have been visited: the changed programs and
  the flags for the parent. \<open>main\<close> is the source's \<open>block.program || block.inverse\<close>.
\<close>

definition if_do :: "bool \<Rightarrow> ('a \<Rightarrow> 'a) \<Rightarrow> 'a \<Rightarrow> 'a" where
  "if_do b f x = (if b then f x else x)"

definition strip_main :: "bool \<Rightarrow> strip_flags \<Rightarrow> strip_flags \<Rightarrow> program
    \<Rightarrow> (program \<times> strip) result" where
  "strip_main ignoreStandalone os cs main =
     (let b = program_body main;
          st = \<lparr>open_s = strip_open os, close_s = strip_close cs,
                openStandalone = isNextWhitespace b None False,
                closeStandalone = isPrevWhitespace b None False, inlineStandalone = False\<rparr>;
          b = if_do (strip_close os) (\<lambda>b. omitRight b None True) b;
          b = if_do (strip_open cs) (\<lambda>b. fst (omitLeft b None True)) b
      in Inr (map_body (\<lambda>_. b) main, st))"

text \<open>The test for an \<open>else\<close> that stands alone on its line.\<close>

definition standalone_else :: "bool \<Rightarrow> stmt list \<Rightarrow> program \<Rightarrow> (stmt list \<times> program) result" where
  "standalone_else ignoreStandalone b inve =
     (if \<not> ignoreStandalone \<and> isPrevWhitespace b None False then
        bindR (first_inverse inve) (\<lambda>f.
          case f of
            None \<Rightarrow> Inl (no_property ''body'')
          | Some f \<Rightarrow>
              if isNextWhitespace (program_body f) None False then
                bindR (map_first_inverse (\<lambda>b. omitRight b None False) inve) (\<lambda>inve.
                  Inr (fst (omitLeft b None False), inve))
              else Inr (b, inve))
      else Inr (b, inve))"

definition strip_inverse :: "bool \<Rightarrow> strip_flags \<Rightarrow> strip_flags option \<Rightarrow> strip_flags \<Rightarrow> program
    \<Rightarrow> program \<Rightarrow> (program \<times> program \<times> strip) result" where
  "strip_inverse ignoreStandalone os is cs main inve =
     bindR (first_inverse inve) (\<lambda>firstInverse.
     bindR (map_last_inverse (\<lambda>b. b) inve) (\<lambda>_.
     let b = program_body main;
         fb = program_body (case firstInverse of None \<Rightarrow> main | Some f \<Rightarrow> f);
         st = \<lparr>open_s = strip_open os, close_s = strip_close cs,
               openStandalone = isNextWhitespace b None False,
               closeStandalone = isPrevWhitespace fb None False, inlineStandalone = False\<rparr>;
         b = if_do (strip_close os) (\<lambda>b. omitRight b None True) b
     in case is of
          None \<Rightarrow> Inl (no_property ''open'')
        | Some istr \<Rightarrow>
            let b = if_do (strip_open istr) (\<lambda>b. fst (omitLeft b None True)) b
            in bindR (if strip_close istr then map_first_inverse (\<lambda>b. omitRight b None True) inve
                      else Inr inve) (\<lambda>inve.
               bindR (if strip_open cs then map_last_inverse (\<lambda>b. fst (omitLeft b None True)) inve
                      else Inr inve) (\<lambda>inve.
               bindR (standalone_else ignoreStandalone b inve) (\<lambda>(b, inve).
               Inr (map_body (\<lambda>_. b) main, inve, st))))))"

definition strip_block :: "bool \<Rightarrow> strip_flags \<Rightarrow> strip_flags option \<Rightarrow> strip_flags option
    \<Rightarrow> program option \<Rightarrow> program option \<Rightarrow> (program option \<times> program option \<times> strip) result" where
  "strip_block ignoreStandalone os is cs pr iv =
     (case pr of
        None \<Rightarrow>
          (case iv of
             None \<Rightarrow> Inl (no_property ''body'')
           | Some main \<Rightarrow> (case cs of
               None \<Rightarrow> Inl (no_property ''close'')
             | Some cs \<Rightarrow> bindR (strip_main ignoreStandalone os cs main) (\<lambda>(m, st). Inr (None, Some m, st))))
      | Some main \<Rightarrow>
          (case cs of
             None \<Rightarrow> Inl (no_property ''close'')
           | Some cs \<Rightarrow> (case iv of
               None \<Rightarrow> bindR (strip_main ignoreStandalone os cs main) (\<lambda>(m, st). Inr (Some m, None, st))
             | Some inve \<Rightarrow> bindR (strip_inverse ignoreStandalone os is cs main inve)
                 (\<lambda>(m, i, st). Inr (Some m, Some i, st)))))"

section \<open>Programs\<close>

text \<open>
  \<open>/([ \t]+$)/.exec(s)[1]\<close>: \<open>exec\<close> yields \<open>null\<close> where nothing matches, and reading its property
  throws.
\<close>

definition final_indent :: "string \<Rightarrow> string result" where
  "final_indent s =
     (let w = rev (takeWhile is_blank (rev s))
      in if w = [] then Inl (type_error ''Cannot read property 1 of null'') else Inr w)"

fun content_original :: "stmt \<Rightarrow> string" where
  "content_original (Content orig _ _ _ _) = orig"
| "content_original _ = []"

text \<open>The standalone steps of \<open>Program\<close> on its statement \<open>i\<close>.\<close>

definition inline_step :: "stmt list \<Rightarrow> nat \<Rightarrow> stmt list result" where
  "inline_step body i =
     (let (b, omitted) = omitLeft (omitRight body (Some i) False) (Some i) False
      in if omitted then
           (case b ! i of
              Partial n ps h indent s l \<Rightarrow>
                bindR (final_indent (content_original (b ! (i - 1)))) (\<lambda>w.
                  Inr (b[i := Partial n ps h w s l]))
            | _ \<Rightarrow> Inr b)
         else Inr b)"

fun map_opened :: "(stmt list \<Rightarrow> stmt list) \<Rightarrow> stmt \<Rightarrow> stmt result" where
  "map_opened f (Block d p ps h (Some pr) iv os is cs l) =
     Inr (Block d p ps h (Some (map_body f pr)) iv os is cs l)"
| "map_opened f (Block d p ps h None (Some iv) os is cs l) =
     Inr (Block d p ps h None (Some (map_body f iv)) os is cs l)"
| "map_opened f (PartialBlock n ps h pr os cs l) = Inr (PartialBlock n ps h (map_body f pr) os cs l)"
| "map_opened f _ = Inl (no_property ''body'')"

fun map_closed :: "(stmt list \<Rightarrow> stmt list) \<Rightarrow> stmt \<Rightarrow> stmt result" where
  "map_closed f (Block d p ps h pr (Some iv) os is cs l) =
     Inr (Block d p ps h pr (Some (map_body f iv)) os is cs l)"
| "map_closed f (Block d p ps h (Some pr) None os is cs l) =
     Inr (Block d p ps h (Some (map_body f pr)) None os is cs l)"
| "map_closed f (PartialBlock n ps h pr os cs l) = Inr (PartialBlock n ps h (map_body f pr) os cs l)"
| "map_closed f _ = Inl (no_property ''body'')"

definition open_step :: "stmt list \<Rightarrow> nat \<Rightarrow> stmt list result" where
  "open_step body i =
     bindR (map_opened (\<lambda>b. omitRight b None False) (body ! i)) (\<lambda>cur.
       Inr (fst (omitLeft (body[i := cur]) (Some i) False)))"

definition close_step :: "stmt list \<Rightarrow> nat \<Rightarrow> stmt list result" where
  "close_step body i =
     (let b = omitRight body (Some i) False
      in bindR (map_closed (\<lambda>b. fst (omitLeft b None False)) (b ! i)) (\<lambda>cur. Inr (b[i := cur])))"

definition if_doR :: "bool \<Rightarrow> ('a \<Rightarrow> 'a result) \<Rightarrow> 'a \<Rightarrow> 'a result" where
  "if_doR c f x = (if c then f x else Inr x)"

definition program_step :: "bool \<Rightarrow> bool \<Rightarrow> stmt list \<Rightarrow> nat \<Rightarrow> strip \<Rightarrow> stmt list result" where
  "program_step ignoreStandalone isRoot body i s =
     (let prevW = isPrevWhitespace body (Some i) isRoot;
          nextW = isNextWhitespace body (Some i) isRoot;
          b = if_do (close_s s) (\<lambda>b. omitRight b (Some i) True) body;
          b = if_do (open_s s) (\<lambda>b. fst (omitLeft b (Some i) True)) b
      in bindR (if_doR (\<not> ignoreStandalone \<and> inlineStandalone s \<and> prevW \<and> nextW) (\<lambda>b. inline_step b i) b) (\<lambda>b.
         bindR (if_doR (\<not> ignoreStandalone \<and> openStandalone s \<and> prevW) (\<lambda>b. open_step b i) b) (\<lambda>b.
         if_doR (\<not> ignoreStandalone \<and> closeStandalone s \<and> nextW) (\<lambda>b. close_step b i) b)))"

definition flag_strip :: "bool \<Rightarrow> strip_flags \<Rightarrow> strip" where
  "flag_strip inl f = \<lparr>open_s = strip_open f, close_s = strip_close f, openStandalone = False,
     closeStandalone = False, inlineStandalone = inl\<rparr>"

text \<open>No step changes the number of statements or the size of a later one.\<close>

lemma omitRight_cases:
  obtains "omitRight b i m = b"
  | k orig v rs ls l where "k < length b" and "k = (case i of None \<Rightarrow> 0 | Some j \<Rightarrow> Suc j)"
    and "b ! k = Content orig v rs ls l"
    and "omitRight b i m = b[k := Content orig (trim_start m v) (trim_start m v \<noteq> v) ls l]"
proof -
  define k where "k = (case i of None \<Rightarrow> 0 | Some j \<Rightarrow> Suc j)"
  then have k: "(case i of None \<Rightarrow> 0 | Some j \<Rightarrow> j + 1) = k" by (auto split: option.splits)
  show ?thesis
  proof (cases "item b (int k)")
    case None
    with that(1) show ?thesis by (simp add: omitRight_def k)
  next
    case (Some st)
    then have kl: "k < length b" and st: "b ! k = st" by (auto simp: item_def split: if_splits)
    show ?thesis
    proof (cases "\<exists>orig v rs ls l. st = Content orig v rs ls l \<and> (m \<or> \<not> rs)")
      case True
      then obtain orig v rs ls l where c: "st = Content orig v rs ls l" "m \<or> \<not> rs" by blast
      with Some st have "omitRight b i m = b[k := Content orig (trim_start m v) (trim_start m v \<noteq> v) ls l]"
        by (auto simp: omitRight_def k)
      with that(2) [OF kl k_def] st c(1) show ?thesis by blast
    next
      case False
      with Some that(1) show ?thesis by (cases st) (auto simp: omitRight_def k)
    qed
  qed
qed

lemma omitLeft_cases:
  obtains "omitLeft b i m = (b, False)"
  | k orig v rs ls l where "k < length b" and "Suc k = (case i of None \<Rightarrow> length b | Some j \<Rightarrow> j)"
    and "b ! k = Content orig v rs ls l"
    and "omitLeft b i m = (b[k := Content orig (trim_end m v) rs (trim_end m v \<noteq> v) l], trim_end m v \<noteq> v)"
proof -
  define n where "n = (case i of None \<Rightarrow> length b | Some j \<Rightarrow> j)"
  then have n: "(case i of None \<Rightarrow> int (length b) - 1 | Some j \<Rightarrow> int j - 1) = int n - 1"
    by (auto split: option.splits)
  show ?thesis
  proof (cases "item b (int n - 1)")
    case None
    with that(1) show ?thesis by (simp add: omitLeft_def n)
  next
    case (Some st)
    then obtain k where k: "n = Suc k" "k < length b" and st: "b ! k = st"
      by (cases n) (auto simp: item_def split: if_splits)
    show ?thesis
    proof (cases "\<exists>orig v rs ls l. st = Content orig v rs ls l \<and> (m \<or> \<not> ls)")
      case True
      then obtain orig v rs ls l where c: "st = Content orig v rs ls l" "m \<or> \<not> ls" by blast
      with Some st k have "omitLeft b i m =
          (b[k := Content orig (trim_end m v) rs (trim_end m v \<noteq> v) l], trim_end m v \<noteq> v)"
        by (auto simp: omitLeft_def n)
      with that(2) [OF k(2) k(1) [symmetric, unfolded n_def]] st c(1) show ?thesis by blast
    next
      case False
      with Some that(1) show ?thesis by (cases st) (auto simp: omitLeft_def n)
    qed
  qed
qed

lemma map_same_update: "k < length b \<Longrightarrow> f x = f (b ! k) \<Longrightarrow> map f (b[k := x]) = map f b"
  by (simp add: map_update list_update_same_conv)

lemma size_omitRight [simp]: "map size (omitRight b i m) = map size b"
  by (rule omitRight_cases [of b i m]) (simp_all add: map_same_update)

lemma size_omitLeft [simp]: "map size (fst (omitLeft b i m)) = map size b"
  by (rule omitLeft_cases [of b i m]) (simp_all add: map_same_update)

definition same_tail :: "nat \<Rightarrow> stmt list \<Rightarrow> stmt list \<Rightarrow> bool" where
  "same_tail i b b' \<longleftrightarrow> length b = length b' \<and> drop (Suc i) (map size b) = drop (Suc i) (map size b')"

lemma same_tail_refl: "same_tail i b b"
  by (simp add: same_tail_def)

lemma same_tail_trans: "same_tail i a b \<Longrightarrow> same_tail i b c \<Longrightarrow> same_tail i a c"
  by (simp add: same_tail_def)

lemma same_tail_map: "map size b = map size b' \<Longrightarrow> same_tail i b b'"
  by (metis length_map same_tail_def)

lemma same_tail_update: "same_tail i b (b[i := x])"
  by (simp add: same_tail_def map_update)

lemma omitLeft_pair: "omitLeft b i m = (b', om) \<Longrightarrow> b' = fst (omitLeft b i m)"
  by simp

lemmas same_tail_steps = same_tail_map [OF size_omitRight [symmetric]]
  same_tail_map [OF size_omitLeft [symmetric]] same_tail_update same_tail_refl

lemma inline_step_tail: "inline_step b i = Inr b' \<Longrightarrow> same_tail i b b'"
proof -
  assume a: "inline_step b i = Inr b'"
  obtain c om where c: "omitLeft (omitRight b (Some i) False) (Some i) False = (c, om)" by fastforce
  have bc: "same_tail i b c"
    using same_tail_trans [OF same_tail_steps(1) [of i b "Some i" False] same_tail_steps(2)] c
    by (metis fst_conv)
  from a c have "b' = c \<or> (\<exists>x. b' = c[i := x])"
    by (auto simp: inline_step_def split: if_splits stmt.splits)
  then show ?thesis using bc same_tail_trans same_tail_update by blast
qed

lemma open_step_tail: "open_step b i = Inr b' \<Longrightarrow> same_tail i b b'"
  by (auto simp: open_step_def intro: same_tail_trans [OF same_tail_steps(3) same_tail_steps(2)])

lemma close_step_tail: "close_step b i = Inr b' \<Longrightarrow> same_tail i b b'"
  by (auto simp: close_step_def Let_def intro: same_tail_trans [OF same_tail_steps(1) same_tail_steps(3)])

lemma if_do_tail: "(\<And>b. same_tail i b (f b)) \<Longrightarrow> same_tail i b (if_do c f b)"
  by (simp add: if_do_def same_tail_refl)

lemma if_doR_tail: "if_doR c f b = Inr b' \<Longrightarrow> (\<And>b'. f b = Inr b' \<Longrightarrow> same_tail i b b') \<Longrightarrow> same_tail i b b'"
  by (auto simp: if_doR_def same_tail_refl split: if_splits)

lemma program_step_tail: "program_step ig r b i s = Inr b' \<Longrightarrow> same_tail i b b'"
proof -
  assume a: "program_step ig r b i s = Inr b'"
  let ?b1 = "if_do (close_s s) (\<lambda>b. omitRight b (Some i) True) b"
  let ?b2 = "if_do (open_s s) (\<lambda>b. fst (omitLeft b (Some i) True)) ?b1"
  have 1: "same_tail i b ?b2"
    by (rule same_tail_trans [OF if_do_tail if_do_tail]) (rule same_tail_steps)+
  from a obtain b3 b4 where "if_doR (\<not> ig \<and> inlineStandalone s \<and> isPrevWhitespace b (Some i) r
      \<and> isNextWhitespace b (Some i) r) (\<lambda>b. inline_step b i) ?b2 = Inr b3"
    and "if_doR (\<not> ig \<and> openStandalone s \<and> isPrevWhitespace b (Some i) r) (\<lambda>b. open_step b i) b3 = Inr b4"
    and "if_doR (\<not> ig \<and> closeStandalone s \<and> isNextWhitespace b (Some i) r) (\<lambda>b. close_step b i) b4 = Inr b'"
    by (auto simp: program_step_def Let_def)
  then have "same_tail i ?b2 b3" "same_tail i b3 b4" "same_tail i b4 b'"
    by (blast intro: if_doR_tail inline_step_tail open_step_tail close_step_tail)+
  with 1 show ?thesis by (blast intro: same_tail_trans)
qed

lemma size_list_map: "size_list size b = sum_list (map size b) + length b"
  by (simp add: size_list_conv_sum_list)

lemma same_tail_size: "same_tail i b b' \<Longrightarrow>
    size_list size (drop (Suc i) b') = size_list size (drop (Suc i) b)"
  by (simp add: same_tail_def size_list_map drop_map)

lemma size_drop: "i < length b \<Longrightarrow> size_list size (drop i b) = Suc (size (b ! i) + size_list size (drop (Suc i) b))"
  by (simp add: Cons_nth_drop_Suc [symmetric])

lemma program_step_size: "program_step ig r (b[i := x]) i s = Inr b' \<Longrightarrow>
    size_list size (drop (Suc i) b') = size_list size (drop (Suc i) b)"
  using program_step_tail same_tail_trans same_tail_update same_tail_size by blast

text \<open>
  The visitor on programs and statements. Only the first program it meets is the root.
\<close>

function wc_program :: "bool \<Rightarrow> bool \<Rightarrow> program \<Rightarrow> program result"
  and wc_loop :: "bool \<Rightarrow> bool \<Rightarrow> stmt list \<Rightarrow> nat \<Rightarrow> stmt list result"
  and wc_option :: "bool \<Rightarrow> program option \<Rightarrow> program option result"
  and wc_accept :: "bool \<Rightarrow> stmt \<Rightarrow> (stmt \<times> strip option) result" where
  "wc_program ig isRoot (Program b bp c l) =
     bindR (wc_loop ig isRoot b 0) (\<lambda>b'. Inr (Program b' bp c l))"
| "wc_loop ig isRoot b i =
     (if i < length b then
        bindR (wc_accept ig (b ! i)) (\<lambda>(cur, st).
          case st of
            None \<Rightarrow> wc_loop ig isRoot (b[i := cur]) (Suc i)
          | Some s \<Rightarrow> bindR (program_step ig isRoot (b[i := cur]) i s) (\<lambda>b'. wc_loop ig isRoot b' (Suc i)))
      else Inr b)"
| "wc_option ig None = Inr None"
| "wc_option ig (Some q) = bindR (wc_program ig False q) (\<lambda>q'. Inr (Some q'))"
| "wc_accept ig (Mustache d p ps h e s l) = Inr (Mustache d p ps h e s l, Some (flag_strip False s))"
| "wc_accept ig (Partial n ps h ind s l) = Inr (Partial n ps h ind s l, Some (flag_strip True s))"
| "wc_accept ig (Comment t s l) = Inr (Comment t s l, Some (flag_strip True s))"
| "wc_accept ig (Content orig v rs ls l) = Inr (Content orig v rs ls l, None)"
| "wc_accept ig (Block d p ps h pr iv os is cs l) =
     bindR (wc_option ig pr) (\<lambda>pr. bindR (wc_option ig iv) (\<lambda>iv.
     bindR (strip_block ig os is cs pr iv) (\<lambda>(pr, iv, s).
       Inr (Block d p ps h pr iv os is cs l, Some s))))"
| "wc_accept ig (PartialBlock n ps h pr os cs l) =
     bindR (wc_program ig False pr) (\<lambda>pr.
     case cs of
       None \<Rightarrow> Inl (no_property ''close'')
     | Some c \<Rightarrow> bindR (strip_main ig os c pr) (\<lambda>(pr, s). Inr (PartialBlock n ps h pr os cs l, Some s)))"
  by pat_completeness auto

termination
  by (relation "measure (\<lambda>x. case x of
      Inl (Inl (_, _, p)) \<Rightarrow> 2 * size p
    | Inl (Inr (_, _, b, i)) \<Rightarrow> 2 * size_list size (drop i b) + 1
    | Inr (Inl (_, p)) \<Rightarrow> 2 * size_option size p
    | Inr (Inr (_, st)) \<Rightarrow> 2 * size st + 1)")
    (auto simp: size_drop dest: program_step_size)

definition whitespace_control :: "bool \<Rightarrow> program \<Rightarrow> program result" where
  "whitespace_control ignoreStandalone p = wc_program ignoreStandalone True p"

section \<open>What the pass keeps\<close>

text \<open>
  The skeleton of a program is the program without what the pass may change: the values and flags
  of its content statements and the indentation of its partials. Its contents are the original
  text and the value of every content statement, in order.
\<close>

fun stmt_skeleton :: "stmt \<Rightarrow> stmt" and program_skeleton :: "program \<Rightarrow> program" where
  "stmt_skeleton (Content orig v rs ls l) = Content orig [] False False l"
| "stmt_skeleton (Partial n ps h ind s l) = Partial n ps h [] s l"
| "stmt_skeleton (Block d p ps h pr iv os is cs l) =
     Block d p ps h (map_option program_skeleton pr) (map_option program_skeleton iv) os is cs l"
| "stmt_skeleton (PartialBlock n ps h pr os cs l) = PartialBlock n ps h (program_skeleton pr) os cs l"
| "stmt_skeleton (Mustache d p ps h e s l) = Mustache d p ps h e s l"
| "stmt_skeleton (Comment t s l) = Comment t s l"
| "program_skeleton (Program b bp c l) = Program (map stmt_skeleton b) bp c l"

fun stmt_contents :: "stmt \<Rightarrow> (string \<times> string) list"
  and program_contents :: "program \<Rightarrow> (string \<times> string) list" where
  "stmt_contents (Content orig v rs ls l) = [(orig, v)]"
| "stmt_contents (Block d p ps h pr iv os is cs l) =
     (case pr of None \<Rightarrow> [] | Some q \<Rightarrow> program_contents q)
     @ (case iv of None \<Rightarrow> [] | Some q \<Rightarrow> program_contents q)"
| "stmt_contents (PartialBlock n ps h pr os cs l) = program_contents pr"
| "stmt_contents _ = []"
| "program_contents (Program b bp c l) = concat (map stmt_contents b)"

definition stmt_le :: "(string \<times> string \<Rightarrow> string \<times> string \<Rightarrow> bool) \<Rightarrow> stmt \<Rightarrow> stmt \<Rightarrow> bool" where
  "stmt_le R x y \<longleftrightarrow> stmt_skeleton x = stmt_skeleton y \<and> list_all2 R (stmt_contents x) (stmt_contents y)"

definition program_le :: "(string \<times> string \<Rightarrow> string \<times> string \<Rightarrow> bool) \<Rightarrow> program \<Rightarrow> program \<Rightarrow> bool" where
  "program_le R p q \<longleftrightarrow>
     program_skeleton p = program_skeleton q \<and> list_all2 R (program_contents p) (program_contents q)"

text \<open>A relation on pairs of original text and value that every trimming of a value respects.\<close>

locale trimming =
  fixes R :: "string \<times> string \<Rightarrow> string \<times> string \<Rightarrow> bool"
  assumes R_refl: "R x x"
    and R_trans: "R x y \<Longrightarrow> R y z \<Longrightarrow> R x z"
    and R_start: "R (orig, v) (orig, trim_start m v)"
    and R_end: "R (orig, v) (orig, trim_end m v)"
begin

lemma all2_refl: "list_all2 R xs xs"
  by (simp add: list.rel_refl R_refl)

lemma all2_trans: "list_all2 R xs ys \<Longrightarrow> list_all2 R ys zs \<Longrightarrow> list_all2 R xs zs"
  using list_all2_trans [of R R R] R_trans by blast

lemma stmt_refl: "stmt_le R x x"
  by (simp add: stmt_le_def all2_refl)

lemma stmt_trans: "stmt_le R x y \<Longrightarrow> stmt_le R y z \<Longrightarrow> stmt_le R x z"
  by (auto simp: stmt_le_def intro: all2_trans)

lemma program_refl: "program_le R p p"
  by (simp add: program_le_def all2_refl)

lemma program_trans: "program_le R p q \<Longrightarrow> program_le R q r \<Longrightarrow> program_le R p r"
  by (auto simp: program_le_def intro: all2_trans)

abbreviation "body_le \<equiv> list_all2 (stmt_le R)"

lemma body_refl: "body_le b b"
  by (simp add: list.rel_refl stmt_refl)

lemma body_trans: "body_le a b \<Longrightarrow> body_le b c \<Longrightarrow> body_le a c"
  using list_all2_trans [of "stmt_le R" "stmt_le R" "stmt_le R"] stmt_trans by blast

lemma body_update: "k < length b \<Longrightarrow> stmt_le R (b ! k) x \<Longrightarrow> body_le b (b[k := x])"
  by (auto simp: list_all2_conv_all_nth nth_list_update stmt_refl)

lemma body_program: "body_le b b' \<Longrightarrow> program_le R (Program b bp c l) (Program b' bp c l)"
  by (induction rule: list_all2_induct) (auto simp: program_le_def stmt_le_def intro: list_all2_appendI)

lemma block_le: "rel_option (program_le R) pr pr' \<Longrightarrow> rel_option (program_le R) iv iv' \<Longrightarrow>
    stmt_le R (Block d p ps h pr iv os is cs l) (Block d p ps h pr' iv' os is cs l)"
  by (cases pr; cases pr'; cases iv; cases iv') (auto simp: stmt_le_def program_le_def intro: list_all2_appendI)

lemma partial_block_le: "program_le R pr pr' \<Longrightarrow>
    stmt_le R (PartialBlock n ps h pr os cs l) (PartialBlock n ps h pr' os cs l)"
  by (simp add: stmt_le_def program_le_def)

lemma content_start: "stmt_le R (Content orig v rs ls l) (Content orig (trim_start m v) rs' ls' l)"
  by (simp add: stmt_le_def R_start)

lemma content_end: "stmt_le R (Content orig v rs ls l) (Content orig (trim_end m v) rs' ls' l)"
  by (simp add: stmt_le_def R_end)

lemma omitRight_le: "body_le b (omitRight b i m)"
proof (cases rule: omitRight_cases [of b i m])
  case 1
  then show ?thesis by (simp add: body_refl)
next
  case (2 k orig v rs ls l)
  with content_start [of orig v rs ls l m] show ?thesis by (simp add: body_update)
qed

lemma omitLeft_le: "body_le b (fst (omitLeft b i m))"
proof (cases rule: omitLeft_cases [of b i m])
  case 1
  then show ?thesis by (simp add: body_refl)
next
  case (2 k orig v rs ls l)
  with content_end [of orig v rs ls l m] show ?thesis by (simp add: body_update)
qed

lemma omitLeft_le': "omitLeft b i m = (b', om) \<Longrightarrow> body_le b b'"
  using omitLeft_le [of b i m] by simp

lemma if_do_le: "(\<And>b. body_le b (f b)) \<Longrightarrow> body_le b (if_do c f b)"
  by (simp add: if_do_def body_refl)

lemma map_body_le: "body_le (program_body p) (f (program_body p)) \<Longrightarrow> program_le R p (map_body f p)"
  by (cases p) (simp add: body_program)

lemma set_program_le: "stmt_program st = Some q \<Longrightarrow> program_le R q q' \<Longrightarrow> stmt_le R st (set_program q' st)"
  by (cases st) (auto intro!: block_le partial_block_le simp: option.rel_refl program_refl)

lemma map_first_inverse_le:
  "(\<And>b. body_le b (f b)) \<Longrightarrow> map_first_inverse f p = Inr q \<Longrightarrow> program_le R p q"
  by (cases p) (auto split: if_splits list.splits option.splits
      intro!: body_program set_program_le map_body_le body_refl)

lemma map_last_inverse_le:
  "map_last_inverse f p = Inr q \<Longrightarrow> (\<And>b. body_le b (f b)) \<Longrightarrow> program_le R p q"
proof (induction f p arbitrary: q rule: map_last_inverse.induct)
  case (1 f b bp c l)
  show ?case
  proof (cases c)
    case False
    with 1 show ?thesis by (auto intro: body_program)
  next
    case True
    with 1 obtain st q' where b: "b = butlast b @ [last b]" "b \<noteq> []" "stmt_program (last b) = Some st"
      and q': "map_last_inverse f st = Inr q'" and q: "q = Program (butlast b @ [set_program q' (last b)]) bp c l"
      by (auto split: if_splits option.splits)
    have "program_le R st q'" using 1(1) True b q' 1(3) by auto
    with b(3) have "body_le (butlast b @ [last b]) (butlast b @ [set_program q' (last b)])"
      by (intro list_all2_appendI) (auto simp: body_refl set_program_le)
    with b(1) q show ?thesis by (metis body_program)
  qed
qed

end

lemma map_body_const: "map_body (\<lambda>_. f (program_body p)) p = map_body f p"
  by (cases p) simp

context trimming
begin

lemma main_le: "body_le (program_body p) b \<Longrightarrow> program_le R p (map_body (\<lambda>_. b) p)"
  by (rule map_body_le)

lemma strip_main_le: "strip_main ig os cs p = Inr (p', st) \<Longrightarrow> program_le R p p'"
  by (auto simp: strip_main_def Let_def
      intro!: main_le body_trans [OF if_do_le if_do_le] omitRight_le omitLeft_le)

lemma first_le:
  "(if c then map_first_inverse (\<lambda>b. omitRight b None m) p else Inr p) = Inr q \<Longrightarrow> program_le R p q"
  by (auto simp: program_refl split: if_splits intro: map_first_inverse_le omitRight_le)

lemma last_le:
  "(if c then map_last_inverse (\<lambda>b. fst (omitLeft b None m)) p else Inr p) = Inr q \<Longrightarrow> program_le R p q"
  by (auto simp: program_refl split: if_splits intro: map_last_inverse_le omitLeft_le)

lemma standalone_else_le:
  "standalone_else ig b i = Inr (b', i') \<Longrightarrow> body_le b b' \<and> program_le R i i'"
  by (auto simp: standalone_else_def program_refl body_refl omitLeft_le split: if_splits option.splits
      intro: map_first_inverse_le [OF omitRight_le])

lemma option_trans:
  "rel_option (program_le R) x y \<Longrightarrow> rel_option (program_le R) y z \<Longrightarrow> rel_option (program_le R) x z"
  by (auto simp: option_rel_Some1 option_rel_Some2 elim!: option.rel_cases intro: program_trans)

lemma strip_inverse_le:
  assumes "strip_inverse ig os is cs p i = Inr (p', i', st)"
  shows "program_le R p p' \<and> program_le R i i'"
proof -
  from assms obtain istr where istr: "is = Some istr"
    by (auto simp: strip_inverse_def Let_def split: option.splits)
  define b where "b = if_do (strip_open istr) (\<lambda>b. fst (omitLeft b None True))
    (if_do (strip_close os) (\<lambda>b. omitRight b None True) (program_body p))"
  have b: "body_le (program_body p) b"
    unfolding b_def by (intro body_trans [OF if_do_le if_do_le] omitRight_le omitLeft_le)
  from assms istr obtain i1 i2 b' where
    i1: "(if strip_close istr then map_first_inverse (\<lambda>b. omitRight b None True) i else Inr i) = Inr i1" and
    i2: "(if strip_open cs then map_last_inverse (\<lambda>b. fst (omitLeft b None True)) i1 else Inr i1) = Inr i2" and
    i3: "standalone_else ig b i2 = Inr (b', i')" and p': "p' = map_body (\<lambda>_. b') p"
    unfolding strip_inverse_def Let_def b_def by (auto split: option.split_asm)
  from standalone_else_le [OF i3] b have "body_le (program_body p) b'" "program_le R i2 i'"
    by (auto intro: body_trans)
  then show ?thesis
    unfolding p' using first_le [OF i1] last_le [OF i2] main_le program_trans by blast
qed

lemma strip_block_le:
  "strip_block ig os is cs pr iv = Inr (pr', iv', st) \<Longrightarrow>
     rel_option (program_le R) pr pr' \<and> rel_option (program_le R) iv iv'"
  by (auto simp: strip_block_def split: option.splits dest: strip_main_le strip_inverse_le)

lemma map_opened_le:
  "map_opened f st = Inr st' \<Longrightarrow> (\<And>b. body_le b (f b)) \<Longrightarrow> stmt_le R st st'"
  by (induction f st rule: map_opened.induct)
    (auto intro!: block_le partial_block_le map_body_le simp: option.rel_refl program_refl)

lemma map_closed_le:
  "map_closed f st = Inr st' \<Longrightarrow> (\<And>b. body_le b (f b)) \<Longrightarrow> stmt_le R st st'"
  by (induction f st rule: map_closed.induct)
    (auto intro!: block_le partial_block_le map_body_le simp: option.rel_refl program_refl)

lemma open_step_le:
  assumes "open_step b i = Inr b'" "i < length b"
  shows "body_le b b'"
proof -
  from assms obtain cur where "map_opened (\<lambda>b. omitRight b None False) (b ! i) = Inr cur"
    and b': "b' = fst (omitLeft (b[i := cur]) (Some i) False)" by (auto simp: open_step_def)
  then have "stmt_le R (b ! i) cur" by (blast intro: map_opened_le omitRight_le)
  then show ?thesis unfolding b' using assms(2) by (blast intro: body_trans body_update omitLeft_le)
qed

lemma body_length: "body_le b b' \<Longrightarrow> length b = length b'"
  by (simp add: list_all2_lengthD)

lemma close_step_le:
  assumes "close_step b i = Inr b'" "i < length b"
  shows "body_le b b'"
proof -
  let ?b = "omitRight b (Some i) False"
  from assms obtain cur where "map_closed (\<lambda>b. fst (omitLeft b None False)) (?b ! i) = Inr cur"
    and b': "b' = ?b[i := cur]" by (auto simp: close_step_def Let_def)
  then have "stmt_le R (?b ! i) cur" by (blast intro: map_closed_le omitLeft_le)
  moreover have "body_le b ?b" by (rule omitRight_le)
  moreover from this have "i < length ?b" using assms(2) by (simp add: body_length)
  ultimately show ?thesis unfolding b' by (blast intro: body_trans body_update)
qed

lemma inline_step_le:
  assumes "inline_step b i = Inr b'" "i < length b"
  shows "body_le b b'"
proof -
  obtain c om where c: "omitLeft (omitRight b (Some i) False) (Some i) False = (c, om)" by fastforce
  have bc: "body_le b c" using c omitLeft_le' omitRight_le body_trans by blast
  then have i: "i < length c" using assms(2) by (simp add: body_length)
  have partial: "stmt_le R (Partial n ps h ind s l) (Partial n ps h ind' s l)" for n ps h ind ind' s l
    by (simp add: stmt_le_def)
  from assms(1) c have "b' = c \<or> (\<exists>n ps h ind s l w. c ! i = Partial n ps h ind s l \<and> b' = c[i := Partial n ps h w s l])"
    by (auto simp: inline_step_def split: if_splits stmt.splits)
  then have "body_le c b'" using i partial by (auto simp: body_refl intro: body_update)
  with bc show ?thesis by (rule body_trans)
qed

lemma if_doR_le: "if_doR c f b = Inr b' \<Longrightarrow> (\<And>b'. f b = Inr b' \<Longrightarrow> body_le b b') \<Longrightarrow> body_le b b'"
  by (auto simp: if_doR_def body_refl split: if_splits)

lemma program_step_le:
  assumes "program_step ig r b i s = Inr b'" "i < length b"
  shows "body_le b b'"
proof -
  let ?b2 = "if_do (open_s s) (\<lambda>b. fst (omitLeft b (Some i) True))
    (if_do (close_s s) (\<lambda>b. omitRight b (Some i) True) b)"
  have 1: "body_le b ?b2" by (intro body_trans [OF if_do_le if_do_le] omitRight_le omitLeft_le)
  then have i2: "i < length ?b2" using assms(2) by (simp add: body_length)
  from assms obtain b3 b4 c3 c4 c5 where 3: "if_doR c3 (\<lambda>b. inline_step b i) ?b2 = Inr b3"
    and 4: "if_doR c4 (\<lambda>b. open_step b i) b3 = Inr b4"
    and 5: "if_doR c5 (\<lambda>b. close_step b i) b4 = Inr b'"
    unfolding program_step_def Let_def by blast
  have le3: "body_le ?b2 b3" by (rule if_doR_le [OF 3]) (rule inline_step_le [OF _ i2])
  then have i3: "i < length b3" using i2 by (simp add: body_length)
  have le4: "body_le b3 b4" by (rule if_doR_le [OF 4]) (rule open_step_le [OF _ i3])
  then have i4: "i < length b4" using i3 by (simp add: body_length)
  have "body_le b4 b'" by (rule if_doR_le [OF 5]) (rule close_step_le [OF _ i4])
  with 1 le3 le4 show ?thesis by (blast intro: body_trans)
qed

lemma pass_le:
  "wc_program ig r p = Inr p' \<Longrightarrow> program_le R p p'"
  "wc_loop ig r b i = Inr b' \<Longrightarrow> body_le b b'"
  "wc_option ig po = Inr po' \<Longrightarrow> rel_option (program_le R) po po'"
  "wc_accept ig st = Inr (st', s) \<Longrightarrow> stmt_le R st st'"
proof (induction ig r p and ig r b i and ig po and ig st arbitrary: p' and b' and po' and st' s
    rule: wc_program_wc_loop_wc_option_wc_accept.induct)
  case (2 ig r b i)
  show ?case
  proof (cases "i < length b")
    case True
    with 2 obtain cur so where acc: "wc_accept ig (b ! i) = Inr (cur, so)" by auto
    have 1: "body_le b (b[i := cur])" using 2(1) [OF True acc] body_update True by blast
    show ?thesis
    proof (cases so)
      case None
      with 2(4) acc True have "wc_loop ig r (b[i := cur]) (Suc i) = Inr b'"
        by (subst (asm) wc_loop.simps) simp
      with 2(2) [OF True acc refl None] 1 show ?thesis by (blast intro: body_trans)
    next
      case (Some s)
      with 2(4) acc True obtain c where c: "program_step ig r (b[i := cur]) i s = Inr c"
        and rest: "wc_loop ig r c (Suc i) = Inr b'"
        by (subst (asm) wc_loop.simps) auto
      from 2(3) [OF True acc refl Some c rest] program_step_le [OF c] True 1 show ?thesis
        by (auto intro: body_trans)
    qed
  next
    case False
    with 2(4) show ?thesis by (subst (asm) wc_loop.simps) (simp add: body_refl)
  qed
next
  case (9 ig d p ps h pr iv os iss cs l)
  then show ?case
    by (auto intro!: block_le dest!: strip_block_le intro: option_trans)
qed (auto simp: stmt_refl body_program split: option.splits intro!: partial_block_le
    intro: program_trans [OF _ strip_main_le])

end

text \<open>
  Two such relations. The first: the new value is an infix of the old one, and only whitespace is
  gone. The second: if the old value is an infix of the original text that ends where that text
  ends or else does not end with a blank, the new one is too.
\<close>

definition spaces_gone :: "string \<times> string \<Rightarrow> string \<times> string \<Rightarrow> bool" where
  "spaces_gone x y \<longleftrightarrow> fst x = fst y \<and>
     (\<exists>u w. snd x = u @ snd y @ w \<and> list_all is_space u \<and> list_all is_space w)"

definition end_kept :: "string \<times> string \<Rightarrow> bool" where
  "end_kept x \<longleftrightarrow> (\<exists>u w. fst x = u @ snd x @ w \<and> (w = [] \<or> snd x = [] \<or> \<not> is_blank (last (snd x))))"

lemma blank_space: "is_blank c \<Longrightarrow> is_space c"
  by (auto simp: is_blank_def is_space_def char_in_def)

lemma nl_space: "is_space nl" "is_space cr"
  by (simp_all add: is_space_def char_in_def)

lemma dropWhile_split: "\<exists>u. v = u @ dropWhile P v \<and> list_all P u"
  by (rule exI [of _ "takeWhile P v"]) (auto simp: list_all_iff dest: set_takeWhileD)

lemma drop_opt_split: "\<exists>u. v = u @ drop_opt c v \<and> list_all (\<lambda>d. d = c) u"
  by (cases v) (auto simp: drop_opt_def intro: exI [of _ "[c]"])

lemma trim_start_split: "\<exists>u. v = u @ trim_start m v \<and> list_all is_space u"
proof (cases m)
  case True
  then show ?thesis using dropWhile_split [of v is_space] by (simp add: trim_start_def)
next
  case False
  define v1 v2 where "v1 = dropWhile is_blank v" and "v2 = drop_opt cr v1"
  obtain u1 where 1: "v = u1 @ v1" "list_all is_blank u1"
    using dropWhile_split [of v is_blank] v1_def by blast
  obtain u2 where 2: "v1 = u2 @ v2" "list_all (\<lambda>d. d = cr) u2"
    using drop_opt_split [of v1 cr] v2_def by blast
  obtain u3 where 3: "v2 = u3 @ drop_opt nl v2" "list_all (\<lambda>d. d = nl) u3"
    using drop_opt_split [of v2 nl] by blast
  have "v = (u1 @ u2 @ u3) @ drop_opt nl v2" using 1(1) 2(1) 3(1) by (metis append.assoc)
  moreover have "list_all is_space (u1 @ u2 @ u3)"
    using list.pred_mono_strong [OF 1(2) blank_space] list.pred_mono_strong [OF 2(2), of is_space]
      list.pred_mono_strong [OF 3(2), of is_space] nl_space by simp
  ultimately have "v = (u1 @ u2 @ u3) @ trim_start m v \<and> list_all is_space (u1 @ u2 @ u3)"
    using False unfolding trim_start_def v1_def [symmetric] v2_def [symmetric] if_not_P by simp
  then show ?thesis by (rule exI)
qed

lemma trim_end_split: "\<exists>w. v = trim_end m v @ w \<and> list_all is_space w"
proof -
  obtain w where w: "v = trim_end m v @ w \<and> list_all (if m then is_space else is_blank) w"
    using strip_right_split [of v "if m then is_space else is_blank"] unfolding trim_end_def by (rule exE)
  then have "v = trim_end m v @ w \<and> list_all is_space w"
    by (auto simp only: list_all_iff blank_space split: if_splits)
  then show ?thesis by (rule exI)
qed

lemma trim_end_last: "trim_end m v = [] \<or> \<not> is_blank (last (trim_end m v))"
proof -
  let ?P = "if m then is_space else is_blank"
  have "dropWhile ?P (rev v) = [] \<or> \<not> ?P (hd (dropWhile ?P (rev v)))"
    using hd_dropWhile by blast
  then show ?thesis
    by (auto simp: trim_end_def strip_right_def last_rev dest: blank_space split: if_splits)
qed

lemma spaces_goneI:
  "v = u @ v' @ w \<Longrightarrow> list_all is_space u \<Longrightarrow> list_all is_space w \<Longrightarrow> spaces_gone (orig, v) (orig, v')"
  unfolding spaces_gone_def by auto

lemma spaces_gone_trans: "spaces_gone x y \<Longrightarrow> spaces_gone y z \<Longrightarrow> spaces_gone x z"
proof -
  assume "spaces_gone x y" "spaces_gone y z"
  then obtain u w u' w' where f: "fst x = fst y" "fst y = fst z"
    and s: "snd x = u @ snd y @ w" "snd y = u' @ snd z @ w'"
    and l: "list_all is_space u" "list_all is_space w" "list_all is_space u'" "list_all is_space w'"
    unfolding spaces_gone_def by blast
  have "snd x = (u @ u') @ snd z @ (w' @ w)" using s by simp
  with f l show ?thesis unfolding spaces_gone_def by (metis list_all_append)
qed

lemma end_kept_start: "end_kept (orig, v) \<Longrightarrow> end_kept (orig, trim_start m v)"
proof -
  assume "end_kept (orig, v)"
  then obtain u w where o: "orig = u @ v @ w" "w = [] \<or> v = [] \<or> \<not> is_blank (last v)"
    by (auto simp: end_kept_def)
  obtain x where x: "v = x @ trim_start m v" using trim_start_split by blast
  then have "trim_start m v \<noteq> [] \<Longrightarrow> last (trim_start m v) = last v" by (metis last_appendR)
  moreover have "orig = (u @ x) @ trim_start m v @ w" using o(1) x by (metis append.assoc)
  moreover have "v = [] \<Longrightarrow> trim_start m v = []" using x by simp
  ultimately show ?thesis using o(2)
    unfolding end_kept_def fst_conv snd_conv by (intro exI [of _ "u @ x"] exI [of _ w] conjI) auto
qed

lemma end_kept_end: "end_kept (orig, v) \<Longrightarrow> end_kept (orig, trim_end m v)"
proof -
  assume "end_kept (orig, v)"
  then obtain u w where o: "orig = u @ v @ w" by (auto simp: end_kept_def)
  from trim_end_split [of v m] obtain x where "v = trim_end m v @ x" by (elim exE conjE)
  with o have "orig = u @ trim_end m v @ (x @ w)" by (metis append.assoc)
  with trim_end_last [of m v] show ?thesis
    unfolding end_kept_def fst_conv snd_conv by (intro exI [of _ u] exI [of _ "x @ w"] conjI) simp_all
qed

interpretation gone: trimming spaces_gone
proof
  show "spaces_gone x x" for x by (auto simp: spaces_gone_def intro!: exI [of _ "[]"])
  show "spaces_gone x y \<Longrightarrow> spaces_gone y z \<Longrightarrow> spaces_gone x z" for x y z by (rule spaces_gone_trans)
  show "spaces_gone (orig, v) (orig, trim_start m v)" for orig v m
    using trim_start_split [of v m] by (auto intro: spaces_goneI [of _ _ _ "[]"])
  show "spaces_gone (orig, v) (orig, trim_end m v)" for orig v m
    using trim_end_split [of v m] by (auto intro: spaces_goneI [of _ "[]"])
qed

interpretation kept: trimming "\<lambda>x y. end_kept x \<longrightarrow> end_kept y"
  by unfold_locales (auto intro: end_kept_start end_kept_end)

section \<open>The pass does not throw\<close>

text \<open>
  What the parser guarantees of the blocks it builds: a program, the strip flags the pass reads, and
  the blocks of an \<open>else\<close> chain where it follows them.
\<close>

fun chain_ok :: "program \<Rightarrow> bool" where
  "chain_ok (Program b bp c l) \<longleftrightarrow> (c \<longrightarrow> (if b = [] then False else stmt_program (hd b) \<noteq> None \<and>
     (case stmt_program (last b) of None \<Rightarrow> False | Some q \<Rightarrow> chain_ok q)))"

fun stmt_shaped :: "stmt \<Rightarrow> bool" and program_shaped :: "program \<Rightarrow> bool" where
  "stmt_shaped (Block d p ps h pr iv os is cs l) \<longleftrightarrow> cs \<noteq> None \<and> (pr \<noteq> None \<or> iv \<noteq> None)
     \<and> (case pr of None \<Rightarrow> True | Some q \<Rightarrow> program_shaped q)
     \<and> (case iv of None \<Rightarrow> True
        | Some q \<Rightarrow> program_shaped q \<and> (pr \<noteq> None \<longrightarrow> is \<noteq> None \<and> chain_ok q))"
| "stmt_shaped (PartialBlock n ps h pr os cs l) \<longleftrightarrow> cs \<noteq> None \<and> program_shaped pr"
| "stmt_shaped _ \<longleftrightarrow> True"
| "program_shaped (Program b bp c l) \<longleftrightarrow> list_all stmt_shaped b"

fun is_block :: "stmt \<Rightarrow> bool" where
  "is_block (Block _ _ _ _ _ _ _ _ _ _) = True"
| "is_block (PartialBlock _ _ _ _ _ _ _) = True"
| "is_block _ = False"

lemma stmt_program_skeleton: "stmt_program (stmt_skeleton st) = map_option program_skeleton (stmt_program st)"
  by (cases st) simp_all

lemma chain_ok_skeleton: "chain_ok (program_skeleton p) = chain_ok p"
proof (induction p rule: chain_ok.induct)
  case (1 b bp c l)
  show ?case
  proof (cases "c \<and> b \<noteq> []")
    case True
    then have "stmt_program (hd (map stmt_skeleton b)) = map_option program_skeleton (stmt_program (hd b))"
      "stmt_program (last (map stmt_skeleton b)) = map_option program_skeleton (stmt_program (last b))"
      by (simp_all add: hd_map last_map stmt_program_skeleton)
    with 1 True show ?thesis by (auto split: option.splits)
  qed auto
qed

lemma shaped_skeleton:
  "stmt_shaped (stmt_skeleton st) = stmt_shaped st"
  "program_shaped (program_skeleton p) = program_shaped p"
  by (induction st and p rule: stmt_skeleton_program_skeleton.induct)
    (auto simp: chain_ok_skeleton list_all_iff split: option.splits)

lemma is_block_skeleton: "is_block (stmt_skeleton st) = is_block st"
  by (cases st) simp_all

definition stmt_good :: "stmt \<Rightarrow> bool" where
  "stmt_good st \<longleftrightarrow> stmt_shaped st \<and> list_all end_kept (stmt_contents st)"

definition program_good :: "program \<Rightarrow> bool" where
  "program_good p \<longleftrightarrow> program_shaped p \<and> list_all end_kept (program_contents p)"

abbreviation "keptR \<equiv> \<lambda>x y. end_kept x \<longrightarrow> end_kept y"
abbreviation "kept_body \<equiv> list_all2 (stmt_le keptR)"

lemma all2_kept: "list_all2 keptR xs ys \<Longrightarrow> list_all end_kept xs \<Longrightarrow> list_all end_kept ys"
  by (auto simp: list_all2_conv_all_nth list_all_length)

lemma stmt_good_le: "stmt_le keptR x y \<Longrightarrow> stmt_good x \<Longrightarrow> stmt_good y"
  unfolding stmt_le_def stmt_good_def using all2_kept shaped_skeleton(1) by metis

lemma program_good_le: "program_le keptR x y \<Longrightarrow> program_good x \<Longrightarrow> program_good y"
  unfolding program_le_def program_good_def using all2_kept shaped_skeleton(2) by metis

lemma body_good_le: "kept_body b b' \<Longrightarrow> list_all stmt_good b \<Longrightarrow> list_all stmt_good b'"
  using stmt_good_le by (auto simp: list_all2_conv_all_nth list_all_length)

lemma is_block_le: "kept_body b b' \<Longrightarrow> i < length b \<Longrightarrow> is_block (b' ! i) = is_block (b ! i)"
  unfolding list_all2_conv_all_nth stmt_le_def using is_block_skeleton by metis

lemma program_good_Program: "program_good (Program b bp c l) = list_all stmt_good b"
  by (auto simp: program_good_def stmt_good_def list_all_iff)

lemma stmt_good_Block: "stmt_good (Block d p ps h pr iv os is cs l) \<longleftrightarrow>
    cs \<noteq> None \<and> (pr \<noteq> None \<or> iv \<noteq> None) \<and> (\<forall>q. pr = Some q \<longrightarrow> program_good q)
     \<and> (\<forall>q. iv = Some q \<longrightarrow> program_good q \<and> (pr \<noteq> None \<longrightarrow> is \<noteq> None \<and> chain_ok q))"
  by (auto simp: stmt_good_def program_good_def split: option.splits)

lemma chain_ok_le: "program_le R p q \<Longrightarrow> chain_ok p \<Longrightarrow> chain_ok q"
  unfolding program_le_def using chain_ok_skeleton by metis

lemma chain_first: "chain_ok p \<Longrightarrow> \<exists>q. first_inverse p = Inr (Some q)"
  by (cases p) (auto split: list.splits)

lemma chain_map_first: "chain_ok p \<Longrightarrow> \<exists>q. map_first_inverse f p = Inr q"
  by (cases p) (auto split: list.splits option.splits)

lemma chain_map_last: "chain_ok p \<Longrightarrow> \<exists>q. map_last_inverse f p = Inr q"
proof (induction f p rule: map_last_inverse.induct)
  case (1 f b bp c l)
  show ?case
  proof (cases c)
    case True
    with 1(2) obtain q where q: "b \<noteq> []" "stmt_program (last b) = Some q" "chain_ok q"
      by (auto split: if_splits option.splits)
    with 1(1) [of q] True obtain q' where "map_last_inverse f q = Inr q'" by auto
    with q True show ?thesis by simp
  qed simp
qed

lemma standalone_else_total: "chain_ok i \<Longrightarrow> \<exists>r. standalone_else ig b i = Inr r"
proof -
  assume "chain_ok i"
  then obtain f q where "first_inverse i = Inr (Some f)"
    and "map_first_inverse (\<lambda>b. omitRight b None False) i = Inr q"
    using chain_first chain_map_first by metis
  then show ?thesis by (simp add: standalone_else_def)
qed

lemma strip_inverse_total:
  assumes "chain_ok i"
  shows "\<exists>r. strip_inverse ig os (Some istr) cs p i = Inr r"
proof -
  obtain f q where f: "first_inverse i = Inr (Some f)" "map_last_inverse (\<lambda>b. b) i = Inr q"
    using chain_first chain_map_last assms by metis
  obtain i1 where i1: "(if strip_close istr then map_first_inverse (\<lambda>b. omitRight b None True) i else Inr i) = Inr i1"
    using chain_map_first assms by (cases "strip_close istr") auto
  have c1: "chain_ok i1" using kept.first_le [OF i1] chain_ok_le assms by blast
  obtain i2 where i2: "(if strip_open cs then map_last_inverse (\<lambda>b. fst (omitLeft b None True)) i1 else Inr i1) = Inr i2"
    using chain_map_last c1 by (cases "strip_open cs") auto
  have c2: "chain_ok i2" using kept.last_le [OF i2] chain_ok_le c1 by blast
  then obtain i3 where "standalone_else ig (if_do (strip_open istr) (\<lambda>b. fst (omitLeft b None True))
    (if_do (strip_close os) (\<lambda>b. omitRight b None True) (program_body p))) i2 = Inr i3"
    using standalone_else_total by blast
  then show ?thesis
    by (cases i3) (simp add: strip_inverse_def Let_def f i1 i2)
qed

lemma strip_main_total: "\<exists>m st. strip_main ig os cs p = Inr (m, st)"
  by (simp add: strip_main_def Let_def)

lemma strip_block_total:
  assumes "pr \<noteq> None \<or> iv \<noteq> None" and "pr \<noteq> None \<Longrightarrow> iv \<noteq> None \<Longrightarrow> is \<noteq> None \<and> chain_ok (the iv)"
  shows "\<exists>r. strip_block ig os is (Some cs) pr iv = Inr r"
proof (cases pr)
  case None
  with assms(1) obtain i where "iv = Some i" by auto
  with None strip_main_total [of ig os cs i] show ?thesis by (auto simp: strip_block_def)
next
  case (Some m)
  then show ?thesis
    using strip_main_total [of ig os cs m] strip_inverse_total [of "the iv" ig os "the is" cs m] assms(2)
    by (cases iv; cases "is") (auto simp: strip_block_def)
qed

lemma map_opened_total: "is_block st \<Longrightarrow> stmt_good st \<Longrightarrow> \<exists>st'. map_opened f st = Inr st'"
  by (induction f st rule: map_opened.induct) (auto simp: stmt_good_Block)

lemma map_closed_total: "is_block st \<Longrightarrow> stmt_good st \<Longrightarrow> \<exists>st'. map_closed f st = Inr st'"
  by (induction f st rule: map_closed.induct) (auto simp: stmt_good_Block)

lemma final_indent_total: "s \<noteq> [] \<Longrightarrow> is_blank (last s) \<Longrightarrow> \<exists>w. final_indent s = Inr w"
  by (cases s rule: rev_cases) (simp_all add: final_indent_def)

lemma strip_right_changes: "strip_right P v \<noteq> v \<Longrightarrow> v \<noteq> [] \<and> P (last v)"
  by (cases v rule: rev_cases) (auto simp: strip_right_def split: if_splits)

text \<open>
  The line break removed after a partial is followed by a removal of blanks before it; the
  original text before the partial then ends with these blanks, so that \<open>exec\<close> finds them.
\<close>

lemma inline_step_total:
  assumes "list_all stmt_good b" "i < length b"
  shows "\<exists>b'. inline_step b i = Inr b'"
proof -
  let ?b = "omitRight b (Some i) False"
  have good: "list_all stmt_good ?b" using body_good_le [OF kept.omitRight_le assms(1)] .
  show ?thesis
  proof (cases rule: omitLeft_cases [of ?b "Some i" False])
    case 1
    then show ?thesis by (simp add: inline_step_def)
  next
    case (2 k orig v rs ls l)
    show ?thesis
    proof (cases "trim_end False v = v")
      case True
      with 2(4) show ?thesis by (simp add: inline_step_def)
    next
      case False
      then have v: "v \<noteq> []" "is_blank (last v)"
        using strip_right_changes [of is_blank v] by (auto simp: trim_end_def)
      have "stmt_good (?b ! k)" using good 2(1) by (simp add: list_all_length)
      then have "end_kept (orig, v)" using 2(3) by (simp add: stmt_good_def)
      with v have "orig \<noteq> []" "is_blank (last orig)" by (auto simp: end_kept_def)
      then obtain w where "final_indent orig = Inr w" using final_indent_total by blast
      with 2 show ?thesis by (auto simp: inline_step_def split: stmt.splits)
    qed
  qed
qed

lemma if_doR_total: "\<exists>y. f x = Inr y \<Longrightarrow> \<exists>y. if_doR c f x = Inr y"
  by (simp add: if_doR_def)

lemma program_step_total:
  assumes "list_all stmt_good b" "i < length b"
    and blk: "openStandalone s \<or> closeStandalone s \<Longrightarrow> is_block (b ! i)"
  shows "\<exists>b'. program_step ig r b i s = Inr b'"
proof -
  let ?b2 = "if_do (open_s s) (\<lambda>b. fst (omitLeft b (Some i) True))
    (if_do (close_s s) (\<lambda>b. omitRight b (Some i) True) b)"
  let ?p = "isPrevWhitespace b (Some i) r" and ?n = "isNextWhitespace b (Some i) r"
  have 2: "kept_body b ?b2"
    by (intro kept.body_trans [OF kept.if_do_le kept.if_do_le] kept.omitRight_le kept.omitLeft_le)
  have i2: "i < length ?b2" using kept.body_length [OF 2] assms(2) by simp
  obtain b3 where b3: "if_doR (\<not> ig \<and> inlineStandalone s \<and> ?p \<and> ?n) (\<lambda>b. inline_step b i) ?b2 = Inr b3"
    using if_doR_total [of "\<lambda>b. inline_step b i"] inline_step_total [OF body_good_le [OF 2 assms(1)] i2] by metis
  have 3: "kept_body b b3"
    by (rule kept.body_trans [OF 2 kept.if_doR_le [OF b3]]) (rule kept.inline_step_le [OF _ i2])
  have i3: "i < length b3" using kept.body_length [OF 3] assms(2) by simp
  obtain b4 where b4: "if_doR (\<not> ig \<and> openStandalone s \<and> ?p) (\<lambda>b. open_step b i) b3 = Inr b4"
  proof (cases "openStandalone s")
    case True
    then have "is_block (b3 ! i)" using blk is_block_le [OF 3 assms(2)] by simp
    moreover have "stmt_good (b3 ! i)" using body_good_le [OF 3 assms(1)] i3 by (simp add: list_all_length)
    ultimately obtain cur where "map_opened (\<lambda>b. omitRight b None False) (b3 ! i) = Inr cur"
      using map_opened_total by blast
    then have "\<exists>y. open_step b3 i = Inr y" by (simp add: open_step_def)
    then show ?thesis using that if_doR_total [of "\<lambda>b. open_step b i"] by metis
  qed (use that in \<open>auto simp: if_doR_def\<close>)
  have 4: "kept_body b b4"
    by (rule kept.body_trans [OF 3 kept.if_doR_le [OF b4]]) (rule kept.open_step_le [OF _ i3])
  have i4: "i < length b4" using kept.body_length [OF 4] assms(2) by simp
  have 5: "kept_body b (omitRight b4 (Some i) False)"
    by (rule kept.body_trans [OF 4 kept.omitRight_le])
  obtain b5 where "if_doR (\<not> ig \<and> closeStandalone s \<and> ?n) (\<lambda>b. close_step b i) b4 = Inr b5"
  proof (cases "closeStandalone s")
    case True
    then have "is_block (omitRight b4 (Some i) False ! i)" using blk is_block_le [OF 5 assms(2)] by simp
    moreover have "stmt_good (omitRight b4 (Some i) False ! i)"
      using body_good_le [OF 5 assms(1)] kept.body_length [OF 5] assms(2) by (simp add: list_all_length)
    ultimately obtain cur where
      "map_closed (\<lambda>b. fst (omitLeft b None False)) (omitRight b4 (Some i) False ! i) = Inr cur"
      using map_closed_total by blast
    then have "\<exists>y. close_step b4 i = Inr y" by (simp add: close_step_def Let_def)
    then show ?thesis using that if_doR_total [of "\<lambda>b. close_step b i"] by metis
  qed (use that in \<open>auto simp: if_doR_def\<close>)
  with b3 b4 show ?thesis by (simp add: program_step_def Let_def)
qed

lemma accept_standalone:
  "wc_accept ig st = Inr (st', Some s) \<Longrightarrow> openStandalone s \<or> closeStandalone s \<Longrightarrow> is_block st'"
  by (cases st) (auto simp: flag_strip_def split: option.splits)

lemma pass_total:
  "program_good p \<Longrightarrow> \<exists>p'. wc_program ig r p = Inr p'"
  "list_all stmt_good b \<Longrightarrow> \<exists>b'. wc_loop ig r b i = Inr b'"
  "(\<forall>q. po = Some q \<longrightarrow> program_good q) \<Longrightarrow> \<exists>po'. wc_option ig po = Inr po'"
  "stmt_good st \<Longrightarrow> \<exists>x. wc_accept ig st = Inr x"
proof (induction ig r p and ig r b i and ig po and ig st
    rule: wc_program_wc_loop_wc_option_wc_accept.induct)
  case (1 ig r b bp c l)
  then show ?case by (auto simp: program_good_Program)
next
  case (2 ig r b i)
  show ?case
  proof (cases "i < length b")
    case True
    with 2(1,4) obtain cur so where acc: "wc_accept ig (b ! i) = Inr (cur, so)"
      by (auto simp: list_all_length)
    have le: "kept_body b (b[i := cur])" using kept.pass_le(4) [OF acc] kept.body_update True by blast
    note good = body_good_le [OF le 2(4)]
    show ?thesis
    proof (cases so)
      case None
      with 2(2) [OF True acc refl None good] acc True show ?thesis by (subst wc_loop.simps) simp
    next
      case (Some s)
      have "is_block (b[i := cur] ! i)" if "openStandalone s \<or> closeStandalone s"
        using accept_standalone acc Some that True by simp
      then obtain c where c: "program_step ig r (b[i := cur]) i s = Inr c"
        using program_step_total [OF good] True by (metis length_list_update)
      have "list_all stmt_good c" using body_good_le [OF kept.program_step_le [OF c] good] True by simp
      from 2(3) [OF True acc refl Some c this] acc Some True c show ?thesis
        by (subst wc_loop.simps) auto
    qed
  next
    case False
    then show ?thesis by (subst wc_loop.simps) simp
  qed
next
  case (9 ig d p ps h pr iv os iss cs l)
  then have good: "stmt_good (Block d p ps h pr iv os iss cs l)" by simp
  from 9(1) good obtain pr' where pr': "wc_option ig pr = Inr pr'" by (auto simp: stmt_good_Block)
  from 9(2) [OF pr'] good obtain iv' where iv': "wc_option ig iv = Inr iv'" by (auto simp: stmt_good_Block)
  have "rel_option (program_le keptR) pr pr'" "rel_option (program_le keptR) iv iv'"
    using kept.pass_le(3) pr' iv' by auto
  then have "pr' \<noteq> None \<or> iv' \<noteq> None" "pr' \<noteq> None \<Longrightarrow> iv' \<noteq> None \<Longrightarrow> iss \<noteq> None \<and> chain_ok (the iv')"
    using good by (auto simp: stmt_good_Block elim!: option.rel_cases dest: chain_ok_le)
  then obtain r where "strip_block ig os iss (Some (the cs)) pr' iv' = Inr r"
    using strip_block_total by meson
  with good pr' iv' show ?case by (cases r) (auto simp: stmt_good_Block)
next
  case (10 ig n ps h pr os cs l)
  then obtain pr' c where "wc_program ig False pr = Inr pr'" "cs = Some c"
    by (auto simp: stmt_good_def program_good_def)
  with strip_main_total [of ig os c pr'] show ?case by auto
qed auto

section \<open>Without flags the pass changes nothing\<close>

definition unflagged :: "strip_flags \<Rightarrow> bool" where
  "unflagged f \<longleftrightarrow> \<not> strip_open f \<and> \<not> strip_close f"

fun stmt_plain :: "stmt \<Rightarrow> bool" and program_plain :: "program \<Rightarrow> bool" where
  "stmt_plain (Mustache d p ps h e s l) = unflagged s"
| "stmt_plain (Partial n ps h ind s l) = unflagged s"
| "stmt_plain (Comment t s l) = unflagged s"
| "stmt_plain (Content orig v rs ls l) = True"
| "stmt_plain (Block d p ps h pr iv os is cs l) \<longleftrightarrow> unflagged os \<and> pred_option unflagged is
     \<and> pred_option unflagged cs \<and> (case pr of None \<Rightarrow> True | Some q \<Rightarrow> program_plain q)
     \<and> (case iv of None \<Rightarrow> True | Some q \<Rightarrow> program_plain q)"
| "stmt_plain (PartialBlock n ps h pr os cs l) \<longleftrightarrow>
     unflagged os \<and> pred_option unflagged cs \<and> program_plain pr"
| "program_plain (Program b bp c l) = list_all stmt_plain b"

lemma map_body_id: "map_body (\<lambda>_. program_body p) p = p" "map_body (\<lambda>b. b) p = p"
  by (cases p; simp)+

lemma strip_block_plain:
  assumes "strip_block True os is cs pr iv = Inr (pr', iv', s)"
    and "unflagged os" "pred_option unflagged is" "pred_option unflagged cs"
  shows "pr' = pr \<and> iv' = iv \<and> \<not> open_s s \<and> \<not> close_s s"
  using assms
  by (auto simp: strip_block_def strip_main_def strip_inverse_def standalone_else_def Let_def
      unflagged_def if_do_def map_body_id split: option.splits)

lemma program_step_plain:
  "\<not> open_s s \<Longrightarrow> \<not> close_s s \<Longrightarrow> program_step True r b i s = Inr b"
  by (simp add: program_step_def if_do_def if_doR_def)

lemma pass_plain:
  "wc_program ig r p = Inr p' \<Longrightarrow> ig \<Longrightarrow> program_plain p \<Longrightarrow> p' = p"
  "wc_loop ig r b i = Inr b' \<Longrightarrow> ig \<Longrightarrow> list_all stmt_plain b \<Longrightarrow> b' = b"
  "wc_option ig po = Inr po' \<Longrightarrow> ig \<Longrightarrow> (\<forall>q. po = Some q \<longrightarrow> program_plain q) \<Longrightarrow> po' = po"
  "wc_accept ig st = Inr (st', s) \<Longrightarrow> ig \<Longrightarrow> stmt_plain st \<Longrightarrow>
     st' = st \<and> (\<forall>t. s = Some t \<longrightarrow> \<not> open_s t \<and> \<not> close_s t)"
proof (induction ig r p and ig r b i and ig po and ig st arbitrary: p' and b' and po' and st' s
    rule: wc_program_wc_loop_wc_option_wc_accept.induct)
  case (2 ig r b i)
  show ?case
  proof (cases "i < length b")
    case True
    with 2(4) obtain cur so where acc: "wc_accept ig (b ! i) = Inr (cur, so)"
      by (subst (asm) wc_loop.simps) (auto simp del: wc_loop.simps)
    from 2(1) [OF True acc] 2(5,6) True
    have cur: "cur = b ! i" "\<And>t. so = Some t \<Longrightarrow> \<not> open_s t \<and> \<not> close_s t"
      by (auto simp: list_all_length)
    then have b: "b[i := cur] = b" using True by simp
    show ?thesis
    proof (cases so)
      case None
      with 2(4) acc True b have "wc_loop ig r (b[i := cur]) (Suc i) = Inr b'"
        by (subst (asm) wc_loop.simps) (simp del: wc_loop.simps)
      from 2(2) [OF True acc refl None this 2(5)] 2(6) b show ?thesis by simp
    next
      case (Some s)
      with cur have step: "program_step ig r (b[i := cur]) i s = Inr b"
        using 2(5) b program_step_plain by auto
      with 2(4) acc True b Some have "wc_loop ig r b (Suc i) = Inr b'"
        by (subst (asm) wc_loop.simps) (simp del: wc_loop.simps)
      from 2(3) [OF True acc refl Some step this 2(5,6)] show ?thesis .
    qed
  next
    case False
    with 2(4) show ?thesis by (subst (asm) wc_loop.simps) (simp del: wc_loop.simps)
  qed
next
  case (9 ig d p ps h pr iv os iss cs l)
  from 9(3) obtain pr' iv' where pr: "wc_option ig pr = Inr pr'" and iv: "wc_option ig iv = Inr iv'"
    by auto
  from 9(1) [OF pr 9(4)] 9(2) [OF pr iv 9(4)] 9(5) have "pr' = pr" "iv' = iv"
    by (auto split: option.splits)
  with pr iv 9(3-5) show ?case by (auto dest!: strip_block_plain)
next
  case (10 ig n ps h pr os cs l)
  then show ?case
    by (auto simp: strip_main_def Let_def unflagged_def if_do_def map_body_id split: option.splits)
qed (auto simp: flag_strip_def unflagged_def)

section \<open>Properties\<close>

text \<open>What the parser delivers: blocks of the right shape and untouched content.\<close>

definition parsed_program :: "program \<Rightarrow> bool" where
  "parsed_program p \<longleftrightarrow> program_shaped p \<and> list_all (\<lambda>(orig, v). v = orig) (program_contents p)"

lemma parsed_good: "parsed_program p \<Longrightarrow> program_good p"
proof -
  have "end_kept (s, s)" for s by (simp add: end_kept_def exI [of _ "[]"])
  then show "parsed_program p \<Longrightarrow> program_good p"
    by (auto simp: parsed_program_def program_good_def list_all_iff)
qed


text \<open>With \<open>ignoreStandalone\<close> a parsed template without \<open>~\<close> flags comes out as it went in.\<close>

lemma whitespace_control_plain:
  assumes "parsed_program p" and "program_plain p"
  shows "whitespace_control True p = Inr p"
  using pass_total(1) [OF parsed_good [OF assms(1)], of True True] pass_plain(1) [OF _ _ assms(2)]
  by (auto simp: whitespace_control_def)

text \<open>The template \<open>{{#a}} x {{~b}}{{else}}{{/a}}\<close> with a line break after its first tag.\<close>

definition ident :: "string \<Rightarrow> expr" where
  "ident s = PathExpression \<lparr>path_data = False, depth = 0, parts = [s], original = Some s, path_loc = None\<rparr>"

definition ws_sample :: "bool \<Rightarrow> program" where
  "ws_sample f = Program [Block False (ident ''a'') [] None
      (Some (Program [Content (nl # '' x '') (nl # '' x '') False False None,
         Mustache False (ident ''b'') [] None True \<lparr>strip_open = f, strip_close = False\<rparr> None] None False None))
      (Some (Program [] None False None)) no_strip (Some no_strip) (Some no_strip) None] None False None"


end
