(* ===== verification/HbCompiler.thy ===== *)
theory HbCompiler
  imports HbWhitespace
begin

text \<open>
  Module 27 of \<open>handlebars.js\<close>: the compiler from a syntax tree to opcodes, \<open>precompile\<close> and
  \<open>compile\<close>. The state of a \<open>Compiler\<close> is the record \<open>comp\<close>; the options, which the compilers of
  a template share and change, are a part of it. The node whose location an opcode gets
  (\<open>sourceNode[0]\<close>) is an argument.
\<close>

section \<open>Opcodes and environments\<close>

text \<open>
  One constructor per opcode with its arguments. An argument that a call may leave out is an
  option: \<open>EmptyHash None\<close> is a call without argument, which \<open>argEquals\<close> tells from a call with
  \<open>undefined\<close>.
\<close>

datatype opcode =
    GetContext nat
  | PushProgram "nat option"
  | PushContext
  | LookupOnContext "string list" bool bool bool
  | LookupData nat "string list" bool
  | LookupBlockParam nat nat "string list"
  | ResolvePossibleLambda
  | PushString string
  | PushLiteral jsval
  | PushHash
  | PopHash
  | AssignToHash string
  | EmptyHash "bool option"
  | InvokeHelper nat jsval bool
  | InvokeKnownHelper nat string
  | InvokeAmbiguous string bool
  | InvokePartial bool jsval string
  | BlockValue jsval
  | AmbiguousBlockValue
  | Append
  | AppendEscaped
  | AppendContent string
  | RegisterDecorator nat jsval
  | PushStringParam jsval string
  | PushId string jsval
  | PushIdBlockParam nat nat string

type_synonym located = "opcode \<times> source_loc option"

text \<open>A compiled program, what \<open>Compiler.compile\<close> returns, with those of its blocks.\<close>

datatype compiled = Compiled (opcodes: "located list") (children: "compiled list")
  (usePartial: bool) (useDepths: bool) (useDecorators: bool) (isSimple: bool) (blockParamCount: nat)

record options =
  stringParams :: bool
  trackIds :: bool
  knownHelpers :: "bool obj"
  knownHelpersOnly :: bool
  explicitPartialContext :: bool
  preventIndent :: bool
  noEscape :: bool
  compat :: bool
  strict :: bool
  assumeObjects :: bool
  ignoreStandalone :: bool
  opt_useDepths :: bool
  opt_data :: "bool option"
  blockParamStack :: "string list option list"
  srcName :: "string option"

record comp =
  c_opcodes :: "located list"
  c_children :: "compiled list"
  c_usePartial :: bool
  c_useDepths :: bool
  c_useDecorators :: bool
  c_options :: options

definition emit :: "source_loc option \<Rightarrow> opcode \<Rightarrow> comp \<Rightarrow> comp" where
  "emit loc op c = c\<lparr>c_opcodes := c_opcodes c @ [(op, loc)]\<rparr>"

subsection \<open>Equality of environments\<close>

text \<open>\<open>argEquals\<close> on the arguments of two opcodes.\<close>

definition opcode_equals :: "opcode \<Rightarrow> opcode \<Rightarrow> bool" where
  "opcode_equals a b =
     (case a of
        PushLiteral v \<Rightarrow> (case b of PushLiteral w \<Rightarrow> prim_eq v w | _ \<Rightarrow> False)
      | PushStringParam v t \<Rightarrow> (case b of PushStringParam w u \<Rightarrow> prim_eq v w \<and> t = u | _ \<Rightarrow> False)
      | PushId t v \<Rightarrow> (case b of PushId u w \<Rightarrow> t = u \<and> prim_eq v w | _ \<Rightarrow> False)
      | InvokePartial d v i \<Rightarrow>
          (case b of InvokePartial e w j \<Rightarrow> d = e \<and> prim_eq v w \<and> i = j | _ \<Rightarrow> False)
      | RegisterDecorator m v \<Rightarrow> (case b of RegisterDecorator n w \<Rightarrow> m = n \<and> prim_eq v w | _ \<Rightarrow> False)
      | InvokeHelper m v s \<Rightarrow>
          (case b of InvokeHelper n w t \<Rightarrow> m = n \<and> prim_eq v w \<and> s = t | _ \<Rightarrow> False)
      | BlockValue v \<Rightarrow> (case b of BlockValue w \<Rightarrow> prim_eq v w | _ \<Rightarrow> False)
      | _ \<Rightarrow> a = b)"

text \<open>
  \<open>equals\<close>. The loop over the children runs over those of \<open>this\<close>; where the other has fewer,
  reading \<open>opcodes\<close> of \<open>undefined\<close> throws.
\<close>

lemma children_size: "Suc (2 * size_list size (children a)) < 2 * size a"
  by (cases a) simp

function env_equals :: "compiled \<Rightarrow> compiled \<Rightarrow> bool result"
  and children_equal :: "compiled list \<Rightarrow> compiled list \<Rightarrow> bool result" where
  "env_equals a b =
     (if length (opcodes b) \<noteq> length (opcodes a) then Inr False
      else if \<not> list_all2 (\<lambda>x y. opcode_equals (fst x) (fst y)) (opcodes a) (opcodes b) then Inr False
      else children_equal (children a) (children b))"
| "children_equal [] ys = Inr True"
| "children_equal (x # xs) [] = Inl (no_property ''opcodes'')"
| "children_equal (x # xs) (y # ys) =
     bindR (env_equals x y) (\<lambda>e. if e then children_equal xs ys else Inr False)"
  by pat_completeness auto
termination
  by (relation "measure (\<lambda>x. case x of Inl (a, _) \<Rightarrow> 2 * size a | Inr (xs, _) \<Rightarrow> 2 * size_list size xs + 1)")
    (auto simp: children_size)

section \<open>Helpers of the compiler\<close>

definition path_string :: "path \<Rightarrow> jsval" where
  "path_string p = opt_string (original p)"

text \<open>\<open>transformLiteralToPath\<close>: what is not a path becomes the path of its text.\<close>

fun transformLiteralToPath :: "expr \<Rightarrow> path" where
  "transformLiteralToPath (PathExpression p) = p"
| "transformLiteralToPath e =
     (let s = prim_string (expr_original e)
      in \<lparr>path_data = False, depth = 0, parts = [s], original = Some s, path_loc = expr_loc e\<rparr>)"

text \<open>The first part of a path, \<open>path.parts[0]\<close>.\<close>

definition part0 :: "path \<Rightarrow> string option" where
  "part0 p = (case parts p of [] \<Rightarrow> None | s # _ \<Rightarrow> Some s)"

definition key_of :: "string option \<Rightarrow> string" where
  "key_of x = (case x of None \<Rightarrow> ''undefined'' | Some s \<Rightarrow> s)"

text \<open>\<open>blockParamIndex\<close>: the innermost block that declares the name, and the name's position there.\<close>

fun blockParamFrom :: "nat \<Rightarrow> string list option list \<Rightarrow> string \<Rightarrow> (nat \<times> nat) option" where
  "blockParamFrom d [] name = None"
| "blockParamFrom d (bp # bps) name =
     (case bp of
        None \<Rightarrow> blockParamFrom (Suc d) bps name
      | Some xs \<Rightarrow>
          if indexOf xs name \<ge> 0 then Some (d, nat (indexOf xs name))
          else blockParamFrom (Suc d) bps name)"

definition blockParamIndex :: "string option \<Rightarrow> comp \<Rightarrow> (nat \<times> nat) option" where
  "blockParamIndex name c =
     (case name of None \<Rightarrow> None | Some s \<Rightarrow> blockParamFrom 0 (blockParamStack (c_options c)) s)"

definition addDepth :: "nat \<Rightarrow> comp \<Rightarrow> comp" where
  "addDepth d c = (if d = 0 then c else c\<lparr>c_useDepths := True\<rparr>)"

datatype sexpr_type = Helper | Ambiguous | Simple

text \<open>
  \<open>classifySexpr\<close>; the first argument is \<open>helperExpression\<close> of the node. \<open>knownHelpers[name]\<close> reads
  a plain object.
\<close>

definition classifySexpr :: "bool \<Rightarrow> path \<Rightarrow> comp \<Rightarrow> sexpr_type" where
  "classifySexpr hexpr p c =
     (let isSimp = simpleId p;
          isBlockParam = (isSimp \<and> blockParamIndex (part0 p) c \<noteq> None);
          isHelper = (\<not> isBlockParam \<and> hexpr);
          isEligible = (\<not> isBlockParam \<and> (isHelper \<or> isSimp));
          known = truthy_key (knownHelpers (c_options c)) (key_of (part0 p));
          undecided = (isEligible \<and> \<not> isHelper)
      in if isHelper \<or> undecided \<and> known then Helper
         else if isEligible \<and> \<not> (undecided \<and> knownHelpersOnly (c_options c)) then Ambiguous
         else Simple)"

section \<open>Expressions\<close>

text \<open>\<open>PathExpression\<close>; the flags are the properties \<open>strict\<close> and \<open>falsy\<close> that the caller has set.\<close>

definition accept_path :: "bool \<Rightarrow> bool \<Rightarrow> path \<Rightarrow> comp \<Rightarrow> comp" where
  "accept_path stri falsy p c =
     (let loc = path_loc p;
          c = emit loc (GetContext (depth p)) (addDepth (depth p) c);
          name = part0 p;
          scoped = scopedId p;
          blockParamId = (if depth p = 0 \<and> \<not> scoped then blockParamIndex name c else None)
      in case blockParamId of
           Some (d, i) \<Rightarrow> emit loc (LookupBlockParam d i (parts p)) c
         | None \<Rightarrow>
             if name = None \<or> name = Some [] then emit loc PushContext c
             else if path_data p then
               emit loc (LookupData (depth p) (parts p) stri)
                 (c\<lparr>c_options := (c_options c)\<lparr>opt_data := Some True\<rparr>\<rparr>)
             else emit loc (LookupOnContext (parts p) falsy stri scoped) c)"

fun literal_opcode :: "literal \<Rightarrow> opcode" where
  "literal_opcode (StringLiteral s) = PushString s"
| "literal_opcode (NumberLiteral n) = PushLiteral (VNum n)"
| "literal_opcode (BooleanLiteral b) = PushLiteral (VBool b)"
| "literal_opcode UndefinedLiteral = PushLiteral (VStr ''undefined'')"
| "literal_opcode NullLiteral = PushLiteral (VStr ''null'')"

text \<open>\<open>val.value != null ? val.value : val.original || ''\<close>.\<close>

definition param_value :: "expr \<Rightarrow> jsval" where
  "param_value e =
     (case e of
        PathExpression p \<Rightarrow> VStr (case original p of None \<Rightarrow> [] | Some s \<Rightarrow> s)
      | LiteralExpression l _ \<Rightarrow> (if nullish (literal_value l) then VStr [] else literal_value l)
      | SubExpression _ _ _ _ \<Rightarrow> VStr [])"

text \<open>\<open>val.original || value\<close>.\<close>

definition param_original :: "expr \<Rightarrow> jsval" where
  "param_original e = (if truthy (expr_original e) then expr_original e else param_value e)"

text \<open>
  The replacements \<open>/^(\.?\.\/)*/\<close> by nothing and \<open>/\//g\<close> by a dot; and \<open>/^this(?:\.|$)/\<close>,
  \<open>/^\.\//\<close> and \<open>/^\.$/\<close> by nothing.
\<close>

function strip_dots :: "string \<Rightarrow> string" where
  "strip_dots s =
     (if starts_with ''../'' s then strip_dots (drop 3 s)
      else if starts_with ''./'' s then strip_dots (drop 2 s) else s)"
  by auto
termination
  by (relation "measure length") (auto simp: starts_with_iff)

declare strip_dots.simps [simp del]

definition string_param :: "string \<Rightarrow> string" where
  "string_param s = map (\<lambda>ch. if ch = CHR ''/'' then CHR ''.'' else ch) (strip_dots s)"

definition id_param :: "string \<Rightarrow> string" where
  "id_param s =
     (let a = (if starts_with ''this.'' s then drop 5 s else if s = ''this'' then [] else s);
          b = (if starts_with ''./'' a then drop 2 a else a)
      in if b = ''.'' then [] else b)"

fun on_string :: "(string \<Rightarrow> string) \<Rightarrow> jsval \<Rightarrow> jsval" where
  "on_string f (VStr s) = VStr (f s)"
| "on_string f v = v"

definition param_depth :: "expr \<Rightarrow> nat" where
  "param_depth e = (case e of PathExpression p \<Rightarrow> depth p | _ \<Rightarrow> 0)"

text \<open>
  \<open>pushParam\<close> up to the call of \<open>accept\<close>, with whether that call is made. A node with \<open>parts\<close> is
  a path.
\<close>

definition param_prefix :: "source_loc option \<Rightarrow> expr \<Rightarrow> comp \<Rightarrow> comp \<times> bool" where
  "param_prefix loc e c =
     (if stringParams (c_options c) then
        (emit loc (PushStringParam (on_string string_param (param_value e)) (expr_type e))
           (emit loc (GetContext (param_depth e)) (addDepth (param_depth e) c)),
         expr_type e = ''SubExpression'')
      else if trackIds (c_options c) then
        (case (case e of
                 PathExpression p \<Rightarrow>
                   if \<not> scopedId p \<and> depth p = 0
                   then map_option (\<lambda>i. (i, p)) (blockParamIndex (part0 p) c) else None
               | _ \<Rightarrow> None) of
           Some ((d, i), p) \<Rightarrow> (emit loc (PushIdBlockParam d i (join_with ''.'' (drop 1 (parts p)))) c, True)
         | None \<Rightarrow> (emit loc (PushId (expr_type e) (on_string id_param (param_original e))) c, True))
      else (c, True))"

text \<open>The end of \<open>helperSexpr\<close>: the opcode that invokes the helper.\<close>

definition invoke_helper :: "source_loc option \<Rightarrow> path \<Rightarrow> nat \<Rightarrow> comp \<Rightarrow> comp result" where
  "invoke_helper loc p n c =
     (let name = key_of (part0 p)
      in if truthy_key (knownHelpers (c_options c)) name then Inr (emit loc (InvokeKnownHelper n name) c)
         else if knownHelpersOnly (c_options c) then
           Inl (Exception (''You specified knownHelpersOnly, but used the unknown helper '' @ name) (exn_loc loc))
         else Inr (emit loc (InvokeHelper n (path_string p) (simpleId p)) (accept_path True True p c)))"

definition simpleSexpr :: "source_loc option \<Rightarrow> path \<Rightarrow> comp \<Rightarrow> comp" where
  "simpleSexpr loc p c = emit loc ResolvePossibleLambda (accept_path True False p c)"

definition ambiguousSexpr :: "source_loc option \<Rightarrow> path \<Rightarrow> nat option \<Rightarrow> nat option \<Rightarrow> comp \<Rightarrow> comp" where
  "ambiguousSexpr loc p program inve c =
     emit loc (InvokeAmbiguous (key_of (part0 p)) (program \<noteq> None \<or> inve \<noteq> None))
       (accept_path True False p
         (emit loc (PushProgram inve) (emit loc (PushProgram program) (emit loc (GetContext (depth p)) c))))"

definition assign_pairs :: "source_loc option \<Rightarrow> hash_pair list \<Rightarrow> comp \<Rightarrow> comp" where
  "assign_pairs loc ps c =
     foldl (\<lambda>c pr. case pr of HashPair k _ _ \<Rightarrow> emit loc (AssignToHash k) c) c (rev ps)"

text \<open>
  \<open>accept\<close> of an expression, \<open>pushParams\<close>, the pushes of \<open>Hash\<close> and \<open>setupFullMustacheParams\<close>.
\<close>

function accept_expr :: "expr \<Rightarrow> comp \<Rightarrow> comp result"
  and push_params :: "source_loc option \<Rightarrow> expr list \<Rightarrow> comp \<Rightarrow> comp result"
  and push_pairs :: "source_loc option \<Rightarrow> hash_pair list \<Rightarrow> comp \<Rightarrow> comp result"
  and setup_params :: "source_loc option \<Rightarrow> expr list \<Rightarrow> hash option \<Rightarrow> nat option \<Rightarrow> nat option \<Rightarrow> bool
    \<Rightarrow> comp \<Rightarrow> comp result" where
  "accept_expr (PathExpression p) c = Inr (accept_path False False p c)"
| "accept_expr (LiteralExpression l loc) c = Inr (emit loc (literal_opcode l) c)"
| "accept_expr (SubExpression e ps h loc) c =
     (let p = transformLiteralToPath e
      in case classifySexpr True p c of
           Simple \<Rightarrow> Inr (simpleSexpr loc p c)
         | Helper \<Rightarrow> bindR (setup_params loc ps h None None False c) (\<lambda>c. invoke_helper loc p (length ps) c)
         | Ambiguous \<Rightarrow> Inr (ambiguousSexpr loc p None None c))"
| "push_params loc [] c = Inr c"
| "push_params loc (e # es) c =
     (let (c', acc) = param_prefix loc e c
      in bindR (if acc then accept_expr e c' else Inr c') (\<lambda>c. push_params loc es c))"
| "push_pairs loc [] c = Inr c"
| "push_pairs loc (HashPair k e l # ps) c =
     (let (c', acc) = param_prefix loc e c
      in bindR (if acc then accept_expr e c' else Inr c') (\<lambda>c. push_pairs loc ps c))"
| "setup_params loc ps h program inve omitEmpty c =
     bindR (push_params loc ps c) (\<lambda>c.
       let c = emit loc (PushProgram inve) (emit loc (PushProgram program) c)
       in case h of
            None \<Rightarrow> Inr (emit loc (EmptyHash (Some omitEmpty)) c)
          | Some (Hash prs hl) \<Rightarrow>
              bindR (push_pairs hl prs (emit hl PushHash c)) (\<lambda>c.
                Inr (emit hl PopHash (assign_pairs hl prs c))))"
  by pat_completeness auto
termination
  by (relation "measure (\<lambda>x. case x of
      Inl (Inl (e, _)) \<Rightarrow> 2 * size e
    | Inl (Inr (_, es, _)) \<Rightarrow> 2 * size_list size es
    | Inr (Inl (_, ps, _)) \<Rightarrow> 2 * size_list size ps
    | Inr (Inr (_, ps, h, _)) \<Rightarrow> 2 * size_list size ps + 2 * size_option size h + 1)") auto

section \<open>Statements and programs\<close>

definition helperSexpr :: "source_loc option \<Rightarrow> path \<Rightarrow> expr list \<Rightarrow> hash option \<Rightarrow> nat option \<Rightarrow> nat option
    \<Rightarrow> comp \<Rightarrow> comp result" where
  "helperSexpr loc p ps h program inve c =
     bindR (setup_params loc ps h program inve False c) (\<lambda>c. invoke_helper loc p (length ps) c)"

text \<open>\<open>SubExpression\<close> applied to a mustache.\<close>

definition mustache_sexpr :: "source_loc option \<Rightarrow> expr \<Rightarrow> expr list \<Rightarrow> hash option \<Rightarrow> comp \<Rightarrow> comp result" where
  "mustache_sexpr loc e ps h c =
     (let p = transformLiteralToPath e
      in case classifySexpr (helperExpression False ps h) p c of
           Simple \<Rightarrow> Inr (simpleSexpr loc p c)
         | Helper \<Rightarrow> helperSexpr loc p ps h None None c
         | Ambiguous \<Rightarrow> Inr (ambiguousSexpr loc p None None c))"

text \<open>\<open>BlockStatement\<close> after its programs have been compiled.\<close>

definition block_statement :: "source_loc option \<Rightarrow> expr \<Rightarrow> expr list \<Rightarrow> hash option \<Rightarrow> nat option \<Rightarrow> nat option
    \<Rightarrow> comp \<Rightarrow> comp result" where
  "block_statement loc e ps h program inve c =
     (let p = transformLiteralToPath e;
          programs = (\<lambda>c. emit loc (EmptyHash None) (emit loc (PushProgram inve) (emit loc (PushProgram program) c)))
      in bindR (case classifySexpr (helperExpression False ps h) p c of
             Helper \<Rightarrow> helperSexpr loc p ps h program inve c
           | Simple \<Rightarrow> Inr (emit loc (BlockValue (path_string p)) (programs (simpleSexpr loc p c)))
           | Ambiguous \<Rightarrow>
               Inr (emit loc AmbiguousBlockValue (programs (ambiguousSexpr loc p program inve c))))
         (\<lambda>c. Inr (emit loc Append c)))"

text \<open>\<open>DecoratorBlock\<close> and \<open>PartialStatement\<close> after the program has been compiled.\<close>

definition decorator_statement :: "source_loc option \<Rightarrow> expr \<Rightarrow> expr list \<Rightarrow> hash option \<Rightarrow> nat option
    \<Rightarrow> comp \<Rightarrow> comp result" where
  "decorator_statement loc e ps h program c =
     bindR (setup_params loc ps h program None False c) (\<lambda>c.
       Inr (emit loc (RegisterDecorator (length ps) (expr_original e)) (c\<lparr>c_useDecorators := True\<rparr>)))"

definition context_path :: expr where
  "context_path = PathExpression \<lparr>path_data = False, depth = 0, parts = [], original = None, path_loc = None\<rparr>"

definition partial_statement :: "source_loc option \<Rightarrow> expr \<Rightarrow> expr list \<Rightarrow> hash option \<Rightarrow> nat option \<Rightarrow> string
    \<Rightarrow> comp \<Rightarrow> comp result" where
  "partial_statement loc name ps h program indent c =
     (if length ps > 1 then
        Inl (Exception (''Unsupported number of partial arguments: '' @ show_nat (length ps)) (exn_loc loc))
      else
        let explicit = explicitPartialContext (c_options c);
            c = (if ps = [] \<and> explicit then emit loc (PushLiteral (VStr ''undefined'')) c else c);
            ps = (if ps = [] \<and> \<not> explicit then [context_path] else ps);
            isDynamic = (expr_type name = ''SubExpression'')
        in bindR (if isDynamic then accept_expr name c else Inr c) (\<lambda>c.
           bindR (setup_params loc ps h program None True c) (\<lambda>c.
             let prevent = (preventIndent (c_options c) \<and> indent \<noteq> []);
                 c = (if prevent then emit loc (AppendContent indent) c else c)
             in Inr (emit loc Append
                  (emit loc (InvokePartial isDynamic (expr_original name) (if prevent then [] else indent)) c)))))"

text \<open>The helpers the compiler knows of, with those of the options written over them.\<close>

definition builtin_helpers :: "bool obj" where
  "builtin_helpers = [(''helperMissing'', True), (''blockHelperMissing'', True), (''each'', True), (''if'', True),
     (''unless'', True), (''with'', True), (''log'', True), (''lookup'', True)]"

definition merge_helpers :: "bool obj \<Rightarrow> bool obj" where
  "merge_helpers ps = foldl (\<lambda>o' (k, v). obj_set k v o') builtin_helpers ps"

definition start_comp :: "string list option \<Rightarrow> options \<Rightarrow> comp" where
  "start_comp bp opts = \<lparr>c_opcodes = [], c_children = [], c_usePartial = False, c_useDepths = False,
     c_useDecorators = False, c_options = opts\<lparr>knownHelpers := merge_helpers (knownHelpers opts),
       blockParamStack := bp # blockParamStack opts\<rparr>\<rparr>"

definition finish_comp :: "nat \<Rightarrow> string list option \<Rightarrow> comp \<Rightarrow> compiled \<times> options" where
  "finish_comp n bp c = (Compiled (c_opcodes c) (c_children c) (c_usePartial c) (c_useDepths c)
       (c_useDecorators c) (n = 1) (case bp of None \<Rightarrow> 0 | Some xs \<Rightarrow> length xs),
     (c_options c)\<lparr>blockParamStack := tl (blockParamStack (c_options c))\<rparr>)"

text \<open>What \<open>compileProgram\<close> keeps of a compiled child; its guid is the child's position.\<close>

definition add_child :: "compiled \<Rightarrow> options \<Rightarrow> comp \<Rightarrow> comp" where
  "add_child r opts c = c\<lparr>c_children := c_children c @ [r], c_usePartial := c_usePartial c \<or> usePartial r,
     c_useDepths := c_useDepths c \<or> useDepths r, c_options := opts\<rparr>"

function compile_stmt :: "stmt \<Rightarrow> comp \<Rightarrow> comp result"
  and compile_body :: "stmt list \<Rightarrow> comp \<Rightarrow> comp result"
  and compile_child :: "program option \<Rightarrow> comp \<Rightarrow> (nat option \<times> comp) result"
  and compile_program :: "program \<Rightarrow> options \<Rightarrow> (compiled \<times> options) result" where
  "compile_stmt (Mustache d e ps h escaped s loc) c =
     (if d then decorator_statement loc e ps h None c
      else bindR (mustache_sexpr loc e ps h c) (\<lambda>c.
        Inr (emit loc (if escaped \<and> \<not> noEscape (c_options c) then AppendEscaped else Append) c)))"
| "compile_stmt (Block d e ps h pr iv os is cs loc) c =
     (if d then bindR (compile_child pr c) (\<lambda>(program, c). decorator_statement loc e ps h program c)
      else bindR (compile_child pr c) (\<lambda>(program, c).
           bindR (compile_child iv c) (\<lambda>(inve, c). block_statement loc e ps h program inve c)))"
| "compile_stmt (Partial name ps h indent s loc) c =
     partial_statement loc name ps h None indent (c\<lparr>c_usePartial := True\<rparr>)"
| "compile_stmt (PartialBlock name ps h pr os cs loc) c =
     bindR (compile_child (Some pr) (c\<lparr>c_usePartial := True\<rparr>)) (\<lambda>(program, c).
       partial_statement loc name ps h program [] c)"
| "compile_stmt (Content orig v rs ls loc) c = Inr (if v = [] then c else emit loc (AppendContent v) c)"
| "compile_stmt (Comment t s loc) c = Inr c"
| "compile_body [] c = Inr c"
| "compile_body (st # sts) c = bindR (compile_stmt st c) (\<lambda>c. compile_body sts c)"
| "compile_child None c = Inr (None, c)"
| "compile_child (Some pr) c =
     bindR (compile_program pr (c_options c)) (\<lambda>(r, opts).
       Inr (Some (length (c_children c)), add_child r opts c))"
| "compile_program (Program b bp ch loc) opts =
     bindR (compile_body b (start_comp bp opts)) (\<lambda>c. Inr (finish_comp (length b) bp c))"
  by pat_completeness auto
termination
  by (relation "measure (\<lambda>x. case x of
      Inl (Inl (st, _)) \<Rightarrow> 2 * size st + 1
    | Inl (Inr (b, _)) \<Rightarrow> 2 * size_list size b
    | Inr (Inl (p, _)) \<Rightarrow> 2 * size_option size p
    | Inr (Inr (p, _)) \<Rightarrow> 2 * size p)") auto

section \<open>Entry points\<close>

text \<open>
  \<open>parse\<close> (module 22): a syntax tree is taken as it is, a text is parsed and its whitespace
  controlled. \<open>None\<close> stands for a parser that does not return.
\<close>

datatype template_input = TemplateText string | TemplateAst program | TemplateOther string

fun handlebars_parse :: "options \<Rightarrow> template_input \<Rightarrow> program result option" where
  "handlebars_parse opts (TemplateAst p) = Some (Inr p)"
| "handlebars_parse opts (TemplateText s) =
     map_option (\<lambda>r. bindR r (\<lambda>v. case v of
         SProg p \<Rightarrow> whitespace_control (ignoreStandalone opts) p
       | _ \<Rightarrow> Inl (type_error ''no program''))) (parser_parse (srcName opts) s)"
| "handlebars_parse opts (TemplateOther s) = Some (Inl (type_error ''no template''))"

definition default_options :: options where
  "default_options = \<lparr>stringParams = False, trackIds = False, knownHelpers = [], knownHelpersOnly = False,
     explicitPartialContext = False, preventIndent = False, noEscape = False, compat = False, strict = False,
     assumeObjects = False, ignoreStandalone = False, opt_useDepths = False, opt_data = None,
     blockParamStack = [], srcName = None\<rparr>"

definition prepare_options :: "options \<Rightarrow> options" where
  "prepare_options opts = opts\<lparr>
     opt_data := (case opt_data opts of None \<Rightarrow> Some True | d \<Rightarrow> d),
     opt_useDepths := (if compat opts then True else opt_useDepths opts)\<rparr>"

text \<open>
  The checks of \<open>precompile\<close> and \<open>compile\<close>, up to the call of the compiler to JavaScript; the
  first argument is the name of the entry point.
\<close>

definition check_input :: "string \<Rightarrow> template_input \<Rightarrow> template_input result" where
  "check_input name i = (case i of
      TemplateOther s \<Rightarrow> Inl (Exception (''You must pass a string or Handlebars AST to Handlebars.'' @ name
        @ ''. You passed '' @ s) None)
    | _ \<Rightarrow> Inr i)"

definition compile_opcodes :: "options \<Rightarrow> template_input \<Rightarrow> (compiled \<times> options) result option" where
  "compile_opcodes opts i =
     map_option (\<lambda>r. bindR r (\<lambda>p. compile_program p (prepare_options opts)))
       (handlebars_parse (prepare_options opts) i)"

text \<open>
  The template that \<open>compile\<close> returns compiles itself at its first use. Its state is the
  variable \<open>compiled\<close>; \<open>compile_input\<close> is the function \<open>compileInput\<close>, run at most once.
\<close>

definition force_template :: "(unit \<Rightarrow> 'template result) \<Rightarrow> 'template option \<Rightarrow> ('template \<times> 'template option) result" where
  "force_template compile_input cached =
     (case cached of
        Some t \<Rightarrow> Inr (t, cached)
      | None \<Rightarrow> bindR (compile_input ()) (\<lambda>t. Inr (t, Some t)))"

definition lazy_call :: "(unit \<Rightarrow> 'template result) \<Rightarrow> ('template \<Rightarrow> 'r result) \<Rightarrow> 'template option
    \<Rightarrow> ('r \<times> 'template option) result" where
  "lazy_call compile_input use cached =
     bindR (force_template compile_input cached) (\<lambda>(t, cached). bindR (use t) (\<lambda>r. Inr (r, cached)))"

section \<open>The opcodes are balanced\<close>

text \<open>
  The effect of an opcode on the height of the stack of the compiler to JavaScript and on the
  number of its open hash literals. \<open>slots\<close> is the number of stack entries of a parameter: the
  value, its id with \<open>trackIds\<close>, its type and context with \<open>stringParams\<close>. A program index must be
  below the number \<open>m\<close> of children.
\<close>

definition slots :: "bool \<Rightarrow> bool \<Rightarrow> nat" where
  "slots t s = 1 + (if t then 1 else 0) + (if s then 2 else 0)"

definition take_put :: "nat \<Rightarrow> nat \<Rightarrow> nat \<times> nat \<Rightarrow> (nat \<times> nat) option" where
  "take_put a b st = (if a \<le> fst st then Some (fst st - a + b, snd st) else None)"

fun opcode_effect :: "bool \<Rightarrow> bool \<Rightarrow> nat \<Rightarrow> opcode \<Rightarrow> nat \<times> nat \<Rightarrow> (nat \<times> nat) option" where
  "opcode_effect t s m (GetContext d) st = take_put 0 0 st"
| "opcode_effect t s m (PushProgram g) st =
     (if (case g of None \<Rightarrow> True | Some i \<Rightarrow> i < m) then take_put 0 1 st else None)"
| "opcode_effect t s m PushContext st = take_put 0 1 st"
| "opcode_effect t s m (LookupOnContext ps f stri sc) st = take_put 0 1 st"
| "opcode_effect t s m (LookupData d ps stri) st = take_put 0 1 st"
| "opcode_effect t s m (LookupBlockParam d i ps) st = take_put 0 1 st"
| "opcode_effect t s m ResolvePossibleLambda st = take_put 1 1 st"
| "opcode_effect t s m (PushString x) st = take_put 0 1 st"
| "opcode_effect t s m (PushLiteral v) st = take_put 0 1 st"
| "opcode_effect t s m PushHash st = Some (fst st, Suc (snd st))"
| "opcode_effect t s m PopHash st =
     (case snd st of 0 \<Rightarrow> None | Suc h \<Rightarrow> take_put 0 (slots t s) (fst st, h))"
| "opcode_effect t s m (AssignToHash k) st =
     (if snd st = 0 then None else take_put (slots t s) 0 st)"
| "opcode_effect t s m (EmptyHash om) st = take_put 0 (slots t s) st"
| "opcode_effect t s m (InvokeHelper n v simple) st = take_put (3 + slots t s + n * slots t s) 1 st"
| "opcode_effect t s m (InvokeKnownHelper n k) st = take_put (2 + slots t s + n * slots t s) 1 st"
| "opcode_effect t s m (InvokeAmbiguous k bl) st = take_put 3 1 st"
| "opcode_effect t s m (InvokePartial d v i) st =
     take_put (2 + 2 * slots t s + (if d then 1 else 0)) 1 st"
| "opcode_effect t s m (BlockValue v) st = take_put (3 + slots t s) 1 st"
| "opcode_effect t s m AmbiguousBlockValue st = take_put (3 + slots t s) 1 st"
| "opcode_effect t s m Append st = take_put 1 0 st"
| "opcode_effect t s m AppendEscaped st = take_put 1 0 st"
| "opcode_effect t s m (AppendContent x) st = take_put 0 0 st"
| "opcode_effect t s m (RegisterDecorator n v) st = take_put (2 + slots t s + n * slots t s) 0 st"
| "opcode_effect t s m (PushStringParam v ty) st =
     take_put 0 (if ty = ''SubExpression'' then 2 else 3) st"
| "opcode_effect t s m (PushId ty v) st = take_put 0 1 st"
| "opcode_effect t s m (PushIdBlockParam d i child) st = take_put 0 1 st"

fun run_effects :: "bool \<Rightarrow> bool \<Rightarrow> nat \<Rightarrow> opcode list \<Rightarrow> nat \<times> nat \<Rightarrow> (nat \<times> nat) option" where
  "run_effects t s m [] st = Some st"
| "run_effects t s m (op # ops) st =
     (case opcode_effect t s m op st of None \<Rightarrow> None | Some st' \<Rightarrow> run_effects t s m ops st')"

text \<open>A compiled program is balanced when it ends with the empty stack it starts with.\<close>

fun balanced :: "bool \<Rightarrow> bool \<Rightarrow> compiled \<Rightarrow> bool" where
  "balanced t s (Compiled ops ch up ud dec simp bpc) \<longleftrightarrow>
     run_effects t s (length ch) (map fst ops) (0, 0) = Some (0, 0) \<and> list_all (balanced t s) ch"

text \<open>
  The two kinds of parameters that need more entries than one exclude each other, and the explicit
  context of a partial is one entry.
\<close>

definition options_ok :: "options \<Rightarrow> bool" where
  "options_ok opts \<longleftrightarrow> \<not> (stringParams opts \<and> trackIds opts)
     \<and> (explicitPartialContext opts \<longrightarrow> \<not> stringParams opts \<and> \<not> trackIds opts)"

lemma run_effects_append:
  "run_effects t s m (xs @ ys) st = Option.bind (run_effects t s m xs st) (run_effects t s m ys)"
  by (induction xs arbitrary: st) (auto split: option.splits)

lemma opcode_effect_mono:
  "opcode_effect t s m op st = Some st' \<Longrightarrow> m \<le> m' \<Longrightarrow> opcode_effect t s m' op st = Some st'"
  by (cases op) (auto split: if_splits option.splits)

lemma run_effects_mono:
  "run_effects t s m ops st = Some st' \<Longrightarrow> m \<le> m' \<Longrightarrow> run_effects t s m' ops st = Some st'"
  by (induction ops arbitrary: st) (auto split: option.splits dest: opcode_effect_mono)

text \<open>The height reached and the open hashes after the opcodes emitted so far.\<close>

definition same_flags :: "options \<Rightarrow> options \<Rightarrow> bool" where
  "same_flags o1 o2 \<longleftrightarrow> stringParams o1 = stringParams o2 \<and> trackIds o1 = trackIds o2
     \<and> explicitPartialContext o1 = explicitPartialContext o2"

definition height :: "options \<Rightarrow> compiled list \<Rightarrow> comp \<Rightarrow> nat \<Rightarrow> nat \<Rightarrow> bool" where
  "height opts ch c n h \<longleftrightarrow> same_flags (c_options c) opts \<and> c_children c = ch
     \<and> run_effects (trackIds opts) (stringParams opts) (length ch) (map fst (c_opcodes c)) (0, 0) = Some (n, h)"

abbreviation effect_in :: "options \<Rightarrow> compiled list \<Rightarrow> opcode \<Rightarrow> nat \<times> nat \<Rightarrow> (nat \<times> nat) option" where
  "effect_in opts ch \<equiv> opcode_effect (trackIds opts) (stringParams opts) (length ch)"

lemma height_emit:
  "height opts ch c n h \<Longrightarrow> effect_in opts ch op (n, h) = Some (n', h') \<Longrightarrow>
     height opts ch (emit loc op c) n' h'"
  by (simp add: height_def emit_def run_effects_append)

lemma height_update [simp]:
  "height opts ch (c\<lparr>c_useDepths := b\<rparr>) n h = height opts ch c n h"
  "height opts ch (c\<lparr>c_useDecorators := b\<rparr>) n h = height opts ch c n h"
  "height opts ch (c\<lparr>c_usePartial := b\<rparr>) n h = height opts ch c n h"
  "height opts ch (c\<lparr>c_options := (c_options c)\<lparr>opt_data := d\<rparr>\<rparr>) n h = height opts ch c n h"
  by (simp_all add: height_def same_flags_def)

lemma height_addDepth [simp]: "height opts ch (addDepth d c) n h = height opts ch c n h"
  by (simp add: addDepth_def)

lemma height_emit_simple:
  "effect_in opts ch op (n, h) = take_put 0 b (n, h) \<Longrightarrow> height opts ch c n h \<Longrightarrow>
     height opts ch (emit loc op c) (n + b) h"
  by (auto simp: take_put_def intro: height_emit)

lemma height_path: "height opts ch c n h \<Longrightarrow> height opts ch (accept_path stri falsy p c) (Suc n) h"
  unfolding accept_path_def Let_def
  by (auto simp: take_put_def intro!: height_emit [where n = n] height_emit [where n = n and n' = n]
      split: option.splits)

abbreviation slots_in :: "options \<Rightarrow> nat" where
  "slots_in opts \<equiv> slots (trackIds opts) (stringParams opts)"

abbreviation index_ok :: "nat option \<Rightarrow> compiled list \<Rightarrow> bool" where
  "index_ok g ch \<equiv> (case g of None \<Rightarrow> True | Some i \<Rightarrow> i < length ch)"

lemma height_program:
  "height opts ch c n h \<Longrightarrow> index_ok g ch \<Longrightarrow> height opts ch (emit loc (PushProgram g) c) (Suc n) h"
  by (rule height_emit) (simp_all add: take_put_def split: option.splits)

lemma height_simpleSexpr: "height opts ch c n h \<Longrightarrow> height opts ch (simpleSexpr loc p c) (Suc n) h"
  unfolding simpleSexpr_def by (rule height_emit [OF height_path]) (simp_all add: take_put_def)

lemma height_ambiguousSexpr:
  assumes "height opts ch c n h" "index_ok program ch" "index_ok inve ch"
  shows "height opts ch (ambiguousSexpr loc p program inve c) (Suc n) h"
  unfolding ambiguousSexpr_def
  by (rule height_emit [OF height_path [OF height_program [OF height_program [OF height_emit [OF assms(1)]]]]])
    (use assms(2,3) in \<open>simp_all add: take_put_def\<close>)

lemma height_invoke_helper:
  assumes "invoke_helper loc p n c = Inr c'"
    and "height opts ch c (r + (2 + slots_in opts + n * slots_in opts)) h"
  shows "height opts ch c' (Suc r) h"
proof -
  have "height opts ch (emit loc (InvokeKnownHelper n k) c) (Suc r) h" for k
    by (rule height_emit [OF assms(2)]) (simp add: take_put_def)
  moreover have "height opts ch (emit loc (InvokeHelper n v sim) (accept_path True True p c)) (Suc r) h" for v sim
    by (rule height_emit [OF height_path [OF assms(2)]]) (simp add: take_put_def)
  ultimately show ?thesis using assms(1) by (auto simp: invoke_helper_def Let_def split: if_splits)
qed

lemma height_prefix:
  assumes "param_prefix loc e c = (c', acc)" and "options_ok opts" and "height opts ch c n h"
  shows "height opts ch c' (if acc then n + slots_in opts - 1 else n + slots_in opts) h"
proof -
  have f: "stringParams (c_options c) = stringParams opts" "trackIds (c_options c) = trackIds opts"
    using assms(3) by (simp_all add: height_def same_flags_def)
  show ?thesis
  proof (cases "stringParams opts")
    case True
    with assms(2) have k: "slots_in opts = 3" by (auto simp: slots_def options_ok_def)
    from assms(1) True f have c': "c' = emit loc (PushStringParam (on_string string_param (param_value e)) (expr_type e))
        (emit loc (GetContext (param_depth e)) (addDepth (param_depth e) c))"
      and acc: "acc \<longleftrightarrow> expr_type e = ''SubExpression''" by (auto simp: param_prefix_def)
    have "height opts ch c' (n + (if acc then 2 else 3)) h"
      unfolding c' acc
      by (rule height_emit [OF height_emit [where n = n and h = h]]) (simp_all add: take_put_def assms(3))
    then show ?thesis by (simp add: k split: if_split_asm)
  next
    case False
    have push: "height opts ch (emit loc (PushId ty v) c) (Suc n) h"
      "height opts ch (emit loc (PushIdBlockParam d i x) c) (Suc n) h" for ty v d i x
      by (rule height_emit [OF assms(3)]; simp add: take_put_def)+
    show ?thesis
    proof (cases "trackIds opts")
      case True
      with False have "slots_in opts = 2" by (simp add: slots_def)
      with push True False f assms(1) show ?thesis
        by (auto simp: param_prefix_def split: option.splits)
    next
      case no: False
      with False have "slots_in opts = 1" by (simp add: slots_def)
      with no False f assms(1,3) show ?thesis by (simp add: param_prefix_def)
    qed
  qed
qed

lemma slots_pos: "slots t s \<ge> 1"
  by (simp add: slots_def)

lemma height_assign:
  "height opts ch c (n + length prs * slots_in opts) (Suc h) \<Longrightarrow>
     height opts ch (assign_pairs hl prs c) n (Suc h)"
proof (induction prs arbitrary: n)
  case Nil
  then show ?case by (simp add: assign_pairs_def)
next
  case (Cons p ps)
  obtain k e l where p: "p = HashPair k e l" by (cases p) auto
  have eq: "assign_pairs hl (p # ps) c = emit hl (AssignToHash k) (assign_pairs hl ps c)"
    by (simp add: assign_pairs_def p)
  have "height opts ch c ((n + slots_in opts) + length ps * slots_in opts) (Suc h)"
    using Cons.prems by (simp add: algebra_simps)
  from Cons.IH [OF this] have "height opts ch (assign_pairs hl ps c) (n + slots_in opts) (Suc h)" .
  then show ?case unfolding eq by (rule height_emit) (simp add: take_put_def)
qed

lemma height_exprs:
  assumes "options_ok opts"
  shows "accept_expr e c = Inr c' \<Longrightarrow> height opts ch c n h \<Longrightarrow> height opts ch c' (Suc n) h"
    and "push_params loc es c = Inr c' \<Longrightarrow> height opts ch c n h \<Longrightarrow>
      height opts ch c' (n + length es * slots_in opts) h"
    and "push_pairs loc prs c = Inr c' \<Longrightarrow> height opts ch c n h \<Longrightarrow>
      height opts ch c' (n + length prs * slots_in opts) h"
    and "setup_params loc es ho program inve om c = Inr c' \<Longrightarrow> height opts ch c n h \<Longrightarrow>
      index_ok program ch \<Longrightarrow> index_ok inve ch \<Longrightarrow>
      height opts ch c' (n + (2 + slots_in opts + length es * slots_in opts)) h"
proof (induction e c and loc es c and loc prs c and loc es ho program inve om c
    arbitrary: c' n h and c' n h and c' n h and c' n h
    rule: accept_expr_push_params_push_pairs_setup_params.induct)
  case (1 p c)
  then show ?case by (auto intro: height_path)
next
  case (2 l loc c)
  then show ?case by (cases l) (auto intro!: height_emit simp: take_put_def)
next
  case (3 e ps ho loc c)
  let ?p = "transformLiteralToPath e"
  show ?case
  proof (cases "classifySexpr True ?p c")
    case Helper
    with 3(2) obtain c1 where c1: "setup_params loc ps ho None None False c = Inr c1"
      and c2: "invoke_helper loc ?p (length ps) c1 = Inr c'" by (auto simp: Let_def)
    from 3(1) [OF refl Helper c1 3(3)] have "height opts ch c1 (n + (2 + slots_in opts + length ps * slots_in opts)) h"
      by simp
    from height_invoke_helper [OF c2 this] show ?thesis .
  qed (use 3 in \<open>auto simp: Let_def intro: height_simpleSexpr height_ambiguousSexpr\<close>)
next
  case (5 loc e es c)
  obtain c1 acc where pre: "param_prefix loc e c = (c1, acc)" by fastforce
  from 5(3) pre obtain c2 where c2: "(if acc then accept_expr e c1 else Inr c1) = Inr c2"
    and c3: "push_params loc es c2 = Inr c'" by auto
  note h1 = height_prefix [OF pre assms 5(4)]
  have "height opts ch c2 (n + slots_in opts) h"
  proof (cases acc)
    case True
    with c2 5(1) [OF pre [symmetric] refl True _ h1] slots_pos [of "trackIds opts" "stringParams opts"]
    show ?thesis by auto
  qed (use h1 c2 in auto)
  from 5(2) [OF pre [symmetric] refl c2 c3 this] show ?case by (simp add: algebra_simps)
next
  case (7 loc k e l prs c)
  obtain c1 acc where pre: "param_prefix loc e c = (c1, acc)" by fastforce
  from 7(3) pre obtain c2 where c2: "(if acc then accept_expr e c1 else Inr c1) = Inr c2"
    and c3: "push_pairs loc prs c2 = Inr c'" by auto
  note h1 = height_prefix [OF pre assms 7(4)]
  have "height opts ch c2 (n + slots_in opts) h"
  proof (cases acc)
    case True
    with c2 7(1) [OF pre [symmetric] refl True _ h1] slots_pos [of "trackIds opts" "stringParams opts"]
    show ?thesis by auto
  qed (use h1 c2 in auto)
  from 7(2) [OF pre [symmetric] refl c2 c3 this] show ?case by (simp add: algebra_simps)
next
  case (8 loc es ho program inve om c)
  from 8(3) obtain c1 where c1: "push_params loc es c = Inr c1"
    by (auto simp: Let_def)
  let ?c2 = "emit loc (PushProgram inve) (emit loc (PushProgram program) c1)"
  let ?n = "n + length es * slots_in opts"
  have h2: "height opts ch ?c2 (Suc (Suc ?n)) h"
    using height_program [OF height_program [OF 8(1) [OF c1 8(4)]]] 8(5,6) by simp
  show ?case
  proof (cases ho)
    case None
    with 8(3) c1 have c': "c' = emit loc (EmptyHash (Some om)) ?c2" by (simp add: Let_def)
    show ?thesis unfolding c' by (rule height_emit [OF h2]) (simp add: take_put_def)
  next
    case (Some hs)
    obtain prs hl where hs: "hs = Hash prs hl" by (cases hs) auto
    with Some 8(3) c1 obtain c3 where c3: "push_pairs hl prs (emit hl PushHash ?c2) = Inr c3"
      and c': "c' = emit hl PopHash (assign_pairs hl prs c3)" by (auto simp: Let_def)
    have "height opts ch (emit hl PushHash ?c2) (Suc (Suc ?n)) (Suc h)"
      by (rule height_emit [OF h2]) simp
    from 8(2) [OF c1 refl Some hs c3 this]
    have "height opts ch (assign_pairs hl prs c3) (Suc (Suc ?n)) (Suc h)" by (rule height_assign)
    then show ?thesis unfolding c' by (rule height_emit) (simp add: take_put_def)
  qed
qed auto

declare setup_params.simps [simp del]

lemma height_helperSexpr:
  assumes "options_ok opts" and "helperSexpr loc p es ho program inve c = Inr c'" and "height opts ch c n h"
    and "index_ok program ch" and "index_ok inve ch"
  shows "height opts ch c' (Suc n) h"
proof -
  from assms(2) obtain c1 where c1: "setup_params loc es ho program inve False c = Inr c1"
    and c2: "invoke_helper loc p (length es) c1 = Inr c'" by (auto simp: helperSexpr_def)
  from height_exprs(4) [OF assms(1) c1 assms(3-5)] c2 show ?thesis by (intro height_invoke_helper) simp_all
qed

lemma height_mustache:
  assumes "options_ok opts" and "mustache_sexpr loc e ps ho c = Inr c'" and "height opts ch c n h"
  shows "height opts ch c' (Suc n) h"
  using assms(2,3) height_helperSexpr [OF assms(1), of _ _ _ _ None None]
    height_simpleSexpr height_ambiguousSexpr [of _ _ _ _ _ None None]
  by (auto simp: mustache_sexpr_def Let_def split: sexpr_type.splits)

lemma height_block:
  assumes "options_ok opts" and "block_statement loc e ps ho program inve c = Inr c'"
    and h: "height opts ch c n h" and ok: "index_ok program ch" "index_ok inve ch"
  shows "height opts ch c' n h"
proof -
  let ?p = "transformLiteralToPath e"
  let ?progs = "\<lambda>c. emit loc (EmptyHash None) (emit loc (PushProgram inve) (emit loc (PushProgram program) c))"
  have progs: "height opts ch (?progs d) (k + (2 + slots_in opts)) h" if "height opts ch d k h" for d k
    by (rule height_emit [OF height_program [OF height_program [OF that]]])
      (use ok in \<open>simp_all add: take_put_def\<close>)
  from assms(2) obtain c1 where c': "c' = emit loc Append c1" and
    c1: "helperSexpr loc ?p ps ho program inve c = Inr c1
       \<or> c1 = emit loc (BlockValue (path_string ?p)) (?progs (simpleSexpr loc ?p c))
       \<or> c1 = emit loc AmbiguousBlockValue (?progs (ambiguousSexpr loc ?p program inve c))"
    by (auto simp: block_statement_def Let_def split: sexpr_type.splits)
  have "height opts ch (emit loc (BlockValue v) (?progs (simpleSexpr loc ?p c))) (Suc n) h" for v
    by (rule height_emit [OF progs [OF height_simpleSexpr [OF h]]]) (simp add: take_put_def)
  moreover have "height opts ch (emit loc AmbiguousBlockValue (?progs (ambiguousSexpr loc ?p program inve c))) (Suc n) h"
    by (rule height_emit [OF progs [OF height_ambiguousSexpr [OF h ok]]]) (simp add: take_put_def)
  ultimately have "height opts ch c1 (Suc n) h" using c1 height_helperSexpr [OF assms(1) _ h ok] by blast
  then show ?thesis unfolding c' by (rule height_emit) (simp add: take_put_def)
qed

lemma height_decorator:
  assumes "options_ok opts" and "decorator_statement loc e ps ho program c = Inr c'"
    and "height opts ch c n h" and "index_ok program ch"
  shows "height opts ch c' n h"
proof -
  from assms(2) obtain c1 where c1: "setup_params loc ps ho program None False c = Inr c1"
    and c': "c' = emit loc (RegisterDecorator (length ps) (expr_original e)) (c1\<lparr>c_useDecorators := True\<rparr>)"
    by (auto simp: decorator_statement_def)
  have "height opts ch c1 (n + (2 + slots_in opts + length ps * slots_in opts)) h"
    using height_exprs(4) [OF assms(1) c1 assms(3,4)] by simp
  then have "height opts ch (c1\<lparr>c_useDecorators := True\<rparr>) (n + (2 + slots_in opts + length ps * slots_in opts)) h"
    by simp
  then show ?thesis unfolding c' by (rule height_emit) (simp add: take_put_def)
qed

lemma partial_statement_cases:
  assumes "partial_statement loc name ps ho program indent c = Inr c'"
  obtains c0 ps0 c1 c2 b v i x where "length ps \<le> 1"
    and "c0 = (if ps = [] \<and> explicitPartialContext (c_options c)
          then emit loc (PushLiteral (VStr ''undefined'')) c else c)"
    and "ps0 = (if ps = [] \<and> \<not> explicitPartialContext (c_options c) then [context_path] else ps)"
    and "(if expr_type name = ''SubExpression'' then accept_expr name c0 else Inr c0) = Inr c1"
    and "setup_params loc ps0 ho program None True c1 = Inr c2"
    and "c' = emit loc Append (emit loc (InvokePartial (expr_type name = ''SubExpression'') v i)
        (if b then emit loc (AppendContent x) c2 else c2))"
proof -
  define ex where "ex = explicitPartialContext (c_options c)"
  define c0 where "c0 = (if ps = [] \<and> ex then emit loc (PushLiteral (VStr ''undefined'')) c else c)"
  define ps0 where "ps0 = (if ps = [] \<and> \<not> ex then [context_path] else ps)"
  define dyn where "dyn = (expr_type name = ''SubExpression'')"
  define fin where "fin = (\<lambda>c2. let prevent = (preventIndent (c_options c2) \<and> indent \<noteq> []);
                 c = (if prevent then emit loc (AppendContent indent) c2 else c2)
             in emit loc Append
                  (emit loc (InvokePartial dyn (expr_original name) (if prevent then [] else indent)) c))"
  from assms have len: "length ps \<le> 1" by (simp add: partial_statement_def split: if_splits)
  with assms have "bindR (if dyn then accept_expr name c0 else Inr c0) (\<lambda>c.
      bindR (setup_params loc ps0 ho program None True c) (\<lambda>c. Inr (fin c))) = Inr c'"
    unfolding partial_statement_def Let_def ex_def c0_def ps0_def dyn_def fin_def by simp
  then obtain c1 c2 where c1: "(if dyn then accept_expr name c0 else Inr c0) = Inr c1"
    and c2: "setup_params loc ps0 ho program None True c1 = Inr c2" and c': "c' = fin c2"
    by (elim bindR_InrE) simp
  show ?thesis
    by (rule that [OF len c0_def [unfolded ex_def] ps0_def [unfolded ex_def] c1 [unfolded dyn_def] c2])
      (simp only: c' fin_def Let_def dyn_def)
qed

lemma height_partial:
  assumes ok: "options_ok opts" and part: "partial_statement loc name ps ho program indent c = Inr c'"
    and h: "height opts ch c n h" and idx: "index_ok program ch"
  shows "height opts ch c' n h"
proof -
  let ?k = "slots_in opts" and ?ex = "explicitPartialContext (c_options c)"
    and ?d = "expr_type name = ''SubExpression''"
  from partial_statement_cases [OF part] obtain c0 ps0 c1 c2 b v i x where len: "length ps \<le> 1"
    and c0: "c0 = (if ps = [] \<and> ?ex then emit loc (PushLiteral (VStr ''undefined'')) c else c)"
    and ps0: "ps0 = (if ps = [] \<and> \<not> ?ex then [context_path] else ps)"
    and c1: "(if ?d then accept_expr name c0 else Inr c0) = Inr c1"
    and c2: "setup_params loc ps0 ho program None True c1 = Inr c2"
    and c': "c' = emit loc Append (emit loc (InvokePartial ?d v i)
        (if b then emit loc (AppendContent x) c2 else c2))" .
  have "?ex \<Longrightarrow> ?k = 1" using ok h
    by (auto simp: options_ok_def height_def same_flags_def slots_def)
  then have e: "(if ps = [] \<and> ?ex then 1 else 0) + length ps0 * ?k = ?k"
    using len by (cases ps) (auto simp: ps0)
  have "height opts ch c0 (n + (if ps = [] \<and> ?ex then 1 else 0)) h"
    using height_emit [OF h, of "PushLiteral (VStr ''undefined'')"] h by (simp add: c0 take_put_def)
  then have "height opts ch c1 (n + (if ps = [] \<and> ?ex then 1 else 0) + (if ?d then 1 else 0)) h"
    using c1 height_exprs(1) [OF ok] by (auto split: if_splits)
  from height_exprs(4) [OF ok c2 this idx]
  have 2: "height opts ch c2 (n + (if ?d then 1 else 0) + (2 + 2 * ?k)) h"
    using e by (cases ?d) (simp_all add: algebra_simps mult_2)
  then have "height opts ch (if b then emit loc (AppendContent x) c2 else c2)
      (n + (if ?d then 1 else 0) + (2 + 2 * ?k)) h"
    using height_emit [OF 2, of "AppendContent x"] by (simp add: take_put_def)
  then have "height opts ch (emit loc (InvokePartial ?d v i) (if b then emit loc (AppendContent x) c2 else c2)) (Suc n) h"
    by (rule height_emit) (simp add: take_put_def)
  then show ?thesis unfolding c' by (rule height_emit) (simp add: take_put_def)
qed

definition height_some :: "options \<Rightarrow> nat \<Rightarrow> comp \<Rightarrow> nat \<Rightarrow> nat \<Rightarrow> bool" where
  "height_some opts m c n h \<longleftrightarrow> m \<le> length (c_children c) \<and> height opts (c_children c) c n h
     \<and> list_all (balanced (trackIds opts) (stringParams opts)) (c_children c)"

lemma height_someI: "height opts ch c' n h \<Longrightarrow> m \<le> length ch \<Longrightarrow>
    list_all (balanced (trackIds opts) (stringParams opts)) ch \<Longrightarrow> height_some opts m c' n h"
  by (auto simp: height_some_def height_def)

lemma height_some_same:
  assumes "height_some opts m c n h"
    and "\<And>n. height opts (c_children c) c n h \<Longrightarrow> height opts (c_children c) c' n h"
  shows "height_some opts m c' n h"
  using assms unfolding height_some_def by (metis height_def)

lemma height_add_child:
  assumes "height_some opts m c n h" and "balanced (trackIds opts) (stringParams opts) r" and "same_flags o' opts"
  shows "height_some opts (Suc (length (c_children c))) (add_child r o' c) n h"
  using assms by (auto simp: height_some_def height_def add_child_def intro: run_effects_mono)

lemma height_some_weaken: "height_some opts m c n h \<Longrightarrow> m' \<le> m \<Longrightarrow> height_some opts m' c n h"
  by (auto simp: height_some_def)

lemma height_some_update [simp]:
  "height_some opts m (c\<lparr>c_usePartial := b\<rparr>) n h = height_some opts m c n h"
  by (simp add: height_some_def)

lemma height_programs:
  assumes ok: "options_ok opts"
  shows "compile_stmt st c = Inr c' \<Longrightarrow> height_some opts m c n h \<Longrightarrow> height_some opts m c' n h"
    and "compile_body b c = Inr c' \<Longrightarrow> height_some opts m c n h \<Longrightarrow> height_some opts m c' n h"
    and "compile_child po c = Inr (g, c') \<Longrightarrow> height_some opts m c n h \<Longrightarrow>
      height_some opts (max m (case g of None \<Rightarrow> 0 | Some i \<Rightarrow> Suc i)) c' n h"
    and "compile_program p opts' = Inr (r, opts'') \<Longrightarrow> same_flags opts' opts \<Longrightarrow>
      balanced (trackIds opts) (stringParams opts) r \<and> same_flags opts'' opts"
proof (induction st c and b c and po c and p opts' arbitrary: c' m n h and c' m n h and g c' m n h and r opts''
    rule: compile_stmt_compile_body_compile_child_compile_program.induct)
  case (1 d e ps ho escaped s loc c)
  show ?case
  proof (cases d)
    case True
    with 1(1) have "decorator_statement loc e ps ho None c = Inr c'" by simp
    from height_some_same [OF 1(2) height_decorator [OF ok this]] show ?thesis by simp
  next
    case False
    with 1(1) obtain c1 where c1: "mustache_sexpr loc e ps ho c = Inr c1"
      and c': "c' = emit loc (if escaped \<and> \<not> noEscape (c_options c1) then AppendEscaped else Append) c1"
      by auto
    have "height opts (c_children c) c' k h" if "height opts (c_children c) c k h" for k
      unfolding c' by (rule height_emit [OF height_mustache [OF ok c1 that]]) (simp add: take_put_def)
    with 1(2) show ?thesis by (rule height_some_same)
  qed
next
  case (2 d e ps ho pr iv os iss cs loc c)
  show ?case
  proof (cases d)
    case True
    with 2(4) obtain g c1 where c1: "compile_child pr c = Inr (g, c1)"
      and c': "decorator_statement loc e ps ho g c1 = Inr c'" by auto
    note h1 = 2(1) [OF True c1 2(5)]
    have "height_some opts (max m (case g of None \<Rightarrow> 0 | Some i \<Rightarrow> Suc i)) c' n h"
      by (rule height_some_same [OF h1 height_decorator [OF ok c']])
        (use h1 in \<open>auto simp: height_some_def split: option.splits\<close>)
    then show ?thesis by (rule height_some_weaken) simp
  next
    case False
    with 2(4) obtain g c1 g' c2 where c1: "compile_child pr c = Inr (g, c1)"
      and c2: "compile_child iv c1 = Inr (g', c2)"
      and c': "block_statement loc e ps ho g g' c2 = Inr c'" by auto
    from 2(2) [OF False c1 2(5)]
    have 1: "height_some opts (max m (case g of None \<Rightarrow> 0 | Some i \<Rightarrow> Suc i)) c1 n h" .
    note h2 = 2(3) [OF False c1 refl c2 1]
    from height_some_same [OF h2 height_block [OF ok c']] h2 show ?thesis
      by (auto simp: height_some_def split: option.splits)
  qed
next
  case (3 name ps ho indent s loc c)
  then have part: "partial_statement loc name ps ho None indent (c\<lparr>c_usePartial := True\<rparr>) = Inr c'" by simp
  show ?case
    by (rule height_some_same [OF _ height_partial [OF ok part]]) (use 3 in simp_all)
next
  case (4 name ps ho pr os cs loc c)
  then obtain g c1 where c1: "compile_child (Some pr) (c\<lparr>c_usePartial := True\<rparr>) = Inr (g, c1)"
    and c': "partial_statement loc name ps ho g [] c1 = Inr c'" by auto
  from 4(3) have "height_some opts m (c\<lparr>c_usePartial := True\<rparr>) n h" by simp
  note h1 = 4(1) [OF c1 this]
  have "height_some opts (max m (case g of None \<Rightarrow> 0 | Some i \<Rightarrow> Suc i)) c' n h"
    by (rule height_some_same [OF h1 height_partial [OF ok c']])
      (use h1 in \<open>auto simp: height_some_def split: option.splits\<close>)
  then show ?case by (rule height_some_weaken) simp
next
  case (5 orig v rs ls loc c)
  have "height_some opts m (emit loc (AppendContent v) c) n h"
    by (rule height_some_same [OF 5(2)]) (auto intro!: height_emit simp: take_put_def)
  with 5 show ?case by (auto split: if_splits)
next
  case (8 st sts c)
  then obtain c1 where "compile_stmt st c = Inr c1" "compile_body sts c1 = Inr c'" by auto
  with 8 show ?case by blast
next
  case (10 pr c)
  then obtain r opts1 where r: "compile_program pr (c_options c) = Inr (r, opts1)"
    and g: "g = Some (length (c_children c))" and c': "c' = add_child r opts1 c" by auto
  have "same_flags (c_options c) opts" using 10(3) by (simp add: height_some_def height_def)
  from 10(1) [OF r this] height_add_child [OF 10(3)]
  have "height_some opts (Suc (length (c_children c))) c' n h" by (simp add: c')
  then show ?case using 10(3) by (auto simp: g height_some_def)
next
  case (11 b bp ch loc opts')
  then obtain c1 where c1: "compile_body b (start_comp bp opts') = Inr c1"
    and r: "(r, opts'') = finish_comp (length b) bp c1" by auto
  have "height_some opts 0 (start_comp bp opts') 0 0"
    using 11(3) by (simp add: height_some_def height_def start_comp_def same_flags_def)
  from 11(1) [OF c1 this] r show ?case
    by (auto simp: finish_comp_def height_some_def height_def same_flags_def)
qed auto

section \<open>Every child is pushed\<close>

text \<open>The opcodes are only ever added to; a compiled child is pushed by its statement.\<close>

definition ops_of :: "comp \<Rightarrow> opcode set" where
  "ops_of c = fst ` set (c_opcodes c)"

lemma ops_emit [simp]: "ops_of (emit loc op c) = insert op (ops_of c)"
  by (auto simp: ops_of_def emit_def)

lemma ops_update [simp]:
  "ops_of (c\<lparr>c_useDepths := b\<rparr>) = ops_of c" "ops_of (c\<lparr>c_useDecorators := b\<rparr>) = ops_of c"
  "ops_of (c\<lparr>c_usePartial := b\<rparr>) = ops_of c" "ops_of (c\<lparr>c_options := o'\<rparr>) = ops_of c"
  "ops_of (add_child r o' c) = ops_of c"
  by (simp_all add: ops_of_def add_child_def)

lemma ops_addDepth [simp]: "ops_of (addDepth d c) = ops_of c"
  by (simp add: addDepth_def)

lemma ops_path: "ops_of c \<subseteq> ops_of (accept_path stri falsy p c)"
  by (auto simp: accept_path_def Let_def split: option.splits)

lemma ops_simpleSexpr: "ops_of c \<subseteq> ops_of (simpleSexpr loc p c)"
  using ops_path by (fastforce simp: simpleSexpr_def)

lemma ops_ambiguousSexpr:
  "insert (PushProgram program) (insert (PushProgram inve) (ops_of c)) \<subseteq> ops_of (ambiguousSexpr loc p program inve c)"
  using ops_path [of "emit loc (PushProgram inve) (emit loc (PushProgram program) (emit loc (GetContext (depth p)) c))"]
  by (auto simp: ambiguousSexpr_def)

lemma ops_prefix: "param_prefix loc e c = (c', acc) \<Longrightarrow> ops_of c \<subseteq> ops_of c'"
  by (auto simp: param_prefix_def split: if_splits option.splits)

lemma ops_assign: "ops_of c \<subseteq> ops_of (assign_pairs loc ps c)"
proof -
  have "ops_of c \<subseteq> ops_of (foldl (\<lambda>c pr. case pr of HashPair k _ _ \<Rightarrow> emit loc (AssignToHash k) c) c qs)" for qs
  proof (induction qs arbitrary: c)
    case (Cons q qs)
    obtain k e l where "q = HashPair k e l" by (cases q) auto
    with Cons [of "emit loc (AssignToHash k) c"] show ?case by auto
  qed simp
  then show ?thesis by (simp add: assign_pairs_def)
qed

lemma ops_invoke_helper: "invoke_helper loc p n c = Inr c' \<Longrightarrow> ops_of c \<subseteq> ops_of c'"
  using ops_path by (fastforce simp: invoke_helper_def Let_def split: if_splits)

lemma ops_exprs:
  "accept_expr e c = Inr c' \<Longrightarrow> ops_of c \<subseteq> ops_of c'"
  "push_params loc es c = Inr c' \<Longrightarrow> ops_of c \<subseteq> ops_of c'"
  "push_pairs loc prs c = Inr c' \<Longrightarrow> ops_of c \<subseteq> ops_of c'"
  "setup_params loc es ho program inve om c = Inr c' \<Longrightarrow>
     insert (PushProgram program) (insert (PushProgram inve) (ops_of c)) \<subseteq> ops_of c'"
proof (induction e c and loc es c and loc prs c and loc es ho program inve om c
    arbitrary: c' and c' and c' and c'
    rule: accept_expr_push_params_push_pairs_setup_params.induct)
  case (1 p c)
  then show ?case using ops_path [THEN subsetD] by auto
next
  case (3 e ps ho loc c)
  then show ?case
    using ops_simpleSexpr ops_ambiguousSexpr ops_invoke_helper
    by (fastforce simp: Let_def split: sexpr_type.splits)
next
  case (5 loc e es c)
  obtain c1 acc where pre: "param_prefix loc e c = (c1, acc)" by fastforce
  from 5(3) pre obtain c2 where c2: "(if acc then accept_expr e c1 else Inr c1) = Inr c2"
    and c3: "push_params loc es c2 = Inr c'" by auto
  have "ops_of c1 \<subseteq> ops_of c2" using 5(1) [OF pre [symmetric] refl] c2 by (auto split: if_splits)
  with 5(2) [OF pre [symmetric] refl c2 c3] ops_prefix [OF pre] show ?case by blast
next
  case (7 loc k e l prs c)
  obtain c1 acc where pre: "param_prefix loc e c = (c1, acc)" by fastforce
  from 7(3) pre obtain c2 where c2: "(if acc then accept_expr e c1 else Inr c1) = Inr c2"
    and c3: "push_pairs loc prs c2 = Inr c'" by auto
  have "ops_of c1 \<subseteq> ops_of c2" using 7(1) [OF pre [symmetric] refl] c2 by (auto split: if_splits)
  with 7(2) [OF pre [symmetric] refl c2 c3] ops_prefix [OF pre] show ?case by blast
next
  case (8 loc es ho program inve om c)
  from 8(3) obtain c1 where c1: "push_params loc es c = Inr c1" by (auto simp: setup_params.simps)
  let ?c2 = "emit loc (PushProgram inve) (emit loc (PushProgram program) c1)"
  have h: "insert (PushProgram program) (insert (PushProgram inve) (ops_of c)) \<subseteq> ops_of ?c2"
    using 8(1) [OF c1] by auto
  show ?case
  proof (cases ho)
    case None
    with 8(3) c1 h show ?thesis by (auto simp: setup_params.simps Let_def)
  next
    case (Some hs)
    obtain prs hl where hs: "hs = Hash prs hl" by (cases hs) auto
    with Some 8(3) c1 obtain c3 where c3: "push_pairs hl prs (emit hl PushHash ?c2) = Inr c3"
      and c': "c' = emit hl PopHash (assign_pairs hl prs c3)" by (auto simp: setup_params.simps Let_def)
    from 8(2) [OF c1 refl Some hs c3] h ops_assign [of c3 hl prs] show ?thesis by (auto simp: c')
  qed
qed auto

lemma ops_helperSexpr: "helperSexpr loc p es ho program inve c = Inr c' \<Longrightarrow>
    insert (PushProgram program) (insert (PushProgram inve) (ops_of c)) \<subseteq> ops_of c'"
  unfolding helperSexpr_def by (elim bindR_InrE) (drule ops_exprs(4), drule ops_invoke_helper, blast)

lemma ops_mustache: "mustache_sexpr loc e ps ho c = Inr c' \<Longrightarrow> ops_of c \<subseteq> ops_of c'"
  using ops_helperSexpr ops_simpleSexpr ops_ambiguousSexpr
  by (fastforce simp: mustache_sexpr_def Let_def split: sexpr_type.splits)

lemma ops_block: "block_statement loc e ps ho program inve c = Inr c' \<Longrightarrow>
    insert (PushProgram program) (insert (PushProgram inve) (ops_of c)) \<subseteq> ops_of c'"
proof -
  assume "block_statement loc e ps ho program inve c = Inr c'"
  then show ?thesis
    using ops_helperSexpr [of loc "transformLiteralToPath e" ps ho program inve c]
      ops_simpleSexpr [of c loc "transformLiteralToPath e"]
      ops_ambiguousSexpr [of program inve c loc "transformLiteralToPath e"]
    by (auto simp: block_statement_def Let_def split: sexpr_type.splits)
qed

lemma ops_decorator: "decorator_statement loc e ps ho program c = Inr c' \<Longrightarrow>
    insert (PushProgram program) (ops_of c) \<subseteq> ops_of c'"
  unfolding decorator_statement_def by (elim bindR_InrE) (drule ops_exprs(4), auto)

lemma ops_partial: "partial_statement loc name ps ho program indent c = Inr c' \<Longrightarrow>
    insert (PushProgram program) (ops_of c) \<subseteq> ops_of c'"
proof -
  assume "partial_statement loc name ps ho program indent c = Inr c'"
  from partial_statement_cases [OF this] obtain c0 ps0 c1 c2 b v i x where
    c0: "c0 = (if ps = [] \<and> explicitPartialContext (c_options c)
          then emit loc (PushLiteral (VStr ''undefined'')) c else c)"
    and c1: "(if expr_type name = ''SubExpression'' then accept_expr name c0 else Inr c0) = Inr c1"
    and c2: "setup_params loc ps0 ho program None True c1 = Inr c2"
    and c': "c' = emit loc Append (emit loc (InvokePartial (expr_type name = ''SubExpression'') v i)
        (if b then emit loc (AppendContent x) c2 else c2))" .
  have "ops_of c \<subseteq> ops_of c0" by (auto simp: c0)
  moreover have "ops_of c0 \<subseteq> ops_of c1" using c1 ops_exprs(1) by (auto split: if_splits)
  moreover have "ops_of c2 \<subseteq> ops_of c'" by (auto simp: c')
  ultimately show ?thesis using ops_exprs(4) [OF c2] by blast
qed

text \<open>All children are pushed, in the whole tree.\<close>

fun all_pushed :: "compiled \<Rightarrow> bool" where
  "all_pushed (Compiled ops ch up ud dec simp bpc) \<longleftrightarrow>
     (\<forall>i<length ch. PushProgram (Some i) \<in> fst ` set ops) \<and> list_all all_pushed ch"

definition pushed_except :: "nat option list \<Rightarrow> comp \<Rightarrow> bool" where
  "pushed_except gs c \<longleftrightarrow>
     (\<forall>i<length (c_children c). Some i \<in> set gs \<or> PushProgram (Some i) \<in> ops_of c)
     \<and> list_all all_pushed (c_children c)"

lemma kids_emit [simp]: "c_children (emit loc op c) = c_children c"
  by (simp add: emit_def)

lemma kids_path [simp]: "c_children (accept_path stri falsy p c) = c_children c"
  by (simp add: accept_path_def Let_def addDepth_def split: option.splits)

lemma kids_sexpr [simp]:
  "c_children (simpleSexpr loc p c) = c_children c"
  "c_children (ambiguousSexpr loc p program inve c) = c_children c"
  by (simp_all add: simpleSexpr_def ambiguousSexpr_def)

lemma kids_prefix: "param_prefix loc e c = (c', acc) \<Longrightarrow> c_children c' = c_children c"
  by (auto simp: param_prefix_def addDepth_def split: if_splits option.splits)

lemma kids_assign [simp]: "c_children (assign_pairs loc ps c) = c_children c"
proof -
  have "c_children (foldl (\<lambda>c pr. case pr of HashPair k _ _ \<Rightarrow> emit loc (AssignToHash k) c) c qs) = c_children c" for qs
    by (induction qs arbitrary: c) (auto split: hash_pair.splits)
  then show ?thesis by (simp add: assign_pairs_def)
qed

lemma kids_invoke_helper: "invoke_helper loc p n c = Inr c' \<Longrightarrow> c_children c' = c_children c"
  by (auto simp: invoke_helper_def Let_def split: if_splits)

lemma kids_exprs:
  "accept_expr e c = Inr c' \<Longrightarrow> c_children c' = c_children c"
  "push_params loc es c = Inr c' \<Longrightarrow> c_children c' = c_children c"
  "push_pairs loc prs c = Inr c' \<Longrightarrow> c_children c' = c_children c"
  "setup_params loc es ho program inve om c = Inr c' \<Longrightarrow> c_children c' = c_children c"
proof (induction e c and loc es c and loc prs c and loc es ho program inve om c
    arbitrary: c' and c' and c' and c'
    rule: accept_expr_push_params_push_pairs_setup_params.induct)
  case (3 e ps ho loc c)
  then show ?case using kids_invoke_helper by (fastforce simp: Let_def split: sexpr_type.splits)
next
  case (5 loc e es c)
  obtain c1 acc where pre: "param_prefix loc e c = (c1, acc)" by fastforce
  from 5(3) pre obtain c2 where c2: "(if acc then accept_expr e c1 else Inr c1) = Inr c2"
    and c3: "push_params loc es c2 = Inr c'" by auto
  have "c_children c2 = c_children c1" using 5(1) [OF pre [symmetric] refl] c2 by (auto split: if_splits)
  with 5(2) [OF pre [symmetric] refl c2 c3] kids_prefix [OF pre] show ?case by simp
next
  case (7 loc k e l prs c)
  obtain c1 acc where pre: "param_prefix loc e c = (c1, acc)" by fastforce
  from 7(3) pre obtain c2 where c2: "(if acc then accept_expr e c1 else Inr c1) = Inr c2"
    and c3: "push_pairs loc prs c2 = Inr c'" by auto
  have "c_children c2 = c_children c1" using 7(1) [OF pre [symmetric] refl] c2 by (auto split: if_splits)
  with 7(2) [OF pre [symmetric] refl c2 c3] kids_prefix [OF pre] show ?case by simp
next
  case (8 loc es ho program inve om c)
  from 8(3) obtain c1 where c1: "push_params loc es c = Inr c1" by (auto simp: setup_params.simps)
  show ?case
  proof (cases ho)
    case None
    with 8(1) [OF c1] 8(3) c1 show ?thesis by (auto simp: setup_params.simps Let_def)
  next
    case (Some hs)
    obtain prs hl where hs: "hs = Hash prs hl" by (cases hs) auto
    with Some 8(3) c1 obtain c3 where c3: "push_pairs hl prs (emit hl PushHash
        (emit loc (PushProgram inve) (emit loc (PushProgram program) c1))) = Inr c3"
      and c': "c' = emit hl PopHash (assign_pairs hl prs c3)" by (auto simp: setup_params.simps Let_def)
    from 8(2) [OF c1 refl Some hs c3] 8(1) [OF c1] show ?thesis by (simp add: c')
  qed
qed auto

lemma kids_helperSexpr: "helperSexpr loc p es ho program inve c = Inr c' \<Longrightarrow> c_children c' = c_children c"
  unfolding helperSexpr_def by (elim bindR_InrE) (drule kids_exprs(4), drule kids_invoke_helper, simp)

lemma kids_mustache: "mustache_sexpr loc e ps ho c = Inr c' \<Longrightarrow> c_children c' = c_children c"
  using kids_helperSexpr by (fastforce simp: mustache_sexpr_def Let_def split: sexpr_type.splits)

lemma kids_block: "block_statement loc e ps ho program inve c = Inr c' \<Longrightarrow> c_children c' = c_children c"
  using kids_helperSexpr [of loc "transformLiteralToPath e" ps ho program inve c]
  by (auto simp: block_statement_def Let_def split: sexpr_type.splits)

lemma kids_decorator: "decorator_statement loc e ps ho program c = Inr c' \<Longrightarrow> c_children c' = c_children c"
  unfolding decorator_statement_def by (elim bindR_InrE) (drule kids_exprs(4), auto)

lemma kids_partial: "partial_statement loc name ps ho program indent c = Inr c' \<Longrightarrow> c_children c' = c_children c"
  by (erule partial_statement_cases) (auto dest!: kids_exprs(1,4) split: if_splits)

lemma pushed_same: "pushed_except gs c \<Longrightarrow> c_children c' = c_children c \<Longrightarrow> ops_of c \<subseteq> ops_of c' \<Longrightarrow>
    (\<forall>g \<in> set gs. g = None \<or> PushProgram g \<in> ops_of c') \<Longrightarrow> pushed_except [] c'"
  by (auto simp: pushed_except_def)

lemma pushed_update [simp]: "pushed_except gs (c\<lparr>c_usePartial := b\<rparr>) = pushed_except gs c"
  by (simp add: pushed_except_def)

lemma pushed_programs:
  "compile_stmt st c = Inr c' \<Longrightarrow> pushed_except [] c \<Longrightarrow> pushed_except [] c'"
  "compile_body b c = Inr c' \<Longrightarrow> pushed_except [] c \<Longrightarrow> pushed_except [] c'"
  "compile_child po c = Inr (g, c') \<Longrightarrow> pushed_except gs c \<Longrightarrow> pushed_except (g # gs) c'"
  "compile_program p opts = Inr (r, opts') \<Longrightarrow> all_pushed r"
proof (induction st c and b c and po c and p opts arbitrary: c' and c' and g c' gs and r opts'
    rule: compile_stmt_compile_body_compile_child_compile_program.induct)
  case (1 d e ps ho escaped s loc c)
  show ?case
  proof (rule pushed_same [OF 1(2)])
    show "c_children c' = c_children c" "ops_of c \<subseteq> ops_of c'"
      using 1(1) kids_decorator ops_decorator kids_mustache ops_mustache by (fastforce split: if_splits)+
  qed simp
next
  case (2 d e ps ho pr iv os iss cs loc c)
  show ?case
  proof (cases d)
    case True
    with 2(4) obtain g c1 where c1: "compile_child pr c = Inr (g, c1)"
      and c': "decorator_statement loc e ps ho g c1 = Inr c'" by auto
    show ?thesis
      by (rule pushed_same [OF 2(1) [OF True c1 2(5)]])
        (use kids_decorator [OF c'] ops_decorator [OF c'] in auto)
  next
    case False
    with 2(4) obtain g c1 g' c2 where c1: "compile_child pr c = Inr (g, c1)"
      and c2: "compile_child iv c1 = Inr (g', c2)"
      and c': "block_statement loc e ps ho g g' c2 = Inr c'" by auto
    show ?thesis
      by (rule pushed_same [OF 2(3) [OF False c1 refl c2 2(2) [OF False c1 2(5)]]])
        (use kids_block [OF c'] ops_block [OF c'] in auto)
  qed
next
  case (3 name ps ho indent s loc c)
  then have c': "partial_statement loc name ps ho None indent (c\<lparr>c_usePartial := True\<rparr>) = Inr c'" by simp
  show ?case
    by (rule pushed_same [OF 3(2)]) (use kids_partial [OF c'] ops_partial [OF c'] in simp_all)
next
  case (4 name ps ho pr os cs loc c)
  then obtain g c1 where c1: "compile_child (Some pr) (c\<lparr>c_usePartial := True\<rparr>) = Inr (g, c1)"
    and c': "partial_statement loc name ps ho g [] c1 = Inr c'" by auto
  from 4(3) have p: "pushed_except [] (c\<lparr>c_usePartial := True\<rparr>)" by simp
  show ?case
    by (rule pushed_same [OF 4(1) [OF c1 p]]) (use kids_partial [OF c'] ops_partial [OF c'] in auto)
next
  case (5 orig v rs ls loc c)
  then show ?case by (auto simp: pushed_except_def split: if_splits)
next
  case (8 st sts c)
  then obtain c1 where "compile_stmt st c = Inr c1" "compile_body sts c1 = Inr c'" by auto
  with 8 show ?case by blast
next
  case (9 c)
  then show ?case by (auto simp: pushed_except_def)
next
  case (10 pr c)
  then obtain r o' where r: "compile_program pr (c_options c) = Inr (r, o')"
    and g: "g = Some (length (c_children c))" and c': "c' = add_child r o' c" by auto
  from 10(1) [OF r] 10(3) show ?case
    by (auto simp: pushed_except_def c' g less_Suc_eq ops_of_def add_child_def)
next
  case (11 b bp ch loc opts)
  then obtain c1 where c1: "compile_body b (start_comp bp opts) = Inr c1"
    and r: "(r, opts') = finish_comp (length b) bp c1" by auto
  have "pushed_except [] (start_comp bp opts)" by (simp add: pushed_except_def start_comp_def)
  from 11(1) [OF c1 this] r show ?case by (auto simp: finish_comp_def pushed_except_def ops_of_def)
qed auto

section \<open>Comparing environments does not fail\<close>

lemma effect_index:
  "run_effects t s m ops st = Some st' \<Longrightarrow> PushProgram (Some i) \<in> set ops \<Longrightarrow> i < m"
  by (induction ops arbitrary: st) (auto split: option.splits if_splits)

lemma opcode_equals_push: "opcode_equals (PushProgram g) op \<Longrightarrow> op = PushProgram g"
  by (cases op) (auto simp: opcode_equals_def)

lemma children_equal_total:
  "(\<And>x y. x \<in> set xs \<Longrightarrow> y \<in> set ys \<Longrightarrow> \<exists>b. env_equals x y = Inr b) \<Longrightarrow> length xs \<le> length ys \<Longrightarrow>
     \<exists>b. children_equal xs ys = Inr b"
proof (induction xs arbitrary: ys)
  case (Cons x xs)
  then obtain y ys' where ys: "ys = y # ys'" by (cases ys) auto
  with Cons.prems(1) obtain b where "env_equals x y = Inr b" by fastforce
  moreover have "\<exists>b. children_equal xs ys' = Inr b" using Cons ys by auto
  ultimately show ?case by (auto simp: ys simp del: env_equals.simps)
qed (intro exI, rule children_equal.simps)

lemma env_equals_total:
  "all_pushed a \<Longrightarrow> balanced t s b \<Longrightarrow> \<exists>r. env_equals a b = Inr r"
proof (induction a arbitrary: b)
  case (Compiled ops ch up ud dec simp bpc)
  obtain ops' ch' up' ud' dec' simp' bpc' where b: "b = Compiled ops' ch' up' ud' dec' simp' bpc'" by (cases b)
  show ?case
  proof (cases "list_all2 (\<lambda>x y. opcode_equals (fst x) (fst y)) ops ops'")
    case True
    have "length ch \<le> length ch'"
    proof (rule ccontr)
      assume "\<not> length ch \<le> length ch'"
      then have "PushProgram (Some (length ch')) \<in> fst ` set ops" using Compiled.prems(1) by auto
      then obtain j where "j < length ops" "fst (ops ! j) = PushProgram (Some (length ch'))"
        by (auto simp: in_set_conv_nth)
      with True have "fst (ops' ! j) = PushProgram (Some (length ch'))" "j < length ops'"
        using opcode_equals_push by (fastforce simp: list_all2_conv_all_nth)+
      then have "PushProgram (Some (length ch')) \<in> set (map fst ops')" by (metis nth_map nth_mem length_map)
      with effect_index Compiled.prems(2) b show False by fastforce
    qed
    moreover have "\<exists>r. env_equals x y = Inr r" if "x \<in> set ch" "y \<in> set ch'" for x y
      using Compiled that b by (auto simp: list_all_iff simp del: env_equals.simps)
    ultimately have "\<exists>r. children_equal ch ch' = Inr r" by (rule children_equal_total [rotated])
    then show ?thesis by (auto simp: b intro: exI [of _ False] dest: list_all2_lengthD)
  next
    case False
    then show ?thesis by (auto simp: b intro: exI [of _ False] dest: list_all2_lengthD)
  qed
qed

section \<open>Properties\<close>

lemma compile_program_balanced':
  "options_ok opts \<Longrightarrow> compile_program p opts = Inr (r, opts') \<Longrightarrow>
     balanced (trackIds opts) (stringParams opts) r"
  using height_programs(4) by (simp add: same_flags_def)

lemma env_equals_returns':
  "options_ok opts \<Longrightarrow> compile_program p opts = Inr (r, o') \<Longrightarrow> compile_program q opts = Inr (r', o'') \<Longrightarrow>
     \<exists>b. env_equals r r' = Inr b"
  using env_equals_total [OF pushed_programs(4) compile_program_balanced'] .

text \<open>C2: the compiler's opcodes fit together. Whatever program is compiled, the opcodes of every block
  start and end with an empty stack, never take more than is there, close every hash they open
  and push only programs that exist; a parameter may take several stack entries, as the options
  say.\<close>

theorem compile_program_balanced:
  assumes "options_ok opts" and "compile_program p opts = Inr (r, opts')"
  shows "balanced (trackIds opts) (stringParams opts) r"
  by (rule compile_program_balanced' [OF assms])


lemma indexOf_spec: "indexOf xs s = int i \<longleftrightarrow> i < length xs \<and> xs ! i = s \<and> s \<notin> set (take i xs)"
proof -
  have "indexOf_from k xs s = int (k + i) \<longleftrightarrow> i < length xs \<and> xs ! i = s \<and> s \<notin> set (take i xs)" for k
  proof (induction xs arbitrary: k i)
    case (Cons x xs)
    show ?case
    proof (cases i)
      case 0
      have "indexOf_from (Suc k) xs s \<noteq> int k" for k
      proof (induction xs arbitrary: k)
        case (Cons y ys)
        have "indexOf_from k' ys s = -1 \<or> int k' \<le> indexOf_from k' ys s" for k'
          by (induction k' ys s rule: indexOf_from.induct) auto
        from this [of "Suc (Suc k)"] show ?case by auto
      qed simp
      with 0 show ?thesis by auto
    next
      case (Suc j)
      with Cons [of "Suc k" j] show ?thesis by auto
    qed
  qed simp
  from this [of 0] show ?thesis by (simp add: indexOf_def)
qed

lemma indexOf_cases: "indexOf xs s < 0 \<and> s \<notin> set xs \<or> (\<exists>i. indexOf xs s = int i \<and> s \<in> set xs)"
proof (cases "indexOf xs s < 0")
  case True
  then show ?thesis by (simp add: indexOf_def indexOf_from_neg)
next
  case False
  then have "indexOf xs s = int (nat (indexOf xs s))" by simp
  with False show ?thesis by (metis indexOf_def indexOf_from_neg)
qed

lemma blockParamFrom_shift:
  "blockParamFrom (Suc k) st s = map_option (\<lambda>(d, i). (Suc d, i)) (blockParamFrom k st s)"
  by (induction k st s rule: blockParamFrom.induct) (auto split: option.splits)

lemma blockParamFrom_here: "s \<in> set xs \<Longrightarrow>
    blockParamFrom 0 (Some xs # st) s = Some (d, i) \<longleftrightarrow> d = 0 \<and> i < length xs \<and> xs ! i = s \<and> s \<notin> set (take i xs)"
  using indexOf_cases [of xs s] indexOf_spec [of xs s i] by auto

lemma blockParamFrom_skip: "bp = None \<or> s \<notin> set (the bp) \<Longrightarrow>
    blockParamFrom 0 (bp # st) s = Some (d, i) \<longleftrightarrow> (\<exists>d'. d = Suc d' \<and> blockParamFrom 0 st s = Some (d', i))"
  using indexOf_cases [of "the bp" s] by (auto simp: blockParamFrom_shift split: option.splits)

text \<open>A name is a block parameter exactly when an enclosing block declares it; it is looked up in
  the innermost such block, at the first place it has there.\<close>

lemma blockParamIndex_innermost:
  "blockParamFrom 0 st s = Some (d, i) \<longleftrightarrow>
     (d < length st \<and> (\<exists>xs. st ! d = Some xs \<and> i < length xs \<and> xs ! i = s \<and> s \<notin> set (take i xs))
      \<and> list_all (\<lambda>bp. case bp of None \<Rightarrow> True | Some xs \<Rightarrow> s \<notin> set xs) (take d st))"
proof (induction st arbitrary: d)
  case (Cons bp st)
  show ?case
  proof (cases "bp = None \<or> s \<notin> set (the bp)")
    case True
    then have "(case bp of None \<Rightarrow> True | Some xs \<Rightarrow> s \<notin> set xs)" by (cases bp) auto
    with True show ?thesis
      unfolding blockParamFrom_skip [OF True] Cons by (cases d) (auto dest: nth_mem)
  next
    case False
    then obtain xs where "bp = Some xs" "s \<in> set xs" by (cases bp) auto
    then show ?thesis by (cases d) (simp_all add: blockParamFrom_here del: blockParamFrom.simps)
  qed
qed simp

text \<open>A data variable is taken for a block parameter of the same name: \<open>{{@key}}\<close> inside
  \<open>as |key|\<close> compiles to a lookup of the block parameter, not of the data.\<close>

lemma data_shadowed_by_block_param:
  assumes "path_data p" and "depth p = 0" and "\<not> scopedId p" and "blockParamIndex (part0 p) c = Some (d, i)"
  shows "c_opcodes (accept_path stri falsy p c) =
    c_opcodes c @ [(GetContext 0, path_loc p), (LookupBlockParam d i (parts p), path_loc p)]"
  using assms by (auto simp: accept_path_def Let_def emit_def addDepth_def blockParamIndex_def split: option.splits)

text \<open>A template compiles itself at most once: after a first use has succeeded, a later one leaves
  \<open>compiled\<close> as it is and does not depend on \<open>compileInput\<close>.\<close>

lemma lazy_call_once:
  assumes "lazy_call compile_input use None = Inr (r, cached)"
  shows "\<exists>t. compile_input () = Inr t \<and> cached = Some t
    \<and> (\<forall>ci use'. lazy_call ci use' cached = bindR (use' t) (\<lambda>r'. Inr (r', Some t)))"
  using assms by (auto simp: lazy_call_def force_template_def)

section \<open>Witnesses\<close>

lemma sample_compiles: "\<exists>r opts. compile_program (ws_sample False) default_options = Inr (r, opts)"
proof -
  have "\<not> isl (compile_program (ws_sample False) default_options)"
    by code_simp
  then show ?thesis
    by (cases "compile_program (ws_sample False) default_options") auto
qed

lemma default_options_ok: "options_ok default_options"
  by code_simp

theorem compile_program_balanced_witness:
  "\<exists>r opts. compile_program (ws_sample False) default_options = Inr (r, opts) \<and> balanced False False r"
proof -
  obtain r opts where c: "compile_program (ws_sample False) default_options = Inr (r, opts)"
    using sample_compiles by blast
  from compile_program_balanced [OF default_options_ok c] c show ?thesis
    by (auto simp: default_options_def)
qed


definition key_path :: path where
  "key_path = \<lparr>path_data = True, depth = 0, parts = [''key''], original = Some ''@key'', path_loc = None\<rparr>"

end
