(* ===== verification/HbCodeGen.thy ===== *)
theory HbCodeGen
  imports HbCompiler
begin

text \<open>
  Module 29 of \<open>handlebars.js\<close>, the generator of JavaScript text, with the fallback \<open>SourceNode\<close> that
  the browser build uses: a node is its text. An array of chunks is the text of its elements, since
  the generator only ever joins it.
\<close>

section \<open>Chunks\<close>

text \<open>
  What a compiler passes to the generator: a value of the language or a \<open>SourceNode\<close>.
\<close>

datatype chunk = CStr string | CNum jsnum | CBool bool | CNull | CUndef | CNode string

text \<open>The text of a chunk as an element of an array, and alone: \<open>join\<close> drops \<open>null\<close>.\<close>

fun render :: "chunk \<Rightarrow> string" where
  "render (CStr s) = s"
| "render (CNum n) = num_to_string n"
| "render (CBool b) = (if b then ''true'' else ''false'')"
| "render CNull = []"
| "render CUndef = []"
| "render (CNode s) = s"

fun render_alone :: "chunk \<Rightarrow> string" where
  "render_alone CNull = ''null''"
| "render_alone CUndef = ''undefined''"
| "render_alone c = render c"

fun chunk_truthy :: "chunk \<Rightarrow> bool" where
  "chunk_truthy (CStr s) = (s \<noteq> [])"
| "chunk_truthy (CNum n) = num_truthy n"
| "chunk_truthy (CBool b) = b"
| "chunk_truthy CNull = False"
| "chunk_truthy CUndef = False"
| "chunk_truthy (CNode s) = True"

text \<open>A value that an opcode pushes as a literal.\<close>

fun literal_chunk :: "jsval \<Rightarrow> chunk" where
  "literal_chunk (VStr s) = CStr s"
| "literal_chunk (VNum n) = CNum n"
| "literal_chunk (VBool b) = CBool b"
| "literal_chunk Null = CNull"
| "literal_chunk _ = CUndef"

text \<open>\<open>x || y\<close> on chunks.\<close>

definition chunk_or :: "chunk \<Rightarrow> chunk \<Rightarrow> chunk" where
  "chunk_or x y = (if chunk_truthy x then x else y)"

definition wrap :: "chunk list \<Rightarrow> string" where
  "wrap cs = concat (map render cs)"

section \<open>Literals\<close>

definition replace_char :: "char \<Rightarrow> string \<Rightarrow> string \<Rightarrow> string" where
  "replace_char c r s = concat (map (\<lambda>x. if x = c then r else [x]) s)"

text \<open>
  \<open>quotedString\<close>: the replacements in the order of the source. The two for the Unicode line
  separators do not apply to code units below 256.
\<close>

definition quotedString :: "string \<Rightarrow> string" where
  "quotedString s =
     [dquote] @ replace_char cr (backslash # ''r'') (replace_char nl (backslash # ''n'')
       (replace_char dquote [backslash, dquote] (replace_char backslash [backslash, backslash] s))) @ [dquote]"

text \<open>\<open>JSON.stringify\<close> on a string.\<close>

definition hex_digit :: "nat \<Rightarrow> char" where
  "hex_digit n = (if n < 10 then char_of (48 + n) else char_of (87 + n))"

definition json_char :: "char \<Rightarrow> string" where
  "json_char c =
     (if c = dquote then [backslash, dquote] else if c = backslash then [backslash, backslash]
      else if c = CHR 0x08 then backslash # ''b'' else if c = CHR 0x0C then backslash # ''f''
      else if c = nl then backslash # ''n'' else if c = cr then backslash # ''r''
      else if c = CHR 0x09 then backslash # ''t''
      else if of_char c < (32::nat)
        then backslash # ''u00'' @ [hex_digit (of_char c div 16), hex_digit (of_char c mod 16)]
      else [c])"

definition json_string :: "string \<Rightarrow> string" where
  "json_string s = [dquote] @ concat (map json_char s) @ [dquote]"

section \<open>Lists, calls and objects\<close>

definition generateList :: "chunk list \<Rightarrow> string" where
  "generateList cs = join_with '','' (map render_alone cs)"

definition generateArray :: "chunk list \<Rightarrow> string" where
  "generateArray cs = ''['' @ generateList cs @ '']''"

definition functionCall :: "string \<Rightarrow> string \<Rightarrow> chunk list \<Rightarrow> string" where
  "functionCall fn ty ps = fn @ (if ty \<noteq> [] then ''.'' @ ty @ ''('' else ''('') @ generateList ps @ '')''"

text \<open>
  \<open>objectLiteral\<close>: a value that is the string \<open>undefined\<close> is left out. The test calls the
  property \<open>hasOwnProperty\<close> of the object itself.
\<close>

definition objectLiteral :: "chunk obj \<Rightarrow> string result" where
  "objectLiteral ps =
     (if ''hasOwnProperty'' \<in> set (obj_keys ps)
      then Inl (type_error ''obj.hasOwnProperty is not a function'')
      else Inr (''{'' @ join_with '','' (map (\<lambda>(k, v). quotedString k @ '':'' @ render v)
             (filter (\<lambda>(k, v). v \<noteq> CStr ''undefined'') ps)) @ ''}''))"

section \<open>The lines of a function\<close>

text \<open>
  A line is its text and the flag \<open>appendToBuffer\<close>. \<open>merge\<close> indents every line.
\<close>

type_synonym code_line = "bool \<times> string"

definition merge :: "code_line list \<Rightarrow> string" where
  "merge ls = concat (map (\<lambda>(_, s). ''  '' @ s @ [nl]) ls)"

section \<open>Reading a literal back\<close>

text \<open>
  The value of a string literal of JavaScript, for the escapes that \<open>quotedString\<close> writes: \<open>None\<close>
  where the text is not such a literal.
\<close>

fun read_chars :: "string \<Rightarrow> (string \<times> string) option" where
  "read_chars [] = None"
| "read_chars (c # s) =
     (if c = dquote then Some ([], s)
      else if c = nl \<or> c = cr then None
      else if c = backslash then
        (case s of
           [] \<Rightarrow> None
         | d # r \<Rightarrow>
             map_option (\<lambda>(v, t). ((if d = CHR ''n'' then nl else if d = CHR ''r'' then cr else d) # v, t)) (read_chars r))
      else map_option (\<lambda>(v, t). (c # v, t)) (read_chars s))"

definition quote_char :: "char \<Rightarrow> string" where
  "quote_char c = (if c = backslash then [backslash, backslash] else if c = dquote then [backslash, dquote]
     else if c = nl then backslash # ''n'' else if c = cr then backslash # ''r'' else [c])"

lemma replace_char_append: "replace_char c r (s @ t) = replace_char c r s @ replace_char c r t"
  by (simp add: replace_char_def)

lemma quote_char_replace:
  "replace_char cr (backslash # ''r'') (replace_char nl (backslash # ''n'')
     (replace_char dquote [backslash, dquote] (replace_char backslash [backslash, backslash] [c]))) = quote_char c"
  by (simp add: replace_char_def quote_char_def)

lemma quotedString_eq: "quotedString s = [dquote] @ concat (map quote_char s) @ [dquote]"
proof -
  have "replace_char cr (backslash # ''r'') (replace_char nl (backslash # ''n'')
     (replace_char dquote [backslash, dquote] (replace_char backslash [backslash, backslash] s)))
     = concat (map quote_char s)"
  proof (induction s)
    case (Cons c s)
    let ?f = "\<lambda>s. replace_char cr (backslash # ''r'') (replace_char nl (backslash # ''n'')
     (replace_char dquote [backslash, dquote] (replace_char backslash [backslash, backslash] s)))"
    have "?f ([c] @ s) = quote_char c @ concat (map quote_char s)"
      by (simp only: replace_char_append quote_char_replace Cons)
    then show ?case by simp
  qed (simp add: replace_char_def)
  then show ?thesis by (simp add: quotedString_def)
qed

lemma read_quote_char: "read_chars (quote_char c @ r) = map_option (\<lambda>(v, t). (c # v, t)) (read_chars r)"
  by (simp add: quote_char_def)

lemma read_quoted_chars: "read_chars (concat (map quote_char s) @ dquote # r) = Some (s, r)"
  by (induction s) (simp_all add: read_quote_char)


end
