(* ===== verification/HbEnv.thy ===== *)
theory HbEnv
  imports HbUtils
begin

text \<open>
  Modules 4, 7, 15, 17 and 20 of \<open>handlebars.js\<close>: the environment with its three registries, the
  default helpers and decorators it starts with, the logger, and \<open>noConflict\<close>.
\<close>

section \<open>The interface of a registry\<close>

text \<open>
  What the engine relies on when it looks a helper, a partial or a decorator up: a registration
  that returns stores the value under its name only, and removing a name removes nothing else.
\<close>

locale registry =
  fixes get :: "'e \<Rightarrow> string \<Rightarrow> 'v option"
    and reg :: "string \<Rightarrow> 'v \<Rightarrow> 'e \<Rightarrow> 'e result"
    and unreg :: "string \<Rightarrow> 'e \<Rightarrow> 'e"
  assumes get_reg: "reg k v e = Inr e' \<Longrightarrow> get e' = (get e)(k \<mapsto> v)"
    and get_unreg: "get (unreg k e) = (get e)(k := None)"
begin

lemma registered: "reg k v e = Inr e' \<Longrightarrow> get e' k = Some v"
  by (simp add: get_reg)

lemma other_names_kept: "reg k v e = Inr e' \<Longrightarrow> k' \<noteq> k \<Longrightarrow> get e' k' = get e k'"
  by (simp add: get_reg)

lemma last_registration_wins:
  assumes "reg k v e = Inr e1" and "reg k w e1 = Inr e2"
  shows "get e2 = (get e)(k \<mapsto> w)"
  using assms by (simp add: get_reg)

lemma unreg_undoes_reg:
  assumes "get e k = None" and "reg k v e = Inr e'"
  shows "get (unreg k e') = get e"
  using assms by (auto simp: get_unreg get_reg)

lemma registrations_commute:
  assumes "k \<noteq> k'" and "reg k v e = Inr e1" and "reg k' v' e1 = Inr e2"
    and "reg k' v' e = Inr f1" and "reg k v f1 = Inr f2"
  shows "get e2 = get f2"
  using assms by (simp add: get_reg fun_upd_twist)

end

section \<open>The environment\<close>

record environment =
  helpers :: "jsval obj"
  partials :: "jsval obj"
  decorators :: "jsval obj"

text \<open>
  The argument \<open>name\<close> of the three registration functions is one name or an object of several.
  The object is told by \<open>toString.call(name) === '[object Object]'\<close>.
\<close>

datatype reg_name = OneName string | ManyNames "jsval obj"

definition registerHelper :: "reg_name \<Rightarrow> jsval \<Rightarrow> environment \<Rightarrow> environment result" where
  "registerHelper name f env = (case name of
      ManyNames ps \<Rightarrow>
        if truthy f then Inl (Exception ''Arg not supported with multiple helpers'' None)
        else Inr (env\<lparr>helpers := obj_extend (helpers env) [ps]\<rparr>)
    | OneName n \<Rightarrow> Inr (env\<lparr>helpers := obj_set n f (helpers env)\<rparr>))"

definition unregisterHelper :: "string \<Rightarrow> environment \<Rightarrow> environment" where
  "unregisterHelper n env = env\<lparr>helpers := obj_delete n (helpers env)\<rparr>"

definition registerPartial :: "reg_name \<Rightarrow> jsval \<Rightarrow> environment \<Rightarrow> environment result" where
  "registerPartial name p env = (case name of
      ManyNames ps \<Rightarrow> Inr (env\<lparr>partials := obj_extend (partials env) [ps]\<rparr>)
    | OneName n \<Rightarrow>
        if p = Undefined
        then Inl (Exception (''Attempting to register a partial called \"'' @ n @ ''\" as undefined'') None)
        else Inr (env\<lparr>partials := obj_set n p (partials env)\<rparr>))"

definition unregisterPartial :: "string \<Rightarrow> environment \<Rightarrow> environment" where
  "unregisterPartial n env = env\<lparr>partials := obj_delete n (partials env)\<rparr>"

definition registerDecorator :: "reg_name \<Rightarrow> jsval \<Rightarrow> environment \<Rightarrow> environment result" where
  "registerDecorator name f env = (case name of
      ManyNames ps \<Rightarrow>
        if truthy f then Inl (Exception ''Arg not supported with multiple decorators'' None)
        else Inr (env\<lparr>decorators := obj_extend (decorators env) [ps]\<rparr>)
    | OneName n \<Rightarrow> Inr (env\<lparr>decorators := obj_set n f (decorators env)\<rparr>))"

definition unregisterDecorator :: "string \<Rightarrow> environment \<Rightarrow> environment" where
  "unregisterDecorator n env = env\<lparr>decorators := obj_delete n (decorators env)\<rparr>"

interpretation helper_registry: registry
  "\<lambda>e. obj_get (helpers e)" "\<lambda>k. registerHelper (OneName k)" unregisterHelper
  by unfold_locales (auto simp: registerHelper_def unregisterHelper_def obj_simps)

interpretation partial_registry: registry
  "\<lambda>e. obj_get (partials e)" "\<lambda>k. registerPartial (OneName k)" unregisterPartial
  by unfold_locales
    (auto simp: registerPartial_def unregisterPartial_def obj_simps split: if_splits)

interpretation decorator_registry: registry
  "\<lambda>e. obj_get (decorators e)" "\<lambda>k. registerDecorator (OneName k)" unregisterDecorator
  by unfold_locales (auto simp: registerDecorator_def unregisterDecorator_def obj_simps)

text \<open>The built-in helpers and decorator, registered one after the other.\<close>

definition default_helpers :: "string list" where
  "default_helpers = [''blockHelperMissing'', ''each'', ''helperMissing'', ''if'', ''unless'', ''log'',
     ''lookup'', ''with'']"

definition registerDefaultHelpers :: "environment \<Rightarrow> environment result" where
  "registerDefaultHelpers env =
     foldl (\<lambda>r n. bindR r (registerHelper (OneName n) (VBuiltin n))) (Inr env) default_helpers"

definition registerDefaultDecorators :: "environment \<Rightarrow> environment result" where
  "registerDefaultDecorators env = registerDecorator (OneName ''inline'') (VBuiltin ''inline'') env"

text \<open>The constructor: each registry is the given object, or a new one.\<close>

definition HandlebarsEnvironment ::
    "jsval obj option \<Rightarrow> jsval obj option \<Rightarrow> jsval obj option \<Rightarrow> environment result" where
  "HandlebarsEnvironment hs ps ds =
     bindR (registerDefaultHelpers
       \<lparr>helpers = (case hs of None \<Rightarrow> [] | Some x \<Rightarrow> x),
        partials = (case ps of None \<Rightarrow> [] | Some x \<Rightarrow> x),
        decorators = (case ds of None \<Rightarrow> [] | Some x \<Rightarrow> x)\<rparr>)
       registerDefaultDecorators"

definition COMPILER_REVISION :: nat where
  "COMPILER_REVISION = 7"

definition REVISION_CHANGES :: "nat \<Rightarrow> string option" where
  "REVISION_CHANGES = map_of [(1, ''<= 1.0.rc.2''), (2, ''== 1.0.0-rc.3''), (3, ''== 1.0.0-rc.4''),
     (4, ''== 1.x.x''), (5, ''== 2.0.0-alpha.x''), (6, ''>= 2.0.0-beta.1''), (7, ''>= 4.0.0'')]"

lemma register_all:
  "foldl (\<lambda>r n. bindR r (registerHelper (OneName n) (VBuiltin n))) (Inr env) ns =
     Inr (env\<lparr>helpers := foldl (\<lambda>ob n. obj_set n (VBuiltin n) ob) (helpers env) ns\<rparr>)"
  by (induction ns arbitrary: env) (simp_all add: registerHelper_def)

lemma obj_get_register_all:
  "obj_get (foldl (\<lambda>ob n. obj_set n (VBuiltin n) ob) ob ns) k =
     (if k \<in> set ns then Some (VBuiltin k) else obj_get ob k)"
  by (induction ns arbitrary: ob) (auto simp: obj_simps)

lemma registerDefaultHelpers_get:
  "registerDefaultHelpers env = Inr env' \<Longrightarrow>
     obj_get (helpers env') k =
       (if k \<in> set default_helpers then Some (VBuiltin k) else obj_get (helpers env) k)
     \<and> partials env' = partials env \<and> decorators env' = decorators env"
  by (auto simp: registerDefaultHelpers_def register_all obj_get_register_all simp del: set_simps)

section \<open>The logger\<close>

text \<open>
  A level is a name or an integer; the result \<open>None\<close> is \<open>NaN\<close>. \<open>parseInt\<close> reads the longest
  integer prefix after white space.
\<close>

datatype log_level = LevelName string | LevelNum int

definition methodMap :: "string list" where
  "methodMap = [''debug'', ''info'', ''warn'', ''error'']"

definition to_lower :: "string \<Rightarrow> string" where
  "to_lower s = map (\<lambda>c. if char_in 65 90 c \<or> (char_in 192 222 c \<and> of_char c \<noteq> (215::nat))
     then char_of (of_char c + 32 :: nat) else c) s"

definition parseInt10 :: "string \<Rightarrow> int option" where
  "parseInt10 s =
     (let t = dropWhile is_space s;
          neg = starts_with ''-'' t;
          u = (if neg \<or> starts_with ''+'' t then tl t else t);
          ds = takeWhile is_digit u
      in if ds = [] then None else Some (if neg then - int (read_nat ds) else int (read_nat ds)))"

definition lookupLevel :: "log_level \<Rightarrow> int option" where
  "lookupLevel level = (case level of
      LevelNum n \<Rightarrow> Some n
    | LevelName s \<Rightarrow>
        (let levelMap = indexOf methodMap (to_lower s)
         in if levelMap \<ge> 0 then Some levelMap else parseInt10 s))"

text \<open>
  \<open>log(level, ...)\<close> calls one method of the console with the remaining arguments. The console is
  the list of methods it has, \<open>None\<close> if there is none; the result is the call made, if any.
\<close>

definition log_call :: "string list option \<Rightarrow> log_level \<Rightarrow> log_level \<Rightarrow> jsval list
    \<Rightarrow> (string \<times> jsval list) option" where
  "log_call console loggerLevel level args =
     (case (console, lookupLevel loggerLevel, lookupLevel level) of
        (Some ms, Some l, Some n) \<Rightarrow>
          if l \<le> n then
            (let m = (if 0 \<le> n \<and> nat n < length methodMap then Some (methodMap ! nat n) else None)
             in Some (case m of None \<Rightarrow> ''log'' | Some x \<Rightarrow> if x \<in> set ms then x else ''log'', args))
          else None
      | _ \<Rightarrow> None)"

lemma lookupLevel_method: "map (\<lambda>m. lookupLevel (LevelName m)) methodMap = [Some 0, Some 1, Some 2, Some 3]"
  by code_simp

section \<open>noConflict\<close>

text \<open>
  The page's global \<open>Handlebars\<close> before this copy was installed is kept; \<open>noConflict\<close> restores it
  if the global still is this copy, and returns this copy.
\<close>

record 'a page =
  page_Handlebars :: "'a option"

definition noConflict :: "'a option \<Rightarrow> 'a \<Rightarrow> 'a page \<Rightarrow> 'a \<times> 'a page" where
  "noConflict old this pg =
     (this, if page_Handlebars pg = Some this then pg\<lparr>page_Handlebars := old\<rparr> else pg)"

section \<open>Properties\<close>

lemma register_inline: "registerDefaultDecorators env =
    Inr (env\<lparr>decorators := obj_set ''inline'' (VBuiltin ''inline'') (decorators env)\<rparr>)"
  by (simp add: registerDefaultDecorators_def registerDecorator_def)

text \<open>A new environment always has the eight default helpers and the decorator \<open>inline\<close>, whatever
  the registries it is given hold under these names; it keeps the other helpers and all partials.\<close>

lemma environment_defaults:
  "\<exists>env. HandlebarsEnvironment (Some hs) (Some ps) (Some ds) = Inr env
    \<and> obj_get (helpers env) k = (if k \<in> set default_helpers then Some (VBuiltin k) else obj_get hs k)
    \<and> obj_get (decorators env) ''inline'' = Some (VBuiltin ''inline'') \<and> partials env = ps"
proof -
  obtain e where e: "registerDefaultHelpers \<lparr>helpers = hs, partials = ps, decorators = ds\<rparr> = Inr e"
    by (simp add: registerDefaultHelpers_def register_all)
  from registerDefaultHelpers_get [OF e, of k] e show ?thesis
    by (simp add: HandlebarsEnvironment_def register_inline obj_simps)
qed

text \<open>A partial that is registered again replaces the old one and changes no other name, and
  unregistering it once removes both.\<close>

lemma partial_reregistered:
  assumes "registerPartial (OneName n) p e = Inr e1" and "registerPartial (OneName n) q e1 = Inr e2"
  shows "obj_get (partials e2) = (obj_get (partials e))(n \<mapsto> q)
    \<and> obj_get (partials (unregisterPartial n e2)) = (obj_get (partials e))(n := None)"
  using partial_registry.last_registration_wins [OF assms] partial_registry.get_unreg [of n e2] by simp

text \<open>A message is logged exactly when its level and the logger's level are known and it is not
  below the logger's. A level that is no number silences everything.\<close>

lemma log_threshold:
  "log_call (Some ms) loggerLevel level args \<noteq> None \<longleftrightarrow>
     (\<exists>a b. lookupLevel loggerLevel = Some a \<and> lookupLevel level = Some b \<and> a \<le> b)"
  by (auto simp: log_call_def Let_def split: option.splits)

end
