(* ===== verification/HbJsCompiler.thy ===== *)
theory HbJsCompiler
  imports HbCodeGen HbEnv
begin

text \<open>
  Module 28 of \<open>handlebars.js\<close>: the compiler from opcodes to JavaScript. A \<open>JavaScriptCompiler\<close> is
  the record \<open>jsc\<close>; its two stacks and its lists of open hashes have their top first. The methods
  are actions on it. The generated function is a list of parameters and a body; calling the
  \<open>Function\<close> constructor on them is left to the environment.
\<close>

section \<open>State\<close>

text \<open>A stack entry: a \<open>Literal\<close> or the text of a node (a variable name on the compile stack).\<close>

datatype item = Lit chunk | Plain string

fun item_value :: "item \<Rightarrow> chunk" where
  "item_value (Lit c) = c"
| "item_value (Plain s) = CNode s"

record js_hash =
  h_values :: "chunk obj"
  h_types :: "chunk obj"
  h_contexts :: "chunk obj"
  h_ids :: "chunk obj"

record jsc =
  js_env :: compiled
  js_options :: options
  child_index :: "nat list"
  lastContext :: nat
  source :: "code_line list"
  decorator_source :: "code_line list"
  stackSlot :: nat
  stackVars :: "string list"
  aliases :: "nat obj"
  registers :: "string list"
  open_hash :: "js_hash option"
  hashes :: "js_hash list"
  compileStack :: "item list"
  inlineStack :: "item list"
  pendingContent :: string
  lastHelper :: string
  js_useDepths :: bool
  js_useBlockParams :: bool

type_synonym 'a js = "(jsc, 'a) action"

section \<open>Names\<close>

definition reserved_words :: "bool obj" where
  "reserved_words = map (\<lambda>w. (w, True))
    [''break'', ''else'', ''new'', ''var'', ''case'', ''finally'', ''return'', ''void'', ''catch'', ''for'',
     ''switch'', ''while'', ''continue'', ''function'', ''this'', ''with'', ''default'', ''if'', ''throw'',
     ''delete'', ''in'', ''try'', ''do'', ''instanceof'', ''typeof'', ''abstract'', ''enum'', ''int'', ''short'',
     ''boolean'', ''export'', ''interface'', ''static'', ''byte'', ''extends'', ''long'', ''super'', ''char'',
     ''final'', ''native'', ''synchronized'', ''class'', ''float'', ''package'', ''throws'', ''const'', ''goto'',
     ''private'', ''transient'', ''debugger'', ''implements'', ''protected'', ''volatile'', ''double'', ''import'',
     ''public'', ''let'', ''yield'', ''await'', ''null'', ''true'', ''false'']"

definition name_start :: "char \<Rightarrow> bool" where
  "name_start c \<longleftrightarrow> char_in 97 122 c \<or> char_in 65 90 c \<or> c = CHR ''_'' \<or> c = CHR ''$''"

definition name_char :: "char \<Rightarrow> bool" where
  "name_char c \<longleftrightarrow> is_digit c \<or> name_start c"

text \<open>\<open>isValidJavaScriptVariableName\<close>; the regular expression is tested on the text of the name.\<close>

definition isValidJavaScriptVariableName :: "jsval \<Rightarrow> bool" where
  "isValidJavaScriptVariableName v =
     (let s = prim_string v
      in \<not> truthy_key reserved_words s \<and> s \<noteq> [] \<and> name_start (hd s) \<and> list_all name_char (tl s))"

text \<open>\<open>JSON.stringify\<close> of a name; for \<open>undefined\<close> it yields \<open>undefined\<close>, which renders as nothing.\<close>

fun json_value :: "jsval \<Rightarrow> string" where
  "json_value (VStr s) = json_string s"
| "json_value (VNum n) = (case n of Decimal _ _ _ \<Rightarrow> num_to_string n | _ \<Rightarrow> ''null'')"
| "json_value (VBool b) = (if b then ''true'' else ''false'')"
| "json_value Null = ''null''"
| "json_value _ = []"

definition nameLookup :: "string \<Rightarrow> jsval \<Rightarrow> string" where
  "nameLookup parent name =
     (if isValidJavaScriptVariableName name then parent @ ''.'' @ render (literal_chunk name)
      else parent @ ''['' @ json_value name @ '']'')"

section \<open>The stacks\<close>

definition push_item :: "item \<Rightarrow> unit js" where
  "push_item it = modS (\<lambda>j. j\<lparr>inlineStack := it # inlineStack j\<rparr>)"

definition pushS :: "string \<Rightarrow> unit js" where
  "pushS s = push_item (Plain s)"

definition pushStackLiteral :: "chunk \<Rightarrow> unit js" where
  "pushStackLiteral c = push_item (Lit c)"

definition invalid_pop :: exn where
  "invalid_pop = Exception ''Invalid stack pop'' None"

text \<open>\<open>popStack()\<close>; popping an empty array yields \<open>undefined\<close>, which is no \<open>Literal\<close>.\<close>

definition popStack :: "chunk js" where
  "popStack j =
     (case inlineStack j of
        it # r \<Rightarrow> Inr (item_value it, j\<lparr>inlineStack := r\<rparr>)
      | [] \<Rightarrow>
         (case compileStack j of
            Lit c # r \<Rightarrow> Inr (c, j\<lparr>compileStack := r\<rparr>)
          | Plain s # r \<Rightarrow>
              if stackSlot j = 0 then Inl invalid_pop
              else Inr (CNode s, j\<lparr>compileStack := r, stackSlot := stackSlot j - 1\<rparr>)
          | [] \<Rightarrow>
              if stackSlot j = 0 then Inl invalid_pop
              else Inr (CUndef, j\<lparr>stackSlot := stackSlot j - 1\<rparr>)))"

definition topStack :: "jsc \<Rightarrow> chunk" where
  "topStack j =
     (case (if inlineStack j \<noteq> [] then inlineStack j else compileStack j) of
        [] \<Rightarrow> CUndef | it # _ \<Rightarrow> item_value it)"

definition stack_name :: "nat \<Rightarrow> string" where
  "stack_name n = ''stack'' @ show_nat n"

definition incrStack :: "string js" where
  "incrStack j =
     (let n = Suc (stackSlot j);
          vars = (if n > length (stackVars j) then stackVars j @ [stack_name n] else stackVars j)
      in Inr (stack_name n, j\<lparr>stackSlot := n, stackVars := vars\<rparr>))"

text \<open>
  \<open>replaceStack(callback)\<close>: the callback turns the text of the top entry into the text that replaces
  it. A node is first assigned to a stack variable, which is given back at the end.
\<close>

definition replaceStack :: "(string \<Rightarrow> string) \<Rightarrow> unit js" where
  "replaceStack callback j =
     (case inlineStack j of
        [] \<Rightarrow> Inl (Exception ''replaceStack on non-inline'' None)
      | Lit c # r \<Rightarrow>
          pushS (''('' @ render c @ callback (render c) @ '')'') (j\<lparr>inlineStack := r\<rparr>)
      | Plain expr # r \<Rightarrow>
          bindS incrStack (\<lambda>name.
          thenS (pushS name) (
          thenS popStack (
          thenS (modS (\<lambda>j. j\<lparr>stackSlot := stackSlot j - 1\<rparr>))
            (pushS (''(('' @ name @ '' = '' @ expr @ '')'' @ callback name @ '')'')))))
            (j\<lparr>inlineStack := r\<rparr>))"

section \<open>Source\<close>

definition appendToBuffer :: "string \<Rightarrow> bool \<Rightarrow> jsc \<Rightarrow> code_line" where
  "appendToBuffer src explicit j =
     (if isSimple (js_env j) then (False, ''return '' @ src @ '';'')
      else if explicit then (False, ''buffer += '' @ src @ '';'')
      else (True, src))"

definition flush_content :: "unit js" where
  "flush_content = modS (\<lambda>j.
     if pendingContent j \<noteq> []
     then j\<lparr>source := source j @ [appendToBuffer (quotedString (pendingContent j)) False j], pendingContent := []\<rparr>
     else j)"

definition pushSource :: "code_line \<Rightarrow> unit js" where
  "pushSource ln = thenS flush_content (modS (\<lambda>j. j\<lparr>source := source j @ [ln]\<rparr>))"

definition flush_item :: "item \<Rightarrow> unit js" where
  "flush_item it =
     (case it of
        Lit c \<Rightarrow> modS (\<lambda>j. j\<lparr>compileStack := Lit c # compileStack j\<rparr>)
      | Plain s \<Rightarrow>
          bindS incrStack (\<lambda>name.
          thenS (pushSource (False, name @ '' = '' @ s @ '';''))
            (modS (\<lambda>j. j\<lparr>compileStack := Plain name # compileStack j\<rparr>))))"

fun flush_items :: "item list \<Rightarrow> unit js" where
  "flush_items [] = retS ()"
| "flush_items (it # its) = thenS (flush_item it) (flush_items its)"

definition flushInline :: "unit js" where
  "flushInline = bindS (readS (\<lambda>j. rev (inlineStack j))) (\<lambda>its.
     thenS (modS (\<lambda>j. j\<lparr>inlineStack := []\<rparr>)) (flush_items its))"

definition contextName :: "nat \<Rightarrow> jsc \<Rightarrow> string" where
  "contextName n j =
     (if js_useDepths j \<and> n \<noteq> 0 then ''depths['' @ show_nat n @ '']'' else ''depth'' @ show_nat n)"

text \<open>\<open>aliasable\<close> counts the uses of an expression; the node it returns renders as the expression.\<close>

definition aliasable :: "string \<Rightarrow> string js" where
  "aliasable name = thenS (modS (\<lambda>j. j\<lparr>aliases :=
       obj_set name (case obj_get (aliases j) name of None \<Rightarrow> 1 | Some n \<Rightarrow> Suc n) (aliases j)\<rparr>))
     (retS name)"

definition useRegister :: "string \<Rightarrow> unit js" where
  "useRegister name = modS (\<lambda>j. if name \<in> set (registers j) then j else j\<lparr>registers := registers j @ [name]\<rparr>)"

section \<open>Parameters of a call\<close>

text \<open>One parameter on the stack: its value, then its id, its type and its context where they are kept.\<close>

record param =
  p_value :: chunk
  p_id :: chunk
  p_type :: chunk
  p_context :: chunk

definition pop_if :: "bool \<Rightarrow> chunk js" where
  "pop_if b = (if b then popStack else retS CUndef)"

definition popParam :: "param js" where
  "popParam = bindS popStack (\<lambda>v.
     bindS (readS js_options) (\<lambda>opts.
     bindS (pop_if (trackIds opts)) (\<lambda>i.
     bindS (pop_if (stringParams opts)) (\<lambda>t.
     bindS (pop_if (stringParams opts)) (\<lambda>c.
       retS \<lparr>p_value = v, p_id = i, p_type = t, p_context = c\<rparr>)))))"

text \<open>The loop \<open>while (i--)\<close> of \<open>setupParams\<close>: the last parameter is popped first.\<close>

fun popParams :: "nat \<Rightarrow> param list js" where
  "popParams 0 = retS []"
| "popParams (Suc n) = bindS popParam (\<lambda>p. bindS (popParams n) (\<lambda>ps. retS (ps @ [p])))"

definition set_if :: "bool \<Rightarrow> string \<Rightarrow> chunk \<Rightarrow> chunk obj \<Rightarrow> chunk obj" where
  "set_if b k v ob = (if b then obj_set k v ob else ob)"

text \<open>
  \<open>setupParams(helper, paramSize, params)\<close>: the popped parameters and the options object. Without
  an array for the parameters (\<open>objectArgs\<close>) they become the property \<open>args\<close>.
\<close>

definition setupParams :: "jsval \<Rightarrow> nat \<Rightarrow> bool \<Rightarrow> (chunk list \<times> chunk obj) js" where
  "setupParams helper n objectArgs =
     bindS (readS js_options) (\<lambda>opts.
     bindS popStack (\<lambda>hash.
     bindS (pop_if (trackIds opts)) (\<lambda>hashIds.
     bindS (pop_if (stringParams opts)) (\<lambda>hashTypes.
     bindS (pop_if (stringParams opts)) (\<lambda>hashContexts.
     bindS popStack (\<lambda>inve.
     bindS popStack (\<lambda>program.
     bindS (popParams n) (\<lambda>ps.
     bindS (readS js_useBlockParams) (\<lambda>ubp.
       let noop = CStr ''container.noop'';
           fns = (chunk_truthy program \<or> chunk_truthy inve);
           vs = map p_value ps;
           ob = obj_set ''name'' (CStr (quotedString (prim_string helper))) [];
           ob = obj_set ''hash'' hash ob;
           ob = set_if (trackIds opts) ''hashIds'' hashIds ob;
           ob = set_if (stringParams opts) ''hashTypes'' hashTypes ob;
           ob = set_if (stringParams opts) ''hashContexts'' hashContexts ob;
           ob = set_if fns ''fn'' (chunk_or program noop) ob;
           ob = set_if fns ''inverse'' (chunk_or inve noop) ob;
           ob = set_if objectArgs ''args'' (CNode (generateArray vs)) ob;
           ob = set_if (trackIds opts) ''ids'' (CNode (generateArray (map p_id ps))) ob;
           ob = set_if (stringParams opts) ''types'' (CNode (generateArray (map p_type ps))) ob;
           ob = set_if (stringParams opts) ''contexts'' (CNode (generateArray (map p_context ps))) ob;
           ob = set_if (opt_data opts = Some True) ''data'' (CStr ''data'') ob;
           ob = set_if ubp ''blockParams'' (CStr ''blockParams'') ob
       in retS (vs, ob))))))))))"

definition liftR :: "'a result \<Rightarrow> 'a js" where
  "liftR r j = (case r of Inl e \<Rightarrow> Inl e | Inr x \<Rightarrow> Inr (x, j))"

text \<open>
  \<open>setupHelperArgs\<close> for its three kinds of use: the options in a register, as the last parameter,
  or as the result. The register's initialisation is the text of \<open>['options=', options]\<close>.
\<close>

datatype args_use = InRegister | LastParam | AsResult

definition setupHelperArgs :: "jsval \<Rightarrow> nat \<Rightarrow> args_use \<Rightarrow> (chunk list \<times> string) js" where
  "setupHelperArgs helper n use =
     bindS (setupParams helper n (use = AsResult)) (\<lambda>(vs, ob).
     bindS (liftR (objectLiteral ob)) (\<lambda>opts.
       case use of
         InRegister \<Rightarrow> thenS (useRegister ''options'') (retS (vs @ [CStr ''options''], ''options='' @ opts))
       | LastParam \<Rightarrow> retS (vs @ [CNode opts], [])
       | AsResult \<Rightarrow> retS (vs, opts)))"

text \<open>\<open>setupHelper\<close>: the initialisation, the helper's name and the parameters of the call.\<close>

definition setupHelper :: "nat \<Rightarrow> jsval \<Rightarrow> bool \<Rightarrow> (string \<times> string \<times> chunk list) js" where
  "setupHelper n name blockHelper =
     bindS (setupHelperArgs name n (if blockHelper then InRegister else LastParam)) (\<lambda>(vs, ini).
     bindS (readS (contextName 0)) (\<lambda>ctx.
     bindS (aliasable (ctx @ '' != null ? '' @ ctx @ '' : {}'')) (\<lambda>callContext.
       retS (ini, nameLookup ''helpers'' name, CNode callContext # vs))))"

section \<open>Lookups\<close>

definition depthedLookup :: "string \<Rightarrow> string js" where
  "depthedLookup name = bindS (aliasable ''container.lookup'') (\<lambda>a.
     retS (a @ ''(depths, '' @ [dquote] @ name @ [dquote] @ '')''))"

text \<open>\<open>strictLookup\<close> starts at the first part whatever the caller has resolved already.\<close>

definition strictLookup :: "bool \<Rightarrow> string list \<Rightarrow> string js" where
  "strictLookup requireTerminal ps =
     bindS popStack (\<lambda>top0.
       let looked = foldl (\<lambda>st p. nameLookup st (VStr p)) (render top0) (if requireTerminal then butlast ps else ps)
       in if requireTerminal then
            bindS (aliasable ''container.strict'') (\<lambda>a.
              retS (a @ ''('' @ looked @ '', '' @
                quotedString (if ps = [] then ''undefined'' else last ps) @ '')''))
          else retS looked)"

fun replaceParts :: "bool \<Rightarrow> string list \<Rightarrow> unit js" where
  "replaceParts falsy [] = retS ()"
| "replaceParts falsy (p # ps) =
     thenS (replaceStack (\<lambda>current.
         let look = nameLookup current (VStr p)
         in if \<not> falsy then '' != null ? '' @ look @ '' : '' @ current else '' && '' @ look))
       (replaceParts falsy ps)"

definition resolvePath :: "string list \<Rightarrow> nat \<Rightarrow> bool \<Rightarrow> bool \<Rightarrow> unit js" where
  "resolvePath ps i falsy stri =
     bindS (readS js_options) (\<lambda>opts.
       if strict opts \<or> assumeObjects opts
       then bindS (strictLookup (strict opts \<and> stri) ps) pushS
       else replaceParts falsy (drop i ps))"

definition pushContext :: "unit js" where
  "pushContext = bindS (readS (\<lambda>j. contextName (lastContext j) j)) (\<lambda>c. pushStackLiteral (CStr c))"

definition lookupOnContext :: "string list \<Rightarrow> bool \<Rightarrow> bool \<Rightarrow> bool \<Rightarrow> unit js" where
  "lookupOnContext ps falsy stri scoped =
     bindS (readS (\<lambda>j. \<not> scoped \<and> compat (js_options j) \<and> lastContext j = 0)) (\<lambda>depthed.
       if depthed then
         thenS (bindS (depthedLookup (case ps of [] \<Rightarrow> ''undefined'' | p # _ \<Rightarrow> p)) pushS)
           (resolvePath ps 1 falsy stri)
       else thenS pushContext (resolvePath ps 0 falsy stri))"

definition lookupBlockParam :: "nat \<Rightarrow> nat \<Rightarrow> string list \<Rightarrow> unit js" where
  "lookupBlockParam d i ps =
     thenS (modS (\<lambda>j. j\<lparr>js_useBlockParams := True\<rparr>)) (
     thenS (pushS (''blockParams['' @ show_nat d @ ''][''  @ show_nat i @ '']''))
       (resolvePath ps 1 False False))"

definition lookupData :: "nat \<Rightarrow> string list \<Rightarrow> bool \<Rightarrow> unit js" where
  "lookupData d ps stri =
     thenS (pushStackLiteral (CStr (if d = 0 then ''data'' else ''container.data(data, '' @ show_nat d @ '')'')))
       (resolvePath ps 0 True stri)"

section \<open>Hashes\<close>

text \<open>
  The four parts of a hash are arrays that the compiler uses as objects. Writing \<open>length\<close> then sets
  the length of the array, which throws unless the value is one, and writing \<open>__proto__\<close> adds no
  property.
\<close>

definition digits_length :: "string \<Rightarrow> nat option" where
  "digits_length s = (if list_all is_digit s \<and> read_nat s < 2 ^ 32 then Some (read_nat s) else None)"

fun length_value :: "chunk \<Rightarrow> nat option" where
  "length_value (CNum (Decimal neg i f)) = (if f = [] \<and> (\<not> neg \<or> i = ''0'') then digits_length i else None)"
| "length_value (CNum _) = None"
| "length_value (CBool b) = Some (if b then 1 else 0)"
| "length_value CNull = Some 0"
| "length_value CUndef = None"
| "length_value (CStr s) = digits_length s"
| "length_value (CNode s) = digits_length s"

definition array_set :: "string \<Rightarrow> chunk \<Rightarrow> chunk obj \<Rightarrow> chunk obj result" where
  "array_set k v ob =
     (if k = ''__proto__'' then Inr ob
      else if k = ''length'' then
        (case length_value v of
           None \<Rightarrow> Inl (range_error ''Invalid array length'')
         | Some n \<Rightarrow> Inr (filter (\<lambda>(k', _). \<not> (is_index k' \<and> n \<le> read_nat k')) ob))
      else Inr (obj_set k v ob))"

definition set_part :: "string \<Rightarrow> chunk \<Rightarrow> chunk obj \<Rightarrow> chunk obj js" where
  "set_part k v ob = (if chunk_truthy v then liftR (array_set k v ob) else retS ob)"

definition no_hash :: exn where
  "no_hash = type_error ''Cannot read property of undefined hash''"

definition assignToHash :: "string \<Rightarrow> unit js" where
  "assignToHash k =
     bindS popParam (\<lambda>p.
     bindS (readS open_hash) (\<lambda>h.
       case h of
         None \<Rightarrow> throwS no_hash
       | Some h \<Rightarrow>
           bindS (set_part k (p_context p) (h_contexts h)) (\<lambda>cs.
           bindS (set_part k (p_type p) (h_types h)) (\<lambda>ts.
           bindS (set_part k (p_id p) (h_ids h)) (\<lambda>ids.
           bindS (liftR (array_set k (p_value p) (h_values h))) (\<lambda>vs.
             modS (\<lambda>j. j\<lparr>open_hash := Some \<lparr>h_values = vs, h_types = ts, h_contexts = cs, h_ids = ids\<rparr>\<rparr>)))))))"

definition pushHash :: "unit js" where
  "pushHash = modS (\<lambda>j. j\<lparr>hashes := (case open_hash j of None \<Rightarrow> hashes j | Some h \<Rightarrow> h # hashes j),
     open_hash := Some \<lparr>h_values = [], h_types = [], h_contexts = [], h_ids = []\<rparr>\<rparr>)"

definition push_object :: "bool \<Rightarrow> chunk obj \<Rightarrow> unit js" where
  "push_object b ob = (if b then bindS (liftR (objectLiteral ob)) pushS else retS ())"

definition popHash :: "unit js" where
  "popHash =
     bindS (readS open_hash) (\<lambda>h.
     thenS (modS (\<lambda>j. case hashes j of
         [] \<Rightarrow> j\<lparr>open_hash := None\<rparr> | g # gs \<Rightarrow> j\<lparr>open_hash := Some g, hashes := gs\<rparr>)) (
     bindS (readS js_options) (\<lambda>opts.
       case h of
         None \<Rightarrow> throwS no_hash
       | Some h \<Rightarrow>
           thenS (push_object (trackIds opts) (h_ids h)) (
           thenS (push_object (stringParams opts) (h_contexts h)) (
           thenS (push_object (stringParams opts) (h_types h))
             (push_object True (h_values h)))))))"

definition push_if :: "bool \<Rightarrow> unit js" where
  "push_if b = (if b then pushS ''{}'' else retS ())"

definition emptyHash :: "bool \<Rightarrow> unit js" where
  "emptyHash omitEmpty =
     bindS (readS js_options) (\<lambda>opts.
     thenS (push_if (trackIds opts)) (
     thenS (push_if (stringParams opts)) (
     thenS (push_if (stringParams opts))
       (pushStackLiteral (CStr (if omitEmpty then ''undefined'' else ''{}''))))))"

section \<open>The other opcodes\<close>

definition programExpression :: "nat \<Rightarrow> jsc \<Rightarrow> string result" where
  "programExpression g j =
     (if g < length (children (js_env j)) then
        Inr (''container.program('' @ join_with '', ''
          ([show_nat (child_index j ! g), ''data'', show_nat (blockParamCount (children (js_env j) ! g))]
           @ (if js_useBlockParams j \<or> js_useDepths j then [''blockParams''] else [])
           @ (if js_useDepths j then [''depths''] else [])) @ '')'')
      else Inl (no_property ''index''))"

definition pushProgram :: "nat option \<Rightarrow> unit js" where
  "pushProgram g =
     (case g of
        None \<Rightarrow> pushStackLiteral CNull
      | Some i \<Rightarrow> bindS (\<lambda>j. liftR (programExpression i j) j) (\<lambda>s. pushStackLiteral (CStr s)))"

definition pushString :: "string \<Rightarrow> unit js" where
  "pushString s = pushStackLiteral (CStr (quotedString s))"

definition pushStringParam :: "jsval \<Rightarrow> string \<Rightarrow> unit js" where
  "pushStringParam v ty =
     thenS pushContext (
     thenS (pushString ty)
       (if ty \<noteq> ''SubExpression''
        then (case v of VStr s \<Rightarrow> pushString s | _ \<Rightarrow> pushStackLiteral (literal_chunk v))
        else retS ()))"

definition pushId :: "string \<Rightarrow> jsval \<Rightarrow> unit js" where
  "pushId ty v =
     (if ty = ''PathExpression'' then pushString (prim_string v)
      else if ty = ''SubExpression'' then pushStackLiteral (CStr ''true'')
      else pushStackLiteral (CStr ''null''))"

definition pushIdBlockParam :: "nat \<Rightarrow> nat \<Rightarrow> string \<Rightarrow> unit js" where
  "pushIdBlockParam d i child =
     pushStackLiteral (CStr (''blockParams['' @ show_nat d @ ''].path['' @ show_nat i @ '']''
       @ (if child \<noteq> [] then '' + '' @ json_string (''.'' @ child) else [])))"

definition blockValue :: "jsval \<Rightarrow> unit js" where
  "blockValue name =
     bindS (aliasable ''helpers.blockHelperMissing'') (\<lambda>bhm.
     bindS (readS (contextName 0)) (\<lambda>ctx.
     bindS (setupHelperArgs name 0 LastParam) (\<lambda>(vs, _).
     bindS popStack (\<lambda>blockName.
       pushS (functionCall bhm ''call'' (CStr ctx # blockName # vs))))))"

definition ambiguousBlockValue :: "unit js" where
  "ambiguousBlockValue =
     bindS (aliasable ''helpers.blockHelperMissing'') (\<lambda>bhm.
     bindS (readS (contextName 0)) (\<lambda>ctx.
     bindS (setupHelperArgs (VStr []) 0 InRegister) (\<lambda>(vs, _).
     thenS flushInline (
     bindS (readS topStack) (\<lambda>current.
     bindS (readS lastHelper) (\<lambda>helper.
       pushSource (False, ''if (!'' @ helper @ '') { '' @ render current @ '' = ''
         @ functionCall bhm ''call'' (CStr ctx # current # vs) @ ''}'')))))))"

definition appendContent :: "string \<Rightarrow> unit js" where
  "appendContent s = modS (\<lambda>j. j\<lparr>pendingContent := pendingContent j @ s\<rparr>)"

definition appendS :: "unit js" where
  "appendS =
     bindS (readS (\<lambda>j. inlineStack j \<noteq> [])) (\<lambda>isInline.
       if isInline then
         thenS (replaceStack (\<lambda>current. '' != null ? '' @ current @ '' : '' @ [dquote, dquote])) (
         bindS popStack (\<lambda>v.
         bindS (readS (appendToBuffer (render v) False)) pushSource))
       else
         bindS popStack (\<lambda>v.
         bindS (readS (appendToBuffer (render v) True)) (\<lambda>(_, app).
         thenS (pushSource (False, ''if ('' @ render v @ '' != null) { '' @ app @ '' }'')) (
         bindS (readS (\<lambda>j. isSimple (js_env j))) (\<lambda>simp.
         bindS (readS (appendToBuffer [squote, squote] True)) (\<lambda>(_, els).
           if simp then pushSource (False, ''else { '' @ els @ '' }'') else retS ()))))))"

definition appendEscaped :: "unit js" where
  "appendEscaped =
     bindS (aliasable ''container.escapeExpression'') (\<lambda>esc.
     bindS popStack (\<lambda>v.
     bindS (readS (appendToBuffer (esc @ ''('' @ render v @ '')'') False)) pushSource))"

definition resolvePossibleLambda :: "unit js" where
  "resolvePossibleLambda =
     bindS (aliasable ''container.lambda'') (\<lambda>lam.
     bindS popStack (\<lambda>v.
     bindS (readS (contextName 0)) (\<lambda>ctx.
       pushS (lam @ ''('' @ render v @ '', '' @ ctx @ '')''))))"

definition registerDecorator :: "nat \<Rightarrow> jsval \<Rightarrow> unit js" where
  "registerDecorator n name =
     bindS (setupHelperArgs name n AsResult) (\<lambda>(_, opts).
       modS (\<lambda>j. j\<lparr>decorator_source := decorator_source j @
         [(False, ''fn = '' @ functionCall (nameLookup ''decorators'' name) []
            [CStr ''fn'', CStr ''props'', CStr ''container'', CNode opts] @ '' || fn;'')]\<rparr>))"

definition alias_unless :: "bool \<Rightarrow> string \<Rightarrow> string \<Rightarrow> string js" where
  "alias_unless b pre name = (if b then retS [] else bindS (aliasable name) (\<lambda>a. retS (pre @ a)))"

definition invokeHelper :: "nat \<Rightarrow> jsval \<Rightarrow> bool \<Rightarrow> unit js" where
  "invokeHelper n name simple =
     bindS popStack (\<lambda>nonHelper.
     bindS (setupHelper n name False) (\<lambda>(_, hname, callParams).
     bindS (readS (\<lambda>j. strict (js_options j))) (\<lambda>stri.
     bindS (alias_unless stri '' || '' ''helpers.helperMissing'') (\<lambda>missing.
       pushS (functionCall (''('' @ (if simple then hname @ '' || '' else []) @ render nonHelper @ missing @ '')'')
         ''call'' callParams)))))"

definition invokeKnownHelper :: "nat \<Rightarrow> string \<Rightarrow> unit js" where
  "invokeKnownHelper n name =
     bindS (setupHelper n (VStr name) False) (\<lambda>(_, hname, callParams).
       pushS (functionCall hname ''call'' callParams))"

definition invokeAmbiguous :: "string \<Rightarrow> bool \<Rightarrow> unit js" where
  "invokeAmbiguous name helperCall =
     thenS (useRegister ''helper'') (
     bindS popStack (\<lambda>nonHelper.
     thenS (emptyHash False) (
     bindS (setupHelper 0 (VStr name) helperCall) (\<lambda>(ini, hname, callParams).
     thenS (modS (\<lambda>j. j\<lparr>lastHelper := nameLookup ''helpers'' (VStr name)\<rparr>)) (
     bindS (readS (\<lambda>j. strict (js_options j))) (\<lambda>stri.
     bindS (alias_unless stri '' != null ? helper : '' ''helpers.helperMissing'') (\<lambda>missing.
     bindS (aliasable ([dquote] @ ''function'' @ [dquote])) (\<lambda>fn.
       pushS (''('' @ (if stri then ''('' else ''(helper = '') @ ''(helper = '' @ nameLookup ''helpers'' (VStr name)
         @ '' || '' @ render nonHelper @ '')'' @ missing
         @ (if ini \<noteq> [] then ''),('' @ ini else []) @ ''),'' @ ''(typeof helper === '' @ fn @ '' ? ''
         @ functionCall ''helper'' ''call'' callParams @ '' : helper))'')))))))))"

definition invokePartial :: "bool \<Rightarrow> jsval \<Rightarrow> string \<Rightarrow> unit js" where
  "invokePartial isDynamic name indent =
     bindS (setupParams name 1 False) (\<lambda>(vs, ob).
     bindS (if isDynamic then popStack else retS (CStr (nameLookup ''partials'' name))) (\<lambda>target.
     bindS (readS (\<lambda>j. compat (js_options j))) (\<lambda>comp.
       let ob = (if isDynamic then obj_delete ''name'' ob else ob);
           ob = set_if (indent \<noteq> []) ''indent'' (CStr (json_string indent)) ob;
           ob = obj_set ''helpers'' (CStr ''helpers'') ob;
           ob = obj_set ''partials'' (CStr ''partials'') ob;
           ob = obj_set ''decorators'' (CStr ''container.decorators'') ob;
           ob = set_if comp ''depths'' (CStr ''depths'') ob
       in bindS (liftR (objectLiteral ob)) (\<lambda>opts.
            pushS (functionCall ''container.invokePartial'' [] (target # vs @ [CNode opts]))))))"

fun exec_op :: "opcode \<Rightarrow> unit js" where
  "exec_op (GetContext d) = modS (\<lambda>j. j\<lparr>lastContext := d\<rparr>)"
| "exec_op (PushProgram g) = pushProgram g"
| "exec_op PushContext = pushContext"
| "exec_op (LookupOnContext ps falsy stri scoped) = lookupOnContext ps falsy stri scoped"
| "exec_op (LookupData d ps stri) = lookupData d ps stri"
| "exec_op (LookupBlockParam d i ps) = lookupBlockParam d i ps"
| "exec_op ResolvePossibleLambda = resolvePossibleLambda"
| "exec_op (PushString s) = pushString s"
| "exec_op (PushLiteral v) = pushStackLiteral (literal_chunk v)"
| "exec_op PushHash = pushHash"
| "exec_op PopHash = popHash"
| "exec_op (AssignToHash k) = assignToHash k"
| "exec_op (EmptyHash om) = emptyHash (om = Some True)"
| "exec_op (InvokeHelper n name simple) = invokeHelper n name simple"
| "exec_op (InvokeKnownHelper n name) = invokeKnownHelper n name"
| "exec_op (InvokeAmbiguous name bl) = invokeAmbiguous name bl"
| "exec_op (InvokePartial d name indent) = invokePartial d name indent"
| "exec_op (BlockValue name) = blockValue name"
| "exec_op AmbiguousBlockValue = ambiguousBlockValue"
| "exec_op Append = appendS"
| "exec_op AppendEscaped = appendEscaped"
| "exec_op (AppendContent s) = appendContent s"
| "exec_op (RegisterDecorator n name) = registerDecorator n name"
| "exec_op (PushStringParam v ty) = pushStringParam v ty"
| "exec_op (PushId ty v) = pushId ty v"
| "exec_op (PushIdBlockParam d i child) = pushIdBlockParam d i child"

fun exec_ops :: "opcode list \<Rightarrow> unit js" where
  "exec_ops [] = retS ()"
| "exec_ops (op # ops) = thenS (exec_op op) (exec_ops ops)"

section \<open>Assembling a function\<close>

text \<open>
  \<open>mergeSource\<close>: the pass over the lines that joins runs of lines with \<open>appendToBuffer\<close> into one
  expression each. Its state is the lines, the positions \<open>bufferStart\<close> and \<open>bufferEnd\<close> of the
  current run and the flags.
\<close>

record merging =
  m_lines :: "code_line list"
  bufferRun :: "(nat \<times> nat) option"
  sourceSeen :: bool
  appendFirst :: bool
  appendOnly :: bool

definition line_prepend :: "string \<Rightarrow> nat \<Rightarrow> code_line list \<Rightarrow> code_line list" where
  "line_prepend s i ls = ls[i := (fst (ls ! i), s @ snd (ls ! i))]"

definition line_add :: "string \<Rightarrow> nat \<Rightarrow> code_line list \<Rightarrow> code_line list" where
  "line_add s i ls = ls[i := (fst (ls ! i), snd (ls ! i) @ s)]"

definition merge_line :: "bool \<Rightarrow> merging \<Rightarrow> nat \<Rightarrow> merging" where
  "merge_line simp m i =
     (if fst (m_lines m ! i) then
        (case bufferRun m of
           Some (st, en) \<Rightarrow> m\<lparr>m_lines := line_prepend ''  + '' i (m_lines m), bufferRun := Some (st, i)\<rparr>
         | None \<Rightarrow> m\<lparr>bufferRun := Some (i, i)\<rparr>)
      else
        let m = (case bufferRun m of
              None \<Rightarrow> m
            | Some (st, en) \<Rightarrow>
                let m = (if \<not> sourceSeen m then m\<lparr>appendFirst := True\<rparr>
                         else m\<lparr>m_lines := line_prepend ''buffer += '' st (m_lines m)\<rparr>)
                in m\<lparr>m_lines := line_add '';'' en (m_lines m), bufferRun := None\<rparr>)
        in m\<lparr>sourceSeen := True, appendOnly := (if simp then appendOnly m else False)\<rparr>)"

definition mergeSource :: "bool \<Rightarrow> string \<Rightarrow> code_line list \<Rightarrow> string" where
  "mergeSource simp varDeclarations ls =
     (let m = foldl (merge_line simp)
            \<lparr>m_lines = ls, bufferRun = None, sourceSeen = False, appendFirst = False, appendOnly = True\<rparr>
            [0..<length ls];
          close = (\<lambda>pre ls. case bufferRun m of
              Some (st, en) \<Rightarrow> Some (line_add '';'' en (line_prepend pre st ls)) | None \<Rightarrow> None);
          (vars, ls') =
            (if appendOnly m then
               (varDeclarations,
                case close ''return '' (m_lines m) of
                  Some l \<Rightarrow> l
                | None \<Rightarrow> if sourceSeen m then m_lines m
                          else m_lines m @ [(False, ''return '' @ [dquote, dquote] @ '';'')])
             else
               (varDeclarations @ '', buffer = '' @ (if appendFirst m then [] else quotedString []),
                case close ''return buffer + '' (m_lines m) of
                  Some l \<Rightarrow> l | None \<Rightarrow> m_lines m @ [(False, ''return buffer;'')]));
          ls'' = (if vars \<noteq> [] then (False, ''var '' @ drop 2 vars @ (if appendFirst m then [] else '';'' @ [nl])) # ls'
                  else ls')
      in merge ls'')"

text \<open>
  A function of the template: its text, or its parameters and body for \<open>Function\<close> when the template
  is compiled in place.
\<close>

datatype template_fn = FnSource string | FnCompiled "string list" string

definition createFunctionContext :: "bool \<Rightarrow> jsc \<Rightarrow> template_fn" where
  "createFunctionContext asObject j =
     (let locals = stackVars j @ registers j;
          vars = (if locals \<noteq> [] then '', '' @ join_with '', '' locals else []);
          params = [''container'', ''depth0'', ''helpers'', ''partials'', ''data'']
            @ (if js_useBlockParams j \<or> js_useDepths j then [''blockParams''] else [])
            @ (if js_useDepths j then [''depths''] else []);
          src = mergeSource (isSimple (js_env j)) vars (source j)
      in if asObject then FnCompiled params src
         else FnSource (''function('' @ join_with '','' params @ '') {'' @ [nl] @ ''  '' @ src @ ''}''))"

definition decorator_function :: "bool \<Rightarrow> code_line list \<Rightarrow> template_fn option" where
  "decorator_function asObject ls =
     (if ls = [] then None
      else
        let body = ((False, ''var decorators = container.decorators;'' @ [nl]) # ls) @ [(False, ''return fn;'')]
        in Some (if asObject
             then FnCompiled [''fn'', ''props'', ''container'', ''depth0'', ''data'', ''blockParams'', ''depths''] (merge body)
             else FnSource (merge ((False, ''function(fn, props, container, depth0, data, blockParams, depths) {'' @ [nl])
               # body @ [(False, ''}'' @ [nl])]))))"

section \<open>Programs\<close>

text \<open>
  What the compilers of a template share: the functions, the decorators and the environments by
  their index. A placeholder or a hole is \<open>None\<close>.
\<close>

record js_context =
  programs :: "template_fn option list"
  decorators :: "template_fn option list"
  environments :: "compiled option list"

definition list_put :: "nat \<Rightarrow> 'a option \<Rightarrow> 'a option list \<Rightarrow> 'a option list" where
  "list_put i v xs = (if i < length xs then xs[i := v] else xs @ replicate (i - length xs) None @ [v])"

text \<open>\<open>matchExistingProgram\<close>: the first environment that equals the child.\<close>

fun match_from :: "nat \<Rightarrow> compiled option list \<Rightarrow> compiled \<Rightarrow> nat option result" where
  "match_from i [] child = Inr None"
| "match_from i (None # es) child = match_from (Suc i) es child"
| "match_from i (Some e # es) child =
     bindR (env_equals e child) (\<lambda>b. if b then Inr (Some i) else match_from (Suc i) es child)"

definition start_js :: "options \<Rightarrow> compiled \<Rightarrow> nat list \<Rightarrow> bool \<Rightarrow> bool \<Rightarrow> jsc" where
  "start_js opts env idx ud ub = \<lparr>js_env = env, js_options = opts, child_index = idx, lastContext = 0,
     source = [], decorator_source = [], stackSlot = 0, stackVars = [], aliases = [], registers = [],
     open_hash = None, hashes = [], compileStack = [], inlineStack = [], pendingContent = [],
     lastHelper = ''undefined'',
     js_useDepths = (ud \<or> useDepths env \<or> useDecorators env \<or> compat opts), js_useBlockParams = ub\<rparr>"

definition stack_left :: exn where
  "stack_left = Exception ''Compile completed with content left on stack'' None"

text \<open>Running the opcodes, and the check that nothing is left.\<close>

definition run_program :: "options \<Rightarrow> compiled \<Rightarrow> nat list \<Rightarrow> bool \<Rightarrow> bool \<Rightarrow> jsc result" where
  "run_program opts env idx ud ub =
     bindR (thenS (exec_ops (map fst (opcodes env))) flush_content (start_js opts env idx ud ub)) (\<lambda>(_, j).
       if stackSlot j \<noteq> 0 \<or> inlineStack j \<noteq> [] \<or> compileStack j \<noteq> [] then Inl stack_left else Inr j)"

text \<open>
  \<open>compile\<close> of a program and \<open>compileChildren\<close>. The result is the compiler's final state; the loop
  over the children returns their indices and whether they use depths and block parameters.
\<close>

function js_compile :: "options \<Rightarrow> bool \<Rightarrow> js_context \<Rightarrow> compiled \<Rightarrow> (jsc \<times> js_context) result"
  and compileChildren :: "options \<Rightarrow> bool \<Rightarrow> js_context \<Rightarrow> bool \<Rightarrow> bool \<Rightarrow> nat list \<Rightarrow> compiled list
    \<Rightarrow> (js_context \<times> bool \<times> bool \<times> nat list) result" where
  "js_compile opts asObject ctx env =
     bindR (compileChildren opts asObject ctx False False [] (children env)) (\<lambda>(ctx, ud, ub, idx).
       bindR (run_program opts env idx ud ub) (\<lambda>j. Inr (j, ctx)))"
| "compileChildren opts asObject ctx ud ub idx [] = Inr (ctx, ud, ub, idx)"
| "compileChildren opts asObject ctx ud ub idx (child # cs) =
     bindR (match_from 0 (environments ctx) child) (\<lambda>found.
       case found of
         Some i \<Rightarrow> compileChildren opts asObject ctx (ud \<or> useDepths child) ub (idx @ [i]) cs
       | None \<Rightarrow>
           let ctx = ctx\<lparr>programs := programs ctx @ [None]\<rparr>;
               i = length (programs ctx)
           in bindR (js_compile opts asObject ctx child) (\<lambda>(j, ctx).
                compileChildren opts asObject
                  (ctx\<lparr>programs := list_put i (Some (createFunctionContext asObject j)) (programs ctx),
                       decorators := list_put i (decorator_function asObject (decorator_source j)) (decorators ctx),
                       environments := list_put i (Some child) (environments ctx)\<rparr>)
                  (ud \<or> js_useDepths j) (ub \<or> js_useBlockParams j) (idx @ [i]) cs))"
  by pat_completeness auto
termination
  by (relation "measure (\<lambda>x. case x of Inl (_, _, _, e) \<Rightarrow> 2 * size e | Inr (_, _, _, _, _, _, cs) \<Rightarrow> 2 * size_list size cs + 1)")
    (auto simp: children_size)

section \<open>The template specification\<close>

record template_spec =
  spec_compiler :: "nat \<times> string option"
  spec_main :: template_fn
  spec_main_d :: "template_fn option"
  spec_programs :: "(nat \<times> template_fn) list"
  spec_program_d :: "(nat \<times> template_fn) list"
  spec_useDecorators :: bool
  spec_usePartial :: bool
  spec_useData :: bool
  spec_useDepths :: bool
  spec_useBlockParams :: bool
  spec_compat :: bool

definition present :: "'a option list \<Rightarrow> (nat \<times> 'a) list" where
  "present xs = map (\<lambda>(i, x). (i, the x)) (filter (\<lambda>(i, x). x \<noteq> None) (enumerate 0 xs))"

definition program_decorators :: "js_context \<Rightarrow> (nat \<times> template_fn) list" where
  "program_decorators ctx =
     filter (\<lambda>(i, d). i < length (programs ctx) \<and> programs ctx ! i \<noteq> None) (present (decorators ctx))"

definition empty_context :: js_context where
  "empty_context = \<lparr>programs = [], decorators = [], environments = []\<rparr>"

text \<open>
  \<open>JavaScriptCompiler.compile\<close> of the main program, when it returns an object.
\<close>

definition compile_spec :: "options \<Rightarrow> bool \<Rightarrow> compiled \<Rightarrow> template_spec result" where
  "compile_spec opts asObject env =
     bindR (js_compile opts asObject empty_context env) (\<lambda>(j, ctx).
       let main_d = decorator_function asObject (decorator_source j)
       in Inr \<lparr>spec_compiler = (COMPILER_REVISION, REVISION_CHANGES COMPILER_REVISION),
         spec_main = createFunctionContext asObject j, spec_main_d = main_d,
         spec_programs = present (programs ctx), spec_program_d = program_decorators ctx,
         spec_useDecorators = (main_d \<noteq> None \<or> program_decorators ctx \<noteq> []),
         spec_usePartial = usePartial env, spec_useData = (opt_data opts = Some True),
         spec_useDepths = js_useDepths j, spec_useBlockParams = js_useBlockParams j, spec_compat = compat opts\<rparr>)"

text \<open>
  The same specification as the text that \<open>precompile\<close> returns; with a source name it is wrapped in
  an object whose map is missing, since the fallback node has none.
\<close>

fun fn_chunk :: "template_fn \<Rightarrow> chunk" where
  "fn_chunk (FnSource s) = CNode s"
| "fn_chunk (FnCompiled ps body) = CNode (''function ('' @ join_with '','' ps @ '') {'' @ body @ ''}'')"

definition spec_object :: "template_spec \<Rightarrow> chunk obj" where
  "spec_object sp =
     (let (rev, vers) = spec_compiler sp;
          ob = obj_set ''compiler'' (CStr (''['' @ show_nat rev @ '',''
            @ (case vers of None \<Rightarrow> ''null'' | Some v \<Rightarrow> json_string v) @ '']'')) [];
          ob = obj_set ''main'' (fn_chunk (spec_main sp)) ob;
          ob = (case spec_main_d sp of None \<Rightarrow> ob
             | Some d \<Rightarrow> obj_set ''useDecorators'' (CBool True) (obj_set ''main_d'' (fn_chunk d) ob));
          ob = foldl (\<lambda>ob (i, f).
                 let ob = obj_set (show_nat i) (fn_chunk f) ob
                 in case map_of (spec_program_d sp) i of
                      None \<Rightarrow> ob
                    | Some d \<Rightarrow> obj_set ''useDecorators'' (CBool True)
                        (obj_set (show_nat i @ ''_d'') (fn_chunk d) ob)) ob (spec_programs sp);
          ob = set_if (spec_usePartial sp) ''usePartial'' (CBool True) ob;
          ob = set_if (spec_useData sp) ''useData'' (CBool True) ob;
          ob = set_if (spec_useDepths sp) ''useDepths'' (CBool True) ob;
          ob = set_if (spec_useBlockParams sp) ''useBlockParams'' (CBool True) ob
      in set_if (spec_compat sp) ''compat'' (CBool True) ob)"

datatype precompiled = SpecText string | SpecWithMap string

definition precompiled_text :: "options \<Rightarrow> template_spec \<Rightarrow> precompiled result" where
  "precompiled_text opts sp =
     bindR (objectLiteral (spec_object sp)) (\<lambda>s.
       Inr (if srcName opts \<noteq> None then SpecWithMap s else SpecText s))"

text \<open>\<open>precompile\<close> and the function \<open>compileInput\<close> of \<open>compile\<close> up to \<open>env.template\<close>.\<close>

definition precompile :: "options \<Rightarrow> template_input \<Rightarrow> precompiled result option" where
  "precompile opts i =
     (case check_input ''precompile'' i of
        Inl e \<Rightarrow> Some (Inl e)
      | Inr i \<Rightarrow> map_option (\<lambda>r. bindR r (\<lambda>(env, opts).
          bindR (compile_spec opts False env) (precompiled_text opts))) (compile_opcodes opts i))"

definition compileInput :: "options \<Rightarrow> template_input \<Rightarrow> template_spec result option" where
  "compileInput opts i =
     map_option (\<lambda>r. bindR r (\<lambda>(env, opts). compile_spec opts True env)) (compile_opcodes opts i)"

section \<open>The stack never fails\<close>

text \<open>
  The invariant of the stacks: \<open>stackSlot\<close> counts the variables on the compile stack, the two
  stacks hold \<open>n\<close> entries and \<open>h\<close> hashes are open, none of which has a property that
  \<open>objectLiteral\<close> trips over.
\<close>

fun is_plain :: "item \<Rightarrow> bool" where
  "is_plain (Plain _) = True"
| "is_plain (Lit _) = False"

definition parts_ok :: "js_hash \<Rightarrow> bool" where
  "parts_ok g \<longleftrightarrow> list_all (\<lambda>ob. ''hasOwnProperty'' \<notin> set (obj_keys ob))
     [h_values g, h_types g, h_contexts g, h_ids g]"

definition open_hashes :: "jsc \<Rightarrow> js_hash list" where
  "open_hashes j = (case open_hash j of None \<Rightarrow> [] | Some g \<Rightarrow> g # hashes j)"

definition stk :: "compiled \<Rightarrow> options \<Rightarrow> nat \<Rightarrow> nat \<Rightarrow> jsc \<Rightarrow> bool" where
  "stk E op n h j \<longleftrightarrow> js_env j = E \<and> js_options j = op
     \<and> stackSlot j = length (filter is_plain (compileStack j))
     \<and> length (inlineStack j) + length (compileStack j) = n
     \<and> length (open_hashes j) = h \<and> (open_hash j = None \<longrightarrow> hashes j = [])
     \<and> list_all parts_ok (open_hashes j)"

definition stk_in :: "compiled \<Rightarrow> options \<Rightarrow> nat \<Rightarrow> nat \<Rightarrow> jsc \<Rightarrow> bool" where
  "stk_in E op n h j \<longleftrightarrow> stk E op n h j \<and> inlineStack j \<noteq> []"

text \<open>The fields the invariant does not read.\<close>

lemma open_hashes_update [simp]:
  "open_hashes (j\<lparr>inlineStack := y\<rparr>) = open_hashes j"
  "open_hashes (j\<lparr>compileStack := y\<rparr>) = open_hashes j"
  "open_hashes (j\<lparr>stackSlot := m\<rparr>) = open_hashes j"
  "open_hashes (j\<lparr>stackVars := z\<rparr>) = open_hashes j"
  by (simp_all add: open_hashes_def split: option.splits)

lemma stk_update [simp]:
  "stk E op n h (j\<lparr>lastContext := x1\<rparr>) = stk E op n h j"
  "stk E op n h (j\<lparr>source := x2\<rparr>) = stk E op n h j"
  "stk E op n h (j\<lparr>decorator_source := x2\<rparr>) = stk E op n h j"
  "stk E op n h (j\<lparr>aliases := x3\<rparr>) = stk E op n h j"
  "stk E op n h (j\<lparr>registers := x4\<rparr>) = stk E op n h j"
  "stk E op n h (j\<lparr>stackVars := x4\<rparr>) = stk E op n h j"
  "stk E op n h (j\<lparr>pendingContent := x5\<rparr>) = stk E op n h j"
  "stk E op n h (j\<lparr>source := x2, pendingContent := x5\<rparr>) = stk E op n h j"
  "stk E op n h (j\<lparr>lastHelper := x5\<rparr>) = stk E op n h j"
  "stk E op n h (j\<lparr>js_useBlockParams := x6\<rparr>) = stk E op n h j"
  by (simp_all add: stk_def open_hashes_def split: option.splits)

lemma stk_in_update [simp]:
  "stk_in E op n h (j\<lparr>aliases := x3\<rparr>) = stk_in E op n h j"
  "stk_in E op n h (j\<lparr>js_useBlockParams := x6\<rparr>) = stk_in E op n h j"
  by (simp_all add: stk_in_def)

lemma stk_inD: "stk_in E op n h j \<Longrightarrow> stk E op n h j"
  by (simp add: stk_in_def)

lemma runs_push: "runs (stk E op n h) (push_item it) (\<lambda>_. stk_in E op (Suc n) h)"
  unfolding push_item_def by (rule runs_mod) (auto simp: stk_in_def stk_def)

lemma runs_pushS: "runs (stk E op n h) (pushS s) (\<lambda>_. stk_in E op (Suc n) h)"
  unfolding pushS_def by (rule runs_push)

lemma runs_pushLit: "runs (stk E op n h) (pushStackLiteral c) (\<lambda>_. stk_in E op (Suc n) h)"
  unfolding pushStackLiteral_def by (rule runs_push)

lemma runs_pop: "runs (stk E op (Suc n) h) popStack (\<lambda>_. stk E op n h)"
  unfolding runs_def
proof (intro allI impI)
  fix j assume j: "stk E op (Suc n) h j"
  show "\<exists>x j'. popStack j = Inr (x, j') \<and> stk E op n h j'"
  proof (cases "inlineStack j")
    case Nil
    with j obtain it r where "compileStack j = it # r" by (cases "compileStack j") (auto simp: stk_def)
    with Nil j show ?thesis by (cases it) (auto simp: popStack_def stk_def)
  next
    case (Cons it r)
    with j show ?thesis by (auto simp: popStack_def stk_def)
  qed
qed

lemma runs_aliasable: "runs (stk E op n h) (aliasable s) (\<lambda>_. stk E op n h)"
  unfolding aliasable_def
  by (rule runs_bind [where R = "\<lambda>_. stk E op n h"]) (auto intro: runs_mod runs_ret)

lemma runs_replace: "runs (stk_in E op n h) (replaceStack f) (\<lambda>_. stk_in E op n h)"
  unfolding runs_def
proof (intro allI impI)
  fix j assume j: "stk_in E op n h j"
  then obtain it r where i: "inlineStack j = it # r" by (cases "inlineStack j") (auto simp: stk_in_def)
  with j show "\<exists>x j'. replaceStack f j = Inr (x, j') \<and> stk_in E op n h j'"
    by (cases it) (auto simp: replaceStack_def pushS_def push_item_def bindS_def incrStack_def popStack_def
        modS_def Let_def stk_in_def stk_def)
qed

abbreviation opt_slots :: "options \<Rightarrow> nat" where
  "opt_slots op \<equiv> slots (trackIds op) (stringParams op)"

lemma runs_read_options: "runs (stk E op n h) (readS js_options) (\<lambda>x j. x = op \<and> stk E op n h j)"
  by (rule runs_read) (simp add: stk_def)

lemma runs_read_keep: "runs P (readS f) (\<lambda>_. P)"
  by (rule runs_read)

lemma runs_eq: "(x = y \<Longrightarrow> runs P m Q) \<Longrightarrow> runs (\<lambda>j. x = y \<and> P j) m Q"
  by (auto simp: runs_def)

text \<open>Reading the options, then going on with them.\<close>

lemma runs_options:
  "runs (stk E op n h) (f op) Q \<Longrightarrow> runs (stk E op n h) (bindS (readS js_options) f) Q"
  by (rule runs_bind [OF runs_read_options]) (auto intro: runs_eq)

lemma runs_reading:
  "(\<And>x. runs (stk E op n h) (f x) Q) \<Longrightarrow> runs (stk E op n h) (bindS (readS g) f) Q"
  by (rule runs_bind [OF runs_read_keep])

lemma runs_then: "runs P m (\<lambda>_. R) \<Longrightarrow> runs R m' Q \<Longrightarrow> runs P (thenS m m') Q"
  by (rule runs_bind)

lemma runs_bind': "runs P m (\<lambda>_. R) \<Longrightarrow> (\<And>x. runs R (f x) Q) \<Longrightarrow> runs P (bindS m f) Q"
  by (rule runs_bind)

lemma runs_out: "runs P m (\<lambda>_. stk_in E op n h) \<Longrightarrow> runs P m (\<lambda>_. stk E op n h)"
  unfolding runs_def stk_in_def by blast

lemma runs_in: "runs (stk E op n h) m Q \<Longrightarrow> runs (stk_in E op n h) m Q"
  unfolding runs_def stk_in_def by blast

lemma runs_pop_if: "runs (stk E op (n + (if b then 1 else 0)) h) (pop_if b) (\<lambda>_. stk E op n h)"
  using runs_pop by (auto simp: pop_if_def intro: runs_ret)

lemma runs_popParam: "runs (stk E op (n + opt_slots op) h) popParam (\<lambda>_. stk E op n h)"
proof -
  let ?t = "if trackIds op then 1 else (0::nat)" and ?s = "if stringParams op then 1 else (0::nat)"
  have eq: "n + opt_slots op = Suc (n + ?s + ?s + ?t)" by (simp add: slots_def)
  show ?thesis
    unfolding popParam_def eq
    by (intro runs_bind' [OF runs_pop] runs_options runs_bind' [OF runs_pop_if] runs_ret)
qed

lemma runs_popParams: "runs (stk E op (n + k * opt_slots op) h) (popParams k) (\<lambda>_. stk E op n h)"
proof (induction k arbitrary: n)
  case (Suc k)
  have eq: "n + Suc k * opt_slots op = (n + k * opt_slots op) + opt_slots op" by simp
  show ?case unfolding popParams.simps eq
    by (intro runs_bind' [OF runs_popParam] runs_bind' [OF Suc] runs_ret)
qed (simp add: runs_ret)

definition no_own :: "chunk obj \<Rightarrow> bool" where
  "no_own ob \<longleftrightarrow> ''hasOwnProperty'' \<notin> set (obj_keys ob)"

lemma no_own_set: "no_own (obj_set k v ob) \<longleftrightarrow> k \<noteq> ''hasOwnProperty'' \<and> no_own ob"
  by (auto simp: no_own_def obj_keys_set)

lemma no_own_set_if: "k \<noteq> ''hasOwnProperty'' \<Longrightarrow> no_own ob \<Longrightarrow> no_own (set_if b k v ob)"
  by (simp add: set_if_def no_own_set)

lemma no_own_empty: "no_own []"
  by (simp add: no_own_def obj_keys_def)

lemma no_own_delete: "no_own ob \<Longrightarrow> no_own (obj_delete k ob)"
  by (auto simp: no_own_def obj_keys_def obj_delete_def)

lemma objectLiteral_total: "no_own ob \<Longrightarrow> \<exists>s. objectLiteral ob = Inr s"
  by (simp add: objectLiteral_def no_own_def)

lemma runs_literal: "no_own ob \<Longrightarrow> runs P (liftR (objectLiteral ob)) (\<lambda>_. P)"
  using objectLiteral_total [of ob] by (auto simp: runs_def liftR_def)

lemma runs_setupParams:
  "runs (stk E op (n + (2 + opt_slots op + k * opt_slots op)) h) (setupParams helper k oa)
     (\<lambda>(vs, ob) j. no_own ob \<and> stk E op n h j)"
proof -
  let ?t = "if trackIds op then 1 else (0::nat)" and ?s = "if stringParams op then 1 else (0::nat)"
  have eq: "n + (2 + opt_slots op + k * opt_slots op) = Suc (Suc (Suc (n + k * opt_slots op)) + ?s + ?s + ?t)"
    by (simp add: slots_def)
  show ?thesis
    unfolding setupParams_def eq Let_def
    by (intro runs_options runs_bind' [OF runs_pop] runs_bind' [OF runs_pop_if] runs_bind' [OF runs_popParams]
        runs_reading runs_ret)
      (simp add: no_own_set_if no_own_set no_own_empty)
qed

lemma runs_useRegister: "runs (stk E op n h) (useRegister r) (\<lambda>_. stk E op n h)"
  unfolding useRegister_def by (rule runs_mod) simp

lemma runs_setupHelperArgs:
  "runs (stk E op (n + (2 + opt_slots op + k * opt_slots op)) h) (setupHelperArgs helper k us)
     (\<lambda>_. stk E op n h)"
proof -
  have "runs (\<lambda>j. no_own ob \<and> stk E op n h j) (bindS (liftR (objectLiteral ob)) f) (\<lambda>_. stk E op n h)"
    if "\<And>x. runs (stk E op n h) (f x) (\<lambda>_. stk E op n h)" for ob f
    using that objectLiteral_total [of ob]
    by (auto simp: runs_def bindS_def liftR_def)
  note lit = this
  show ?thesis
    unfolding setupHelperArgs_def
    by (rule runs_bind [OF runs_setupParams], simp only: split_beta, rule lit)
      (auto split: args_use.splits intro!: runs_ret runs_then [OF runs_useRegister])
qed

lemma runs_setupHelper:
  "runs (stk E op (n + (2 + opt_slots op + k * opt_slots op)) h) (setupHelper k name bh) (\<lambda>_. stk E op n h)"
  unfolding setupHelper_def
  by (rule runs_bind' [OF runs_setupHelperArgs])
    (auto split: prod.splits intro!: runs_reading runs_bind' [OF runs_aliasable] runs_ret)

lemma runs_flush_content: "runs (stk E op n h) flush_content (\<lambda>_. stk E op n h)"
  unfolding flush_content_def by (rule runs_mod) simp

lemma runs_pushSource: "runs (stk E op n h) (pushSource ln) (\<lambda>_. stk E op n h)"
  unfolding pushSource_def by (rule runs_then [OF runs_flush_content]) (rule runs_mod, simp)

lemma runs_replaceParts: "runs (stk_in E op n h) (replaceParts falsy ps) (\<lambda>_. stk_in E op n h)"
  by (induction ps) (auto intro: runs_ret runs_then [OF runs_replace])

lemma runs_strictLookup: "runs (stk E op (Suc n) h) (strictLookup b ps) (\<lambda>_. stk E op n h)"
  unfolding strictLookup_def Let_def
  by (auto intro!: runs_bind' [OF runs_pop] runs_bind' [OF runs_aliasable] runs_ret)

lemma runs_resolvePath: "runs (stk_in E op (Suc n) h) (resolvePath ps i falsy stri) (\<lambda>_. stk_in E op (Suc n) h)"
proof -
  have "runs (\<lambda>j. x = op \<and> stk_in E op (Suc n) h j)
    (if strict x \<or> assumeObjects x then bindS (strictLookup (strict x \<and> stri) ps) pushS
      else replaceParts falsy (drop i ps)) (\<lambda>_. stk_in E op (Suc n) h)" for x
    by (auto intro!: runs_eq runs_replaceParts runs_in [OF runs_bind' [OF runs_strictLookup runs_pushS]])
  moreover have "runs (stk_in E op (Suc n) h) (readS js_options) (\<lambda>x j. x = op \<and> stk_in E op (Suc n) h j)"
    by (rule runs_read) (simp add: stk_in_def stk_def)
  ultimately show ?thesis unfolding resolvePath_def by (rule runs_bind [rotated])
qed

lemma runs_pushContext: "runs (stk E op n h) pushContext (\<lambda>_. stk_in E op (Suc n) h)"
  unfolding pushContext_def by (intro runs_reading runs_pushLit)

lemma runs_lookupOnContext:
  "runs (stk E op n h) (lookupOnContext ps falsy stri sc) (\<lambda>_. stk_in E op (Suc n) h)"
proof -
  have "runs (stk E op n h) (bindS (depthedLookup x) pushS) (\<lambda>_. stk_in E op (Suc n) h)" for x
    unfolding depthedLookup_def
    by (intro runs_bind' [where R = "stk E op n h"] runs_pushS runs_aliasable runs_ret)
  then show ?thesis
    unfolding lookupOnContext_def
    by (intro runs_reading runs_if runs_then [OF _ runs_resolvePath] runs_pushContext) auto
qed

lemma runs_lookupBlockParam: "runs (stk E op n h) (lookupBlockParam d i ps) (\<lambda>_. stk_in E op (Suc n) h)"
  unfolding lookupBlockParam_def
  by (rule runs_then [where R = "stk E op n h"], rule runs_mod, simp)
    (intro runs_then [OF _ runs_resolvePath] runs_pushS)

lemma runs_lookupData: "runs (stk E op n h) (lookupData d ps stri) (\<lambda>_. stk_in E op (Suc n) h)"
  unfolding lookupData_def by (intro runs_then [OF _ runs_resolvePath] runs_pushLit)

lemma runs_push_if: "runs (stk E op n h) (push_if b) (\<lambda>_. stk E op (n + (if b then 1 else 0)) h)"
  by (auto simp: push_if_def intro: runs_ret runs_out runs_pushS)

lemma runs_emptyHash: "runs (stk E op n h) (emptyHash b) (\<lambda>_. stk E op (n + opt_slots op) h)"
proof -
  let ?t = "if trackIds op then 1 else (0::nat)" and ?s = "if stringParams op then 1 else (0::nat)"
  have eq: "n + opt_slots op = Suc (n + ?t + ?s + ?s)" by (simp add: slots_def)
  show ?thesis unfolding emptyHash_def eq
    by (intro runs_options runs_then [OF runs_push_if] runs_out [OF runs_pushLit])
qed

lemma runs_pushHash: "runs (stk E op n h) pushHash (\<lambda>_. stk E op n (Suc h))"
  unfolding pushHash_def
  by (rule runs_mod) (auto simp: stk_def open_hashes_def parts_ok_def obj_keys_def split: option.splits)

lemma runs_push_object:
  "no_own ob \<Longrightarrow> runs (stk E op n h) (push_object b ob) (\<lambda>_. stk E op (n + (if b then 1 else 0)) h)"
  by (auto simp: push_object_def intro!: runs_ret runs_bind' [OF runs_literal] runs_out [OF runs_pushS])

lemma runs_popHash: "runs (stk E op n (Suc h)) popHash (\<lambda>_. stk E op (n + opt_slots op) h)"
proof -
  let ?t = "if trackIds op then 1 else (0::nat)" and ?s = "if stringParams op then 1 else (0::nat)"
  have eq: "n + opt_slots op = n + ?t + ?s + ?s + (if True then 1 else 0)" by (simp add: slots_def)
  have read: "runs (stk E op n (Suc h)) (readS open_hash)
      (\<lambda>x j. stk E op n (Suc h) j \<and> open_hash j = x \<and> (\<exists>g. x = Some g \<and> parts_ok g))"
    by (rule runs_read) (auto simp: stk_def open_hashes_def split: option.splits)
  have close: "runs (\<lambda>j. stk E op n (Suc h) j \<and> open_hash j = x \<and> (\<exists>g. x = Some g \<and> parts_ok g))
      (modS (\<lambda>j. case hashes j of [] \<Rightarrow> j\<lparr>open_hash := None\<rparr> | g # gs \<Rightarrow> j\<lparr>open_hash := Some g, hashes := gs\<rparr>))
      (\<lambda>_ j. (\<exists>g. x = Some g \<and> parts_ok g) \<and> stk E op n h j)" for x
    by (rule runs_mod) (auto simp: stk_def open_hashes_def split: list.splits)
  have body: "runs (stk E op n h)
        (thenS (push_object (trackIds op) (h_ids g)) (
           thenS (push_object (stringParams op) (h_contexts g)) (
           thenS (push_object (stringParams op) (h_types g))
             (push_object True (h_values g))))) (\<lambda>_. stk E op (n + opt_slots op) h)" if "parts_ok g" for g
    unfolding eq using that
    by (intro runs_then [OF runs_push_object] runs_push_object) (auto simp: parts_ok_def no_own_def)
  have rest: "runs (\<lambda>j. (\<exists>g. x = Some g \<and> parts_ok g) \<and> stk E op n h j)
      (bindS (readS js_options) (\<lambda>opts.
         case x of None \<Rightarrow> throwS no_hash
       | Some g \<Rightarrow>
           thenS (push_object (trackIds opts) (h_ids g)) (
           thenS (push_object (stringParams opts) (h_contexts g)) (
           thenS (push_object (stringParams opts) (h_types g))
             (push_object True (h_values g)))))) (\<lambda>_. stk E op (n + opt_slots op) h)" for x
  proof (cases "\<exists>g. x = Some g \<and> parts_ok g")
    case True
    then obtain g where g: "x = Some g" "parts_ok g" by blast
    from body [OF g(2)] show ?thesis
      unfolding g(1) by (intro runs_pre [OF runs_options]) auto
  qed (auto simp: runs_def)
  show ?thesis unfolding popHash_def
    by (rule runs_bind [OF read], rule runs_then [OF close], rule rest)
qed

lemma array_set_total: "k \<noteq> ''length'' \<Longrightarrow> k \<noteq> ''hasOwnProperty'' \<Longrightarrow> no_own ob \<Longrightarrow>
    \<exists>ob'. array_set k v ob = Inr ob' \<and> no_own ob'"
  by (auto simp: array_set_def no_own_set)

lemma runs_set_part: "k \<noteq> ''length'' \<Longrightarrow> k \<noteq> ''hasOwnProperty'' \<Longrightarrow> no_own ob \<Longrightarrow>
    runs P (set_part k v ob) (\<lambda>ob' j. no_own ob' \<and> P j)"
  using array_set_total [of k ob v] by (auto simp: set_part_def runs_def liftR_def retS_def)

lemma runs_array_set: "k \<noteq> ''length'' \<Longrightarrow> k \<noteq> ''hasOwnProperty'' \<Longrightarrow> no_own ob \<Longrightarrow>
    runs P (liftR (array_set k v ob)) (\<lambda>ob' j. no_own ob' \<and> P j)"
  using array_set_total [of k ob v] by (auto simp: runs_def liftR_def)

lemma runs_given: "(A \<Longrightarrow> runs P m Q) \<Longrightarrow> runs (\<lambda>j. A \<and> P j) m Q"
  by (auto simp: runs_def)

lemma runs_assignToHash:
  assumes k: "k \<noteq> ''length''" "k \<noteq> ''hasOwnProperty''"
  shows "runs (stk E op (n + opt_slots op) (Suc h)) (assignToHash k) (\<lambda>_. stk E op n (Suc h))"
proof -
  have read: "runs (stk E op n (Suc h)) (readS open_hash)
      (\<lambda>x j. (\<exists>g. x = Some g \<and> parts_ok g) \<and> stk E op n (Suc h) j)"
    by (rule runs_read) (auto simp: stk_def open_hashes_def split: option.splits)
  have fin: "runs (stk E op n (Suc h)) (modS (\<lambda>j. j\<lparr>open_hash := Some g\<rparr>)) (\<lambda>_. stk E op n (Suc h))"
    if "parts_ok g" for g
    using that by (intro runs_mod) (auto simp: stk_def open_hashes_def split: option.splits)
  show ?thesis
    unfolding assignToHash_def
    apply (rule runs_bind' [OF runs_popParam])
    apply (rule runs_bind [OF read])
    apply (rule runs_given)
    apply (elim exE conjE)
    apply (simp only: option.case)
    apply (rule runs_bind [OF runs_set_part [OF k]], simp add: parts_ok_def no_own_def, rule runs_given)+
    apply (rule runs_bind [OF runs_array_set [OF k]], simp add: parts_ok_def no_own_def, rule runs_given)
    apply (rule fin)
    apply (simp add: parts_ok_def no_own_def)
    done
qed

text \<open>The opcodes that use what the others have pushed.\<close>

lemma runs_pushProgram:
  "index_ok g (children E) \<Longrightarrow> runs (stk E op n h) (pushProgram g) (\<lambda>_. stk_in E op (Suc n) h)"
proof (cases g)
  case (Some i)
  assume "index_ok g (children E)"
  with Some have "runs (stk E op n h) (\<lambda>j. liftR (programExpression i j) j) (\<lambda>_. stk E op n h)"
    by (auto simp: runs_def liftR_def programExpression_def stk_def)
  with Some show ?thesis unfolding pushProgram_def by (auto intro: runs_bind' runs_pushLit)
qed (simp add: pushProgram_def runs_pushLit)

lemma runs_pushStringParam: "runs (stk E op n h) (pushStringParam v ty)
    (\<lambda>_. stk E op (n + (if ty = ''SubExpression'' then 2 else 3)) h)"
proof -
  have three: "n + 3 = Suc (Suc (Suc n))" and two: "n + 2 = Suc (Suc n)" by simp_all
  have tail: "runs (stk E op (Suc (Suc n)) h) (case v of VStr s \<Rightarrow> pushString s | _ \<Rightarrow> pushStackLiteral (literal_chunk v))
      (\<lambda>_. stk E op (n + 3) h)"
    unfolding three by (cases v) (auto simp: pushString_def intro!: runs_out [OF runs_pushLit])
  show ?thesis
    unfolding pushStringParam_def pushString_def [of ty]
    by (rule runs_then [OF runs_out [OF runs_pushContext]], rule runs_then [OF runs_out [OF runs_pushLit]])
      (auto simp: two intro: tail runs_ret)
qed

lemma runs_blockValue:
  "runs (stk E op (n + (3 + opt_slots op)) h) (blockValue name) (\<lambda>_. stk_in E op (Suc n) h)"
proof -
  have eq: "n + (3 + opt_slots op) = Suc n + (2 + opt_slots op + 0 * opt_slots op)" by simp
  show ?thesis unfolding blockValue_def eq
    by (rule runs_bind' [OF runs_aliasable], rule runs_reading, rule runs_bind' [OF runs_setupHelperArgs])
      (auto split: prod.splits intro!: runs_bind' [OF runs_pop] runs_pushS)
qed

lemma runs_flush_items:
  "runs (\<lambda>j. stk E op (n - length its) h j \<and> length its \<le> n \<and> inlineStack j = []) (flush_items its)
     (\<lambda>_ j. stk E op n h j \<and> inlineStack j = [])"
proof (induction its arbitrary: n)
  case Nil
  then show ?case by (auto intro: runs_ret)
next
  case (Cons it its)
  have "runs (\<lambda>j. stk E op (n - length (it # its)) h j \<and> length (it # its) \<le> n \<and> inlineStack j = []) (flush_item it)
      (\<lambda>_ j. stk E op (n - length its) h j \<and> length its \<le> n \<and> inlineStack j = [])"
    by (cases it) (auto simp: runs_def flush_item_def modS_def bindS_def incrStack_def pushSource_def
        flush_content_def Let_def stk_def open_hashes_def split: option.splits)
  then show ?case unfolding flush_items.simps by (rule runs_then) (rule Cons)
qed

lemma runs_flushInline: "runs (stk E op n h) flushInline (\<lambda>_. stk E op n h)"
proof -
  have "runs (\<lambda>j. its = rev (inlineStack j) \<and> stk E op n h j)
      (thenS (modS (\<lambda>j. j\<lparr>inlineStack := []\<rparr>)) (flush_items its)) (\<lambda>_ j. stk E op n h j)" for its
  proof (rule runs_then)
    show "runs (\<lambda>j. its = rev (inlineStack j) \<and> stk E op n h j) (modS (\<lambda>j. j\<lparr>inlineStack := []\<rparr>))
        (\<lambda>_ j. stk E op (n - length its) h j \<and> length its \<le> n \<and> inlineStack j = [])"
      by (rule runs_mod) (auto simp: stk_def)
    show "runs (\<lambda>j. stk E op (n - length its) h j \<and> length its \<le> n \<and> inlineStack j = []) (flush_items its)
        (\<lambda>_ j. stk E op n h j)"
      using runs_flush_items [of E op n its h] unfolding runs_def by blast
  qed
  moreover have "runs (stk E op n h) (readS (\<lambda>j. rev (inlineStack j))) (\<lambda>its j. its = rev (inlineStack j) \<and> stk E op n h j)"
    by (rule runs_read) simp
  ultimately show ?thesis unfolding flushInline_def by (rule runs_bind [rotated])
qed

lemma runs_ambiguousBlockValue:
  "runs (stk E op (n + (3 + opt_slots op)) h) ambiguousBlockValue (\<lambda>_. stk E op (Suc n) h)"
proof -
  have eq: "n + (3 + opt_slots op) = Suc n + (2 + opt_slots op + 0 * opt_slots op)" by simp
  show ?thesis unfolding ambiguousBlockValue_def eq
    by (rule runs_bind' [OF runs_aliasable], rule runs_reading, rule runs_bind' [OF runs_setupHelperArgs])
      (auto split: prod.splits intro!: runs_then [OF runs_flushInline] runs_reading runs_pushSource)
qed

lemma runs_appendS: "runs (stk E op (Suc n) h) appendS (\<lambda>_. stk E op n h)"
proof -
  have inl: "runs (stk_in E op (Suc n) h)
      (thenS (replaceStack (\<lambda>current. '' != null ? '' @ current @ '' : '' @ [dquote, dquote]))
         (bindS popStack (\<lambda>v. bindS (readS (appendToBuffer (render v) False)) pushSource))) (\<lambda>_. stk E op n h)"
    by (rule runs_then [OF runs_replace], rule runs_in, rule runs_bind' [OF runs_pop], rule runs_reading)
      (rule runs_pushSource)
  have out: "runs (stk E op (Suc n) h)
        (bindS popStack (\<lambda>v.
         bindS (readS (appendToBuffer (render v) True)) (\<lambda>(_, app).
         thenS (pushSource (False, ''if ('' @ render v @ '' != null) { '' @ app @ '' }'')) (
         bindS (readS (\<lambda>j. isSimple (js_env j))) (\<lambda>simp.
         bindS (readS (appendToBuffer [squote, squote] True)) (\<lambda>(_, els).
           if simp then pushSource (False, ''else { '' @ els @ '' }'') else retS ())))))) (\<lambda>_. stk E op n h)"
    unfolding split_beta
    by (intro runs_bind' [OF runs_pop] runs_reading runs_then [OF runs_pushSource] runs_if runs_pushSource runs_ret)
  have "runs (\<lambda>j. b = (inlineStack j \<noteq> []) \<and> stk E op (Suc n) h j) m Q" if
    "b \<Longrightarrow> runs (stk_in E op (Suc n) h) m Q" "\<not> b \<Longrightarrow> runs (stk E op (Suc n) h) m Q" for b m Q
    using that by (cases b) (auto simp: runs_def stk_in_def)
  note split = this
  have "runs (stk E op (Suc n) h) (readS (\<lambda>j. inlineStack j \<noteq> []))
      (\<lambda>b j. b = (inlineStack j \<noteq> []) \<and> stk E op (Suc n) h j)"
    by (rule runs_read) simp
  then show ?thesis
    unfolding appendS_def
    by (rule runs_bind) (rule split; simp only: if_True if_False; (rule inl | rule out))
qed

lemma runs_appendEscaped: "runs (stk E op (Suc n) h) appendEscaped (\<lambda>_. stk E op n h)"
  unfolding appendEscaped_def
  by (intro runs_bind' [OF runs_aliasable] runs_bind' [OF runs_pop] runs_reading runs_pushSource)

lemma runs_resolvePossibleLambda:
  "runs (stk E op (Suc n) h) resolvePossibleLambda (\<lambda>_. stk_in E op (Suc n) h)"
  unfolding resolvePossibleLambda_def
  by (intro runs_bind' [OF runs_aliasable] runs_bind' [OF runs_pop] runs_reading runs_pushS)

lemma runs_registerDecorator:
  "runs (stk E op (n + (2 + opt_slots op + k * opt_slots op)) h) (registerDecorator k name) (\<lambda>_. stk E op n h)"
  unfolding registerDecorator_def
  by (rule runs_bind' [OF runs_setupHelperArgs]) (auto split: prod.splits intro!: runs_mod)

lemma runs_alias_unless: "runs (stk E op n h) (alias_unless b pre name) (\<lambda>_. stk E op n h)"
  by (auto simp: alias_unless_def intro!: runs_ret runs_bind' [OF runs_aliasable])

lemma runs_invokeHelper:
  "runs (stk E op (n + (3 + opt_slots op + k * opt_slots op)) h) (invokeHelper k name simple)
     (\<lambda>_. stk_in E op (Suc n) h)"
proof -
  have eq: "n + (3 + opt_slots op + k * opt_slots op) = Suc (n + (2 + opt_slots op + k * opt_slots op))" by simp
  show ?thesis unfolding invokeHelper_def eq
    by (rule runs_bind' [OF runs_pop], rule runs_bind' [OF runs_setupHelper])
      (auto split: prod.splits intro!: runs_reading runs_bind' [OF runs_alias_unless] runs_pushS)
qed

lemma runs_invokeKnownHelper:
  "runs (stk E op (n + (2 + opt_slots op + k * opt_slots op)) h) (invokeKnownHelper k name)
     (\<lambda>_. stk_in E op (Suc n) h)"
  unfolding invokeKnownHelper_def
  by (rule runs_bind' [OF runs_setupHelper]) (auto split: prod.splits intro!: runs_pushS)

lemma runs_invokeAmbiguous:
  "runs (stk E op (n + 3) h) (invokeAmbiguous name bl) (\<lambda>_. stk_in E op (Suc n) h)"
proof -
  have eq: "n + 3 = Suc (n + 2)" by simp
  have eq': "n + 2 + opt_slots op = n + (2 + opt_slots op + 0 * opt_slots op)" by simp
  show ?thesis unfolding invokeAmbiguous_def eq
    apply (rule runs_then [OF runs_useRegister])
    apply (rule runs_bind' [OF runs_pop])
    apply (rule runs_then [OF runs_emptyHash])
    apply (unfold eq')
    apply (rule runs_bind' [OF runs_setupHelper])
    apply (simp only: split_beta)
    apply (rule runs_then [where R = "stk E op n h"], rule runs_mod, simp)
    apply (intro runs_reading runs_bind' [OF runs_alias_unless] runs_bind' [OF runs_aliasable] runs_pushS)
    done
qed

lemma runs_invokePartial:
  "runs (stk E op (n + (2 + 2 * opt_slots op + (if d then 1 else 0))) h) (invokePartial d name indent)
     (\<lambda>_. stk_in E op (Suc n) h)"
proof -
  let ?d = "if d then 1 else (0::nat)"
  have eq: "n + (2 + 2 * opt_slots op + ?d) = (n + ?d) + (2 + opt_slots op + 1 * opt_slots op)" by simp
  have pop: "runs (stk E op (n + ?d) h) (if d then popStack else retS x) (\<lambda>_. stk E op n h)" for x
    using runs_pop by (auto intro: runs_ret)
  show ?thesis unfolding invokePartial_def eq
    apply (rule runs_bind [OF runs_setupParams])
    apply (simp only: split_beta)
    apply (rule runs_given)
    apply (rule runs_bind' [OF pop])
    apply (rule runs_reading)
    apply (simp only: Let_def)
    apply (rule runs_bind' [OF runs_literal])
     apply (auto intro!: no_own_set_if no_own_delete simp: no_own_set)[1]
    apply (rule runs_pushS)
    done
qed

section \<open>Compiling returns\<close>

text \<open>The hash keys that make the arrays of a hash fail.\<close>

definition key_ok :: "opcode \<Rightarrow> bool" where
  "key_ok x \<longleftrightarrow> x \<noteq> AssignToHash ''length'' \<and> x \<noteq> AssignToHash ''hasOwnProperty''"

lemma runs_exec_op:
  assumes "opcode_effect (trackIds op) (stringParams op) (length (children E)) x (n, h) = Some (n', h')"
    and "key_ok x"
  shows "runs (stk E op n h) (exec_op x) (\<lambda>_. stk E op n' h')"
proof -
  have conv: "runs (stk E op n0 h) m (\<lambda>_. stk E op n' h)"
    if "runs (stk E op (n0 - a + a) h) m (\<lambda>_. stk E op (n0 - a + b) h)" "take_put a b (n0, h) = Some (n', h')"
    for n0 a b and m :: "unit js"
    using that by (auto simp: take_put_def split: if_splits)
  show ?thesis
  proof (cases x)
    case PopHash
    with assms(1) obtain h0 where "h = Suc h0" "n' = n + opt_slots op" "h' = h0"
      by (auto simp: take_put_def split: nat.splits)
    with PopHash show ?thesis using runs_popHash by simp
  next
    case (AssignToHash k)
    with assms obtain h0 where "h = Suc h0" "opt_slots op \<le> n" "n' = n - opt_slots op" "h' = h"
      by (cases h) (auto simp: take_put_def split: if_splits)
    moreover have "k \<noteq> ''length''" "k \<noteq> ''hasOwnProperty''" using AssignToHash assms(2) by (auto simp: key_ok_def)
    ultimately show ?thesis using runs_assignToHash [of k E op "n - opt_slots op" h0] AssignToHash by simp
  next
    case (PushProgram g)
    with assms(1) have "index_ok g (children E)" "n' = Suc n" "h' = h"
      by (auto simp: take_put_def split: if_splits)
    with PushProgram show ?thesis using runs_out [OF runs_pushProgram] by simp
  next
    case (InvokeHelper k v s)
    with assms(1) have "n = (n' - 1) + (3 + opt_slots op + k * opt_slots op)" "n' = Suc (n' - 1)" "h' = h"
      by (auto simp: take_put_def split: if_splits)
    with InvokeHelper show ?thesis using runs_out [OF runs_invokeHelper] by (metis exec_op.simps(14))
  next
    case (InvokeKnownHelper k v)
    with assms(1) have "n = (n' - 1) + (2 + opt_slots op + k * opt_slots op)" "n' = Suc (n' - 1)" "h' = h"
      by (auto simp: take_put_def split: if_splits)
    with InvokeKnownHelper show ?thesis using runs_out [OF runs_invokeKnownHelper] by (metis exec_op.simps(15))
  next
    case (InvokeAmbiguous k v)
    with assms(1) have "n = (n' - 1) + 3" "n' = Suc (n' - 1)" "h' = h"
      by (auto simp: take_put_def split: if_splits)
    with InvokeAmbiguous show ?thesis using runs_out [OF runs_invokeAmbiguous] by (metis exec_op.simps(16))
  next
    case (InvokePartial d v i)
    with assms(1) have "n = (n' - 1) + (2 + 2 * opt_slots op + (if d then 1 else 0))" "n' = Suc (n' - 1)" "h' = h"
      by (auto simp: take_put_def split: if_splits)
    with InvokePartial show ?thesis using runs_out [OF runs_invokePartial] by (metis exec_op.simps(17))
  next
    case (BlockValue v)
    with assms(1) have "n = (n' - 1) + (3 + opt_slots op)" "n' = Suc (n' - 1)" "h' = h"
      by (auto simp: take_put_def split: if_splits)
    with BlockValue show ?thesis using runs_out [OF runs_blockValue] by (metis exec_op.simps(18))
  next
    case AmbiguousBlockValue
    with assms(1) have "n = (n' - 1) + (3 + opt_slots op)" "n' = Suc (n' - 1)" "h' = h"
      by (auto simp: take_put_def split: if_splits)
    with AmbiguousBlockValue show ?thesis using runs_ambiguousBlockValue by (metis exec_op.simps(19))
  next
    case (RegisterDecorator k v)
    with assms(1) have "n = n' + (2 + opt_slots op + k * opt_slots op)" "h' = h"
      by (auto simp: take_put_def split: if_splits)
    with RegisterDecorator show ?thesis using runs_registerDecorator by (metis exec_op.simps(23))
  next
    case Append
    with assms(1) have "n = Suc n'" "h' = h" by (auto simp: take_put_def split: if_splits)
    with Append show ?thesis using runs_appendS by simp
  next
    case AppendEscaped
    with assms(1) have "n = Suc n'" "h' = h" by (auto simp: take_put_def split: if_splits)
    with AppendEscaped show ?thesis using runs_appendEscaped by simp
  next
    case ResolvePossibleLambda
    with assms(1) obtain k where "n = Suc k" "n' = Suc k" "h' = h"
      by (cases n) (auto simp: take_put_def split: if_splits)
    with ResolvePossibleLambda show ?thesis using runs_out [OF runs_resolvePossibleLambda] by simp
  next
    case (GetContext d)
    with assms(1) have "n' = n" "h' = h" by (auto simp: take_put_def)
    with GetContext show ?thesis by (auto intro: runs_mod)
  next
    case (AppendContent d)
    with assms(1) have "n' = n" "h' = h" by (auto simp: take_put_def)
    with AppendContent show ?thesis by (auto simp: appendContent_def intro: runs_mod)
  next
    case (PushStringParam v ty)
    with assms(1) have "n' = n + (if ty = ''SubExpression'' then 2 else 3)" "h' = h" by (auto simp: take_put_def)
    with PushStringParam show ?thesis using runs_pushStringParam by simp
  qed (use assms(1) in \<open>auto simp: take_put_def pushString_def pushId_def pushIdBlockParam_def
      intro: runs_out [OF runs_pushContext] runs_out [OF runs_lookupOnContext] runs_out [OF runs_lookupData]
        runs_out [OF runs_lookupBlockParam] runs_out [OF runs_pushLit] runs_pushHash runs_emptyHash\<close>)
qed

lemma runs_exec_ops:
  "run_effects (trackIds op) (stringParams op) (length (children E)) ops (n, h) = Some (n', h') \<Longrightarrow>
     list_all key_ok ops \<Longrightarrow> runs (stk E op n h) (exec_ops ops) (\<lambda>_. stk E op n' h')"
proof (induction ops arbitrary: n h)
  case (Cons x ops)
  then obtain n1 h1 where "opcode_effect (trackIds op) (stringParams op) (length (children E)) x (n, h) = Some (n1, h1)"
    and "run_effects (trackIds op) (stringParams op) (length (children E)) ops (n1, h1) = Some (n', h')"
    by (auto split: option.splits)
  with Cons show ?case by (auto intro: runs_then [OF runs_exec_op])
qed (auto intro: runs_ret)

text \<open>The keys of a program and of its blocks.\<close>

fun keys_ok :: "compiled \<Rightarrow> bool" where
  "keys_ok (Compiled ops ch up ud dec simp bpc) \<longleftrightarrow> list_all key_ok (map fst ops) \<and> list_all keys_ok ch"

lemma run_program_total:
  assumes "balanced (trackIds op) (stringParams op) E" and "keys_ok E"
  shows "\<exists>j. run_program op E idx ud ub = Inr j"
proof -
  have eff: "run_effects (trackIds op) (stringParams op) (length (children E)) (map fst (opcodes E)) (0, 0) = Some (0, 0)"
    using assms(1) by (cases E) simp
  have keys: "list_all key_ok (map fst (opcodes E))" using assms(2) by (cases E) simp
  have "runs (stk E op 0 0) (thenS (exec_ops (map fst (opcodes E))) flush_content) (\<lambda>_. stk E op 0 0)"
    by (rule runs_then [OF runs_exec_ops [OF eff keys] runs_flush_content])
  moreover have "stk E op 0 0 (start_js op E idx ud ub)"
    by (simp add: stk_def start_js_def open_hashes_def)
  ultimately obtain x j where "thenS (exec_ops (map fst (opcodes E))) flush_content (start_js op E idx ud ub) = Inr (x, j)"
    and "stk E op 0 0 j" by (blast dest: runsD)
  then show ?thesis by (auto simp: run_program_def stk_def)
qed

definition env_ok :: "options \<Rightarrow> compiled \<Rightarrow> bool" where
  "env_ok op E \<longleftrightarrow> balanced (trackIds op) (stringParams op) E \<and> all_pushed E \<and> keys_ok E"

definition context_ok :: "options \<Rightarrow> js_context \<Rightarrow> bool" where
  "context_ok op ctx \<longleftrightarrow> (\<forall>e. Some e \<in> set (environments ctx) \<longrightarrow> env_ok op e)"

lemma match_total:
  "env_ok op child \<Longrightarrow> (\<forall>e. Some e \<in> set es \<longrightarrow> env_ok op e) \<Longrightarrow> \<exists>r. match_from i es child = Inr r"
proof (induction i es child rule: match_from.induct)
  case (3 i e es child)
  from 3 obtain b where "env_equals e child = Inr b"
    using env_equals_total by (fastforce simp: env_ok_def)
  with 3 show ?case by (auto simp del: env_equals.simps)
qed auto

lemma set_list_put: "set (list_put i v xs) \<subseteq> insert v (insert None (set xs))"
  by (auto simp: list_put_def dest: set_update_subset_insert [THEN subsetD])

lemma js_compile_total:
  "env_ok op E \<Longrightarrow> context_ok op ctx \<Longrightarrow> \<exists>j ctx'. js_compile op asObj ctx E = Inr (j, ctx') \<and> context_ok op ctx'"
  "list_all (env_ok op) cs \<Longrightarrow> context_ok op ctx \<Longrightarrow>
     \<exists>ctx' a b c. compileChildren op asObj ctx ud ub idx cs = Inr (ctx', a, b, c) \<and> context_ok op ctx'"
proof (induction op asObj ctx E and op asObj ctx ud ub idx cs rule: js_compile_compileChildren.induct)
  case (1 op asObj ctx E)
  note E = \<open>env_ok op E\<close>
  from 1 have "list_all (env_ok op) (children E)" by (cases E) (auto simp: env_ok_def list_all_iff)
  with 1 obtain ctx' a b c where c: "compileChildren op asObj ctx False False [] (children E) = Inr (ctx', a, b, c)"
    "context_ok op ctx'" by blast
  moreover obtain j where "run_program op E c a b = Inr j"
    using run_program_total [of op E c a b] E by (auto simp: env_ok_def)
  ultimately show ?case by simp
next
  case (3 op asObj ctx ud ub idx child cs)
  obtain found where found: "match_from 0 (environments ctx) child = Inr found"
    using match_total 3(4,5) by (fastforce simp: context_ok_def)
  show ?case
  proof (cases found)
    case (Some i)
    with 3(3) [OF found Some] 3(4,5) found show ?thesis by simp
  next
    case None
    let ?ctx = "ctx\<lparr>programs := programs ctx @ [None]\<rparr>"
    have "context_ok op ?ctx" using 3(5) by (simp add: context_ok_def)
    with 3(1) [OF found None refl refl] 3(4) obtain j ctx1 where
      j: "js_compile op asObj ?ctx child = Inr (j, ctx1)" "context_ok op ctx1" by auto
    let ?i = "length (programs ?ctx)"
    let ?ctx2 = "ctx1\<lparr>programs := list_put ?i (Some (createFunctionContext asObj j)) (programs ctx1),
                       decorators := list_put ?i (decorator_function asObj (decorator_source j)) (decorators ctx1),
                       environments := list_put ?i (Some child) (environments ctx1)\<rparr>"
    have "context_ok op ?ctx2"
      using j(2) 3(4) set_list_put [of ?i "Some child" "environments ctx1"] by (auto simp: context_ok_def)
    with 3(2) [OF found None refl refl j(1) refl] 3(4)
    show ?thesis using found None j(1) by (simp add: Let_def)
  qed
qed auto

section \<open>Properties\<close>


text \<open>With \<open>strict\<close> or \<open>assumeObjects\<close> a block parameter is looked up once too often: the code for
  the parameter \<open>x\<close> itself reads the property \<open>x\<close> of the parameter's value, because
  \<open>strictLookup\<close> starts at the first part and not where \<open>resolvePath\<close> was told to.\<close>

lemma block_param_looked_up_twice:
  "\<exists>j'. lookupBlockParam d i [x] j = Inr ((), j') \<and>
     inlineStack j' = Plain (let base = ''blockParams['' @ show_nat d @ ''][''  @ show_nat i @ '']''
       in if strict (js_options j) \<or> assumeObjects (js_options j) then nameLookup base (VStr x) else base)
       # inlineStack j"
  by (simp add: lookupBlockParam_def resolvePath_def strictLookup_def pushS_def push_item_def
      popStack_def bindS_def action_defs Let_def)

text \<open>A hash key \<open>length\<close> makes the compiler itself throw a \<open>RangeError\<close> whenever the value is a
  path or another expression, because the parts of a hash are arrays.\<close>

lemma hash_key_length_throws:
  assumes "inlineStack j = Plain s # r" and "\<not> list_all is_digit s" and "open_hash j = Some g"
    and "\<not> trackIds (js_options j)" and "\<not> stringParams (js_options j)"
  shows "assignToHash ''length'' j = Inl (range_error ''Invalid array length'')"
  using assms
  by (simp add: assignToHash_def popParam_def pop_if_def popStack_def set_part_def array_set_def
      digits_length_def liftR_def bindS_def action_defs)

text \<open>A program that equals an earlier one is compiled to a reference to it, and then what it needs
  of block parameters is forgotten: the enclosing function is not told to pass them on, although it
  is when the same program is compiled for the first time.\<close>

lemma matched_program_forgets_block_params:
  assumes "match_from 0 (environments ctx0) child = Inr None"
    and "js_compile op asObj (ctx0\<lparr>programs := programs ctx0 @ [None]\<rparr>) child = Inr (j, ctx1)"
    and "js_useBlockParams j"
    and "match_from 0 (environments ctx) child = Inr (Some i)"
  shows "(\<exists>ctx' ud' idx'. compileChildren op asObj ctx0 ud False idx [child] = Inr (ctx', ud', True, idx'))
    \<and> compileChildren op asObj ctx ud False idx [child] = Inr (ctx, ud \<or> useDepths child, False, idx @ [i])"
  using assms by (simp_all add: Let_def del: js_compile.simps)

section \<open>Witnesses\<close>


definition no_parts :: js_hash where
  "no_parts = \<lparr>h_values = [], h_types = [], h_contexts = [], h_ids = []\<rparr>"

definition sample_jsc :: jsc where
  "sample_jsc = (start_js default_options (Compiled [] [] False False False True 0) [] False False)
     \<lparr>inlineStack := [Plain ''(depth0 != null ? depth0.a : depth0)''], open_hash := Some no_parts\<rparr>"

text \<open>The block \<open>{{x}}\<close> inside \<open>as |x|\<close>, once when it is new and once when it is known.\<close>

definition block_param_child :: compiled where
  "block_param_child = Compiled [(LookupBlockParam 0 0 [''x''], None), (ResolvePossibleLambda, None),
     (AppendEscaped, None)] [] False False False True 0"

end
