(* ===== verification/HbBuiltins.thy ===== *)
theory HbBuiltins
  imports HbEnv
begin

text \<open>
  The default helpers of \<open>handlebars.js\<close>, modules 8 to 14. A block of a template is a function of
  type \<open>'p\<close>; the parameter \<open>app\<close> runs it on a context, and may change a state of type \<open>'s\<close>.
\<close>

section \<open>Data frames and options\<close>

text \<open>
  A data frame: its properties apart from \<open>partial-block\<close>, a function, and \<open>_parent\<close>, a frame.
\<close>

datatype 'p frame = Frame (f_props: "jsval obj") (f_block: "'p option") (f_parent: "'p frame option")

text \<open>The block parameters of a call: an array with its \<open>path\<close>, or those of the enclosing blocks.\<close>

datatype bparam = BParams block_params | BScope "bparam option list"

record 'p run_options =
  ro_data :: "'p frame option"
  ro_blockParams :: "bparam option"

record 'p helper_options =
  ho_name :: string
  ho_hash :: "jsval obj"
  ho_fn :: "'p option"
  ho_inverse :: "'p option"
  ho_data :: "'p frame option"
  ho_ids :: "jsval list option"
  ho_blockParams :: "bparam option"

type_synonym ('p, 's) runner = "'p \<Rightarrow> jsval \<Rightarrow> 'p run_options \<Rightarrow> ('s, jsval) effect"

text \<open>\<open>createFrame\<close> of a data frame.\<close>

definition frame_child :: "'p frame \<Rightarrow> 'p frame" where
  "frame_child f = Frame (obj_extend [] [f_props f]) (f_block f) (Some f)"

definition frame_get :: "'p frame \<Rightarrow> string \<Rightarrow> jsval" where
  "frame_get f k = (case obj_get (f_props f) k of None \<Rightarrow> Undefined | Some v \<Rightarrow> v)"

definition frame_set :: "string \<Rightarrow> jsval \<Rightarrow> 'p frame \<Rightarrow> 'p frame" where
  "frame_set k v f = Frame (obj_set k v (f_props f)) (f_block f) (f_parent f)"

definition no_options :: "'p run_options" where
  "no_options = \<lparr>ro_data = None, ro_blockParams = None\<rparr>"

definition run_of :: "'p helper_options \<Rightarrow> 'p run_options" where
  "run_of op = \<lparr>ro_data = ho_data op, ro_blockParams = ho_blockParams op\<rparr>"

text \<open>Calling \<open>fn\<close> or \<open>inverse\<close>, which an inline call does not have.\<close>

definition call_block :: "('p, 's) runner \<Rightarrow> 'p option \<Rightarrow> jsval \<Rightarrow> 'p run_options \<Rightarrow> ('s, jsval) effect" where
  "call_block app f ctx ro = (case f of
      None \<Rightarrow> throwE (type_error ''options.fn is not a function'')
    | Some p \<Rightarrow> app p ctx ro)"

definition first_id :: "'p helper_options \<Rightarrow> jsval" where
  "first_id op = (case ho_ids op of Some (i # _) \<Rightarrow> i | _ \<Rightarrow> Undefined)"

section \<open>each\<close>

text \<open>What stays the same during one call of \<open>each\<close>.\<close>

record 'p each_env =
  e_fn :: "'p option"
  e_context :: jsval
  e_contextPath :: "string option"

text \<open>
  \<open>execIteration(field, index, last)\<close> on the frame, which all iterations share, and the output so
  far. A \<open>contextPath\<close> that is \<open>undefined\<close> prints as such in the path of the block parameters.
\<close>

definition execIteration :: "host \<Rightarrow> ('p, 's) runner \<Rightarrow> 'p each_env \<Rightarrow> jsval \<Rightarrow> nat \<Rightarrow> bool
    \<Rightarrow> 'p frame option \<times> string \<Rightarrow> ('s, 'p frame option \<times> string) effect" where
  "execIteration h app en field index isLast acc =
     (let (data, ret) = acc;
          f = to_string h field;
          data = map_option (\<lambda>d.
            let d = frame_set ''key'' field d;
                d = frame_set ''index'' (VNum (num_of_nat index)) d;
                d = frame_set ''first'' (VBool (index = 0)) d;
                d = frame_set ''last'' (VBool isLast) d
            in case e_contextPath en of None \<Rightarrow> d
               | Some cp \<Rightarrow> frame_set ''contextPath'' (VStr (cp @ f)) d) data
      in bindE (liftE (get_prop (e_context en) f)) (\<lambda>v.
         bindE (call_block app (e_fn en) v \<lparr>ro_data = data,
             ro_blockParams = Some (BParams (blockParams [v, field]
               [VStr ((case e_contextPath en of None \<Rightarrow> ''undefined'' | Some cp \<Rightarrow> cp) @ f), Null]))\<rparr>) (\<lambda>r.
           retE (data, ret @ to_string h r))))"

text \<open>The loop over an array, from index \<open>i\<close>; holes are skipped.\<close>

fun each_items :: "host \<Rightarrow> ('p, 's) runner \<Rightarrow> 'p each_env \<Rightarrow> nat \<Rightarrow> jsval option list
    \<Rightarrow> 'p frame option \<times> string \<Rightarrow> ('s, 'p frame option \<times> string) effect" where
  "each_items h app en i [] acc = retE acc"
| "each_items h app en i (x # xs) acc =
     bindE (if x = None then retE acc else execIteration h app en (VNum (num_of_nat i)) i (xs = []) acc)
       (each_items h app en (Suc i) xs)"

text \<open>\<open>context.hasOwnProperty(key)\<close>, which an own property of that name replaces.\<close>

definition has_own :: "host \<Rightarrow> jsval obj \<Rightarrow> string \<Rightarrow> bool result" where
  "has_own h ps k = (case obj_get ps ''hasOwnProperty'' of
      None \<Rightarrow> Inr (k \<in> set (obj_keys ps))
    | Some f \<Rightarrow> bindR (call_value h f (VObj ps) [VStr k]) (\<lambda>v. Inr (truthy v)))"

text \<open>
  The loop over the keys of an object, one step behind: \<open>priorKey\<close> and the counter \<open>i\<close>. It returns
  the counter as well.
\<close>

fun each_keys :: "host \<Rightarrow> ('p, 's) runner \<Rightarrow> 'p each_env \<Rightarrow> jsval obj \<Rightarrow> string option \<Rightarrow> nat \<Rightarrow> string list
    \<Rightarrow> 'p frame option \<times> string \<Rightarrow> ('s, nat \<times> 'p frame option \<times> string) effect" where
  "each_keys h app en ps prior i [] acc =
     (case prior of
        None \<Rightarrow> retE (i, acc)
      | Some k \<Rightarrow> bindE (execIteration h app en (VStr k) (i - 1) True acc) (\<lambda>acc. retE (i, acc)))"
| "each_keys h app en ps prior i (k # ks) acc =
     bindE (liftE (has_own h ps k)) (\<lambda>own.
       if own then
         bindE (case prior of None \<Rightarrow> retE acc | Some k' \<Rightarrow> execIteration h app en (VStr k') (i - 1) False acc)
           (each_keys h app en ps (Some k) (Suc i) ks)
       else each_keys h app en ps prior i ks acc)"

text \<open>The own properties of a value that \<open>typeof\<close> calls an object and that is no array.\<close>

definition object_props :: "jsval \<Rightarrow> jsval obj option" where
  "object_props v = (case v of VObj ps \<Rightarrow> Some ps | VSafe x \<Rightarrow> Some [(''string'', x)] | _ \<Rightarrow> None)"

text \<open>The function, the context and the path of a call of \<open>each\<close>.\<close>

definition each_env_of :: "host \<Rightarrow> 'p helper_options \<Rightarrow> jsval \<Rightarrow> 'p each_env" where
  "each_env_of h op ctx = \<lparr>e_fn = ho_fn op, e_context = ctx, e_contextPath =
     (case (ho_data op, ho_ids op) of
        (Some d, Some _) \<Rightarrow> Some (appendContextPath h (frame_get d ''contextPath'') (first_id op) @ ''.'')
      | _ \<Rightarrow> None)\<rparr>"

lemma each_env_of [simp]: "e_fn (each_env_of h op ctx) = ho_fn op" "e_context (each_env_of h op ctx) = ctx"
  by (simp_all add: each_env_of_def)

definition each_helper :: "host \<Rightarrow> ('p, 's) runner \<Rightarrow> jsval \<Rightarrow> jsval \<Rightarrow> 'p helper_options option
    \<Rightarrow> ('s, jsval) effect" where
  "each_helper h app this ctx opts =
     (case opts of
        None \<Rightarrow> throwE (Exception ''Must pass iterator to #each'' None)
      | Some op \<Rightarrow>
          bindE (if isFunction ctx then liftE (call_value h ctx this []) else retE ctx) (\<lambda>ctx.
            let data = map_option frame_child (ho_data op);
                en = each_env_of h op ctx
            in bindE (case ctx of
                   VArr xs \<Rightarrow> bindE (each_items h app en 0 xs (data, [])) (\<lambda>acc. retE (length xs, acc))
                 | _ \<Rightarrow> (case object_props ctx of
                       None \<Rightarrow> retE (0, data, [])
                     | Some ps \<Rightarrow> each_keys h app en ps None 0 (obj_keys ps) (data, []))) (\<lambda>(i, _, ret).
                if i = 0 then call_block app (ho_inverse op) this no_options else retE (VStr ret))))"

section \<open>The other helpers\<close>

text \<open>
  \<open>blockHelperMissing\<close>; \<open>each\<close> is the helper registered under that name.
\<close>

definition blockHelperMissing :: "host \<Rightarrow> ('p, 's) runner \<Rightarrow> (jsval \<Rightarrow> 'p helper_options \<Rightarrow> ('s, jsval) effect)
    \<Rightarrow> jsval \<Rightarrow> jsval \<Rightarrow> 'p helper_options \<Rightarrow> ('s, jsval) effect" where
  "blockHelperMissing h app each this ctx op =
     (if ctx = VBool True then call_block app (ho_fn op) this no_options
      else if ctx = VBool False \<or> nullish ctx then call_block app (ho_inverse op) this no_options
      else case ctx of
        VArr xs \<Rightarrow>
          if xs \<noteq> [] then
            each ctx (if ho_ids op \<noteq> None then op\<lparr>ho_ids := Some [VStr (ho_name op)]\<rparr> else op)
          else call_block app (ho_inverse op) this no_options
      | _ \<Rightarrow>
          (case (ho_data op, ho_ids op) of
             (Some d, Some _) \<Rightarrow>
               call_block app (ho_fn op) ctx
                 \<lparr>ro_data = Some (frame_set ''contextPath''
                    (VStr (appendContextPath h (frame_get d ''contextPath'') (VStr (ho_name op)))) (frame_child d)),
                  ro_blockParams = None\<rparr>
           | _ \<Rightarrow> call_block app (ho_fn op) ctx (run_of op)))"

text \<open>\<open>helperMissing\<close> on its arguments before the options.\<close>

definition helperMissing :: "jsval list \<Rightarrow> string \<Rightarrow> ('s, jsval) effect" where
  "helperMissing args name =
     (if args = [] then retE Undefined
      else throwE (Exception (''Missing helper: '' @ [dquote] @ name @ [dquote]) None))"

definition if_helper :: "host \<Rightarrow> ('p, 's) runner \<Rightarrow> jsval \<Rightarrow> jsval \<Rightarrow> 'p helper_options \<Rightarrow> ('s, jsval) effect" where
  "if_helper h app this conditional op =
     bindE (if isFunction conditional then liftE (call_value h conditional this []) else retE conditional) (\<lambda>c.
       let includeZero = (case obj_get (ho_hash op) ''includeZero'' of None \<Rightarrow> False | Some v \<Rightarrow> truthy v)
       in if \<not> includeZero \<and> \<not> truthy c \<or> isEmpty c then call_block app (ho_inverse op) this no_options
          else call_block app (ho_fn op) this no_options)"

text \<open>\<open>unless\<close> calls the helper registered as \<open>if\<close> with the two blocks exchanged.\<close>

definition unless_helper :: "(jsval \<Rightarrow> jsval \<Rightarrow> 'p helper_options \<Rightarrow> ('s, jsval) effect) \<Rightarrow> jsval \<Rightarrow> jsval
    \<Rightarrow> 'p helper_options \<Rightarrow> ('s, jsval) effect" where
  "unless_helper ifh this conditional op =
     ifh this conditional \<lparr>ho_name = ''undefined'', ho_hash = ho_hash op, ho_fn = ho_inverse op,
       ho_inverse = ho_fn op, ho_data = None, ho_ids = None, ho_blockParams = None\<rparr>"

definition with_helper :: "host \<Rightarrow> ('p, 's) runner \<Rightarrow> jsval \<Rightarrow> jsval \<Rightarrow> 'p helper_options \<Rightarrow> ('s, jsval) effect" where
  "with_helper h app this ctx op =
     bindE (if isFunction ctx then liftE (call_value h ctx this []) else retE ctx) (\<lambda>c.
       if \<not> isEmpty c then
         let data = (case (ho_data op, ho_ids op) of
               (Some d, Some _) \<Rightarrow> Some (frame_set ''contextPath''
                  (VStr (appendContextPath h (frame_get d ''contextPath'') (first_id op))) (frame_child d))
             | (d, _) \<Rightarrow> d)
         in call_block app (ho_fn op) c \<lparr>ro_data = data, ro_blockParams = Some (BParams (blockParams [c]
              [case data of None \<Rightarrow> Undefined | Some d \<Rightarrow> frame_get d ''contextPath'']))\<rparr>
       else call_block app (ho_inverse op) this no_options)"

definition lookup_helper :: "host \<Rightarrow> jsval \<Rightarrow> jsval \<Rightarrow> jsval result" where
  "lookup_helper h ob field = (if truthy ob then get_prop ob (to_string h field) else Inr ob)"

text \<open>
  The level that the \<open>log\<close> helper passes on: the one of its hash, that of the data, or 1. A level
  is a name or an integer; for another value \<open>None\<close>.
\<close>

definition level_of :: "jsval \<Rightarrow> log_level option" where
  "level_of v = (case v of
      VStr s \<Rightarrow> Some (LevelName s)
    | VNum (Decimal neg i f) \<Rightarrow>
        if f = [] then Some (LevelNum (if neg then - int (read_nat i) else int (read_nat i))) else None
    | _ \<Rightarrow> None)"

definition log_helper_level :: "'p helper_options \<Rightarrow> jsval" where
  "log_helper_level op =
     (case obj_get (ho_hash op) ''level'' of
        Some v \<Rightarrow> if \<not> nullish v then v
                  else (case ho_data op of Some d \<Rightarrow> if nullish (frame_get d ''level'') then VNum (num_of_nat 1)
                          else frame_get d ''level'' | None \<Rightarrow> VNum (num_of_nat 1))
      | None \<Rightarrow> (case ho_data op of Some d \<Rightarrow> if nullish (frame_get d ''level'') then VNum (num_of_nat 1)
                          else frame_get d ''level'' | None \<Rightarrow> VNum (num_of_nat 1)))"

definition log_helper :: "string list option \<Rightarrow> log_level \<Rightarrow> jsval list \<Rightarrow> 'p helper_options
    \<Rightarrow> (string \<times> jsval list) option" where
  "log_helper console loggerLevel args op =
     (case level_of (log_helper_level op) of
        None \<Rightarrow> None
      | Some l \<Rightarrow> log_call console loggerLevel l args)"

section \<open>What each calls\<close>

text \<open>
  A block that records its calls, and the frame it must get: its parent is the frame of the caller.
\<close>

definition recorder :: "(jsval \<Rightarrow> 'p run_options \<Rightarrow> string) \<Rightarrow> ('p, (jsval \<times> 'p run_options) list) runner" where
  "recorder out p ctx ro calls = (Inr (VStr (out ctx ro)), calls @ [(ctx, ro)])"

definition iteration :: "'p frame \<Rightarrow> jsval \<Rightarrow> nat \<Rightarrow> bool \<Rightarrow> 'p run_options \<Rightarrow> bool" where
  "iteration d k i lst ro = (case ro_data ro of
      None \<Rightarrow> False
    | Some f \<Rightarrow> frame_get f ''key'' = k \<and> frame_get f ''index'' = VNum (num_of_nat i)
        \<and> frame_get f ''first'' = VBool (i = 0) \<and> frame_get f ''last'' = VBool lst \<and> f_parent f = Some d)"

definition shown :: "(jsval \<Rightarrow> 'p run_options \<Rightarrow> string) \<Rightarrow> (jsval \<times> 'p run_options) list \<Rightarrow> string" where
  "shown out calls = concat (map (\<lambda>(c, ro). out c ro) calls)"

lemma frame_get_set: "frame_get (frame_set k v f) k' = (if k' = k then v else frame_get f k')"
  by (simp add: frame_get_def frame_set_def obj_simps)

lemma f_parent_set [simp]: "f_parent (frame_set k v f) = f_parent f" "f_block (frame_set k v f) = f_block f"
  by (simp_all add: frame_set_def)

lemma f_parent_child [simp]: "f_parent (frame_child f) = Some f" "f_block (frame_child f) = f_block f"
  by (simp_all add: frame_child_def)

lemma get_prop_item:
  "i < length xs \<Longrightarrow> length xs < 2 ^ 32 \<Longrightarrow>
     get_prop (VArr xs) (to_string h (VNum (num_of_nat i))) = Inr (case xs ! i of None \<Rightarrow> Undefined | Some x \<Rightarrow> x)"
proof -
  assume i: "i < length xs" "length xs < 2 ^ 32"
  then have ix: "is_index (show_nat i)"
    by (intro is_index_show) simp
  have "\<not> list_all is_digit ''length''"
    by code_simp
  then have "show_nat i \<noteq> ''length''"
    using show_nat_digits [of i] by metis
  with i ix show ?thesis
    by (simp add: get_prop_def num_of_nat_def)
qed

lemma execIteration_recorder:
  assumes "e_fn en = Some p" and "get_prop (e_context en) (to_string h field) = Inr v" and "f_parent f = Some d"
  shows "\<exists>f' ro. execIteration h (recorder out) en field i lst (Some f, ret) calls =
      (Inr (Some f', ret @ out v ro), calls @ [(v, ro)]) \<and> f_parent f' = Some d \<and> iteration d field i lst ro"
  using assms
  by (auto simp: execIteration_def Let_def bindE_def liftE_def retE_def call_block_def recorder_def iteration_def
      frame_get_set split: option.splits)

lemma bindE_run: "m s = (Inr x, s') \<Longrightarrow> bindE m f s = f x s'"
  by (simp add: bindE_def)

lemma shown_Cons: "shown out ((c, ro) # calls) = out c ro @ shown out calls"
  and shown_Nil: "shown out [] = []"
  by (simp_all add: shown_def)

lemma each_items_recorder:
  assumes "e_fn en = Some p" and "e_context en = VArr ys" and "length ys < 2 ^ 32" and "f_parent f = Some d"
    and "xs = drop i ys" and "i \<le> length ys"
  shows "\<exists>f' new. each_items h (recorder out) en i xs (Some f, ret) calls = (Inr (Some f', ret @ shown out new), calls @ new)
    \<and> list_all2 (\<lambda>j (c, ro). ys ! j = Some c \<and> iteration d (VNum (num_of_nat j)) j (Suc j = length ys) ro)
        (filter (\<lambda>j. ys ! j \<noteq> None) [i..<length ys]) new"
  using assms(4-)
proof (induction xs arbitrary: i f ret calls)
  case Nil
  then show ?case by (simp add: retE_def shown_Nil)
next
  case (Cons x xs)
  then have i: "i < length ys"
    by (cases "i < length ys") auto
  with Cons.prems(2) have x: "x = ys ! i" and xs: "xs = drop (Suc i) ys"
    by (simp_all add: Cons_nth_drop_Suc [symmetric])
  have up: "[i..<length ys] = i # [Suc i..<length ys]"
    using i by (simp add: upt_conv_Cons)
  show ?case
  proof (cases x)
    case None
    from Cons.IH [OF Cons.prems(1) xs] i None x up show ?thesis
      by (simp add: bindE_def retE_def)
  next
    case (Some v)
    have "get_prop (e_context en) (to_string h (VNum (num_of_nat i))) = Inr v"
      using get_prop_item [OF i assms(3)] assms(2) unfolding x [symmetric] Some by simp
    from execIteration_recorder [OF assms(1) this Cons.prems(1)] obtain f' ro where
      e: "execIteration h (recorder out) en (VNum (num_of_nat i)) i (xs = []) (Some f, ret) calls =
        (Inr (Some f', ret @ out v ro), calls @ [(v, ro)])" "f_parent f' = Some d"
      "iteration d (VNum (num_of_nat i)) i (xs = []) ro" by blast
    from Cons.IH [OF e(2) xs, of "ret @ out v ro" "calls @ [(v, ro)]"] i obtain f'' new where
      n: "each_items h (recorder out) en (Suc i) xs (Some f', ret @ out v ro) (calls @ [(v, ro)]) =
          (Inr (Some f'', (ret @ out v ro) @ shown out new), (calls @ [(v, ro)]) @ new)"
        "list_all2 (\<lambda>j (c, ro). ys ! j = Some c \<and> iteration d (VNum (num_of_nat j)) j (Suc j = length ys) ro)
          (filter (\<lambda>j. ys ! j \<noteq> None) [Suc i..<length ys]) new" by auto
    have "xs = [] \<longleftrightarrow> Suc i = length ys"
      using xs i by auto
    with e(3) n(2) Some have
      "list_all2 (\<lambda>j (c, ro). ys ! j = Some c \<and> iteration d (VNum (num_of_nat j)) j (Suc j = length ys) ro)
        (filter (\<lambda>j. ys ! j \<noteq> None) [i..<length ys]) ((v, ro) # new)"
      unfolding up x [symmetric] by (simp add: x [symmetric])
    moreover have "each_items h (recorder out) en i (x # xs) (Some f, ret) calls =
        (Inr (Some f'', ret @ shown out ((v, ro) # new)), calls @ (v, ro) # new)"
      using Some e(1) n(1) by (simp add: bindE_def shown_Cons)
    ultimately show ?thesis by blast
  qed
qed

text \<open>C33: \<open>each\<close> over an array calls its block once for every element, in order and leaving out holes;
  the frame of a call has the element's index as key and index, says whether it is the first or the
  last, and has the caller's frame as parent. The result is the calls' output in that order.\<close>

theorem each_array:
  assumes "ho_fn op = Some p" and "ho_data op = Some d" and "xs \<noteq> []" and "length xs < 2 ^ 32"
  shows "\<exists>calls. each_helper h (recorder out) this (VArr xs) (Some op) [] = (Inr (VStr (shown out calls)), calls)
    \<and> list_all2 (\<lambda>i (c, ro). xs ! i = Some c \<and> iteration d (VNum (num_of_nat i)) i (Suc i = length xs) ro)
        (filter (\<lambda>i. xs ! i \<noteq> None) [0..<length xs]) calls"
proof -
  let ?en = "each_env_of h op (VArr xs)"
  have "e_fn ?en = Some p" "e_context ?en = VArr xs"
    by (simp_all add: assms)
  from each_items_recorder [OF this assms(4), of "frame_child d" d xs 0 h out "[]" "[]"] obtain f' calls where
    c: "each_items h (recorder out) ?en 0 xs (Some (frame_child d), []) [] = (Inr (Some f', shown out calls), calls)"
    "list_all2 (\<lambda>i (c, ro). xs ! i = Some c \<and> iteration d (VNum (num_of_nat i)) i (Suc i = length xs) ro)
        (filter (\<lambda>i. xs ! i \<noteq> None) [0..<length xs]) calls"
    by auto
  have "each_helper h (recorder out) this (VArr xs) (Some op) [] = (Inr (VStr (shown out calls)), calls)"
    using assms by (simp add: each_helper_def Let_def isFunction_def bindE_def c(1) retE_def)
  with c(2) show ?thesis by blast
qed

lemma each_keys_recorder:
  assumes "e_fn en = Some p" and "e_context en = VObj ps" and "obj_get ps ''hasOwnProperty'' = None"
    and "f_parent f = Some d" and "set ks \<subseteq> set (obj_keys ps)" and "set_option prior \<subseteq> set (obj_keys ps)"
    and "prior \<noteq> None \<longrightarrow> 0 < i"
  shows "\<exists>f' new. each_keys h (recorder out) en ps prior i ks (Some f, ret) calls =
      (Inr (i + length ks, Some f', ret @ shown out new), calls @ new)
    \<and> list_all2 (\<lambda>(j, k) (c, ro). obj_get ps k = Some c \<and> iteration d (VStr k) j (Suc j = i + length ks) ro)
        (case prior of None \<Rightarrow> enumerate i ks | Some k \<Rightarrow> (i - 1, k) # enumerate i ks) new"
  using assms(4-)
proof (induction ks arbitrary: i f ret calls prior)
  case Nil
  show ?case
  proof (cases prior)
    case None
    then show ?thesis by (simp add: retE_def shown_Nil)
  next
    case (Some k)
    with Nil have k: "k \<in> set (obj_keys ps)" "0 < i" by auto
    then obtain c where c: "obj_get ps k = Some c"
      by (force simp: obj_get_def obj_keys_def map_of_eq_None_iff)
    then have "get_prop (e_context en) (to_string h (VStr k)) = Inr c"
      by (simp add: assms(2) get_prop_def)
    from execIteration_recorder [OF assms(1) this Nil(1)] obtain f' ro where
      e: "execIteration h (recorder out) en (VStr k) (i - 1) True (Some f, ret) calls =
        (Inr (Some f', ret @ out c ro), calls @ [(c, ro)])" "iteration d (VStr k) (i - 1) True ro" by blast
    then have "each_keys h (recorder out) en ps prior i [] (Some f, ret) calls =
        (Inr (i + length [], Some f', ret @ shown out [(c, ro)]), calls @ [(c, ro)])"
      using Some by (simp add: bindE_run retE_def shown_def)
    moreover have "list_all2 (\<lambda>(j, k) (c, ro). obj_get ps k = Some c \<and> iteration d (VStr k) j (Suc j = i + length []) ro)
        (case prior of None \<Rightarrow> enumerate i [] | Some k \<Rightarrow> (i - 1, k) # enumerate i []) [(c, ro)]"
      using Some c e(2) k(2) by simp
    ultimately show ?thesis by blast
  qed
next
  case (Cons k ks)
  then have own: "has_own h ps k = Inr True"
    using assms(3) by (simp add: has_own_def)
  show ?case
  proof (cases prior)
    case None
    have "set_option (Some k) \<subseteq> set (obj_keys ps)" and "Some k \<noteq> None \<longrightarrow> 0 < Suc i" and "set ks \<subseteq> set (obj_keys ps)"
      using Cons.prems by auto
    from Cons.IH [OF Cons.prems(1) this(3,1,2), of ret calls] obtain f' new where
      n: "each_keys h (recorder out) en ps (Some k) (Suc i) ks (Some f, ret) calls =
          (Inr (Suc i + length ks, Some f', ret @ shown out new), calls @ new)"
        "list_all2 (\<lambda>(j, k) (c, ro). obj_get ps k = Some c \<and> iteration d (VStr k) j (Suc j = Suc i + length ks) ro)
          ((i, k) # enumerate (Suc i) ks) new" by auto
    with None own show ?thesis
      by (auto simp: bindE_def liftE_def retE_def)
  next
    case (Some k')
    with Cons have k: "k' \<in> set (obj_keys ps)" "0 < i" by auto
    then obtain c where c: "obj_get ps k' = Some c"
      by (force simp: obj_get_def obj_keys_def map_of_eq_None_iff)
    then have "get_prop (e_context en) (to_string h (VStr k')) = Inr c"
      by (simp add: assms(2) get_prop_def)
    from execIteration_recorder [OF assms(1) this Cons.prems(1)] obtain f1 ro where
      e: "execIteration h (recorder out) en (VStr k') (i - 1) False (Some f, ret) calls =
        (Inr (Some f1, ret @ out c ro), calls @ [(c, ro)])" "f_parent f1 = Some d"
        "iteration d (VStr k') (i - 1) False ro" by blast
    have "set_option (Some k) \<subseteq> set (obj_keys ps)" and "Some k \<noteq> None \<longrightarrow> 0 < Suc i" and "set ks \<subseteq> set (obj_keys ps)"
      using Cons.prems by auto
    from Cons.IH [OF e(2) this(3,1,2), of "ret @ out c ro" "calls @ [(c, ro)]"] obtain f' new where
      n: "each_keys h (recorder out) en ps (Some k) (Suc i) ks (Some f1, ret @ out c ro) (calls @ [(c, ro)]) =
          (Inr (Suc i + length ks, Some f', (ret @ out c ro) @ shown out new), (calls @ [(c, ro)]) @ new)"
        "list_all2 (\<lambda>(j, k) (c, ro). obj_get ps k = Some c \<and> iteration d (VStr k) j (Suc j = Suc i + length ks) ro)
          ((i, k) # enumerate (Suc i) ks) new" by auto
    have ne: "(i - Suc 0 = i + length ks) = False"
      using k(2) by auto
    have "each_keys h (recorder out) en ps prior i (k # ks) (Some f, ret) calls =
        (Inr (i + length (k # ks), Some f', ret @ shown out ((c, ro) # new)), calls @ (c, ro) # new)"
      using Some own e(1) n(1) by (simp add: bindE_def liftE_def shown_Cons)
    moreover have "list_all2 (\<lambda>(j, k) (c, ro). obj_get ps k = Some c \<and> iteration d (VStr k) j (Suc j = i + length (k # ks)) ro)
        (case prior of None \<Rightarrow> enumerate i (k # ks) | Some k' \<Rightarrow> (i - 1, k') # enumerate i (k # ks)) ((c, ro) # new)"
      using Some n(2) c e(3) k(2) ne by simp
    ultimately show ?thesis
      by (intro exI [of _ f'] exI [of _ "(c, ro) # new"] conjI) (simp_all add: case_prod_unfold)
  qed
qed

text \<open>C34: \<open>each\<close> over an object calls its block once for every own property, in the order of the
  properties, although it runs one step behind its loop to know the last one.\<close>

theorem each_object:
  assumes "ho_fn op = Some p" and "ho_data op = Some d" and "ps \<noteq> []" and "obj_get ps ''hasOwnProperty'' = None"
  shows "\<exists>calls. each_helper h (recorder out) this (VObj ps) (Some op) [] = (Inr (VStr (shown out calls)), calls)
    \<and> list_all2 (\<lambda>(j, k) (c, ro). obj_get ps k = Some c \<and> iteration d (VStr k) j (Suc j = length ps) ro)
        (enumerate 0 (obj_keys ps)) calls"
proof -
  let ?en = "each_env_of h op (VObj ps)"
  have "e_fn ?en = Some p" "e_context ?en = VObj ps"
    by (simp_all add: assms)
  from each_keys_recorder [OF this assms(4), of "frame_child d" d "obj_keys ps" None 0 h out "[]" "[]"] obtain f' calls where
    c: "each_keys h (recorder out) ?en ps None 0 (obj_keys ps) (Some (frame_child d), []) [] =
        (Inr (length ps, Some f', shown out calls), calls)"
    "list_all2 (\<lambda>(j, k) (c, ro). obj_get ps k = Some c \<and> iteration d (VStr k) j (Suc j = length ps) ro)
        (enumerate 0 (obj_keys ps)) calls"
    by (auto simp: obj_keys_def)
  have "each_helper h (recorder out) this (VObj ps) (Some op) [] = (Inr (VStr (shown out calls)), calls)"
    using assms by (simp add: each_helper_def Let_def isFunction_def object_props_def bindE_def c(1) retE_def)
  with c(2) show ?thesis by blast
qed

text \<open>A value that has nothing to loop over makes \<open>each\<close> run the inverse block, on the caller's
  context and without its frame.\<close>

lemma each_empty:
  assumes "ctx = VArr [] \<or> ctx = VObj [] \<or> object_props ctx = None \<and> \<not> isArray ctx" and "\<not> isFunction ctx"
  shows "each_helper h app this ctx (Some op) = call_block app (ho_inverse op) this no_options"
  using assms
  by (auto simp: each_helper_def Let_def isArray_def object_props_def obj_keys_def
      split: jsval.splits option.splits if_splits)

text \<open>\<open>unless\<close> is \<open>if\<close> with the two blocks exchanged, whatever the condition is; neither hands the
  frame or the block parameters on.\<close>

lemma unless_exchanges:
  "unless_helper (if_helper h app) this c op = if_helper h app this c (op\<lparr>ho_fn := ho_inverse op, ho_inverse := ho_fn op\<rparr>)"
  by (simp add: unless_helper_def if_helper_def Let_def cong: if_cong)

text \<open>With \<open>includeZero\<close> a condition that is \<open>0\<close> runs the block, and every other falsy condition
  and the empty array still run the inverse.\<close>

lemma if_includeZero:
  assumes "obj_get (ho_hash op) ''includeZero'' = Some (VBool True)" and "\<not> isFunction c"
  shows "if_helper h app this c op =
    call_block app (if (case c of VNum n \<Rightarrow> n = NaN | VArr xs \<Rightarrow> xs = [] | _ \<Rightarrow> \<not> truthy c)
                    then ho_inverse op else ho_fn op) this no_options"
  using assms
  by (cases c) (auto simp: if_helper_def Let_def isEmpty_def num_truthy_def isFunction_def num_is_zero_def)

section \<open>Witnesses\<close>

definition sample_options :: "unit helper_options" where
  "sample_options = \<lparr>ho_name = ''each'', ho_hash = [(''includeZero'', VBool True)], ho_fn = Some (), ho_inverse = None,
     ho_data = Some (Frame [] None None), ho_ids = None, ho_blockParams = None\<rparr>"

lemma sample_options [simp]: "ho_fn sample_options = Some ()" "ho_data sample_options = Some (Frame [] None None)"
  "ho_hash sample_options = [(''includeZero'', VBool True)]" "ho_inverse sample_options = None"
  by (simp_all add: sample_options_def)

theorem each_array_witness:
  "\<forall>h this. \<exists>calls. each_helper h (recorder (\<lambda>c ro. ''x'')) this (VArr [Some Null, None, Some Null]) (Some sample_options) []
     = (Inr (VStr (shown (\<lambda>c ro. ''x'') calls)), calls) \<and> length calls = 2"
proof (intro allI)
  fix h this
  let ?xs = "[Some Null, None, Some Null]"
  from each_array [of sample_options "()" "Frame [] None None" ?xs h "\<lambda>c ro. ''x''" this] obtain calls where
    c: "each_helper h (recorder (\<lambda>c ro. ''x'')) this (VArr ?xs) (Some sample_options) [] =
      (Inr (VStr (shown (\<lambda>c ro. ''x'') calls)), calls)"
    "list_all2 (\<lambda>i (c, ro). ?xs ! i = Some c \<and> iteration (Frame [] None None) (VNum (num_of_nat i)) i (Suc i = length ?xs) ro)
       (filter (\<lambda>i. ?xs ! i \<noteq> None) [0..<length ?xs]) calls"
    by auto
  have "length (filter (\<lambda>i. ?xs ! i \<noteq> None) [0..<length ?xs]) = 2"
    by (simp add: upt_rec)
  with list_all2_lengthD [OF c(2)] c(1) show "\<exists>calls. each_helper h (recorder (\<lambda>c ro. ''x'')) this (VArr ?xs)
      (Some sample_options) [] = (Inr (VStr (shown (\<lambda>c ro. ''x'') calls)), calls) \<and> length calls = 2"
    by metis
qed

theorem each_object_witness:
  "\<forall>h this. \<exists>calls. each_helper h (recorder (\<lambda>c ro. ''x'')) this (VObj [(''a'', Null), (''b'', Null)]) (Some sample_options) []
     = (Inr (VStr (shown (\<lambda>c ro. ''x'') calls)), calls) \<and> length calls = 2"
proof (intro allI)
  fix h this
  let ?ps = "[(''a'', Null), (''b'', Null)]"
  have "obj_get ?ps ''hasOwnProperty'' = None"
    by code_simp
  from each_object [of sample_options "()" "Frame [] None None" ?ps h "\<lambda>c ro. ''x''" this] this obtain calls where
    c: "each_helper h (recorder (\<lambda>c ro. ''x'')) this (VObj ?ps) (Some sample_options) [] =
      (Inr (VStr (shown (\<lambda>c ro. ''x'') calls)), calls)"
    "list_all2 (\<lambda>(j, k) (c, ro). obj_get ?ps k = Some c \<and> iteration (Frame [] None None) (VStr k) j (Suc j = length ?ps) ro)
       (enumerate 0 (obj_keys ?ps)) calls"
    by auto
  with list_all2_lengthD [OF c(2)] show "\<exists>calls. each_helper h (recorder (\<lambda>c ro. ''x'')) this (VObj ?ps)
      (Some sample_options) [] = (Inr (VStr (shown (\<lambda>c ro. ''x'') calls)), calls) \<and> length calls = 2"
    by (simp add: obj_keys_def)
qed

end
