(* ===== verification/HbRuntime.thy ===== *)
theory HbRuntime
  imports HbBuiltins
begin

text \<open>
  Module 19 of \<open>handlebars.js\<close>, the runtime that executes template specifications, and the decorator
  \<open>inline\<close> (module 16). The functions that the compiler generates are parameters: \<open>exec\<close> runs one on
  the seven arguments of a template function, \<open>deco\<close> one that decorates. The container of a template
  is the state; the objects \<open>props\<close> of its decorators, which closures share, are kept in a store.
  The parameter \<open>same\<close> is \<open>===\<close> on contexts.
\<close>

section \<open>Functions, options and the container\<close>

text \<open>
  The functions of the runtime: \<open>prog\<close> in \<open>wrapProgram\<close>, \<open>main\<close> in the function of a template,
  \<open>noop\<close>, what \<open>inline\<close> returns, a function with the properties of \<open>props\<close> copied to it, one with
  the properties \<open>program\<close>, \<open>depth\<close> and \<open>blockParams\<close>, and a template.
\<close>

datatype 'f func =
    Prog 'f "'f func frame option" "bparam option list option" "jsval list option"
  | MainFn 'f "'f func frame option" "bparam option list option" "jsval list option"
  | Noop
  | Scoped "'f func" nat
  | Propped "'f func" nat
  | Dressed "'f func" nat nat nat
  | Template nat

text \<open>A partial is a function or another value, such as the text of a template.\<close>

datatype 'p pvalue = PVal jsval | PFun 'p

record 'p call_options =
  op_partial :: bool
  op_data :: "'p frame option"
  op_blockParams :: "bparam option"
  op_depths :: "jsval list option"
  op_helpers :: "jsval obj option"
  op_partials :: "'p pvalue obj option"
  op_decorators :: "jsval obj option"
  op_name :: jsval
  op_hash :: "jsval obj option"
  op_ids :: "jsval list option"
  op_fn :: "'p option"
  op_indent :: string

record 'p container =
  k_helpers :: "jsval obj option"
  k_partials :: "'p pvalue obj option"
  k_decorators :: "jsval obj option"
  k_programs :: "(nat \<times> 'p) list"
  k_attached :: "nat list"
  k_props :: "'p pvalue obj option list"

type_synonym 'f machine = "'f func container"

text \<open>The generated functions.\<close>

type_synonym 'f exec = "'f \<Rightarrow> jsval \<Rightarrow> jsval obj option \<Rightarrow> 'f func pvalue obj option \<Rightarrow> 'f func frame option
  \<Rightarrow> bparam option list option \<Rightarrow> jsval list option \<Rightarrow> ('f machine, jsval) effect"

type_synonym 'f deco = "'f \<Rightarrow> 'f func \<Rightarrow> nat \<Rightarrow> jsval option \<Rightarrow> 'f func frame option
  \<Rightarrow> bparam option list option \<Rightarrow> jsval list option \<Rightarrow> ('f machine, 'f func) effect"

record 'f runtime_spec =
  rs_compiler :: "(nat \<times> string option) option"
  rs_main :: "'f option"
  rs_main_d :: "'f option"
  rs_fn :: "nat \<Rightarrow> 'f option"
  rs_fn_d :: "nat \<Rightarrow> 'f option"
  rs_usePartial :: bool
  rs_useData :: bool
  rs_useDepths :: bool
  rs_useBlockParams :: bool
  rs_useDecorators :: bool

section \<open>checkRevision and the checks of template\<close>

definition or_undefined :: "string option \<Rightarrow> string" where
  "or_undefined s = (case s of None \<Rightarrow> ''undefined'' | Some s \<Rightarrow> s)"

definition checkRevision :: "(nat \<times> string option) option \<Rightarrow> unit result" where
  "checkRevision info =
     (let compilerRevision = (case info of None \<Rightarrow> 1 | Some (r, _) \<Rightarrow> if r = 0 then 1 else r);
          currentRevision = COMPILER_REVISION
      in if compilerRevision \<noteq> currentRevision then
           if compilerRevision < currentRevision then
             Inl (Exception (''Template was precompiled with an older version of Handlebars than the current runtime. ''
               @ ''Please update your precompiler to a newer version ('' @ or_undefined (REVISION_CHANGES currentRevision)
               @ '') or downgrade your runtime to an older version ('' @ or_undefined (REVISION_CHANGES compilerRevision)
               @ '').'') None)
           else
             Inl (Exception (''Template was precompiled with a newer version of Handlebars than the current runtime. ''
               @ ''Please update your runtime to a newer version ('' @ or_undefined (case info of None \<Rightarrow> None | Some (_, v) \<Rightarrow> v)
               @ '').'') None)
         else Inr ())"

text \<open>
  The checks of \<open>template\<close>; a missing specification is given by the text of its type. The result is
  the main function and the fresh container.
\<close>

definition empty_container :: "'p container" where
  "empty_container = \<lparr>k_helpers = None, k_partials = None, k_decorators = None, k_programs = [], k_attached = [],
     k_props = []\<rparr>"

definition template :: "'e option \<Rightarrow> string + 'f runtime_spec \<Rightarrow> ('f \<times> 'f machine) result" where
  "template env spec =
     (if env = None then Inl (Exception ''No environment passed to template'' None)
      else case spec of
        Inl type \<Rightarrow> Inl (Exception (''Unknown template object: '' @ type) None)
      | Inr sp \<Rightarrow>
          (case rs_main sp of
             None \<Rightarrow> Inl (Exception ''Unknown template object: object'' None)
           | Some m \<Rightarrow> bindR (checkRevision (rs_compiler sp)) (\<lambda>_. Inr (m, empty_container))))"

section \<open>The lookups of the container\<close>

text \<open>\<open>name in obj\<close>, which throws on a value that is no object.\<close>

definition in_object :: "string \<Rightarrow> jsval \<Rightarrow> bool result" where
  "in_object name v = (case v of
      VObj ps \<Rightarrow> Inr (obj_get ps name \<noteq> None \<or> name \<in> set object_prototype)
    | VSafe x \<Rightarrow> Inr (name = ''string'' \<or> name = ''toHTML'' \<or> name \<in> set object_prototype)
    | VArr xs \<Rightarrow> Inr (name = ''length'' \<or> is_index name \<and> read_nat name < length xs \<and> xs ! read_nat name \<noteq> None
        \<or> name \<in> set object_prototype)
    | VFun _ \<Rightarrow> Inr (name \<in> {''length'', ''name'', ''prototype'', ''call'', ''apply'', ''bind''} \<or> name \<in> set object_prototype)
    | VBuiltin _ \<Rightarrow> Inr (name \<in> {''length'', ''name'', ''prototype'', ''call'', ''apply'', ''bind''} \<or> name \<in> set object_prototype)
    | _ \<Rightarrow> Inl (type_error (''Cannot use 'in' operator to search for '' @ name)))"

definition strict_prop :: "host \<Rightarrow> jsval \<Rightarrow> string \<Rightarrow> jsval result" where
  "strict_prop h ob name =
     bindR (in_object name ob) (\<lambda>found.
       if \<not> found then Inl (Exception ([dquote] @ name @ [dquote] @ '' not defined in '' @ to_string h ob) None)
       else get_prop ob name)"

fun lookup_depths :: "jsval list \<Rightarrow> string \<Rightarrow> jsval result" where
  "lookup_depths [] name = Inr Undefined"
| "lookup_depths (d # ds) name =
     (if truthy d then bindR (get_prop d name) (\<lambda>v. if \<not> nullish v then Inr v else lookup_depths ds name)
      else lookup_depths ds name)"

definition lambda :: "host \<Rightarrow> jsval \<Rightarrow> jsval \<Rightarrow> jsval result" where
  "lambda h current ctx = (if isFunction current then call_value h current ctx [] else Inr current)"

fun data_up :: "'p frame option \<Rightarrow> nat \<Rightarrow> 'p frame option" where
  "data_up None d = None"
| "data_up (Some f) 0 = Some f"
| "data_up (Some f) (Suc d) = data_up (f_parent f) d"

definition merge_objects :: "'v obj option \<Rightarrow> 'v obj option \<Rightarrow> 'v obj option" where
  "merge_objects param common = (case (param, common) of
      (Some p, Some c) \<Rightarrow> if p \<noteq> c then Some (obj_extend [] [c, p]) else Some p
    | (None, c) \<Rightarrow> c
    | (p, None) \<Rightarrow> p)"

section \<open>Decorators\<close>

text \<open>
  \<open>executeDecorators\<close>: a new object \<open>props\<close>, the decorator, and the copy of the properties to the
  function. \<open>dec\<close> is the property \<open>decorator\<close> of the generated function.
\<close>

definition executeDecorators :: "'f deco \<Rightarrow> 'f option \<Rightarrow> 'f func \<Rightarrow> jsval list option \<Rightarrow> 'f func frame option
    \<Rightarrow> bparam option list option \<Rightarrow> ('f machine, 'f func) effect" where
  "executeDecorators deco dec prog depths data bp =
     (case dec of
        None \<Rightarrow> retE prog
      | Some d \<Rightarrow>
          bindE (readE (\<lambda>k. length (k_props k))) (\<lambda>r.
          bindE (modE (\<lambda>k. k\<lparr>k_props := k_props k @ [None]\<rparr>)) (\<lambda>_.
          bindE (deco d prog r (case depths of Some (x # _) \<Rightarrow> Some x | _ \<Rightarrow> None) data bp depths) (\<lambda>prog.
            retE (Propped prog r)))))"

text \<open>
  The decorator \<open>inline\<close> on the function \<open>fn\<close>, the object \<open>props\<close>, the name and the block.
\<close>

definition inline_decorator :: "'f func \<Rightarrow> nat \<Rightarrow> string \<Rightarrow> 'f func pvalue \<Rightarrow> ('f machine, 'f func) effect" where
  "inline_decorator fn r name block =
     bindE (readE (\<lambda>k. k_props k ! r)) (\<lambda>old.
     bindE (modE (\<lambda>k. k\<lparr>k_props := (k_props k)[r := Some (obj_set name block (case old of None \<Rightarrow> [] | Some ps \<Rightarrow> ps))]\<rparr>))
       (\<lambda>_. retE (case old of None \<Rightarrow> Scoped fn r | Some _ \<Rightarrow> fn)))"

section \<open>Calling functions\<close>

definition opt_list :: "'a list option \<Rightarrow> 'a list" where
  "opt_list x = (case x of None \<Rightarrow> [] | Some xs \<Rightarrow> xs)"

text \<open>\<open>currentDepths\<close> of \<open>prog\<close>.\<close>

definition push_depth :: "(jsval \<Rightarrow> jsval \<Rightarrow> bool) \<Rightarrow> jsval \<Rightarrow> jsval list option \<Rightarrow> jsval list option" where
  "push_depth same ctx depths = (case depths of
      None \<Rightarrow> None
    | Some [] \<Rightarrow> if same ctx Undefined then Some [] else Some [ctx]
    | Some (d # ds) \<Rightarrow> if same ctx d then Some (d # ds) else Some (ctx # d # ds))"

text \<open>
  A call \<open>f(context, options)\<close>. What \<open>inline\<close> returns extends the partials of the container for the
  time of the call; nothing restores them when the call throws. Templates are run by a parameter.
\<close>

type_synonym 'f run_template = "nat \<Rightarrow> jsval \<Rightarrow> 'f func call_options \<Rightarrow> ('f machine, jsval) effect"

fun call_func :: "'f exec \<Rightarrow> 'f run_template \<Rightarrow> host \<Rightarrow> (jsval \<Rightarrow> jsval \<Rightarrow> bool) \<Rightarrow> 'f func \<Rightarrow> jsval \<Rightarrow> 'f func call_options
    \<Rightarrow> ('f machine, jsval) effect" where
  "call_func exec rt h same (Prog fn data bp depths) ctx op =
     bindE (readE (\<lambda>k. (k_helpers k, k_partials k))) (\<lambda>(hs, ps).
       exec fn ctx hs ps (case op_data op of None \<Rightarrow> data | d \<Rightarrow> d)
         (map_option (\<lambda>bs. op_blockParams op # bs) bp) (push_depth same ctx depths))"
| "call_func exec rt h same (MainFn fn data bp depths) ctx op =
     bindE (readE (\<lambda>k. (k_helpers k, k_partials k))) (\<lambda>(hs, ps).
       bindE (exec fn ctx hs ps data bp depths) (\<lambda>v. retE (VStr (to_string h v))))"
| "call_func exec rt h same Noop ctx op = retE (VStr [])"
| "call_func exec rt h same (Scoped f r) ctx op =
     bindE (readE k_partials) (\<lambda>orig.
     bindE (modE (\<lambda>k. k\<lparr>k_partials := Some (obj_extend [] [opt_list orig, opt_list (k_props k ! r)])\<rparr>)) (\<lambda>_.
     bindE (call_func exec rt h same f ctx op) (\<lambda>v.
     bindE (modE (\<lambda>k. k\<lparr>k_partials := orig\<rparr>)) (\<lambda>_. retE v))))"
| "call_func exec rt h same (Propped f r) ctx op = call_func exec rt h same f ctx op"
| "call_func exec rt h same (Dressed f i d b) ctx op = call_func exec rt h same f ctx op"
| "call_func exec rt h same (Template t) ctx op = rt t ctx op"

text \<open>The property \<open>partials\<close> of a function.\<close>

fun func_partials :: "'f machine \<Rightarrow> 'f func \<Rightarrow> 'f func pvalue obj option" where
  "func_partials k (Propped f r) = (case k_props k ! r of None \<Rightarrow> func_partials k f | Some ps \<Rightarrow> Some ps)"
| "func_partials k (Dressed f i d b) = func_partials k f"
| "func_partials k _ = None"

section \<open>Programs\<close>

definition wrapProgram :: "'f deco \<Rightarrow> nat \<Rightarrow> 'f \<Rightarrow> 'f option \<Rightarrow> 'f func frame option \<Rightarrow> nat \<Rightarrow> bparam option list option
    \<Rightarrow> jsval list option \<Rightarrow> ('f machine, 'f func) effect" where
  "wrapProgram deco i fn dec data declared bp depths =
     bindE (executeDecorators deco dec (Prog fn data bp depths) depths data bp) (\<lambda>prog.
       retE (Dressed prog i (length (opt_list depths)) declared))"

definition no_program :: exn where
  "no_program = type_error ''Cannot set property decorator of undefined''"

text \<open>\<open>container.fn\<close>: the function of a program, to which its decorator is attached.\<close>

definition container_fn :: "'f runtime_spec \<Rightarrow> nat \<Rightarrow> ('f machine, 'f) effect" where
  "container_fn sp i = (case rs_fn sp i of
      None \<Rightarrow> throwE no_program
    | Some f \<Rightarrow> bindE (modE (\<lambda>k. k\<lparr>k_attached := i # k_attached k\<rparr>)) (\<lambda>_. retE f))"

definition container_program :: "'f deco \<Rightarrow> 'f runtime_spec \<Rightarrow> nat \<Rightarrow> 'f func frame option \<Rightarrow> nat
    \<Rightarrow> bparam option list option \<Rightarrow> jsval list option \<Rightarrow> ('f machine, 'f func) effect" where
  "container_program deco sp i data declared bp depths =
     bindE (readE (\<lambda>k. map_of (k_programs k) i)) (\<lambda>cached.
     bindE (container_fn sp i) (\<lambda>f.
       if data \<noteq> None \<or> depths \<noteq> None \<or> bp \<noteq> None \<or> declared \<noteq> 0 then
         wrapProgram deco i f (rs_fn_d sp i) data declared bp depths
       else case cached of
         Some p \<Rightarrow> retE p
       | None \<Rightarrow>
           bindE (wrapProgram deco i f (rs_fn_d sp i) None 0 None None) (\<lambda>p.
           bindE (modE (\<lambda>k. k\<lparr>k_programs := (i, p) # k_programs k\<rparr>)) (\<lambda>_. retE p))))"

text \<open>
  \<open>ret._child\<close>: it takes the function from the specification itself, whose decorator is attached
  only if \<open>container.fn\<close> was called before.
\<close>

definition child_program :: "'f deco \<Rightarrow> 'f runtime_spec \<Rightarrow> nat \<Rightarrow> 'f func frame option \<Rightarrow> bparam option list option
    \<Rightarrow> jsval list option \<Rightarrow> ('f machine, 'f func) effect" where
  "child_program deco sp i data bp depths =
     (if rs_useBlockParams sp \<and> bp = None then throwE (Exception ''must pass block params'' None)
      else if rs_useDepths sp \<and> depths = None then throwE (Exception ''must pass parent depths'' None)
      else case rs_fn sp i of
        None \<Rightarrow> throwE (type_error ''Cannot read property decorator of undefined'')
      | Some f \<Rightarrow>
          bindE (readE (\<lambda>k. i \<in> set (k_attached k))) (\<lambda>att.
            wrapProgram deco i f (if att then rs_fn_d sp i else None) data 0 bp depths))"

section \<open>Running a template\<close>

definition initData :: "jsval \<Rightarrow> 'p frame option \<Rightarrow> 'p frame" where
  "initData ctx data = (case data of
      None \<Rightarrow> Frame [(''root'', ctx)] None None
    | Some f \<Rightarrow> if obj_get (f_props f) ''root'' = None then frame_set ''root'' ctx (frame_child f) else f)"

text \<open>\<open>ret._setup\<close>, with the registries of the environment.\<close>

definition setup_container :: "'f runtime_spec \<Rightarrow> jsval obj option \<Rightarrow> 'p pvalue obj option \<Rightarrow> jsval obj option
    \<Rightarrow> 'p call_options \<Rightarrow> 'p container \<Rightarrow> 'p container" where
  "setup_container sp ehs eps eds op k =
     (if \<not> op_partial op then
        let k = k\<lparr>k_helpers := merge_objects (op_helpers op) ehs\<rparr>;
            k = (if rs_usePartial sp then k\<lparr>k_partials := merge_objects (op_partials op) eps\<rparr> else k)
        in if rs_usePartial sp \<or> rs_useDecorators sp
           then k\<lparr>k_decorators := merge_objects (op_decorators op) eds\<rparr> else k
      else k\<lparr>k_helpers := op_helpers op, k_partials := op_partials op, k_decorators := op_decorators op\<rparr>)"

definition template_depths :: "'f runtime_spec \<Rightarrow> (jsval \<Rightarrow> jsval \<Rightarrow> bool) \<Rightarrow> jsval \<Rightarrow> 'p call_options \<Rightarrow> jsval list option" where
  "template_depths sp same ctx op =
     (if rs_useDepths sp then
        case op_depths op of None \<Rightarrow> Some [ctx] | d \<Rightarrow> push_depth same ctx d
      else None)"

text \<open>The function \<open>ret\<close> that \<open>template\<close> returns; \<open>main\<close> is its main function.\<close>

definition run_template_fn :: "'f exec \<Rightarrow> 'f deco \<Rightarrow> 'f run_template \<Rightarrow> host \<Rightarrow> (jsval \<Rightarrow> jsval \<Rightarrow> bool) \<Rightarrow> 'f runtime_spec
    \<Rightarrow> jsval obj option \<Rightarrow> 'f func pvalue obj option \<Rightarrow> jsval obj option \<Rightarrow> 'f \<Rightarrow> jsval \<Rightarrow> 'f func call_options
    \<Rightarrow> ('f machine, jsval) effect" where
  "run_template_fn exec deco rt h same sp ehs eps eds main ctx op =
     bindE (modE (setup_container sp ehs eps eds op)) (\<lambda>_.
       let data = (if \<not> op_partial op \<and> rs_useData sp then Some (initData ctx (op_data op)) else op_data op);
           depths = template_depths sp same ctx op;
           bp = (if rs_useBlockParams sp then Some [] else None)
       in bindE (executeDecorators deco (rs_main_d sp) (MainFn main data bp depths)
              (Some (opt_list (op_depths op))) data bp) (\<lambda>f.
            call_func exec rt h same f ctx op))"

section \<open>Partials\<close>

definition get_partial :: "'p pvalue obj \<Rightarrow> string \<Rightarrow> 'p pvalue" where
  "get_partial ps k = (case obj_get ps k of None \<Rightarrow> PVal (inherited k) | Some v \<Rightarrow> v)"

definition no_partials :: exn where
  "no_partials = type_error ''Cannot read property of undefined''"

fun pvalue_truthy :: "'p pvalue \<Rightarrow> bool" where
  "pvalue_truthy (PVal v) = truthy v"
| "pvalue_truthy (PFun f) = True"

text \<open>Whether the property \<open>call\<close> of a truthy value is truthy.\<close>

fun has_call :: "'p pvalue \<Rightarrow> bool" where
  "has_call (PFun f) = True"
| "has_call (PVal v) = (isFunction v \<or> (case get_prop v ''call'' of Inl _ \<Rightarrow> False | Inr x \<Rightarrow> truthy x))"

fun pvalue_value :: "'p pvalue \<Rightarrow> jsval" where
  "pvalue_value (PVal v) = v"
| "pvalue_value (PFun f) = Undefined"

text \<open>\<open>resolvePartial\<close>: the partial and the options, whose name it may set.\<close>

definition resolvePartial :: "host \<Rightarrow> 'p pvalue \<Rightarrow> 'p call_options \<Rightarrow> ('p pvalue \<times> 'p call_options) result" where
  "resolvePartial h p op =
     (if \<not> pvalue_truthy p then
        if op_name op = VStr ''@partial-block'' then
          (case op_data op of
             None \<Rightarrow> Inl no_partials
           | Some f \<Rightarrow> Inr (case f_block f of None \<Rightarrow> PVal Undefined | Some b \<Rightarrow> PFun b, op))
        else (case op_partials op of
            None \<Rightarrow> Inl no_partials
          | Some ps \<Rightarrow> Inr (get_partial ps (to_string h (op_name op)), op))
      else if \<not> has_call p \<and> \<not> truthy (op_name op) then
        (case op_partials op of
           None \<Rightarrow> Inl no_partials
         | Some ps \<Rightarrow> Inr (get_partial ps (to_string h (pvalue_value p)), op\<lparr>op_name := pvalue_value p\<rparr>))
      else Inr (p, op))"

text \<open>
  The options as \<open>invokePartial\<close> changes them before the call: the context path, the frame with the
  block of the partial, and the partials of that block.
\<close>

definition partial_path :: "'p call_options \<Rightarrow> 'p call_options result" where
  "partial_path op = (case op_ids op of
      None \<Rightarrow> Inr op
    | Some ids \<Rightarrow> (case op_data op of
          None \<Rightarrow> Inl no_partials
        | Some f \<Rightarrow>
            let i = (case ids of [] \<Rightarrow> Undefined | i # _ \<Rightarrow> i)
            in Inr (op\<lparr>op_data := Some (frame_set ''contextPath'' (if truthy i then i else frame_get f ''contextPath'') f)\<rparr>)))"

definition partial_block :: "'f machine \<Rightarrow> 'f func call_options \<Rightarrow> 'f func option \<times> 'f func call_options" where
  "partial_block k op =
     (case op_fn op of
        None \<Rightarrow> (None, op)
      | Some b \<Rightarrow>
          if b = Noop then (None, op)
          else
            let fr = (case op_data op of None \<Rightarrow> Frame [] None None | Some f \<Rightarrow> frame_child f);
                op = op\<lparr>op_data := Some (Frame (f_props fr) (Some b) (f_parent fr))\<rparr>
            in (Some b, case func_partials k b of None \<Rightarrow> op
                  | Some ps \<Rightarrow> op\<lparr>op_partials := Some (obj_extend [] [opt_list (op_partials op), ps])\<rparr>))"

definition not_found :: "host \<Rightarrow> 'p call_options \<Rightarrow> exn" where
  "not_found h op = Exception (''The partial '' @ to_string h (op_name op) @ '' could not be found'') None"

text \<open>\<open>invokePartial\<close>: the result, \<open>undefined\<close> where the partial is a text, and the options.\<close>

definition invokePartial :: "'f exec \<Rightarrow> 'f run_template \<Rightarrow> host \<Rightarrow> (jsval \<Rightarrow> jsval \<Rightarrow> bool) \<Rightarrow> 'f func pvalue \<Rightarrow> jsval
    \<Rightarrow> 'f func call_options \<Rightarrow> ('f machine, jsval \<times> 'f func call_options) effect" where
  "invokePartial exec rt h same p ctx op =
     bindE (liftE (partial_path (op\<lparr>op_partial := True\<rparr>))) (\<lambda>op.
     bindE (readE (\<lambda>k. partial_block k op)) (\<lambda>(block, op).
       let p = (case (p, block) of (PVal Undefined, Some b) \<Rightarrow> PFun b | _ \<Rightarrow> p)
       in case p of
            PFun f \<Rightarrow> bindE (call_func exec rt h same f ctx op) (\<lambda>v. retE (v, op))
          | PVal v \<Rightarrow>
              if v = Undefined then throwE (not_found h op)
              else if isFunction v then bindE (liftE (call_value h v Undefined [ctx])) (\<lambda>r. retE (r, op))
              else retE (Undefined, op)))"

text \<open>The indentation of the result: every line but an empty last one.\<close>

fun indent_lines :: "string \<Rightarrow> string list \<Rightarrow> string list" where
  "indent_lines ind [] = []"
| "indent_lines ind (l # ls) = (if l = [] \<and> ls = [] then [l] else (ind @ l) # indent_lines ind ls)"

definition indent_result :: "string \<Rightarrow> jsval \<Rightarrow> jsval result" where
  "indent_result ind v =
     (if ind = [] then Inr v
      else case v of
        VStr s \<Rightarrow> Inr (VStr (join_with [nl] (indent_lines ind (split_on nl s))))
      | _ \<Rightarrow> Inl (type_error ''result.split is not a function''))"

text \<open>The own properties that \<open>extend\<close> copies from a context.\<close>

definition own_props :: "jsval \<Rightarrow> jsval obj" where
  "own_props v = (case v of
      VObj ps \<Rightarrow> ps
    | VArr xs \<Rightarrow> map (\<lambda>(i, x). (show_nat i, the x)) (filter (\<lambda>(i, x). x \<noteq> None) (enumerate 0 xs))
    | VStr s \<Rightarrow> map (\<lambda>(i, c). (show_nat i, VStr [c])) (enumerate 0 s)
    | VSafe x \<Rightarrow> [(''string'', x)]
    | _ \<Rightarrow> [])"

definition partial_hash :: "jsval \<Rightarrow> 'p call_options \<Rightarrow> jsval \<times> 'p call_options" where
  "partial_hash ctx op = (case op_hash op of
      None \<Rightarrow> (ctx, op)
    | Some hs \<Rightarrow> (VObj (obj_extend [] [own_props ctx, hs]),
        case op_ids op of None \<Rightarrow> op | Some ids \<Rightarrow> op\<lparr>op_ids := Some (VBool True # tl ids)\<rparr>))"

text \<open>
  \<open>container.invokePartial\<close>. A text is compiled by \<open>env.compile\<close>, which the runtime alone lacks,
  and stored under the name of the partial in \<open>options.partials\<close>.
\<close>

definition invokePartialWrapper :: "'f exec \<Rightarrow> 'f run_template \<Rightarrow> host \<Rightarrow> (jsval \<Rightarrow> jsval \<Rightarrow> bool)
    \<Rightarrow> ('f func pvalue \<Rightarrow> 'f func result) option \<Rightarrow> 'f func pvalue \<Rightarrow> jsval \<Rightarrow> 'f func call_options
    \<Rightarrow> ('f machine, jsval \<times> 'f func call_options) effect" where
  "invokePartialWrapper exec rt h same env_compile p ctx op =
     (let (ctx, op) = partial_hash ctx op
      in bindE (liftE (resolvePartial h p op)) (\<lambda>(p, op).
         bindE (invokePartial exec rt h same p ctx op) (\<lambda>(v, op).
         bindE (if nullish v then
             (case env_compile of
                None \<Rightarrow> throwE (Exception (''The partial '' @ to_string h (op_name op)
                  @ '' could not be compiled when running in runtime-only mode'') None)
              | Some build \<Rightarrow>
                  bindE (liftE (build p)) (\<lambda>f.
                  bindE (liftE (if op_partials op = None then Inl no_partials else Inr ())) (\<lambda>_.
                    let op = op\<lparr>op_partials := Some (obj_set (to_string h (op_name op)) (PFun f) (opt_list (op_partials op)))\<rparr>
                    in bindE (call_func exec rt h same f ctx op) (\<lambda>v.
                       if nullish v then throwE (Exception (''The partial '' @ to_string h (op_name op)
                         @ '' could not be compiled when running in runtime-only mode'') None)
                       else retE (v, op)))))
           else retE (v, op)) (\<lambda>(v, op).
         bindE (liftE (indent_result (op_indent op) v)) (\<lambda>v. retE (v, op))))))"

section \<open>Properties\<close>

lemmas effect_run = bindE_def effect_defs

text \<open>Exactly the specifications of this version's compiler are accepted: one without compiler
  information counts as revision 1.\<close>

lemma checkRevision_current:
  "checkRevision info = Inr () \<longleftrightarrow> (\<exists>v. info = Some (7, v))"
  by (auto simp: checkRevision_def Let_def COMPILER_REVISION_def split: option.splits prod.splits if_splits)

text \<open>C35: the partials that a block defines inline are gone when the block has returned, whatever it
  did to the container.\<close>

theorem inline_partials_restored:
  assumes "call_func exec rt h same (Scoped f r) ctx op k = (Inr v, k')"
  shows "k_partials k' = k_partials k"
  using assms by (auto simp: effect_run split: prod.splits sum.splits)

text \<open>When a block with inline partials throws, its partials stay: the container keeps the extended
  registry, and a later use of the template finds them.\<close>

lemma inline_partials_leak:
  assumes "call_func exec rt h same f ctx op = throwE e"
  shows "call_func exec rt h same (Scoped f r) ctx op k =
    (Inl e, k\<lparr>k_partials := Some (obj_extend [] [opt_list (k_partials k), opt_list (k_props k ! r)])\<rparr>)"
  using assms by (simp add: effect_run)

text \<open>Several \<open>inline\<close> decorators of one block, run one after the other.\<close>

fun inline_blocks :: "'f func \<Rightarrow> nat \<Rightarrow> (string \<times> 'f func pvalue) list \<Rightarrow> ('f machine, 'f func) effect" where
  "inline_blocks fn r [] = retE fn"
| "inline_blocks fn r ((n, b) # xs) = bindE (inline_decorator fn r n b) (\<lambda>f. inline_blocks f r xs)"

lemma inline_blocks_more:
  "r < length (k_props k) \<Longrightarrow> k_props k ! r = Some ps \<Longrightarrow> inline_blocks fn r xs k =
     (Inr fn, k\<lparr>k_props := (k_props k)[r := Some (foldl (\<lambda>ob (n, b). obj_set n b ob) ps xs)]\<rparr>)"
proof (induction xs arbitrary: k ps)
  case Nil
  then have "(k_props k)[r := Some ps] = k_props k"
    by (metis list_update_id)
  then show ?case by (simp add: effect_run)
next
  case (Cons x xs)
  obtain n b where "x = (n, b)" by fastforce
  with Cons show ?case
    by (simp add: effect_run inline_decorator_def)
qed

text \<open>Several inline partials of one block wrap its function once, and all of them are visible in
  it, a later one replacing an earlier one of the same name.\<close>

lemma inline_wraps_once:
  assumes "r < length (k_props k)" and "k_props k ! r = None" and "xs \<noteq> []"
  shows "inline_blocks fn r xs k =
    (Inr (Scoped fn r), k\<lparr>k_props := (k_props k)[r := Some (foldl (\<lambda>ob (n, b). obj_set n b ob) [] xs)]\<rparr>)"
proof -
  obtain n b ys where xs: "xs = (n, b) # ys"
    using assms(3) by (cases xs) auto
  let ?k = "k\<lparr>k_props := (k_props k)[r := Some (obj_set n b [])]\<rparr>"
  have "inline_blocks fn r xs k = inline_blocks (Scoped fn r) r ys ?k"
    using assms(1,2) by (simp add: xs effect_run inline_decorator_def)
  also have "\<dots> = (Inr (Scoped fn r),
      ?k\<lparr>k_props := (k_props ?k)[r := Some (foldl (\<lambda>ob (n, b). obj_set n b ob) (obj_set n b []) ys)]\<rparr>)"
    using assms(1) by (intro inline_blocks_more) simp_all
  finally show ?thesis by (simp add: xs)
qed

text \<open>A program without data, depths and block parameters is wrapped once; the next request gets
  the same function and decorates nothing.\<close>

lemma program_cached:
  assumes "container_program deco sp i None 0 None None k = (Inr p, k')"
  shows "container_program deco sp i None 0 None None k' = (Inr p, k'\<lparr>k_attached := i # k_attached k'\<rparr>)"
  using assms
  by (auto simp: container_program_def container_fn_def effect_run split: option.splits prod.splits sum.splits)

text \<open>\<open>_child\<close> ignores the decorators of a program that the template itself has not used yet,
  because only \<open>container.fn\<close> attaches them.\<close>

lemma child_forgets_decorator:
  assumes "rs_fn sp i = Some f" and "i \<notin> set (k_attached k)"
    and "rs_useBlockParams sp \<longrightarrow> bp \<noteq> None" and "rs_useDepths sp \<longrightarrow> depths \<noteq> None"
  shows "child_program deco sp i data bp depths k =
    (Inr (Dressed (Prog f data bp depths) i (length (opt_list depths)) 0), k)"
  using assms
  by (auto simp: child_program_def wrapProgram_def executeDecorators_def effect_run)

text \<open>\<open>merge\<close> gives the options priority over the environment and loses no name of either.\<close>

lemma merge_objects_get:
  assumes "obj_ok p" and "obj_ok c"
  shows "\<exists>m. merge_objects (Some p) (Some c) = Some m \<and> obj_get m = obj_get c ++ obj_get p"
proof (cases "p = c")
  case True
  then show ?thesis
    by (auto simp: merge_objects_def map_add_def fun_eq_iff split: option.splits)
next
  case False
  then show ?thesis
    using assms by (simp add: merge_objects_def obj_get_extend1 obj_simps)
qed

text \<open>\<open>@root\<close> is always there: it is the one of the given data, or the context.\<close>

lemma initData_root:
  "obj_get (f_props (initData ctx data)) ''root'' =
     Some (case data of None \<Rightarrow> ctx
       | Some f \<Rightarrow> (case obj_get (f_props f) ''root'' of None \<Rightarrow> ctx | Some r \<Rightarrow> r))"
proof -
  have "obj_get [(''root'', ctx)] ''root'' = Some ctx"
    by (simp add: obj_get_def)
  then show ?thesis
    by (auto simp: initData_def frame_set_def obj_simps split: option.splits)
qed

text \<open>\<open>container.data(data, n)\<close> undoes \<open>n\<close> frames: \<open>@../x\<close> reaches the frame the path names.\<close>

lemma data_up_children:
  "data_up (Some ((frame_child ^^ n) f)) n = Some f"
  by (induction n) simp_all

lemma indent_lines_map:
  "indent_lines ind ls = map (\<lambda>i. if ls ! i = [] \<and> Suc i = length ls then [] else ind @ ls ! i) [0..<length ls]"
proof (induction ls)
  case (Cons l ls)
  have "[0..<length (l # ls)] = 0 # map Suc [0..<length ls]"
    by (simp add: map_Suc_upt upt_conv_Cons del: upt_Suc)
  with Cons show ?case
    by (auto simp: comp_def simp del: upt_Suc)
qed simp

text \<open>The indentation of a partial is put before every line of its result except an empty last
  one, and nothing else changes.\<close>

lemma indent_every_line:
  assumes "ind \<noteq> []" and "nl \<notin> set ind"
  shows "\<exists>t. indent_result ind (VStr s) = Inr (VStr t) \<and>
    split_on nl t = (let ls = split_on nl s
      in map (\<lambda>i. if ls ! i = [] \<and> Suc i = length ls then [] else ind @ ls ! i) [0..<length ls])"
proof -
  let ?ls = "split_on nl s"
  have "split_on nl (join_with [nl] (indent_lines ind ?ls)) = indent_lines ind ?ls"
  proof (rule split_join)
    show "indent_lines ind ?ls \<noteq> []"
      by (cases ?ls) auto
    show "nl \<notin> set l" if "l \<in> set (indent_lines ind ?ls)" for l
      using that assms(2) split_on_no_sep [of _ nl s] by (auto simp: indent_lines_map split: if_splits)
  qed
  with assms(1) show ?thesis
    by (simp add: indent_result_def indent_lines_map Let_def)
qed

text \<open>A depth lookup never throws: it finds the innermost context whose property is neither
  \<open>undefined\<close> nor \<open>null\<close>.\<close>

lemma lookup_depths_first:
  "lookup_depths ds n = Inr (case find (\<lambda>v. \<not> nullish v)
     (map (\<lambda>d. case get_prop d n of Inl _ \<Rightarrow> Undefined | Inr v \<Rightarrow> v) (filter truthy ds)) of
       None \<Rightarrow> Undefined | Some v \<Rightarrow> v)"
proof (induction ds)
  case (Cons d ds)
  have "truthy d \<Longrightarrow> \<exists>v. get_prop d n = Inr v"
    by (cases d) (auto simp: get_prop_def)
  with Cons show ?case by auto
qed simp

text \<open>A partial registered as text is compiled at its first use and found as a function afterwards.\<close>

lemma partial_compiled_once:
  assumes "op_name op = VStr n" and "n \<noteq> ''@partial-block''" and "op_partials op = Some ps"
    and "obj_get ps n = Some (PVal (VStr t))" and "op_hash op = None" and "op_ids op = None" and "op_fn op = None"
    and "invokePartialWrapper exec rt h same (Some build) (PVal Undefined) ctx op k = (Inr (v, op'), k')"
  shows "\<exists>f. build (PVal (VStr t)) = Inr f \<and> op_partials op' = Some (obj_set n (PFun f) ps)
    \<and> resolvePartial h (PVal Undefined) op' = Inr (PFun f, op')"
proof -
  have r: "resolvePartial h (PVal Undefined) op = Inr (PVal (VStr t), op)"
    using assms(1-4) by (simp add: resolvePartial_def get_partial_def)
  have i: "invokePartial exec rt h same (PVal (VStr t)) ctx op k = (Inr (Undefined, op\<lparr>op_partial := True\<rparr>), k)"
    using assms(6,7) by (simp add: invokePartial_def partial_path_def partial_block_def effect_run isFunction_def)
  from assms(8) r i assms(1-5) obtain f where "build (PVal (VStr t)) = Inr f"
    and "op' = op\<lparr>op_partial := True, op_partials := Some (obj_set n (PFun f) ps)\<rparr>"
    by (auto simp: invokePartialWrapper_def partial_hash_def effect_run opt_list_def nullish_def Let_def
        split: sum.splits prod.splits if_splits)
  then show ?thesis
    using assms(1,2) by (simp add: resolvePartial_def get_partial_def obj_simps)
qed

text \<open>A partial that is not registered but is named like a member of \<open>Object.prototype\<close> is found
  there, instead of being reported as missing.\<close>

lemma partial_named_constructor:
  "resolvePartial h (PVal Undefined) (op\<lparr>op_name := VStr ''constructor'', op_partials := Some []\<rparr>) =
     Inr (PVal (VBuiltin ''constructor''), op\<lparr>op_name := VStr ''constructor'', op_partials := Some []\<rparr>)"
  by (simp add: resolvePartial_def get_partial_def obj_simps inherited_def object_prototype_def)

section \<open>Witnesses\<close>

definition sample_container :: "nat machine" where
  "sample_container = \<lparr>k_helpers = None, k_partials = Some [(''p'', PVal (VStr ''old''))], k_decorators = None,
     k_programs = [], k_attached = [], k_props = [Some [(''p'', PVal (VStr ''new''))], None]\<rparr>"

definition sample_spec :: "nat runtime_spec" where
  "sample_spec = \<lparr>rs_compiler = Some (7, None), rs_main = Some 0, rs_main_d = None, rs_fn = Some, rs_fn_d = Some,
     rs_usePartial = True, rs_useData = False, rs_useDepths = False, rs_useBlockParams = False, rs_useDecorators = True\<rparr>"

definition sample_call :: "nat func call_options" where
  "sample_call = \<lparr>op_partial = False, op_data = None, op_blockParams = None, op_depths = None, op_helpers = None,
     op_partials = Some [(''p'', PVal (VStr ''text''))], op_decorators = None, op_name = VStr ''p'', op_hash = None,
     op_ids = None, op_fn = None, op_indent = []\<rparr>"

theorem inline_partials_restored_witness:
  "\<forall>exec rt h same. \<exists>k'. call_func exec rt h same (Scoped Noop 0) Null sample_call sample_container = (Inr (VStr []), k')
     \<and> k_partials k' = Some [(''p'', PVal (VStr ''old''))]"
proof (intro allI)
  fix exec rt h same
  obtain k' where k: "call_func exec rt h same (Scoped Noop 0) Null sample_call sample_container = (Inr (VStr []), k')"
    by (simp add: effect_run)
  from inline_partials_restored [OF k] k
  show "\<exists>k'. call_func exec rt h same (Scoped Noop 0) Null sample_call sample_container = (Inr (VStr []), k')
      \<and> k_partials k' = Some [(''p'', PVal (VStr ''old''))]"
    by (simp add: sample_container_def)
qed

end
