(* ===== verification/HbPipeline.thy ===== *)
theory HbPipeline
  imports HbJsCompiler HbRuntime "HOL-Library.Sublist"
begin

text \<open>
  Properties of the parts of \<open>handlebars.js\<close> together: a text without tags on its way through lexer,
  parser, whitespace control and both compilers, and a compiled template that meets the runtime.
\<close>

section \<open>Text without tags\<close>

definition plain_text :: "string \<Rightarrow> bool" where
  "plain_text s \<longleftrightarrow> s \<noteq> [] \<and> nul \<notin> set s \<and> \<not> sublist ''{{'' s"

lemma lazy_until_none: "\<not> sublist p s \<Longrightarrow> lazy_until p s = None"
proof (induction s)
  case Nil
  then show ?case by (simp add: lazy_until.simps [of p "[]"] starts_with_iff)
next
  case (Cons c s)
  then have "\<not> starts_with p (c # s)" and "\<not> sublist p s"
    by (auto simp: starts_with_iff sublist_Cons_right prefix_def)
  with Cons.IH show ?case
    by (simp add: lazy_until.simps [of p "c # s"])
qed

lemma rules_plain:
  assumes "plain_text s"
  shows "first_match (condition_rules INITIAL) s = Some (1, length s)"
proof -
  have "takeWhile (\<lambda>c. c \<noteq> nul) s = s"
    using assms by (intro takeWhile_eq_all_conv [THEN iffD2]) (auto simp: plain_text_def)
  moreover have "lazy_until ''{{'' s = None"
    using assms by (intro lazy_until_none) (simp add: plain_text_def)
  ultimately show ?thesis
    using assms by (simp add: condition_rules_def lexer_rule_def plain_text_def Let_def del: takeWhile_eq_all_conv)
qed

lemma rules_end: "first_match (condition_rules INITIAL) [] = Some (44, 0)"
  by code_simp

lemma setInput_simps [simp]: "input (setInput s) = s" "finished (setInput s) = False"
  "conditionStack (setInput s) = [INITIAL]" "yylineno (setInput s) = 0" "matched (setInput s) = []"
  by (simp_all add: setInput_def)

lemma start_setInput: "s \<noteq> [] \<Longrightarrow> start_next (setInput s) = setInput s"
  by (simp add: start_next_def setInput_def)

lemma lex_plain:
  assumes "plain_text s"
  shows "lexer_lex (setInput s) = Inr (T 15, take_match (length s) (setInput s))"
proof -
  have s: "s \<noteq> []" using assms by (simp add: plain_text_def)
  have "lexer_action 1 l = (Some (T 15), l)" for l
    by (simp add: lexer_action_def)
  moreover have "finished (take_match n (setInput s)) = False" for n
    by (simp add: take_match_def Let_def)
  ultimately show ?thesis
    using start_setInput [OF s] rules_plain [OF assms]
    by (simp add: lexer_lex.simps [of "setInput s"] lexer_next_def Let_def)
qed

lemma lex_end: "conditionStack l = [INITIAL] \<Longrightarrow> input l = [] \<Longrightarrow> \<not> finished l \<Longrightarrow>
   lexer_lex l = Inr (T 5, take_match 0 (start_next l))"
  by (simp add: lexer_lex.simps [of l] lexer_next_def Let_def rules_end lexer_action_def start_next_def)

lemma content_tables:
  "map_of defaultActions 0 = None" "map_of defaultActions 3 = None" "map_of defaultActions 20 = None"
  "map_of defaultActions 11 = None" "map_of defaultActions 5 = None" "map_of defaultActions 2 = None"
  "map_of defaultActions 4 = Some (Reduce 1)"
  "table_action 0 (T 15) = Some (Reduce 46)" "table_action 3 (T 15) = Some (Shift 20)"
  "table_action 20 (T 5) = Some (Reduce 10)" "table_action 11 (T 5) = Some (Reduce 8)"
  "table_action 5 (T 5) = Some (Reduce 47)" "table_action 3 (T 5) = Some (Reduce 2)"
  "table_action 2 (T 5) = Some (Shift 4)"
  "productions ! 46 = (6, 0)" "productions ! 10 = (13, 1)" "productions ! 8 = (7, 1)" "productions ! 47 = (6, 2)"
  "productions ! 2 = (4, 1)" "productions ! 1 = (3, 2)"
  "map_of (parse_table ! 0) 6 = Some (Goto 3)" "map_of (parse_table ! 3) 13 = Some (Goto 11)"
  "map_of (parse_table ! 3) 7 = Some (Goto 5)" "map_of (parse_table ! 0) 4 = Some (Goto 2)"
  by code_simp+

lemma parse_run_continue: "parse_step src p = Inr (Continue q) \<Longrightarrow> parse_run src p = parse_run src q"
  and parse_run_done: "parse_step src p = Inr (Done v) \<Longrightarrow> parse_run src p = Some (Inr v)"
  by (simp_all add: parse_run.simps [of src p])

lemmas content_step_defs = parse_step_def Let_def content_tables fetch_def reduce_def shift_def performAction_def
  action_statement_def action_expression_def

text \<open>Where a text ends when it starts at the first line.\<close>

definition text_loc :: "string \<Rightarrow> lexloc" where
  "text_loc s = yylloc (take_match (length s) (setInput s))"

definition text_program :: "string \<Rightarrow> program" where
  "text_program s = prepareProgram [Content s s False False (Some (SourceLocation None (text_loc s)))] None"

lemma lexloc_eta: "\<lparr>first_line = first_line a, first_column = first_column a, last_line = last_line a,
    last_column = last_column a\<rparr> = a"
  by simp

lemma parse_plain:
  assumes "plain_text s"
  shows "parser_parse None s = Some (Inr (SProg (text_program s)))"
proof -
  define l1 where "l1 = take_match (length s) (setInput s)"
  define l2 where "l2 = take_match 0 (start_next l1)"
  define a where "a = yylloc (setInput s)"
  define b where "b = \<lparr>first_line = first_line a, first_column = first_column a,
    last_line = last_line (text_loc s), last_column = last_column (text_loc s)\<rparr>"
  define c where "c = SStmt (Content s s False False (Some (SourceLocation None (text_loc s))))"
  define cs where "cs = SStmts [Content s s False False (Some (SourceLocation None (text_loc s)))]"
  have lex1: "lexer_lex (setInput s) = Inr (T 15, l1)"
    unfolding l1_def by (rule lex_plain [OF assms])
  have l1: "conditionStack l1 = [INITIAL]" "input l1 = []" "\<not> finished l1" "yytext l1 = s" "yylloc l1 = text_loc s"
    by (simp_all add: l1_def take_match_def Let_def text_loc_def)
  have lex2: "lexer_lex l1 = Inr (T 5, l2)"
    unfolding l2_def by (rule lex_end [OF l1(1-3)])
  note steps = content_step_defs lex1 lex2 l1 lexloc_eta
  let ?P = "\<lambda>st vs ls sym lx n. \<lparr>stack = st, vstack = vs, lstack = ls, symbol = sym, lexer_state = lx, token_line = n\<rparr>"
  have "init_parser s = ?P [0] [SUndef] [a] None (setInput s) 0"
    by (simp add: init_parser_def a_def Let_def)
  then have "parse_run None (init_parser s) = parse_run None (?P [3, 0] [SStmts [], SUndef] [a, a] (Some (T 15)) l1 0)"
    by (intro parse_run_continue) (simp add: steps)
  also have "\<dots> = parse_run None (?P [20, 3, 0] [SText s, SStmts [], SUndef] [text_loc s, a, a] None l1 (yylineno l1))"
    by (intro parse_run_continue) (simp add: steps)
  also have "\<dots> = parse_run None (?P [11, 3, 0] [c, SStmts [], SUndef] [text_loc s, a, a] (Some (T 5)) l2 (yylineno l1))"
    by (intro parse_run_continue) (simp add: steps c_def)
  also have "\<dots> = parse_run None (?P [5, 3, 0] [c, SStmts [], SUndef] [text_loc s, a, a] (Some (T 5)) l2 (yylineno l1))"
    by (intro parse_run_continue) (simp add: steps)
  also have "\<dots> = parse_run None (?P [3, 0] [cs, SUndef] [b, a] (Some (T 5)) l2 (yylineno l1))"
    by (intro parse_run_continue) (simp add: steps c_def cs_def b_def)
  also have "\<dots> = parse_run None (?P [2, 0] [SProg (text_program s), SUndef] [b, a] (Some (T 5)) l2 (yylineno l1))"
    by (intro parse_run_continue) (simp add: steps cs_def text_program_def)
  also have "\<dots> = parse_run None (?P [4, 2, 0] [SText (yytext l2), SProg (text_program s), SUndef] [yylloc l2, b, a]
      None l2 (yylineno l2))"
    by (intro parse_run_continue) (simp add: steps)
  also have "\<dots> = Some (Inr (SProg (text_program s)))"
    by (rule parse_run_done) (simp add: steps)
  finally show ?thesis
    by (simp add: parser_parse_def)
qed

lemma text_program_body: "\<exists>l l'. text_program s = Program [Content s s False False l] None False l'"
  by (simp add: text_program_def prepareProgram_def)

lemma whitespace_plain: "whitespace_control ig (text_program s) = Inr (text_program s)"
proof -
  obtain l l' where p: "text_program s = Program [Content s s False False l] None False l'"
    using text_program_body by blast
  show ?thesis
    unfolding p by (simp add: whitespace_control_def wc_loop.simps [of ig True "[_]" "Suc 0"])
qed

text \<open>The opcodes of a text, and the function compiled from them.\<close>

lemma compile_plain:
  assumes "s \<noteq> []"
  shows "\<exists>l opts'. compile_program (text_program s) opts = Inr (Compiled [(AppendContent s, l)] [] False False False True 0, opts')
    \<and> opt_data opts' = opt_data opts \<and> compat opts' = compat opts"
proof -
  obtain l l' where p: "text_program s = Program [Content s s False False l] None False l'"
    using text_program_body by blast
  show ?thesis
    unfolding p using assms by (simp add: start_comp_def finish_comp_def emit_def)
qed

definition text_env :: "string \<Rightarrow> source_loc option \<Rightarrow> compiled" where
  "text_env s l = Compiled [(AppendContent s, l)] [] False False False True 0"

lemma run_plain:
  assumes "s \<noteq> []" and "\<not> compat opts"
  shows "\<exists>j. run_program opts (text_env s l) [] False False = Inr j
    \<and> source j = [(False, ''return '' @ quotedString s @ '';'')] \<and> isSimple (js_env j)
    \<and> decorator_source j = [] \<and> stackVars j = [] \<and> registers j = [] \<and> \<not> js_useDepths j \<and> \<not> js_useBlockParams j"
  using assms
  by (simp add: run_program_def start_js_def text_env_def action_defs bindS_def appendContent_def flush_content_def
      appendToBuffer_def)

lemma compile_spec_plain:
  assumes "s \<noteq> []" and "\<not> compat opts"
  shows "\<exists>sp. compile_spec opts True (text_env s l) = Inr sp
    \<and> spec_main sp = FnCompiled [''container'', ''depth0'', ''helpers'', ''partials'', ''data'']
        (''  return '' @ quotedString s @ '';'' @ [nl])"
proof -
  from run_plain [OF assms] obtain j where j: "run_program opts (text_env s l) [] False False = Inr j"
    "source j = [(False, ''return '' @ quotedString s @ '';'')]" "isSimple (js_env j)"
    "stackVars j = []" "registers j = []" "\<not> js_useDepths j" "\<not> js_useBlockParams j" by blast
  have "js_compile opts True empty_context (text_env s l) = Inr (j, empty_context)"
    using j(1) by (simp add: text_env_def)
  moreover have "mergeSource True [] (source j) = ''  return '' @ quotedString s @ '';'' @ [nl]"
    by (simp add: j(2) mergeSource_def merge_line_def merge_def Let_def)
  ultimately show ?thesis
    using j by (simp add: compile_spec_def Let_def createFunctionContext_def)
qed

text \<open>C4: a text without tags renders to itself: lexer, parser and whitespace control deliver one content
  statement, and the function compiled from it returns a literal that JavaScript reads as the text.\<close>

theorem plain_text_renders:
  assumes "plain_text s"
  shows "\<exists>sp b. compileInput default_options (TemplateText s) = Some (Inr sp)
    \<and> spec_main sp = FnCompiled [''container'', ''depth0'', ''helpers'', ''partials'', ''data''] (''  return '' @ dquote # b)
    \<and> read_chars b = Some (s, '';'' @ [nl])"
proof -
  have s: "s \<noteq> []"
    using assms by (simp add: plain_text_def)
  let ?o = "prepare_options default_options"
  obtain l opts where c: "compile_program (text_program s) ?o = Inr (text_env s l, opts)" "compat opts = compat ?o"
    using compile_plain [OF s, of ?o] by (auto simp: text_env_def)
  have "\<not> compat opts"
    using c(2) by (simp add: prepare_options_def default_options_def)
  from compile_spec_plain [OF s this, of l] obtain sp where
    sp: "compile_spec opts True (text_env s l) = Inr sp"
      "spec_main sp = FnCompiled [''container'', ''depth0'', ''helpers'', ''partials'', ''data'']
        (''  return '' @ quotedString s @ '';'' @ [nl])" by blast
  have "srcName ?o = None"
    by (simp add: prepare_options_def default_options_def)
  then have "handlebars_parse ?o (TemplateText s) = Some (Inr (text_program s))"
    using parse_plain [OF assms] by (simp add: whitespace_plain)
  then have "compileInput default_options (TemplateText s) = Some (Inr sp)"
    using c(1) sp(1) by (simp del: handlebars_parse.simps add: compileInput_def compile_opcodes_def)
  moreover have "quotedString s @ '';'' @ [nl] = dquote # concat (map quote_char s) @ dquote # '';'' @ [nl]"
    by (simp add: quotedString_eq)
  ultimately show ?thesis
    using sp(2) read_quoted_chars [of s "'';'' @ [nl]"] by auto
qed

theorem plain_text_renders_witness:
  "\<exists>sp b. compileInput default_options (TemplateText ''a } b'') = Some (Inr sp)
    \<and> spec_main sp = FnCompiled [''container'', ''depth0'', ''helpers'', ''partials'', ''data''] (''  return '' @ dquote # b)
    \<and> read_chars b = Some (''a } b'', '';'' @ [nl])"
  by (rule plain_text_renders) (simp add: plain_text_def sublist_Cons_right prefix_def)

text \<open>What this version compiles, this version runs: the revision that the compiler writes into a
  specification is accepted by the runtime.\<close>

lemma compiled_is_accepted:
  assumes "compile_spec opts asObject env = Inr sp"
  shows "checkRevision (Some (spec_compiler sp)) = Inr ()"
  proof -
  have "spec_compiler sp = (COMPILER_REVISION, REVISION_CHANGES COMPILER_REVISION)"
    using assms by (auto simp: compile_spec_def Let_def split: prod.splits)
  then show ?thesis
    by (simp add: checkRevision_def COMPILER_REVISION_def)
qed

end
