(* ===== verification/HbVisitor.thy ===== *)
theory HbVisitor
  imports HbAst
begin

text \<open>
  Module 25 of \<open>handlebars.js\<close>: the traversal of a syntax tree. A visitor overrides methods for some
  nodes; what such a method returns decides, in a mutating visitor, whether the node is kept,
  replaced or removed. The state is the visitor's: \<open>current\<close> and \<open>parents\<close>, given by the types of the
  nodes, and the nodes it has accepted so far, each as the list of its type and those of \<open>parents\<close>.
\<close>

section \<open>A visitor\<close>

text \<open>
  What a method does with its node: the method of the prototype (\<open>Descend\<close>), or an own one that
  returns nothing, \<open>false\<close>, a node, or an object whose type is none of a node.
\<close>

datatype 'n visit = Descend | GaveUndefined | GaveFalse | Gave 'n | GaveOther string

record hooks =
  on_expr :: "expr \<Rightarrow> expr visit"
  on_hash :: "hash \<Rightarrow> hash visit"
  on_pair :: "hash_pair \<Rightarrow> hash_pair visit"
  on_stmt :: "stmt \<Rightarrow> stmt visit"
  on_program :: "program \<Rightarrow> program visit"

record visitor =
  v_current :: "string option"
  v_parents :: "string list"
  v_accepted :: "string list list"

type_synonym 'a visiting = "(visitor, 'a) effect"

definition enter_node :: "string \<Rightarrow> visitor \<Rightarrow> visitor" where
  "enter_node ty v =
     (let ps = (case v_current v of None \<Rightarrow> v_parents v | Some c \<Rightarrow> c # v_parents v)
      in v\<lparr>v_current := Some ty, v_parents := ps, v_accepted := v_accepted v @ [ty # ps]\<rparr>)"

definition leave_node :: "visitor \<Rightarrow> visitor" where
  "leave_node v = (case v_parents v of
      [] \<Rightarrow> v\<lparr>v_current := None\<rparr>
    | p # ps \<Rightarrow> v\<lparr>v_current := Some p, v_parents := ps\<rparr>)"

text \<open>\<open>accept\<close> of a node, with the method of the prototype and what an own one does.\<close>

definition accept_node :: "bool \<Rightarrow> string \<Rightarrow> 'n \<Rightarrow> 'n visit \<Rightarrow> 'n visiting \<Rightarrow> 'n visit visiting" where
  "accept_node mutating ty ob own descend =
     bindE (modE (enter_node ty)) (\<lambda>_.
     bindE (case own of Descend \<Rightarrow> descend | _ \<Rightarrow> retE ob) (\<lambda>n.
     bindE (modE leave_node) (\<lambda>_.
       retE (if \<not> mutating then own
             else case own of Descend \<Rightarrow> Gave n | GaveUndefined \<Rightarrow> Gave ob | r \<Rightarrow> r))))"

text \<open>
  \<open>acceptKey\<close>: what the property holds afterwards, \<open>None\<close> where it has been removed. \<open>pty\<close> is the type
  of the parent, \<open>undefined\<close> for an array, whose properties are its indices.
\<close>

definition acceptKey :: "bool \<Rightarrow> string \<Rightarrow> string \<Rightarrow> string \<Rightarrow> 'n \<Rightarrow> 'n visit \<Rightarrow> 'n visiting \<Rightarrow> 'n option visiting" where
  "acceptKey mutating pty name ty ob own descend =
     bindE (accept_node mutating ty ob own descend) (\<lambda>r.
       if \<not> mutating then retE (Some ob)
       else case r of
         Gave n \<Rightarrow> retE (Some n)
       | GaveOther t \<Rightarrow> throwE (Exception (''Unexpected node type '' @ [dquote] @ t @ [dquote]
           @ '' found when accepting '' @ name @ '' on '' @ pty) None)
       | _ \<Rightarrow> retE None)"

definition acceptRequired :: "string \<Rightarrow> string \<Rightarrow> 'n option visiting \<Rightarrow> 'n visiting" where
  "acceptRequired pty name key =
     bindE key (\<lambda>r. case r of
       None \<Rightarrow> throwE (Exception (pty @ '' requires '' @ name) None)
     | Some n \<Rightarrow> retE n)"

text \<open>One step of \<open>acceptArray\<close>: an element that is gone is cut out, and the index stays.\<close>

definition keep_item :: "nat \<Rightarrow> 'n option \<Rightarrow> (nat \<Rightarrow> 'n list visiting) \<Rightarrow> 'n list visiting" where
  "keep_item i r rest = (case r of
      None \<Rightarrow> rest i
    | Some n \<Rightarrow> bindE (rest (Suc i)) (\<lambda>ns. retE (n # ns)))"

lemma keep_item_cong [fundef_cong]:
  "r = r' \<Longrightarrow> (\<And>j. rest j = rest' j) \<Longrightarrow> keep_item i r rest = keep_item i r' rest'"
  by (simp add: keep_item_def split: option.splits)

section \<open>Expressions\<close>

function visit_expr :: "bool \<Rightarrow> hooks \<Rightarrow> string \<Rightarrow> string \<Rightarrow> expr \<Rightarrow> expr option visiting"
  and descend_expr :: "bool \<Rightarrow> hooks \<Rightarrow> expr \<Rightarrow> expr visiting"
  and visit_exprs :: "bool \<Rightarrow> hooks \<Rightarrow> nat \<Rightarrow> expr list \<Rightarrow> expr list visiting"
  and visit_hash :: "bool \<Rightarrow> hooks \<Rightarrow> string \<Rightarrow> hash option \<Rightarrow> hash option visiting"
  and visit_pairs :: "bool \<Rightarrow> hooks \<Rightarrow> nat \<Rightarrow> hash_pair list \<Rightarrow> hash_pair list visiting" where
  "visit_expr m hk pty name e = acceptKey m pty name (expr_type e) e (on_expr hk e) (descend_expr m hk e)"
| "descend_expr m hk (PathExpression p) = retE (PathExpression p)"
| "descend_expr m hk (LiteralExpression l loc) = retE (LiteralExpression l loc)"
| "descend_expr m hk (SubExpression e ps h loc) =
     bindE (acceptRequired ''SubExpression'' ''path'' (visit_expr m hk ''SubExpression'' ''path'' e)) (\<lambda>e.
     bindE (visit_exprs m hk 0 ps) (\<lambda>ps.
     bindE (visit_hash m hk ''SubExpression'' h) (\<lambda>h. retE (SubExpression e ps h loc))))"
| "visit_exprs m hk i [] = retE []"
| "visit_exprs m hk i (e # es) =
     bindE (visit_expr m hk ''undefined'' (show_nat i) e) (\<lambda>r. keep_item i r (\<lambda>i. visit_exprs m hk i es))"
| "visit_hash m hk pty None = retE None"
| "visit_hash m hk pty (Some (Hash ps loc)) =
     acceptKey m pty ''hash'' ''Hash'' (Hash ps loc) (on_hash hk (Hash ps loc))
       (bindE (visit_pairs m hk 0 ps) (\<lambda>ps. retE (Hash ps loc)))"
| "visit_pairs m hk i [] = retE []"
| "visit_pairs m hk i (HashPair k e loc # ps) =
     bindE (acceptKey m ''undefined'' (show_nat i) ''HashPair'' (HashPair k e loc) (on_pair hk (HashPair k e loc))
         (bindE (acceptRequired ''HashPair'' ''value'' (visit_expr m hk ''HashPair'' ''value'' e))
           (\<lambda>e. retE (HashPair k e loc))))
       (\<lambda>r. keep_item i r (\<lambda>i. visit_pairs m hk i ps))"
  by pat_completeness auto
termination
  by (relation "measure (\<lambda>x. case x of
      Inl (Inl (_, _, _, _, e)) \<Rightarrow> 2 * size e + 1
    | Inl (Inr (_, _, e)) \<Rightarrow> 2 * size e
    | Inr (Inl (_, _, _, es)) \<Rightarrow> 2 * size_list size es + 1
    | Inr (Inr (Inl (_, _, _, h))) \<Rightarrow> 2 * size_option size h + 1
    | Inr (Inr (Inr (_, _, _, ps))) \<Rightarrow> 2 * size_list size ps + 1)") auto

section \<open>Statements and programs\<close>

fun stmt_type :: "stmt \<Rightarrow> string" where
  "stmt_type (Mustache d _ _ _ _ _ _) = (if d then ''Decorator'' else ''MustacheStatement'')"
| "stmt_type (Block d _ _ _ _ _ _ _ _ _) = (if d then ''DecoratorBlock'' else ''BlockStatement'')"
| "stmt_type (Partial _ _ _ _ _ _) = ''PartialStatement''"
| "stmt_type (PartialBlock _ _ _ _ _ _ _) = ''PartialBlockStatement''"
| "stmt_type (Content _ _ _ _ _) = ''ContentStatement''"
| "stmt_type (Comment _ _ _) = ''CommentStatement''"

text \<open>\<open>visitSubExpression\<close> and \<open>visitPartial\<close>, which differ in the name of the required property.\<close>

definition visitSubExpression :: "bool \<Rightarrow> hooks \<Rightarrow> string \<Rightarrow> string \<Rightarrow> expr \<Rightarrow> expr list \<Rightarrow> hash option
    \<Rightarrow> (expr \<times> expr list \<times> hash option) visiting" where
  "visitSubExpression m hk ty name e ps h =
     bindE (acceptRequired ty name (visit_expr m hk ty name e)) (\<lambda>e.
     bindE (visit_exprs m hk 0 ps) (\<lambda>ps.
     bindE (visit_hash m hk ty h) (\<lambda>h. retE (e, ps, h))))"

text \<open>
  A partial block without its program cannot be represented; its visitor must keep the program.
\<close>

function visit_stmt :: "bool \<Rightarrow> hooks \<Rightarrow> string \<Rightarrow> string \<Rightarrow> stmt \<Rightarrow> stmt option visiting"
  and descend_stmt :: "bool \<Rightarrow> hooks \<Rightarrow> stmt \<Rightarrow> stmt visiting"
  and visit_body :: "bool \<Rightarrow> hooks \<Rightarrow> nat \<Rightarrow> stmt list \<Rightarrow> stmt list visiting"
  and visit_program :: "bool \<Rightarrow> hooks \<Rightarrow> string \<Rightarrow> string \<Rightarrow> program option \<Rightarrow> program option visiting" where
  "visit_stmt m hk pty name st = acceptKey m pty name (stmt_type st) st (on_stmt hk st) (descend_stmt m hk st)"
| "descend_stmt m hk (Mustache d e ps h esc s loc) =
     bindE (visitSubExpression m hk (stmt_type (Mustache d e ps h esc s loc)) ''path'' e ps h) (\<lambda>(e, ps, h).
       retE (Mustache d e ps h esc s loc))"
| "descend_stmt m hk (Block d e ps h pr iv os is cs loc) =
     (let ty = stmt_type (Block d e ps h pr iv os is cs loc)
      in bindE (visitSubExpression m hk ty ''path'' e ps h) (\<lambda>(e, ps, h).
         bindE (visit_program m hk ty ''program'' pr) (\<lambda>pr.
         bindE (visit_program m hk ty ''inverse'' iv) (\<lambda>iv. retE (Block d e ps h pr iv os is cs loc)))))"
| "descend_stmt m hk (Partial e ps h ind s loc) =
     bindE (visitSubExpression m hk ''PartialStatement'' ''name'' e ps h) (\<lambda>(e, ps, h).
       retE (Partial e ps h ind s loc))"
| "descend_stmt m hk (PartialBlock e ps h pr os cs loc) =
     bindE (visitSubExpression m hk ''PartialBlockStatement'' ''name'' e ps h) (\<lambda>(e, ps, h).
     bindE (visit_program m hk ''PartialBlockStatement'' ''program'' (Some pr)) (\<lambda>r.
       case r of
         None \<Rightarrow> throwE (type_error ''partial block without program'')
       | Some pr \<Rightarrow> retE (PartialBlock e ps h pr os cs loc)))"
| "descend_stmt m hk (Content orig v rs ls loc) = retE (Content orig v rs ls loc)"
| "descend_stmt m hk (Comment t s loc) = retE (Comment t s loc)"
| "visit_body m hk i [] = retE []"
| "visit_body m hk i (st # sts) =
     bindE (visit_stmt m hk ''undefined'' (show_nat i) st) (\<lambda>r. keep_item i r (\<lambda>i. visit_body m hk i sts))"
| "visit_program m hk pty name None = retE None"
| "visit_program m hk pty name (Some (Program b bp c loc)) =
     acceptKey m pty name ''Program'' (Program b bp c loc) (on_program hk (Program b bp c loc))
       (bindE (visit_body m hk 0 b) (\<lambda>b. retE (Program b bp c loc)))"
  by pat_completeness auto
termination
  by (relation "measure (\<lambda>x. case x of
      Inl (Inl (_, _, _, _, st)) \<Rightarrow> 2 * size st + 1
    | Inl (Inr (_, _, st)) \<Rightarrow> 2 * size st
    | Inr (Inl (_, _, _, sts)) \<Rightarrow> 2 * size_list size sts + 1
    | Inr (Inr (_, _, _, _, None)) \<Rightarrow> 0
    | Inr (Inr (_, _, _, _, Some p)) \<Rightarrow> 2 * size p + 1)") (auto split: option.splits)

text \<open>\<open>accept\<close> of a whole tree by a new visitor.\<close>

definition new_visitor :: visitor where
  "new_visitor = \<lparr>v_current = None, v_parents = [], v_accepted = []\<rparr>"

definition accept_tree :: "bool \<Rightarrow> hooks \<Rightarrow> program \<Rightarrow> program visit visiting" where
  "accept_tree m hk p = (case p of Program b bp c loc \<Rightarrow>
     accept_node m ''Program'' p (on_program hk p) (bindE (visit_body m hk 0 b) (\<lambda>b. retE (Program b bp c loc))))"

section \<open>The nodes of a tree\<close>

text \<open>
  The nodes below and with a node in the order of the text, each as the types from it to the root.
\<close>

fun expr_nodes :: "string list \<Rightarrow> expr \<Rightarrow> string list list"
  and hash_nodes :: "string list \<Rightarrow> hash \<Rightarrow> string list list"
  and pair_nodes :: "string list \<Rightarrow> hash_pair \<Rightarrow> string list list" where
  "expr_nodes up (PathExpression p) = [''PathExpression'' # up]"
| "expr_nodes up (LiteralExpression l loc) = [literal_type l # up]"
| "expr_nodes up (SubExpression e ps h loc) =
     (let up = ''SubExpression'' # up
      in up # expr_nodes up e @ concat (map (expr_nodes up) ps)
        @ (case h of None \<Rightarrow> [] | Some h \<Rightarrow> hash_nodes up h))"
| "hash_nodes up (Hash ps loc) = (''Hash'' # up) # concat (map (pair_nodes (''Hash'' # up)) ps)"
| "pair_nodes up (HashPair k e loc) = (''HashPair'' # up) # expr_nodes (''HashPair'' # up) e"

definition call_nodes :: "string list \<Rightarrow> expr \<Rightarrow> expr list \<Rightarrow> hash option \<Rightarrow> string list list" where
  "call_nodes up e ps h = up # expr_nodes up e @ concat (map (expr_nodes up) ps)
     @ (case h of None \<Rightarrow> [] | Some h \<Rightarrow> hash_nodes up h)"

fun stmt_nodes :: "string list \<Rightarrow> stmt \<Rightarrow> string list list"
  and program_nodes :: "string list \<Rightarrow> program \<Rightarrow> string list list" where
  "stmt_nodes up (Mustache d e ps h esc s loc) =
     call_nodes (stmt_type (Mustache d e ps h esc s loc) # up) e ps h"
| "stmt_nodes up (Block d e ps h pr iv os is cs loc) =
     (let up = stmt_type (Block d e ps h pr iv os is cs loc) # up
      in call_nodes up e ps h @ (case pr of None \<Rightarrow> [] | Some p \<Rightarrow> program_nodes up p)
        @ (case iv of None \<Rightarrow> [] | Some p \<Rightarrow> program_nodes up p))"
| "stmt_nodes up (Partial e ps h ind s loc) = call_nodes (''PartialStatement'' # up) e ps h"
| "stmt_nodes up (PartialBlock e ps h pr os cs loc) =
     call_nodes (''PartialBlockStatement'' # up) e ps h @ program_nodes (''PartialBlockStatement'' # up) pr"
| "stmt_nodes up (Content orig v rs ls loc) = [''ContentStatement'' # up]"
| "stmt_nodes up (Comment t s loc) = [''CommentStatement'' # up]"
| "program_nodes up (Program b bp c loc) = (''Program'' # up) # concat (map (stmt_nodes (''Program'' # up)) b)"

section \<open>A visitor without methods of its own\<close>

definition plain_hooks :: hooks where
  "plain_hooks = \<lparr>on_expr = \<lambda>_. Descend, on_hash = \<lambda>_. Descend, on_pair = \<lambda>_. Descend, on_stmt = \<lambda>_. Descend,
     on_program = \<lambda>_. Descend\<rparr>"

lemma plain_hooks [simp]: "on_expr plain_hooks e = Descend" "on_hash plain_hooks h = Descend"
  "on_pair plain_hooks p = Descend" "on_stmt plain_hooks st = Descend" "on_program plain_hooks pr = Descend"
  by (simp_all add: plain_hooks_def)

text \<open>Where the visitor stands, and a state that has accepted more nodes.\<close>

definition at :: "visitor \<Rightarrow> string list" where
  "at v = (case v_current v of None \<Rightarrow> v_parents v | Some c \<Rightarrow> c # v_parents v)"

definition accepted :: "string list list \<Rightarrow> visitor \<Rightarrow> visitor" where
  "accepted tr v = v\<lparr>v_accepted := v_accepted v @ tr\<rparr>"

definition keeps :: "'n visiting \<Rightarrow> 'n \<Rightarrow> string list \<Rightarrow> string list list \<Rightarrow> bool" where
  "keeps m x up tr \<longleftrightarrow> (\<forall>v. at v = up \<longrightarrow> v_current v \<noteq> None \<longrightarrow> m v = (Inr x, accepted tr v))"

lemma at_accepted [simp]: "at (accepted tr v) = at v" "v_current (accepted tr v) = v_current v"
  "accepted tr' (accepted tr v) = accepted (tr @ tr') v" "accepted [] v = v"
  by (simp_all add: at_def accepted_def cong: option.case_cong)

lemma keeps_retE [simp]: "keeps (retE x) x up []"
  by (simp add: keeps_def retE_def)

lemma keeps_bindE: "keeps m x up tr \<Longrightarrow> keeps (f x) y up tr' \<Longrightarrow> keeps (bindE m f) y up (tr @ tr')"
  by (simp add: keeps_def bindE_def)

lemma keeps_then: "keeps m x up tr \<Longrightarrow> f x = retE y \<Longrightarrow> keeps (bindE m f) y up tr"
  using keeps_bindE [of m x up tr f y "[]"] by simp

lemma enter_leave:
  assumes "v_current v \<noteq> None"
  shows "at (enter_node ty v) = ty # at v" and "v_current (enter_node ty v) \<noteq> None"
    and "leave_node (accepted tr (enter_node ty v)) = accepted ((ty # at v) # tr) v"
  using assms by (auto simp: at_def enter_node_def leave_node_def accepted_def Let_def)

lemma keeps_acceptKey:
  "keeps descend ob (ty # up) tr \<Longrightarrow> keeps (acceptKey m pty name ty ob Descend descend) (Some ob) up ((ty # up) # tr)"
proof -
  assume k: "keeps descend ob (ty # up) tr"
  have "acceptKey m pty name ty ob Descend descend v = (Inr (Some ob), accepted ((ty # up) # tr) v)"
    if v: "at v = up" "v_current v \<noteq> None" for v
  proof -
    from k v have "descend (enter_node ty v) = (Inr ob, accepted tr (enter_node ty v))"
      using enter_leave(1,2) [OF v(2), of ty] unfolding keeps_def by metis
    then show ?thesis
      using v by (simp add: acceptKey_def accept_node_def bindE_def effect_defs enter_leave)
  qed
  then show ?thesis by (simp add: keeps_def)
qed

lemma keeps_acceptRequired: "keeps key (Some x) up tr \<Longrightarrow> keeps (acceptRequired pty name key) x up tr"
  unfolding acceptRequired_def by (rule keeps_then [where x = "Some x"]) simp_all

lemma keeps_item: "keeps (rest (Suc i)) xs up tr \<Longrightarrow> keeps (keep_item i (Some x) rest) (x # xs) up tr"
  unfolding keep_item_def by (auto intro: keeps_then)

lemma expr_nodes_head: "expr_nodes up e = (expr_type e # up) # tl (expr_nodes up e)"
  by (cases e) (auto simp: Let_def)

lemma stmt_nodes_head: "stmt_nodes up st = (stmt_type st # up) # tl (stmt_nodes up st)"
  by (cases st) (auto simp: Let_def call_nodes_def)

lemma visit_expr_keeps:
  "keeps (visit_expr m plain_hooks pty name e) (Some e) up (expr_nodes up e)"
  "keeps (descend_expr m plain_hooks e) e (expr_type e # up) (tl (expr_nodes up e))"
  "keeps (visit_exprs m plain_hooks i es) es up (concat (map (expr_nodes up) es))"
  "keeps (visit_hash m plain_hooks pty h) h up (case h of None \<Rightarrow> [] | Some h \<Rightarrow> hash_nodes up h)"
  "keeps (visit_pairs m plain_hooks i ps) ps up (concat (map (pair_nodes up) ps))"
proof (induction m plain_hooks pty name e and m plain_hooks e and m plain_hooks i es and m plain_hooks pty h
    and m plain_hooks i ps arbitrary: up and up and up and up and up
    rule: visit_expr_descend_expr_visit_exprs_visit_hash_visit_pairs.induct)
  case (1 m pty name e)
  then show ?case
    by (subst expr_nodes_head) (simp add: keeps_acceptKey)
next
  case (4 m e ps h loc)
  let ?up = "''SubExpression'' # up"
  have "keeps (descend_expr m plain_hooks (SubExpression e ps h loc)) (SubExpression e ps h loc) ?up
      (expr_nodes ?up e @ concat (map (expr_nodes ?up) ps) @ (case h of None \<Rightarrow> [] | Some h \<Rightarrow> hash_nodes ?up h) @ [])"
    unfolding descend_expr.simps by (rule keeps_bindE keeps_acceptRequired keeps_retE 4)+
  then show ?case
    by (simp add: Let_def)
next
  case (6 m i e es)
  show ?case
    unfolding visit_exprs.simps list.map concat.simps by (rule keeps_bindE keeps_item 6)+
next
  case (8 m pty ps loc)
  have "keeps (bindE (visit_pairs m plain_hooks 0 ps) (\<lambda>ps. retE (Hash ps loc))) (Hash ps loc) (''Hash'' # up)
      (concat (map (pair_nodes (''Hash'' # up)) ps) @ [])"
    by (rule keeps_bindE keeps_retE 8)+
  then show ?case
    by (simp add: keeps_acceptKey)
next
  case (10 m i k e loc ps)
  have "keeps (bindE (acceptRequired ''HashPair'' ''value'' (visit_expr m plain_hooks ''HashPair'' ''value'' e))
      (\<lambda>e. retE (HashPair k e loc))) (HashPair k e loc) (''HashPair'' # up) (expr_nodes (''HashPair'' # up) e @ [])"
    by (rule keeps_bindE keeps_acceptRequired keeps_retE 10)+
  then have k: "keeps (acceptKey m ''undefined'' (show_nat i) ''HashPair'' (HashPair k e loc) Descend
      (bindE (acceptRequired ''HashPair'' ''value'' (visit_expr m plain_hooks ''HashPair'' ''value'' e))
        (\<lambda>e. retE (HashPair k e loc)))) (Some (HashPair k e loc)) up (pair_nodes up (HashPair k e loc))"
    by (simp add: keeps_acceptKey del: visit_expr.simps)
  show ?case
    unfolding visit_pairs.simps list.map concat.simps plain_hooks by (rule keeps_bindE keeps_item k 10)+
qed (simp_all)

lemma visitSubExpression_keeps:
  "keeps (visitSubExpression m plain_hooks ty name e ps h) (e, ps, h) up (tl (call_nodes up e ps h))"
proof -
  have "keeps (visitSubExpression m plain_hooks ty name e ps h) (e, ps, h) up
      (expr_nodes up e @ concat (map (expr_nodes up) ps) @ (case h of None \<Rightarrow> [] | Some h \<Rightarrow> hash_nodes up h) @ [])"
    unfolding visitSubExpression_def by (rule keeps_bindE keeps_acceptRequired keeps_retE visit_expr_keeps)+
  then show ?thesis
    by (simp add: call_nodes_def)
qed

lemma visit_stmt_keeps:
  "keeps (visit_stmt m plain_hooks pty name st) (Some st) up (stmt_nodes up st)"
  "keeps (descend_stmt m plain_hooks st) st (stmt_type st # up) (tl (stmt_nodes up st))"
  "keeps (visit_body m plain_hooks i b) b up (concat (map (stmt_nodes up) b))"
  "keeps (visit_program m plain_hooks pty name p) p up (case p of None \<Rightarrow> [] | Some p \<Rightarrow> program_nodes up p)"
proof (induction m plain_hooks pty name st and m plain_hooks st and m plain_hooks i b and m plain_hooks pty name p
    arbitrary: up and up and up and up rule: visit_stmt_descend_stmt_visit_body_visit_program.induct)
  case (1 m pty name st)
  then show ?case
    by (subst stmt_nodes_head) (simp add: keeps_acceptKey)
next
  case (2 m d e ps h esc s loc)
  let ?ty = "stmt_type (Mustache d e ps h esc s loc)"
  have "keeps (descend_stmt m plain_hooks (Mustache d e ps h esc s loc)) (Mustache d e ps h esc s loc) (?ty # up)
      (tl (call_nodes (?ty # up) e ps h) @ [])"
    unfolding descend_stmt.simps by (rule keeps_bindE, rule visitSubExpression_keeps) simp
  then show ?case
    by simp
next
  case (3 m d e ps h pr iv os ist cs loc)
  let ?ty = "stmt_type (Block d e ps h pr iv os ist cs loc)"
  have k: "keeps (bindE (visit_program m plain_hooks ?ty ''program'' pr) (\<lambda>pr.
         bindE (visit_program m plain_hooks ?ty ''inverse'' iv) (\<lambda>iv. retE (Block d e ps h pr iv os ist cs loc))))
      (Block d e ps h pr iv os ist cs loc) (?ty # up)
      ((case pr of None \<Rightarrow> [] | Some p \<Rightarrow> program_nodes (?ty # up) p)
        @ (case iv of None \<Rightarrow> [] | Some p \<Rightarrow> program_nodes (?ty # up) p) @ [])"
    by (rule keeps_bindE keeps_retE 3 [OF refl refl refl])+
  have "keeps (descend_stmt m plain_hooks (Block d e ps h pr iv os ist cs loc)) (Block d e ps h pr iv os ist cs loc)
      (?ty # up) (tl (call_nodes (?ty # up) e ps h) @ ((case pr of None \<Rightarrow> [] | Some p \<Rightarrow> program_nodes (?ty # up) p)
        @ (case iv of None \<Rightarrow> [] | Some p \<Rightarrow> program_nodes (?ty # up) p) @ []))"
    unfolding descend_stmt.simps Let_def
    by (rule keeps_bindE, rule visitSubExpression_keeps) (use k in simp)
  then show ?case
    by (simp add: Let_def call_nodes_def del: stmt_type.simps descend_stmt.simps)
next
  case (4 m e ps h ind s loc)
  have "keeps (descend_stmt m plain_hooks (Partial e ps h ind s loc)) (Partial e ps h ind s loc)
      (''PartialStatement'' # up) (tl (call_nodes (''PartialStatement'' # up) e ps h) @ [])"
    unfolding descend_stmt.simps by (rule keeps_bindE, rule visitSubExpression_keeps) simp
  then show ?case
    by simp
next
  case (5 m e ps h pr os cs loc)
  let ?up = "''PartialBlockStatement'' # up"
  have "keeps (bindE (visit_program m plain_hooks ''PartialBlockStatement'' ''program'' (Some pr)) (\<lambda>r.
       case r of None \<Rightarrow> throwE (type_error ''partial block without program'')
       | Some pr \<Rightarrow> retE (PartialBlock e ps h pr os cs loc))) (PartialBlock e ps h pr os cs loc) ?up
      (program_nodes ?up pr)"
    by (rule keeps_then [where x = "Some pr"]) (use 5 [OF refl refl, of ?up] in simp_all)
  then have "keeps (descend_stmt m plain_hooks (PartialBlock e ps h pr os cs loc)) (PartialBlock e ps h pr os cs loc) ?up
      (tl (call_nodes ?up e ps h) @ program_nodes ?up pr)"
    unfolding descend_stmt.simps by - (rule keeps_bindE, rule visitSubExpression_keeps, simp)
  then show ?case
    by (simp add: call_nodes_def)
next
  case (9 m i st sts)
  show ?case
    unfolding visit_body.simps list.map concat.simps by (rule keeps_bindE keeps_item 9)+
next
  case (11 m pty name b bp c loc)
  have "keeps (bindE (visit_body m plain_hooks 0 b) (\<lambda>b. retE (Program b bp c loc))) (Program b bp c loc)
      (''Program'' # up) (concat (map (stmt_nodes (''Program'' # up)) b) @ [])"
    by (rule keeps_bindE keeps_retE 11)+
  then show ?case
    by (simp add: keeps_acceptKey)
qed simp_all

text \<open>C26: a visitor that overrides nothing accepts every node of a tree exactly once, in the order of the
  text and with the right \<open>parents\<close>; it comes back to where it started and, mutating or not, leaves
  the tree as it is.\<close>

theorem visitor_accepts_all:
  "accept_tree m plain_hooks p new_visitor =
     (Inr (if m then Gave p else Descend), new_visitor\<lparr>v_accepted := program_nodes [] p\<rparr>)"
proof -
  obtain b bp c loc where p: "p = Program b bp c loc"
    by (cases p)
  let ?v = "enter_node ''Program'' new_visitor"
  have v: "at ?v = [''Program'']" "v_current ?v \<noteq> None"
    by (simp_all add: enter_node_def new_visitor_def at_def Let_def)
  have "visit_body m plain_hooks 0 b ?v = (Inr b, accepted (concat (map (stmt_nodes [''Program'']) b)) ?v)"
    using visit_stmt_keeps(3) [of m 0 b "[''Program'']"] v unfolding keeps_def by blast
  then show ?thesis
    by (simp add: accept_tree_def p accept_node_def bindE_def effect_defs)
      (simp add: enter_node_def leave_node_def new_visitor_def accepted_def Let_def)
qed

text \<open>A mutating visitor whose method returns \<open>false\<close> for some statements of a body removes exactly
  these, although it changes the array it runs over.\<close>

lemma visitor_removes:
  "\<exists>v'. visit_body True (plain_hooks\<lparr>on_stmt := \<lambda>st. if P st then GaveFalse else GaveUndefined\<rparr>) i b v =
     (Inr (filter (\<lambda>st. \<not> P st) b), v')"
proof (induction b arbitrary: i v)
  case Nil
  show ?case by (simp add: retE_def)
next
  case (Cons st b)
  let ?hk = "plain_hooks\<lparr>on_stmt := \<lambda>st. if P st then GaveFalse else GaveUndefined\<rparr>"
  obtain v1 where v1: "visit_stmt True ?hk ''undefined'' (show_nat i) st v = (Inr (if P st then None else Some st), v1)"
    by (simp add: acceptKey_def accept_node_def bindE_def effect_defs)
  show ?case
  proof (cases "P st")
    case True
    obtain v' where "visit_body True ?hk i b v1 = (Inr (filter (\<lambda>st. \<not> P st) b), v')"
      using Cons.IH by blast
    then show ?thesis
      using v1 True by (simp add: bindE_def keep_item_def del: visit_stmt.simps)
  next
    case False
    obtain v' where "visit_body True ?hk (Suc i) b v1 = (Inr (filter (\<lambda>st. \<not> P st) b), v')"
      using Cons.IH by blast
    then show ?thesis
      using v1 False by (simp add: bindE_def keep_item_def retE_def del: visit_stmt.simps)
  qed
qed

end
