(* ===== verification/JqCallbacks.thy ===== *)
theory JqCallbacks
  imports JsPrelude
begin

text \<open>
  \<open>jQuery.Callbacks\<close> (\<open>lib/jquery.js\<close>): the list of functions behind \<open>$(function)\<close>, \<open>Deferred\<close> and
  the queues. The variables of the closure are the fields of a record. A callback is a value that the
  list compares and hands out; calling it is the business of whoever runs the list, because a callback
  may use any list again while it runs. Between two calls the loops of \<open>fire\<close> are the
  function \<open>fire_next\<close>.
\<close>

section \<open>Options\<close>

record cb_options =
  opt_once :: bool
  opt_memory :: bool
  opt_unique :: bool
  opt_stopOnFalse :: bool

text \<open>\<open>createOptions\<close>: the words of the string. A flag that the list does not read is dropped.\<close>

lemma length_word_tail:
  assumes "dropWhile is_space s \<noteq> []"
  shows "length (dropWhile (\<lambda>c. \<not> is_space c) (dropWhile is_space s)) < length s"
proof -
  obtain c t where t: "dropWhile is_space s = c # t" and c: "\<not> is_space c"
    using assms hd_dropWhile [OF assms] by (cases "dropWhile is_space s") auto
  have "length (dropWhile (\<lambda>c. \<not> is_space c) t) \<le> length t"
    by (rule length_dropWhile_le)
  moreover have "length (dropWhile is_space s) \<le> length s"
    by (rule length_dropWhile_le)
  ultimately show ?thesis
    using c by (simp add: t)
qed

function text_words :: "string \<Rightarrow> string list" where
  "text_words s =
     (let s = dropWhile is_space s
      in if s = [] then [] else takeWhile (\<lambda>c. \<not> is_space c) s # text_words (dropWhile (\<lambda>c. \<not> is_space c) s))"
  by pat_completeness auto
termination
  by (relation "measure length") (simp_all add: length_word_tail del: dropWhile_eq_Nil_conv)

declare text_words.simps [simp del]

definition createOptions :: "string \<Rightarrow> cb_options" where
  "createOptions s =
     (let ws = text_words s
      in \<lparr>opt_once = (''once'' \<in> set ws), opt_memory = (''memory'' \<in> set ws),
          opt_unique = (''unique'' \<in> set ws), opt_stopOnFalse = (''stopOnFalse'' \<in> set ws)\<rparr>)"

section \<open>The list\<close>

text \<open>
  \<open>memory\<close> is \<open>None\<close> where the variable is \<open>undefined\<close>, \<open>false\<close> or the empty string; \<open>callbacks\<close> is \<open>None\<close>
  where the variable \<open>list\<close> is the empty string of a list that is spent. \<open>locked\<close> is its truth value.
\<close>

record ('c, 'v) cblist =
  options :: cb_options
  firing :: bool
  memory :: "'v option"
  fired :: bool
  locked :: bool
  callbacks :: "'c list option"
  queue :: "'v list"
  firingIndex :: int

definition Callbacks :: "cb_options \<Rightarrow> ('c, 'v) cblist" where
  "Callbacks opts = \<lparr>options = opts, firing = False, memory = None, fired = False, locked = False,
     callbacks = Some [], queue = [], firingIndex = -1\<rparr>"

definition items :: "('c, 'v) cblist \<Rightarrow> 'c list" where
  "items l = (case callbacks l of None \<Rightarrow> [] | Some cs \<Rightarrow> cs)"

section \<open>Firing\<close>

text \<open>The start of \<open>fire\<close>; the head of the outer loop, which takes the next value; and its end.\<close>

definition fire_begin :: "('c, 'v) cblist \<Rightarrow> ('c, 'v) cblist" where
  "fire_begin l = l\<lparr>locked := opt_once (options l), fired := True, firing := True\<rparr>"

definition fire_end :: "('c, 'v) cblist \<Rightarrow> ('c, 'v) cblist" where
  "fire_end l =
     (let l = (if opt_memory (options l) then l else l\<lparr>memory := None\<rparr>);
          l = l\<lparr>firing := False\<rparr>
      in if locked l then l\<lparr>callbacks := (if memory l \<noteq> None then Some [] else None)\<rparr> else l)"

text \<open>
  The loops up to the next call: either a callback with the value that \<open>memory\<close> holds, or the end.
  The head of the outer loop shifts the queue, and its step resets \<open>firingIndex\<close>.
\<close>

definition inner_next :: "('c, 'v) cblist \<Rightarrow> 'c option \<times> ('c, 'v) cblist" where
  "inner_next l =
     (let l = l\<lparr>firingIndex := firingIndex l + 1\<rparr>
      in if firingIndex l < int (length (items l)) then (Some (items l ! nat (firingIndex l)), l) else (None, l))"

fun outer_next :: "'v list \<Rightarrow> ('c, 'v) cblist \<Rightarrow> 'c option \<times> ('c, 'v) cblist" where
  "outer_next [] l = (None, l)"
| "outer_next (v # q) l =
     (case inner_next (l\<lparr>memory := Some v, queue := q\<rparr>) of
        (Some c, l) \<Rightarrow> (Some c, l)
      | (None, l) \<Rightarrow> outer_next q (l\<lparr>firingIndex := -1\<rparr>))"

text \<open>\<open>fire_first\<close> enters the loops, \<open>fire_next\<close> goes on after a callback has returned.\<close>

definition fire_first :: "('c, 'v) cblist \<Rightarrow> 'c option \<times> ('c, 'v) cblist" where
  "fire_first l = outer_next (queue l) l"

definition fire_next :: "('c, 'v) cblist \<Rightarrow> 'c option \<times> ('c, 'v) cblist" where
  "fire_next l =
     (case inner_next l of
        (Some c, l) \<Rightarrow> (Some c, l)
      | (None, l) \<Rightarrow> outer_next (queue l) (l\<lparr>firingIndex := -1\<rparr>))"

text \<open>What a callback that returned \<open>false\<close> does to its list.\<close>

definition returned_false :: "('c, 'v) cblist \<Rightarrow> ('c, 'v) cblist" where
  "returned_false l =
     (if opt_stopOnFalse (options l) then l\<lparr>firingIndex := int (length (items l)), memory := None\<rparr> else l)"

section \<open>The methods\<close>

text \<open>
  The arguments of \<open>add\<close>: functions, arrays of such arguments, and other values, which are ignored.
\<close>

datatype 'c cbarg = Fn 'c | Arr "'c cbarg list" | NoFn

fun cbarg_fns :: "'c cbarg \<Rightarrow> 'c list" where
  "cbarg_fns (Fn c) = [c]"
| "cbarg_fns (Arr xs) = concat (map cbarg_fns xs)"
| "cbarg_fns NoFn = []"

definition has_callback :: "('c, 'v) cblist \<Rightarrow> 'c option \<Rightarrow> bool" where
  "has_callback l c = (case c of Some c \<Rightarrow> c \<in> set (items l) | None \<Rightarrow> items l \<noteq> [])"

fun push_arg :: "'c cbarg \<Rightarrow> ('c, 'v) cblist \<Rightarrow> ('c, 'v) cblist"
  and push_args :: "'c cbarg list \<Rightarrow> ('c, 'v) cblist \<Rightarrow> ('c, 'v) cblist" where
  "push_arg (Fn c) l =
     (if \<not> opt_unique (options l) \<or> \<not> has_callback l (Some c) then l\<lparr>callbacks := Some (items l @ [c])\<rparr> else l)"
| "push_arg (Arr xs) l = push_args xs l"
| "push_arg NoFn l = l"
| "push_args [] l = l"
| "push_args (x # xs) l = push_args xs (push_arg x l)"

text \<open>\<open>add\<close> and \<open>fireWith\<close> also say whether \<open>fire\<close> is called.\<close>

definition add :: "'c cbarg list \<Rightarrow> ('c, 'v) cblist \<Rightarrow> ('c, 'v) cblist \<times> bool" where
  "add args l =
     (case callbacks l of
        None \<Rightarrow> (l, False)
      | Some cs \<Rightarrow>
          let l = (case memory l of
                None \<Rightarrow> l
              | Some v \<Rightarrow> if firing l then l
                  else l\<lparr>firingIndex := int (length cs) - 1, queue := queue l @ [v]\<rparr>);
              l = push_args args l
          in (l, memory l \<noteq> None \<and> \<not> firing l))"

definition fireWith :: "'v \<Rightarrow> ('c, 'v) cblist \<Rightarrow> ('c, 'v) cblist \<times> bool" where
  "fireWith v l = (if locked l then (l, False) else (l\<lparr>queue := queue l @ [v]\<rparr>, \<not> firing l))"

text \<open>\<open>remove\<close> of one function: the search goes on where the last one was found.\<close>

fun index_from :: "'c \<Rightarrow> nat \<Rightarrow> 'c list \<Rightarrow> nat option" where
  "index_from c i [] = None"
| "index_from c 0 (x # xs) = (if x = c then Some 0 else map_option Suc (index_from c 0 xs))"
| "index_from c (Suc i) (x # xs) = map_option Suc (index_from c i xs)"

lemma index_from_Some: "index_from c i xs = Some j \<Longrightarrow> i \<le> j \<and> j < length xs \<and> xs ! j = c"
  by (induction c i xs arbitrary: j rule: index_from.induct) (auto split: if_splits)

function remove_loop :: "'c \<Rightarrow> nat \<Rightarrow> 'c list \<Rightarrow> int \<Rightarrow> 'c list \<times> int" where
  "remove_loop c i cs fi =
     (case index_from c i cs of
        None \<Rightarrow> (cs, fi)
      | Some j \<Rightarrow> remove_loop c j (take j cs @ drop (Suc j) cs) (if int j \<le> fi then fi - 1 else fi))"
  by pat_completeness auto
termination
  by (relation "measure (\<lambda>(c, i, cs, fi). length cs)") (auto dest!: index_from_Some)

declare remove_loop.simps [simp del]

definition remove_one :: "'c \<Rightarrow> ('c, 'v) cblist \<Rightarrow> ('c, 'v) cblist" where
  "remove_one c l =
     (case callbacks l of
        None \<Rightarrow> l
      | Some cs \<Rightarrow> let (cs, fi) = remove_loop c 0 cs (firingIndex l) in l\<lparr>callbacks := Some cs, firingIndex := fi\<rparr>)"

definition remove :: "'c list \<Rightarrow> ('c, 'v) cblist \<Rightarrow> ('c, 'v) cblist" where
  "remove cs l = fold remove_one cs l"

definition empty :: "('c, 'v) cblist \<Rightarrow> ('c, 'v) cblist" where
  "empty l = (if callbacks l \<noteq> None then l\<lparr>callbacks := Some []\<rparr> else l)"

definition disable :: "('c, 'v) cblist \<Rightarrow> ('c, 'v) cblist" where
  "disable l = l\<lparr>locked := True, queue := [], callbacks := None, memory := None\<rparr>"

definition disabled :: "('c, 'v) cblist \<Rightarrow> bool" where
  "disabled l \<longleftrightarrow> callbacks l = None"

definition lock :: "('c, 'v) cblist \<Rightarrow> ('c, 'v) cblist" where
  "lock l = (let l = l\<lparr>locked := True\<rparr> in if memory l = None then disable l else l)"

section \<open>Removing while the list fires\<close>

lemma index_from_None: "index_from c i xs = None \<longleftrightarrow> c \<notin> set (drop i xs)"
  by (induction c i xs rule: index_from.induct) auto

lemma index_from_least: "index_from c i xs = Some j \<Longrightarrow> i \<le> k \<Longrightarrow> k < j \<Longrightarrow> xs ! k \<noteq> c"
proof (induction c i xs arbitrary: j k rule: index_from.induct)
  case (2 c x xs)
  then show ?case by (cases k) (auto split: if_splits)
next
  case (3 c i x xs)
  then show ?case by (cases k) auto
qed simp

lemma take_delete: "j < length cs \<Longrightarrow> take n (take j cs @ drop (Suc j) cs) = (if n \<le> j then take n cs else take j cs @ drop (Suc j) (take (Suc n) cs))"
  by (simp add: drop_take min_def)

lemma count_take_delete:
  assumes "j < length cs" and "cs ! j = c"
  shows "length (filter ((=) c) (take (Suc n) cs)) =
    length (filter ((=) c) (take (if j \<le> n then n else Suc n) (take j cs @ drop (Suc j) cs))) + (if j \<le> n then 1 else 0)"
proof (cases "j \<le> n")
  case True
  obtain R where R: "drop (Suc j) (take (Suc n) cs) = R" by simp
  have "take (Suc n) cs = take j cs @ c # R"
    using id_take_nth_drop [of j "take (Suc n) cs"] True assms R by (simp add: min_def)
  moreover have "take n (take j cs @ drop (Suc j) cs) = take j cs @ R"
    using True assms by (auto simp: take_delete drop_take R [symmetric])
  ultimately show ?thesis using True by simp
next
  case False
  then show ?thesis using assms by (simp add: take_delete)
qed

text \<open>\<open>remove\<close> takes every copy out and moves the index back by those before it.\<close>

lemma remove_loop_result:
  assumes "c \<notin> set (take i cs)" and "-1 \<le> fi"
  shows "remove_loop c i cs fi = (filter (\<lambda>x. x \<noteq> c) cs, fi - int (length (filter ((=) c) (take (nat (fi + 1)) cs))))"
  using assms
proof (induction c i cs fi rule: remove_loop.induct)
  case (1 c i cs fi)
  show ?case
  proof (cases "index_from c i cs")
    case None
    then have "c \<notin> set cs"
      using 1(2) by (metis Un_iff append_take_drop_id index_from_None set_append)
    then have "filter (\<lambda>x. x \<noteq> c) cs = cs" "filter ((=) c) (take n cs) = []" for n
      by (auto simp: filter_id_conv filter_empty_conv dest: in_set_takeD)
    with None show ?thesis by (simp add: remove_loop.simps [of c i cs])
  next
    case (Some j)
    let ?cs = "take j cs @ drop (Suc j) cs"
    let ?fi = "if int j \<le> fi then fi - 1 else fi"
    have j: "i \<le> j" "j < length cs" "cs ! j = c"
      using index_from_Some [OF Some] by simp_all
    have "c \<notin> set (take j cs)"
    proof
      assume "c \<in> set (take j cs)"
      then obtain k where k: "k < j" "cs ! k = c"
        by (auto simp: in_set_conv_nth)
      show False
      proof (cases "k < i")
        case True
        with k j have "c \<in> set (take i cs)" by (auto simp: in_set_conv_nth intro!: exI [of _ k])
        with 1(2) show False by simp
      next
        case False
        with k index_from_least [OF Some, of k] show False by simp
      qed
    qed
    then have nj: "c \<notin> set (take j ?cs)" using j by simp
    have fi: "-1 \<le> ?fi" using 1(3) by auto
    have split: "cs = take j cs @ c # drop (Suc j) cs"
      using id_take_nth_drop [OF j(2)] j(3) by simp
    then have filt: "filter (\<lambda>x. x \<noteq> c) ?cs = filter (\<lambda>x. x \<noteq> c) cs"
      by (metis (mono_tags, lifting) filter.simps(2) filter_append)
    have count: "?fi - int (length (filter ((=) c) (take (nat (?fi + 1)) ?cs)))
        = fi - int (length (filter ((=) c) (take (nat (fi + 1)) cs)))"
    proof (cases "fi = -1")
      case True
      then show ?thesis by simp
    next
      case False
      with 1(3) have "0 \<le> fi" by simp
      then obtain n where n: "fi = int n" by (rule nonneg_int_cases)
      have "nat (fi + 1) = Suc n" "nat (?fi + 1) = (if j \<le> n then n else Suc n)"
        and fis: "?fi = fi - (if j \<le> n then 1 else 0)"
        using n by auto
      moreover have "fi - (if b then 1 else 0) - int k = fi - int (k + (if b then 1 else 0))" for b k
        by simp
      ultimately show ?thesis
        by (simp only: fis count_take_delete [OF j(2,3), of n])
    qed
    have "remove_loop c i cs fi = remove_loop c j ?cs ?fi"
      using Some by (simp add: remove_loop.simps [of c i cs])
    also have "\<dots> = (filter (\<lambda>x. x \<noteq> c) ?cs, ?fi - int (length (filter ((=) c) (take (nat (?fi + 1)) ?cs))))"
      by (rule 1(1) [OF Some nj fi])
    finally show ?thesis by (simp only: filt count)
  qed
qed

lemma drop_filter_count:
  "drop (n - length (filter ((=) c) (take n cs))) (filter (\<lambda>x. x \<noteq> c) cs) = filter (\<lambda>x. x \<noteq> c) (drop n cs)"
proof -
  have sum: "length (filter ((=) c) xs) + length (filter (\<lambda>x. x \<noteq> c) xs) = length xs" for xs
    using sum_length_filter_compl [of "(=) c" xs] by (simp add: eq_commute [of c])
  have eq: "filter (\<lambda>x. x \<noteq> c) cs = filter (\<lambda>x. x \<noteq> c) (take n cs) @ filter (\<lambda>x. x \<noteq> c) (drop n cs)"
    by (simp flip: filter_append)
  show ?thesis
  proof (cases "n \<le> length cs")
    case True
    with sum [of "take n cs"] have "n - length (filter ((=) c) (take n cs)) = length (filter (\<lambda>x. x \<noteq> c) (take n cs))"
      by simp
    then show ?thesis by (subst eq) simp
  next
    case False
    with sum [of cs] show ?thesis by simp
  qed
qed

lemma remove_one_result:
  assumes "callbacks l = Some cs" and "-1 \<le> firingIndex l"
  shows "callbacks (remove_one c l) = Some (filter (\<lambda>x. x \<noteq> c) cs)"
    and "drop (nat (firingIndex (remove_one c l) + 1)) (filter (\<lambda>x. x \<noteq> c) cs)
      = filter (\<lambda>x. x \<noteq> c) (drop (nat (firingIndex l + 1)) cs)"
    and "-1 \<le> firingIndex (remove_one c l)"
proof -
  let ?n = "nat (firingIndex l + 1)"
  let ?k = "length (filter ((=) c) (take ?n cs))"
  have r: "remove_one c l = l\<lparr>callbacks := Some (filter (\<lambda>x. x \<noteq> c) cs), firingIndex := firingIndex l - int ?k\<rparr>"
    using assms by (simp add: remove_one_def remove_loop_result)
  have k: "?k \<le> ?n"
    using length_filter_le [of "(=) c" "take ?n cs"] by simp
  then have "nat (firingIndex l - int ?k + 1) = ?n - ?k"
    by simp
  with drop_filter_count [of ?n c cs] show "drop (nat (firingIndex (remove_one c l) + 1)) (filter (\<lambda>x. x \<noteq> c) cs)
      = filter (\<lambda>x. x \<noteq> c) (drop ?n cs)"
    by (simp add: r)
  show "callbacks (remove_one c l) = Some (filter (\<lambda>x. x \<noteq> c) cs)" and "-1 \<le> firingIndex (remove_one c l)"
    using k assms(2) by (simp_all add: r)
qed

text \<open>C32: removing functions takes every copy of them out of the list and nothing else, and corrects the index
  of a running loop: what is still to be called is what was to be called before, without the removed
  functions, and the index stays at least \<open>-1\<close>.\<close>

theorem remove_keeps_pending:
  assumes "callbacks l = Some cs" and "-1 \<le> firingIndex l"
  shows "callbacks (remove fs l) = Some (filter (\<lambda>x. x \<notin> set fs) cs)
    \<and> drop (nat (firingIndex (remove fs l) + 1)) (items (remove fs l))
        = filter (\<lambda>x. x \<notin> set fs) (drop (nat (firingIndex l + 1)) cs)
    \<and> -1 \<le> firingIndex (remove fs l)"
  using assms
proof (induction fs arbitrary: l cs)
  case Nil
  then show ?case by (simp add: remove_def items_def)
next
  case (Cons f fs)
  note one = remove_one_result [OF Cons.prems, of f]
  have "remove (f # fs) l = remove fs (remove_one f l)" by (simp add: remove_def)
  with Cons.IH [OF one(1,3)] one(2) show ?case
    by (simp add: conj_commute)
qed

theorem remove_keeps_pending_witness:
  "let l = remove [1, 2] \<lparr>options = createOptions ''unique'', firing = True, memory = Some (), fired = True, locked = False,
       callbacks = Some [1, 3, 1, 2, 4, 1, 5], queue = [], firingIndex = 3\<rparr>
   in firingIndex l = 0 \<and> callbacks l = Some [3, 4, 5::nat] \<and> drop 1 (items l) = [4, 5]"
proof -
  let ?l = "\<lparr>options = createOptions ''unique'', firing = True, memory = Some (), fired = True, locked = False,
       callbacks = Some [1, 3, 1, 2, 4, 1, 5], queue = [], firingIndex = 3\<rparr> :: (nat, unit) cblist"
  have "firingIndex (remove [1, 2] ?l) = 0" by code_simp
  with remove_keeps_pending [of ?l "[1, 3, 1, 2, 4, 1, 5]" "[1, 2]"] show ?thesis
    by (simp add: Let_def)
qed

end
