(* ===== verification/JqDeferred.thy ===== *)
theory JqDeferred
  imports JqCallbacks
begin

text \<open>
  \<open>jQuery.Deferred\<close> (\<open>lib/jquery.js\<close>) and the execution of callback lists. Callbacks may use any
  list or deferred again while they run, return, or throw; so the program is a machine with an explicit stack of
  the running \<open>fire\<close> loops and functions. The functions of the page are arbitrary: \<open>enter\<close> gives the
  state in which a function starts, and \<open>code\<close> what it does next in a state, which may depend on
  everything the machine holds. Both are parameters.
\<close>

section \<open>Values, callbacks and deferreds\<close>

text \<open>The three tuples of a deferred; the third has no final state.\<close>

datatype part = Resolve | Reject | Notify

text \<open>
  The values that the code tells apart. \<open>Contexts w b\<close> is one of the two arrays of contexts that call
  \<open>w\<close> of \<open>when\<close> keeps changing.
\<close>

datatype 'a jv = Undef | FalseV | Other 'a | PromiseV nat | DeferredV nat | ArrV "'a jv list" | Contexts nat bool

type_synonym 'a firing_value = "'a jv \<times> 'a jv list"

text \<open>
  The functions in the lists: those of the page; the three that every deferred puts into its first two
  lists; the methods \<open>resolve\<close>, \<open>reject\<close> and \<open>notify\<close>; the closure that \<open>then\<close> adds, with the
  function it was given, its deferred and the new one; and the closure of \<open>updateFunc\<close>.
\<close>

datatype 'f cb =
    User 'f
  | SetState nat part
  | DisableList nat part
  | LockProgress nat
  | Settle nat part
  | Forward "'f option" nat nat part
  | Update nat nat bool

record ('f, 'a) deferred =
  d_state :: "part option"
  d_list :: "part \<Rightarrow> ('f cb, 'a firing_value) cblist"

fun counterpart :: "part \<Rightarrow> part" where
  "counterpart Resolve = Reject"
| "counterpart Reject = Resolve"
| "counterpart Notify = Notify"

definition tuple_options :: "part \<Rightarrow> cb_options" where
  "tuple_options p = createOptions (if p = Notify then ''memory'' else ''once memory'')"

text \<open>\<open>Deferred\<close>: the lists with what is added to them at once.\<close>

definition settle_fns :: "nat \<Rightarrow> part \<Rightarrow> 'f cb list" where
  "settle_fns d p = [SetState d p, DisableList d (counterpart p), LockProgress d]"

definition Deferred :: "nat \<Rightarrow> ('f, 'a) deferred" where
  "Deferred d = \<lparr>d_state = None,
     d_list = \<lambda>p. if p = Notify then Callbacks (tuple_options p)
       else fst (add (map Fn (settle_fns d p)) (Callbacks (tuple_options p)))\<rparr>"

section \<open>The machine\<close>

text \<open>A list of the page's own, or one of a deferred.\<close>

datatype addr = Raw nat | Part nat part

text \<open>
  What is left to do by the library's own code between calls: additions to lists, as in \<open>then\<close>, \<open>always\<close>
  and \<open>when\<close>, \<open>--remaining\<close> for a value that is no promise, and the end of \<open>when\<close>.
\<close>

datatype 'f todo = TAdd addr "'f cb cbarg list" | TSkip nat | TWhen nat

text \<open>Where the value of a function goes: nowhere, to a loop of \<open>fire\<close>, or to the closure of \<open>then\<close>.\<close>

datatype 'a kont = Main | Plain addr | Chain nat nat part "'a jv"

datatype ('f, 'u, 'a) frame = Firing addr bool | Running 'u "'a kont" | Todo "'f todo list"

record 'a when_call =
  w_master :: nat
  w_remaining :: int
  w_values :: "'a jv list"
  w_contexts :: "'a jv list"
  w_progressValues :: "'a jv list"
  w_progressContexts :: "'a jv list"

record ('f, 'u, 'a) machine =
  raws :: "('f cb, 'a firing_value) cblist list"
  deferreds :: "('f, 'a) deferred list"
  whens :: "'a when_call list"
  stack :: "('f, 'u, 'a) frame list"

datatype ('f, 'a) op =
    NewCallbacks cb_options
  | Add nat "'f cbarg list"
  | Remove nat "'f list"
  | Empty nat
  | Disable nat
  | Lock nat
  | FireWith nat "'a jv" "'a jv list"
  | NewDeferred
  | DAdd nat part "'f cbarg list"
  | DFireWith nat part "'a jv" "'a jv list"
  | DFire nat part "'a jv" "'a jv list"
  | Always nat "'f cbarg list"
  | Then nat "'f option" "'f option" "'f option"
  | When "'a jv list"

datatype ('f, 'u, 'a) action = Do "('f, 'a) op" 'u | Return "'a jv" | Throw

text \<open>What can be seen of a run: additions to lists, calls from lists, and exceptions.\<close>

datatype ('f, 'a) event = Added addr "'f cb list" | Called addr "'f cb" "'a firing_value" | Threw

fun list_at :: "('f, 'u, 'a) machine \<Rightarrow> addr \<Rightarrow> ('f cb, 'a firing_value) cblist" where
  "list_at m (Raw i) = raws m ! i"
| "list_at m (Part d p) = d_list (deferreds m ! d) p"

fun put_list :: "addr \<Rightarrow> ('f cb, 'a firing_value) cblist \<Rightarrow> ('f, 'u, 'a) machine \<Rightarrow> ('f, 'u, 'a) machine" where
  "put_list (Raw i) l m = m\<lparr>raws := (raws m)[i := l]\<rparr>"
| "put_list (Part d p) l m =
     m\<lparr>deferreds := (deferreds m)[d := (deferreds m ! d)\<lparr>d_list := (d_list (deferreds m ! d))(p := l)\<rparr>]\<rparr>"

declare list_at.simps [simp del] and put_list.simps [simp del]

definition push_frame :: "('f, 'u, 'a) frame \<Rightarrow> ('f, 'u, 'a) machine \<Rightarrow> ('f, 'u, 'a) machine" where
  "push_frame f m = m\<lparr>stack := f # stack m\<rparr>"

text \<open>\<open>add\<close> and \<open>fireWith\<close> on a list of the machine; a call of \<open>fire\<close> becomes a frame.\<close>

definition start_fire :: "addr \<Rightarrow> ('f cb, 'a firing_value) cblist \<times> bool \<Rightarrow> ('f, 'u, 'a) machine \<Rightarrow> ('f, 'u, 'a) machine" where
  "start_fire A r m =
     (case r of (l, starts) \<Rightarrow>
        if starts then push_frame (Firing A True) (put_list A (fire_begin l) m) else put_list A l m)"

definition do_add :: "addr \<Rightarrow> 'f cb cbarg list \<Rightarrow> ('f, 'u, 'a) machine
    \<Rightarrow> ('f, 'a) event list \<times> ('f, 'u, 'a) machine" where
  "do_add A args m = ([Added A (concat (map cbarg_fns args))], start_fire A (add args (list_at m A)) m)"

definition do_fire :: "addr \<Rightarrow> 'a firing_value \<Rightarrow> ('f, 'u, 'a) machine \<Rightarrow> ('f, 'u, 'a) machine" where
  "do_fire A v m = start_fire A (fireWith v (list_at m A)) m"

section \<open>Calling a callback\<close>

definition is_promise :: "'a jv \<Rightarrow> nat option" where
  "is_promise v = (case v of PromiseV d \<Rightarrow> Some d | DeferredV d \<Rightarrow> Some d | _ \<Rightarrow> None)"

text \<open>\<open>this === promise ? newDefer.promise() : this\<close> and \<open>this === deferred ? promise : this\<close>.\<close>

definition new_this :: "nat \<Rightarrow> nat \<Rightarrow> 'a jv \<Rightarrow> 'a jv" where
  "new_this src new this = (if this = PromiseV src then PromiseV new else this)"

definition own_this :: "nat \<Rightarrow> 'a jv \<Rightarrow> 'a jv" where
  "own_this d this = (if this = DeferredV d then PromiseV d else this)"

text \<open>The function that \<open>updateFunc\<close> returns.\<close>

definition update_value :: "'a jv list \<Rightarrow> 'a jv" where
  "update_value args = (if length args > 1 then ArrV args else case args of [] \<Rightarrow> Undef | v # _ \<Rightarrow> v)"

definition do_update :: "nat \<Rightarrow> nat \<Rightarrow> bool \<Rightarrow> 'a jv \<Rightarrow> 'a jv list \<Rightarrow> ('f, 'u, 'a) machine \<Rightarrow> ('f, 'u, 'a) machine" where
  "do_update w i progress this args m =
     (let x = whens m ! w
      in if progress then
           let x = x\<lparr>w_progressContexts := (w_progressContexts x)[i := this],
                     w_progressValues := (w_progressValues x)[i := update_value args]\<rparr>
           in do_fire (Part (w_master x) Notify) (Contexts w True, w_progressValues x) (m\<lparr>whens := (whens m)[w := x]\<rparr>)
         else
           let x = x\<lparr>w_contexts := (w_contexts x)[i := this], w_values := (w_values x)[i := update_value args],
                     w_remaining := w_remaining x - 1\<rparr>;
               m = m\<lparr>whens := (whens m)[w := x]\<rparr>
           in if w_remaining x = 0 then do_fire (Part (w_master x) Resolve) (Contexts w False, w_values x) m else m)"

text \<open>A call from the list at \<open>A\<close>, whose \<open>memory\<close> holds the value.\<close>

definition call_cb :: "('f \<Rightarrow> 'a jv \<Rightarrow> 'a jv list \<Rightarrow> 'u) \<Rightarrow> addr \<Rightarrow> 'f cb \<Rightarrow> 'a firing_value
    \<Rightarrow> ('f, 'u, 'a) machine \<Rightarrow> ('f, 'u, 'a) machine" where
  "call_cb enter A c v m =
     (case v of (this, args) \<Rightarrow>
        (case c of
           User f \<Rightarrow> push_frame (Running (enter f this args) (Plain A)) m
         | SetState d p \<Rightarrow> m\<lparr>deferreds := (deferreds m)[d := (deferreds m ! d)\<lparr>d_state := Some p\<rparr>]\<rparr>
         | DisableList d p \<Rightarrow> put_list (Part d p) (disable (list_at m (Part d p))) m
         | LockProgress d \<Rightarrow> put_list (Part d Notify) (lock (list_at m (Part d Notify))) m
         | Settle d p \<Rightarrow> do_fire (Part d p) (own_this d this, args) m
         | Forward fn src new p \<Rightarrow>
             (case fn of
                None \<Rightarrow> do_fire (Part new p) (new_this src new this, args) m
              | Some f \<Rightarrow> push_frame (Running (enter f this args) (Chain src new p this)) m)
         | Update w i progress \<Rightarrow> do_update w i progress this args m))"

text \<open>The loops of \<open>fire\<close> on the list at \<open>A\<close> up to the next call, or to their end.\<close>

definition fire_step :: "('f \<Rightarrow> 'a jv \<Rightarrow> 'a jv list \<Rightarrow> 'u) \<Rightarrow> addr \<Rightarrow> bool \<Rightarrow> ('f, 'u, 'a) frame list
    \<Rightarrow> ('f, 'u, 'a) machine \<Rightarrow> ('f, 'a) event list \<times> ('f, 'u, 'a) machine" where
  "fire_step enter A fresh fs m =
     (case (if fresh then fire_first else fire_next) (list_at m A) of
        (None, l) \<Rightarrow> ([], put_list A (fire_end l) (m\<lparr>stack := fs\<rparr>))
      | (Some c, l) \<Rightarrow>
          let v = (case memory l of None \<Rightarrow> (Undef, []) | Some v \<Rightarrow> v)
          in ([Called A c v], call_cb enter A c v (put_list A l (m\<lparr>stack := Firing A False # fs\<rparr>))))"

section \<open>Operations of the page\<close>

definition new_deferred :: "('f, 'u, 'a) machine \<Rightarrow> ('f, 'u, 'a) machine" where
  "new_deferred m = m\<lparr>deferreds := deferreds m @ [Deferred (length (deferreds m))]\<rparr>"

text \<open>
  \<open>when\<close>: the closures for each subordinate that is a promise, and the count of the others.
  A call with a single promise returns that promise and creates nothing.
\<close>

definition when_adds :: "nat \<Rightarrow> nat \<Rightarrow> nat \<Rightarrow> 'a jv \<Rightarrow> 'f todo list" where
  "when_adds w master i v =
     (case is_promise v of
        None \<Rightarrow> [TSkip w]
      | Some d \<Rightarrow> [TAdd (Part d Notify) [Fn (Update w i True)], TAdd (Part d Resolve) [Fn (Update w i False)],
          TAdd (Part d Reject) [Fn (Settle master Reject)]])"

definition do_when :: "'a jv list \<Rightarrow> ('f, 'u, 'a) machine \<Rightarrow> ('f, 'u, 'a) machine" where
  "do_when vs m =
     (let n = length vs;
          count = (if n \<noteq> 1 \<or> is_promise (hd vs) \<noteq> None then n else 0)
      in if count = 1 then m
         else
           let w = length (whens m);
               master = length (deferreds m);
               x = \<lparr>w_master = master,
                    w_remaining = int count, w_values = vs, w_contexts = replicate n Undef,
                    w_progressValues = replicate n Undef, w_progressContexts = replicate n Undef\<rparr>;
               adds = (if n > 1 then concat (map (\<lambda>(i, v). when_adds w master i v) (enumerate 0 vs)) else [])
           in push_frame (Todo (adds @ [TWhen w])) ((new_deferred m)\<lparr>whens := whens m @ [x]\<rparr>))"

text \<open>The last test of \<open>when\<close>; without subordinates there is no array of contexts.\<close>

definition end_when :: "nat \<Rightarrow> ('f, 'u, 'a) machine \<Rightarrow> ('f, 'u, 'a) machine" where
  "end_when w m =
     (let x = whens m ! w
      in if w_remaining x = 0
         then do_fire (Part (w_master x) Resolve) (if length (w_values x) > 1 then Contexts w False else Undef, w_values x) m
         else m)"

definition user_args :: "'f cbarg list \<Rightarrow> 'f cb cbarg list" where
  "user_args = map (map_cbarg User)"

text \<open>Whether the lists and deferreds that a value or an operation uses exist.\<close>

definition jv_valid :: "('f, 'u, 'a) machine \<Rightarrow> 'a jv \<Rightarrow> bool" where
  "jv_valid m v = (case is_promise v of None \<Rightarrow> True | Some d \<Rightarrow> d < length (deferreds m))"

fun op_valid :: "('f, 'a) op \<Rightarrow> ('f, 'u, 'a) machine \<Rightarrow> bool" where
  "op_valid (Add i xs) m = (i < length (raws m))"
| "op_valid (Remove i fs) m = (i < length (raws m))"
| "op_valid (Empty i) m = (i < length (raws m))"
| "op_valid (Disable i) m = (i < length (raws m))"
| "op_valid (Lock i) m = (i < length (raws m))"
| "op_valid (FireWith i this args) m = (i < length (raws m))"
| "op_valid (DAdd d p xs) m = (d < length (deferreds m))"
| "op_valid (DFireWith d p this args) m = (d < length (deferreds m))"
| "op_valid (DFire d p this args) m = (d < length (deferreds m))"
| "op_valid (Always d xs) m = (d < length (deferreds m))"
| "op_valid (Then d f g h) m = (d < length (deferreds m))"
| "op_valid (When vs) m = list_all (jv_valid m) vs"
| "op_valid (NewCallbacks opts) m = True"
| "op_valid NewDeferred m = True"

text \<open>
  The operations. \<open>then\<close> makes a deferred and adds a closure to each of the three lists; the callbacks
  that \<open>always\<close> adds go to two lists.
\<close>

fun exec_op :: "('f, 'a) op \<Rightarrow> ('f, 'u, 'a) machine \<Rightarrow> ('f, 'a) event list \<times> ('f, 'u, 'a) machine" where
  "exec_op (NewCallbacks opts) m = ([], m\<lparr>raws := raws m @ [Callbacks opts]\<rparr>)"
| "exec_op (Add i xs) m = do_add (Raw i) (user_args xs) m"
| "exec_op (Remove i fs) m = ([], put_list (Raw i) (remove (map User fs) (list_at m (Raw i))) m)"
| "exec_op (Empty i) m = ([], put_list (Raw i) (empty (list_at m (Raw i))) m)"
| "exec_op (Disable i) m = ([], put_list (Raw i) (disable (list_at m (Raw i))) m)"
| "exec_op (Lock i) m = ([], put_list (Raw i) (lock (list_at m (Raw i))) m)"
| "exec_op (FireWith i this args) m = ([], do_fire (Raw i) (this, args) m)"
| "exec_op NewDeferred m = ([], new_deferred m)"
| "exec_op (DAdd d p xs) m = do_add (Part d p) (user_args xs) m"
| "exec_op (DFireWith d p this args) m = ([], do_fire (Part d p) (this, args) m)"
| "exec_op (DFire d p this args) m = ([], do_fire (Part d p) (own_this d this, args) m)"
| "exec_op (Always d xs) m =
     ([], push_frame (Todo [TAdd (Part d Resolve) (user_args xs), TAdd (Part d Reject) (user_args xs)]) m)"
| "exec_op (Then d fnDone fnFail fnProgress) m =
     (let new = length (deferreds m)
      in ([], push_frame (Todo [TAdd (Part d Resolve) [Fn (Forward fnDone d new Resolve)],
           TAdd (Part d Reject) [Fn (Forward fnFail d new Reject)],
           TAdd (Part d Notify) [Fn (Forward fnProgress d new Notify)]]) (new_deferred m)))"
| "exec_op (When vs) m = ([], do_when vs m)"

text \<open>A function has returned. The closure of \<open>then\<close> waits for a returned promise.\<close>

fun give_value :: "'a kont \<Rightarrow> 'a jv \<Rightarrow> ('f, 'u, 'a) machine \<Rightarrow> ('f, 'u, 'a) machine" where
  "give_value Main v m = m"
| "give_value (Plain A) v m = (if v = FalseV then put_list A (returned_false (list_at m A)) m else m)"
| "give_value (Chain src new p this) v m =
     (case is_promise v of
        Some d \<Rightarrow> push_frame (Todo [TAdd (Part d Notify) [Fn (Settle new Notify)],
            TAdd (Part d Resolve) [Fn (Settle new Resolve)], TAdd (Part d Reject) [Fn (Settle new Reject)]]) m
      | None \<Rightarrow> do_fire (Part new p) (new_this src new this, [v]) m)"

text \<open>
  An exception passes through the library, which catches nothing, up to a function of the page
  that does; \<open>catches\<close> gives the state in which that one goes on.
\<close>

fun unwind :: "('u \<Rightarrow> 'u option) \<Rightarrow> ('f, 'u, 'a) frame list \<Rightarrow> ('f, 'u, 'a) frame list" where
  "unwind catches [] = []"
| "unwind catches (Running u k # fs) =
     (case catches u of Some u' \<Rightarrow> Running u' k # fs | None \<Rightarrow> unwind catches fs)"
| "unwind catches (Firing A b # fs) = unwind catches fs"
| "unwind catches (Todo xs # fs) = unwind catches fs"

fun todo_step :: "'f todo \<Rightarrow> ('f, 'u, 'a) machine \<Rightarrow> ('f, 'a) event list \<times> ('f, 'u, 'a) machine" where
  "todo_step (TAdd A args) m = do_add A args m"
| "todo_step (TSkip w) m =
     ([], m\<lparr>whens := (whens m)[w := (whens m ! w)\<lparr>w_remaining := w_remaining (whens m ! w) - 1\<rparr>]\<rparr>)"
| "todo_step (TWhen w) m = ([], end_when w m)"

text \<open>What the functions of the page do.\<close>

record ('f, 'u, 'a) page =
  enter :: "'f \<Rightarrow> 'a jv \<Rightarrow> 'a jv list \<Rightarrow> 'u"
  code :: "'u \<Rightarrow> ('f, 'u, 'a) machine \<Rightarrow> ('f, 'u, 'a) action"
  catches :: "'u \<Rightarrow> 'u option"

text \<open>One step. A page cannot name lists or deferreds that do not exist.\<close>

definition step :: "('f, 'u, 'a) page \<Rightarrow> ('f, 'u, 'a) machine \<Rightarrow> ('f, 'a) event list \<times> ('f, 'u, 'a) machine" where
  "step pg m = (case stack m of
      [] \<Rightarrow> ([], m)
    | Firing A fresh # fs \<Rightarrow> fire_step (enter pg) A fresh fs m
    | Todo [] # fs \<Rightarrow> ([], m\<lparr>stack := fs\<rparr>)
    | Todo (x # xs) # fs \<Rightarrow> todo_step x (m\<lparr>stack := Todo xs # fs\<rparr>)
    | Running u k # fs \<Rightarrow> (case code pg u m of
          Do x u' \<Rightarrow> let m' = m\<lparr>stack := Running u' k # fs\<rparr> in if op_valid x m' then exec_op x m' else ([], m')
        | Return v \<Rightarrow> ([], give_value k (if jv_valid m v then v else Undef) (m\<lparr>stack := fs\<rparr>))
        | Throw \<Rightarrow> ([Threw], m\<lparr>stack := unwind (catches pg) fs\<rparr>)))"

definition new_machine :: "('f, 'u, 'a) machine" where
  "new_machine = \<lparr>raws = [], deferreds = [], whens = [], stack = []\<rparr>"

text \<open>
  The runs of a page. When nothing runs, the browser may call any function of the page.
\<close>

inductive runs :: "('f, 'u, 'a) page \<Rightarrow> ('f, 'u, 'a) machine \<Rightarrow> ('f, 'a) event list \<Rightarrow> ('f, 'u, 'a) machine \<Rightarrow> bool"
  for pg m0 where
  here: "runs pg m0 [] m0"
| turn: "runs pg m0 tr m \<Longrightarrow> stack m = [] \<Longrightarrow> runs pg m0 tr (m\<lparr>stack := [Running u Main]\<rparr>)"
| steps: "runs pg m0 tr m \<Longrightarrow> step pg m = (es, m') \<Longrightarrow> runs pg m0 (tr @ es) m'"

abbreviation reaches :: "('f, 'u, 'a) page \<Rightarrow> ('f, 'a) event list \<Rightarrow> ('f, 'u, 'a) machine \<Rightarrow> bool" where
  "reaches pg \<equiv> runs pg new_machine"

section \<open>Lists of a deferred\<close>

lemma tuple_options [simp]:
  "opt_once (tuple_options p) = (p \<noteq> Notify)" "opt_memory (tuple_options p)"
  "\<not> opt_unique (tuple_options p)" "\<not> opt_stopOnFalse (tuple_options p)"
proof -
  have "createOptions ''once memory'' = \<lparr>opt_once = True, opt_memory = True, opt_unique = False, opt_stopOnFalse = False\<rparr>"
    by code_simp
  moreover have "createOptions ''memory'' = \<lparr>opt_once = False, opt_memory = True, opt_unique = False, opt_stopOnFalse = False\<rparr>"
    by code_simp
  ultimately show "opt_once (tuple_options p) = (p \<noteq> Notify)" "opt_memory (tuple_options p)"
    "\<not> opt_unique (tuple_options p)" "\<not> opt_stopOnFalse (tuple_options p)"
    by (auto simp: tuple_options_def)
qed

definition arg_fns :: "'c cbarg list \<Rightarrow> 'c list" where
  "arg_fns args = concat (map cbarg_fns args)"

lemma push_all:
  fixes l :: "('c, 'v) cblist"
  shows "\<not> opt_unique (options l) \<Longrightarrow> callbacks l = Some cs \<Longrightarrow>
      push_arg x l = l\<lparr>callbacks := Some (cs @ cbarg_fns x)\<rparr>"
    and "\<not> opt_unique (options l) \<Longrightarrow> callbacks l = Some cs \<Longrightarrow>
      push_args xs l = l\<lparr>callbacks := Some (cs @ arg_fns xs)\<rparr>"
proof (induction x l and xs l arbitrary: cs and cs rule: push_arg_push_args.induct)
  case (1 c l)
  then show ?case by (simp add: items_def)
next
  case (2 xs l)
  then show ?case by (simp add: arg_fns_def)
next
  case (3 l)
  then show ?case by simp
next
  case (4 l)
  then show ?case by (simp add: arg_fns_def)
next
  case (5 x xs l)
  then show ?case by (simp add: arg_fns_def)
qed

text \<open>The states of the first two lists: before, at the start of and within \<open>fire\<close>, after it, and disabled.\<close>

definition unfired_list :: "part \<Rightarrow> 'c list \<Rightarrow> ('c, 'v) cblist" where
  "unfired_list p xs = \<lparr>options = tuple_options p, firing = False, memory = None, fired = False, locked = False,
     callbacks = Some xs, queue = [], firingIndex = -1\<rparr>"

definition fresh_list :: "part \<Rightarrow> 'v \<Rightarrow> 'v option \<Rightarrow> 'c list \<Rightarrow> ('c, 'v) cblist" where
  "fresh_list p v mem xs = \<lparr>options = tuple_options p, firing = True, memory = mem, fired = True, locked = True,
     callbacks = Some xs, queue = [v], firingIndex = -1\<rparr>"

definition run_list :: "part \<Rightarrow> 'v \<Rightarrow> 'c list \<Rightarrow> int \<Rightarrow> ('c, 'v) cblist" where
  "run_list p v xs i = \<lparr>options = tuple_options p, firing = True, memory = Some v, fired = True, locked = True,
     callbacks = Some xs, queue = [], firingIndex = i\<rparr>"

definition idle_list :: "part \<Rightarrow> 'v \<Rightarrow> ('c, 'v) cblist" where
  "idle_list p v = \<lparr>options = tuple_options p, firing = False, memory = Some v, fired = True, locked = True,
     callbacks = Some [], queue = [], firingIndex = -1\<rparr>"

definition dead_list :: "part \<Rightarrow> ('c, 'v) cblist" where
  "dead_list p = \<lparr>options = tuple_options p, firing = False, memory = None, fired = False, locked = True,
     callbacks = None, queue = [], firingIndex = -1\<rparr>"

lemmas list_states = unfired_list_def fresh_list_def run_list_def idle_list_def dead_list_def

lemma add_states:
  assumes "p \<noteq> Notify"
  shows "add args (unfired_list p xs) = (unfired_list p (xs @ arg_fns args), False)"
    and "add args (run_list p v xs i) = (run_list p v (xs @ arg_fns args) i, False)"
    and "add args (dead_list p) = (dead_list p, False)"
    and "\<exists>l. add args (idle_list p v) = (l, True) \<and> fire_begin l = fresh_list p v (Some v) (arg_fns args)"
  using assms by (simp_all add: add_def list_states Let_def push_all fire_begin_def)

lemma fireWith_states:
  assumes "p \<noteq> Notify"
  shows "\<exists>l. fireWith v (unfired_list p xs) = (l, True) \<and> fire_begin l = fresh_list p v None xs"
    and "fireWith w (run_list p v xs i) = (run_list p v xs i, False)"
    and "fireWith w (idle_list p v) = (idle_list p v, False)"
    and "fireWith w (dead_list p) = (dead_list p, False)"
  using assms by (simp_all add: fireWith_def list_states fire_begin_def)

lemma fire_states:
  assumes "p \<noteq> Notify"
  shows "fire_first (fresh_list p v mem xs) =
      (if xs = [] then (None, run_list p v [] (-1)) else (Some (hd xs), run_list p v xs 0))"
    and "-1 \<le> i \<Longrightarrow> fire_next (run_list p v xs i) =
      (if nat (i + 1) < length xs then (Some (xs ! nat (i + 1)), run_list p v xs (i + 1)) else (None, run_list p v xs (-1)))"
    and "fire_end (run_list p v xs (-1)) = idle_list p v"
    and "disable (unfired_list p xs) = dead_list p"
  using assms
  by (auto simp: fire_first_def fire_next_def inner_next_def list_states items_def Let_def fire_end_def disable_def
      hd_conv_nth)

lemma arg_fns_Fn [simp]: "arg_fns (map Fn cs) = cs"
  by (induction cs) (simp_all add: arg_fns_def)

lemma Callbacks_unfired: "Callbacks (tuple_options p) = unfired_list p []"
  by (simp add: Callbacks_def unfired_list_def)

lemma Deferred_list: "p \<noteq> Notify \<Longrightarrow> d_list (Deferred d) p = unfired_list p (settle_fns d p)"
  by (simp add: Deferred_def Callbacks_unfired add_states)

section \<open>Well-formed machines\<close>

text \<open>
  The functions that every deferred adds itself stay in its own lists; everything that is mentioned exists.
\<close>

fun external :: "'f cb \<Rightarrow> bool" where
  "external (SetState d p) = False"
| "external (DisableList d p) = False"
| "external (LockProgress d) = False"
| "external c = True"

fun addr_ok :: "('f, 'u, 'a) machine \<Rightarrow> addr \<Rightarrow> bool" where
  "addr_ok m (Raw i) = (i < length (raws m))"
| "addr_ok m (Part d p) = (d < length (deferreds m))"

fun cb_ok :: "('f, 'u, 'a) machine \<Rightarrow> addr \<Rightarrow> 'f cb \<Rightarrow> bool" where
  "cb_ok m A (User f) = True"
| "cb_ok m A (SetState d p) = (A = Part d p \<and> p \<noteq> Notify)"
| "cb_ok m A (DisableList d p) = (A = Part d (counterpart p) \<and> p \<noteq> Notify)"
| "cb_ok m A (LockProgress d) = (A = Part d Resolve \<or> A = Part d Reject)"
| "cb_ok m A (Settle d p) = (d < length (deferreds m))"
| "cb_ok m A (Forward f s d p) = (d < length (deferreds m))"
| "cb_ok m A (Update w i b) = (w < length (whens m))"

fun kont_ok :: "('f, 'u, 'a) machine \<Rightarrow> 'a kont \<Rightarrow> bool" where
  "kont_ok m Main = True"
| "kont_ok m (Plain A) = addr_ok m A"
| "kont_ok m (Chain s d p v) = (d < length (deferreds m))"

definition new_cb_ok :: "('f, 'u, 'a) machine \<Rightarrow> addr \<Rightarrow> 'f cb \<Rightarrow> bool" where
  "new_cb_ok m A c \<longleftrightarrow> external c \<and> cb_ok m A c"

fun todo_ok :: "('f, 'u, 'a) machine \<Rightarrow> 'f todo \<Rightarrow> bool" where
  "todo_ok m (TAdd A args) = (addr_ok m A \<and> list_all (new_cb_ok m A) (arg_fns args))"
| "todo_ok m (TSkip w) = (w < length (whens m))"
| "todo_ok m (TWhen w) = (w < length (whens m))"

fun frame_ok :: "('f, 'u, 'a) machine \<Rightarrow> ('f, 'u, 'a) frame \<Rightarrow> bool" where
  "frame_ok m (Firing A b) = addr_ok m A"
| "frame_ok m (Running u k) = kont_ok m k"
| "frame_ok m (Todo xs) = list_all (todo_ok m) xs"

fun event_ok :: "('f, 'u, 'a) machine \<Rightarrow> ('f, 'a) event \<Rightarrow> bool" where
  "event_ok m (Added A cs) = (addr_ok m A \<and> list_all external cs)"
| "event_ok m (Called A c v) = addr_ok m A"
| "event_ok m Threw = True"

definition list_ok :: "('f, 'u, 'a) machine \<Rightarrow> addr \<Rightarrow> ('f cb, 'a firing_value) cblist \<Rightarrow> bool" where
  "list_ok m A l \<longleftrightarrow> -1 \<le> firingIndex l \<and> list_all (cb_ok m A) (items l)"

definition machine_ok :: "('f, 'u, 'a) machine \<Rightarrow> bool" where
  "machine_ok m \<longleftrightarrow> (\<forall>A. addr_ok m A \<longrightarrow> list_ok m A (list_at m A))
     \<and> list_all (frame_ok m) (stack m) \<and> list_all (\<lambda>x. w_master x < length (deferreds m)) (whens m)"

text \<open>Machines only grow.\<close>

definition grows :: "('f, 'u, 'a) machine \<Rightarrow> ('f, 'u, 'a) machine \<Rightarrow> bool" where
  "grows m m' \<longleftrightarrow> length (raws m) \<le> length (raws m') \<and> length (deferreds m) \<le> length (deferreds m')
     \<and> length (whens m) \<le> length (whens m')"

lemma grows_refl [simp]: "grows m m"
  by (simp add: grows_def)

lemma grows_trans: "grows a b \<Longrightarrow> grows b c \<Longrightarrow> grows a c"
  by (simp add: grows_def)

lemma ok_grows:
  assumes "grows m m'"
  shows "addr_ok m A \<Longrightarrow> addr_ok m' A" and "cb_ok m A c \<Longrightarrow> cb_ok m' A c"
    and "kont_ok m k \<Longrightarrow> kont_ok m' k" and "new_cb_ok m A c \<Longrightarrow> new_cb_ok m' A c"
    and "todo_ok m t \<Longrightarrow> todo_ok m' t" and "frame_ok m f \<Longrightarrow> frame_ok m' f" and "event_ok m e \<Longrightarrow> event_ok m' e"
proof -
  show a: "addr_ok m A \<Longrightarrow> addr_ok m' A" for A
    using assms by (cases A) (auto simp: grows_def)
  show c: "cb_ok m A c \<Longrightarrow> cb_ok m' A c" for A c
    using assms by (cases c) (auto simp: grows_def)
  show k: "kont_ok m k \<Longrightarrow> kont_ok m' k"  for k
    using assms a by (cases k) (auto simp: grows_def)
  show n: "new_cb_ok m A c \<Longrightarrow> new_cb_ok m' A c" for A c
    using c by (simp add: new_cb_ok_def)
  show t: "todo_ok m t \<Longrightarrow> todo_ok m' t" for t
    using assms a n by (cases t) (auto simp: grows_def list_all_iff)
  show "frame_ok m f \<Longrightarrow> frame_ok m' f"
    using a k t by (cases f) (auto simp: list_all_iff)
  show "event_ok m e \<Longrightarrow> event_ok m' e"
    using a by (cases e) auto
qed

lemma put_list_simps [simp]:
  "length (raws (put_list A l m)) = length (raws m)" "length (deferreds (put_list A l m)) = length (deferreds m)"
  "whens (put_list A l m) = whens m" "stack (put_list A l m) = stack m"
  by (cases A; simp add: put_list.simps)+

lemma list_at_put: "addr_ok m A \<Longrightarrow> list_at (put_list A l m) B = (if A = B then l else list_at m B)"
  by (cases A; cases B) (auto simp: nth_list_update list_at.simps put_list.simps)

lemma list_at_same: "raws m' = raws m \<Longrightarrow> deferreds m' = deferreds m \<Longrightarrow> list_at m' A = list_at m A"
  by (cases A) (auto simp: list_at.simps)

lemma grows_lengths:
  "length (raws m') = length (raws m) \<Longrightarrow> length (deferreds m') = length (deferreds m) \<Longrightarrow> length (whens m') = length (whens m)
    \<Longrightarrow> grows m m' \<and> grows m' m"
  by (simp add: grows_def)

text \<open>What the methods of a list do to its callbacks.\<close>

lemma items_more [simp]:
  "items (l\<lparr>queue := q\<rparr>) = items l" "items (l\<lparr>firingIndex := i\<rparr>) = items l" "items (l\<lparr>memory := v\<rparr>) = items l"
  "items (l\<lparr>locked := b\<rparr>) = items l" "items (l\<lparr>firing := b\<rparr>) = items l" "items (l\<lparr>fired := b\<rparr>) = items l"
  "items (l\<lparr>callbacks := cs\<rparr>) = (case cs of None \<Rightarrow> [] | Some cs \<Rightarrow> cs)"
  by (simp_all add: items_def)

lemma push_items:
  fixes l :: "('c, 'v) cblist"
  shows "set (items (push_arg x l)) \<subseteq> set (items l) \<union> set (cbarg_fns x)"
    and "set (items (push_args xs l)) \<subseteq> set (items l) \<union> set (arg_fns xs)"
proof (induction x l and xs l rule: push_arg_push_args.induct)
  case (5 x xs l)
  then show ?case by (simp add: arg_fns_def) blast
qed (simp_all add: arg_fns_def subset_insertI)

lemma items_add: "set (items (fst (add args l))) \<subseteq> set (items l) \<union> set (arg_fns args)"
  unfolding add_def Let_def
  by (auto split: option.splits dest!: subsetD [OF push_items(2)])

lemma items_methods:
  "items (fire_begin l) = items l" "items (returned_false l) = items l" "items (fst (fireWith v l)) = items l"
  "set (items (fire_end l)) \<subseteq> set (items l)" "items (disable l) = []" "set (items (lock l)) \<subseteq> set (items l)"
  "items (empty l) = []"
  by (auto simp: fire_begin_def returned_false_def fireWith_def fire_end_def disable_def lock_def empty_def Let_def items_def
      split: option.splits)

lemma remove_loop_set: "set (fst (remove_loop c i cs fi)) \<subseteq> set cs"
proof (induction c i cs fi rule: remove_loop.induct)
  case (1 c i cs fi)
  show ?case
  proof (cases "index_from c i cs")
    case None
    then show ?thesis by (simp add: remove_loop.simps [of c i])
  next
    case (Some j)
    have "set (take j cs @ drop (Suc j) cs) \<subseteq> set cs"
      by (auto dest: in_set_takeD in_set_dropD)
    with 1 [OF Some] have "set (fst (remove_loop c j (take j cs @ drop (Suc j) cs) (if int j \<le> fi then fi - 1 else fi)))
        \<subseteq> set cs"
      by (rule subset_trans)
    then show ?thesis
      by (simp only: remove_loop.simps [of c i] Some option.case)
  qed
qed

lemma items_remove: "set (items (remove cs l)) \<subseteq> set (items l)"
proof (induction cs arbitrary: l)
  case Nil
  then show ?case by (simp add: remove_def)
next
  case (Cons c cs)
  have "set (items (remove_one c l)) \<subseteq> set (items l)"
    using remove_loop_set [of c 0 "items l" "firingIndex l"]
    by (auto simp: remove_one_def items_def split: option.splits prod.splits)
  with Cons [of "remove_one c l"] show ?case
    by (auto simp: remove_def)
qed

text \<open>The index never falls below \<open>-1\<close>.\<close>

lemma push_index [simp]: "firingIndex (push_arg x l) = firingIndex l" "firingIndex (push_args xs l) = firingIndex l"
  by (induction x l and xs l rule: push_arg_push_args.induct) auto

lemma remove_loop_index: "-1 \<le> fi \<Longrightarrow> -1 \<le> snd (remove_loop c i cs fi)"
proof (induction c i cs fi rule: remove_loop.induct)
  case (1 c i cs fi)
  then show ?case
    by (simp add: remove_loop.simps [of c i cs] split: option.splits)
qed

lemma index_remove: "-1 \<le> firingIndex l \<Longrightarrow> -1 \<le> firingIndex (remove cs l)"
proof (induction cs arbitrary: l)
  case Nil
  then show ?case by (simp add: remove_def)
next
  case (Cons c cs)
  have "-1 \<le> firingIndex (remove_one c l)"
    using remove_loop_index [OF Cons.prems, of c 0 "items l"] Cons.prems
    by (auto simp: remove_one_def items_def split: option.splits prod.splits)
  with Cons.IH [of "remove_one c l"] show ?case
    by (simp add: remove_def)
qed

lemma index_methods:
  assumes "-1 \<le> firingIndex l"
  shows "-1 \<le> firingIndex (fire_begin l)" "-1 \<le> firingIndex (returned_false l)"
    "-1 \<le> firingIndex (fst (fireWith v l))" "-1 \<le> firingIndex (fire_end l)" "-1 \<le> firingIndex (disable l)"
    "-1 \<le> firingIndex (lock l)" "-1 \<le> firingIndex (empty l)" "-1 \<le> firingIndex (fst (add args l))"
  using assms
  by (simp_all add: fire_begin_def returned_false_def fireWith_def fire_end_def disable_def lock_def empty_def add_def Let_def
      split: option.splits)

lemma inner_next_items:
  assumes "inner_next l = (r, l')" and "-1 \<le> firingIndex l"
  shows "items l' = items l \<and> -1 \<le> firingIndex l' \<and> (\<forall>c. r = Some c \<longrightarrow> c \<in> set (items l))"
  using assms by (auto simp: inner_next_def Let_def split: if_splits intro!: nth_mem)

lemma outer_next_items:
  "outer_next q l = (r, l') \<Longrightarrow> -1 \<le> firingIndex l \<Longrightarrow>
     items l' = items l \<and> -1 \<le> firingIndex l' \<and> (\<forall>c. r = Some c \<longrightarrow> c \<in> set (items l))"
proof (induction q l rule: outer_next.induct)
  case (1 l)
  then show ?case by simp
next
  case (2 v q l)
  then show ?case
    by (fastforce split: prod.splits option.splits dest: inner_next_items)
qed

lemma fire_items:
  assumes "(if fresh then fire_first else fire_next) l = (r, l')" and "-1 \<le> firingIndex l"
  shows "items l' = items l \<and> -1 \<le> firingIndex l' \<and> (\<forall>c. r = Some c \<longrightarrow> c \<in> set (items l))"
proof (cases fresh)
  case True
  with assms show ?thesis by (auto simp: fire_first_def dest: outer_next_items)
next
  case False
  with assms show ?thesis
    by (auto simp: fire_next_def split: prod.splits option.splits dest!: inner_next_items outer_next_items)
qed

text \<open>Lists that methods leave well-formed.\<close>

lemma list_ok_subset:
  "list_ok m A l \<Longrightarrow> set (items l') \<subseteq> set (items l) \<Longrightarrow> -1 \<le> firingIndex l' \<Longrightarrow> list_ok m A l'"
  by (auto simp: list_ok_def list_all_iff)

lemma list_ok_methods:
  assumes "list_ok m A l"
  shows "list_ok m A (fire_begin l)" "list_ok m A (returned_false l)" "list_ok m A (fst (fireWith v l))"
    "list_ok m A (fire_end l)" "list_ok m A (disable l)" "list_ok m A (lock l)" "list_ok m A (empty l)"
    "list_ok m A (remove cs l)"
proof -
  have "-1 \<le> firingIndex l"
    using assms by (simp add: list_ok_def)
  note index = index_methods [OF this] index_remove [OF this]
  show "list_ok m A (fire_begin l)" "list_ok m A (returned_false l)" "list_ok m A (fst (fireWith v l))"
    "list_ok m A (fire_end l)" "list_ok m A (disable l)" "list_ok m A (lock l)" "list_ok m A (empty l)"
    "list_ok m A (remove cs l)"
    by (rule list_ok_subset [OF assms]; simp add: index items_methods items_remove)+
qed

lemma list_ok_add:
  "list_ok m A l \<Longrightarrow> list_all (cb_ok m A) (arg_fns args) \<Longrightarrow> list_ok m A (fst (add args l))"
  using items_add [of args l] index_methods(8) [of l args] by (auto simp: list_ok_def list_all_iff)

lemma list_ok_grows: "grows m m' \<Longrightarrow> list_ok m A l \<Longrightarrow> list_ok m' A l"
  by (auto simp: list_ok_def list_all_iff intro: ok_grows)

lemma list_ok_new: "list_ok m A (Callbacks opts)"
  by (simp add: list_ok_def Callbacks_def items_def)

lemma list_ok_Deferred: "list_ok m (Part d p) (d_list (Deferred d) p)"
proof (cases "p = Notify")
  case True
  then show ?thesis by (simp add: Deferred_def list_ok_new)
next
  case False
  then have "counterpart p \<noteq> Notify" "counterpart (counterpart p) = p"
    by (cases p; simp)+
  with False show ?thesis
    by (cases p) (auto simp: Deferred_list unfired_list_def list_ok_def items_def settle_fns_def)
qed

text \<open>Changes of a machine that keep it well-formed.\<close>

lemma machine_ok_at: "machine_ok m \<Longrightarrow> addr_ok m A \<Longrightarrow> list_ok m A (list_at m A)"
  by (simp add: machine_ok_def)

lemma machine_ok_put:
  assumes "machine_ok m" and "addr_ok m A" and "list_ok m A l"
  shows "machine_ok (put_list A l m)" and "grows m (put_list A l m)"
proof -
  have g: "grows m (put_list A l m) \<and> grows (put_list A l m) m"
    by (rule grows_lengths) simp_all
  then have same: "addr_ok (put_list A l m) B \<Longrightarrow> addr_ok m B" for B
    by (auto intro: ok_grows)
  then show "machine_ok (put_list A l m)"
    using assms g by (auto simp: machine_ok_def list_at_put list_all_iff intro: ok_grows list_ok_grows)
  from g show "grows m (put_list A l m)" by simp
qed

lemma machine_ok_stack:
  assumes "machine_ok m" and "list_all (frame_ok m) fs"
  shows "machine_ok (m\<lparr>stack := fs\<rparr>)" and "grows m (m\<lparr>stack := fs\<rparr>)"
proof -
  have g: "grows m (m\<lparr>stack := fs\<rparr>) \<and> grows (m\<lparr>stack := fs\<rparr>) m"
    by (rule grows_lengths) simp_all
  then have same: "addr_ok (m\<lparr>stack := fs\<rparr>) B \<Longrightarrow> addr_ok m B" for B
    by (auto intro: ok_grows)
  moreover have "list_at (m\<lparr>stack := fs\<rparr>) B = list_at m B" for B
    by (rule list_at_same) simp_all
  ultimately show "machine_ok (m\<lparr>stack := fs\<rparr>)"
    using assms g by (auto simp: machine_ok_def list_all_iff intro: ok_grows list_ok_grows)
  from g show "grows m (m\<lparr>stack := fs\<rparr>)" by simp
qed

lemma machine_ok_push:
  "machine_ok m \<Longrightarrow> frame_ok m f \<Longrightarrow> machine_ok (push_frame f m) \<and> grows m (push_frame f m)"
  unfolding push_frame_def by (intro conjI machine_ok_stack) (auto simp: machine_ok_def)

text \<open>What a step promises.\<close>

definition step_ok :: "('f, 'u, 'a) machine \<Rightarrow> ('f, 'a) event list \<times> ('f, 'u, 'a) machine \<Rightarrow> bool" where
  "step_ok m r \<longleftrightarrow> machine_ok (snd r) \<and> grows m (snd r) \<and> list_all (event_ok (snd r)) (fst r)"

lemma step_ok_silent: "machine_ok m' \<Longrightarrow> grows m m' \<Longrightarrow> step_ok m ([], m')"
  by (simp add: step_ok_def)

lemma start_fire_ok:
  assumes "machine_ok m" and "addr_ok m A" and "list_ok m A (fst r)"
  shows "machine_ok (start_fire A r m) \<and> grows m (start_fire A r m)"
proof (cases r)
  case (Pair l b)
  note put = machine_ok_put [OF assms(1,2), of l] machine_ok_put [OF assms(1,2), of "fire_begin l"]
  have "addr_ok (put_list A (fire_begin l) m) A"
    using assms(2) put(4) Pair assms(3) list_ok_methods by (auto intro: ok_grows)
  then show ?thesis
    using assms put Pair list_ok_methods(1) [of m A l] machine_ok_push [of "put_list A (fire_begin l) m" "Firing A True"]
    by (auto simp: start_fire_def intro: grows_trans)
qed

lemma do_add_ok:
  assumes "machine_ok m" and "addr_ok m A" and "list_all (new_cb_ok m A) (arg_fns args)"
  shows "step_ok m (do_add A args m)"
proof -
  have "list_all (cb_ok m A) (arg_fns args)" and e: "list_all external (arg_fns args)"
    using assms(3) by (auto simp: new_cb_ok_def list_all_iff)
  then have "machine_ok (start_fire A (add args (list_at m A)) m) \<and> grows m (start_fire A (add args (list_at m A)) m)"
    using assms by (intro start_fire_ok list_ok_add machine_ok_at)
  then show ?thesis
    using e ok_grows(1) [OF _ assms(2)] by (auto simp: step_ok_def do_add_def arg_fns_def)
qed

lemma do_fire_ok: "machine_ok m \<Longrightarrow> addr_ok m A \<Longrightarrow> machine_ok (do_fire A v m) \<and> grows m (do_fire A v m)"
  unfolding do_fire_def by (intro start_fire_ok list_ok_methods machine_ok_at)

lemma machine_ok_whens:
  assumes "machine_ok m" and "length xs = length (whens m)" and "list_all (\<lambda>x. w_master x < length (deferreds m)) xs"
  shows "machine_ok (m\<lparr>whens := xs\<rparr>)" and "grows m (m\<lparr>whens := xs\<rparr>)"
proof -
  have g: "grows m (m\<lparr>whens := xs\<rparr>) \<and> grows (m\<lparr>whens := xs\<rparr>) m"
    using assms(2) by (intro grows_lengths) simp_all
  then have same: "addr_ok (m\<lparr>whens := xs\<rparr>) B \<Longrightarrow> addr_ok m B" for B
    by (auto intro: ok_grows)
  moreover have "list_at (m\<lparr>whens := xs\<rparr>) B = list_at m B" for B
    by (rule list_at_same) simp_all
  ultimately show "machine_ok (m\<lparr>whens := xs\<rparr>)"
    using assms g by (auto simp: machine_ok_def list_all_iff intro: ok_grows list_ok_grows)
  from g show "grows m (m\<lparr>whens := xs\<rparr>)" by simp
qed

lemma machine_ok_state:
  assumes "machine_ok m"
  shows "machine_ok (m\<lparr>deferreds := (deferreds m)[d := (deferreds m ! d)\<lparr>d_state := x\<rparr>]\<rparr>)" (is "machine_ok ?m")
    and "grows m (m\<lparr>deferreds := (deferreds m)[d := (deferreds m ! d)\<lparr>d_state := x\<rparr>]\<rparr>)"
proof -
  have g: "grows m ?m \<and> grows ?m m"
    by (rule grows_lengths) simp_all
  then have same: "addr_ok ?m B \<Longrightarrow> addr_ok m B" for B
    by (auto intro: ok_grows)
  moreover have "list_at ?m B = list_at m B" for B
    by (cases B; cases "d < length (deferreds m)")
      (auto simp: nth_list_update list_at.simps list_update_beyond)
  ultimately show "machine_ok ?m"
    using assms g by (auto simp: machine_ok_def list_all_iff intro: ok_grows list_ok_grows)
  from g show "grows m ?m" by simp
qed

lemma machine_ok_append:
  assumes "machine_ok m"
  shows "machine_ok (m\<lparr>raws := raws m @ [Callbacks opts]\<rparr>) \<and> grows m (m\<lparr>raws := raws m @ [Callbacks opts]\<rparr>)"
    and "machine_ok (new_deferred m) \<and> grows m (new_deferred m)"
proof -
  let ?r = "m\<lparr>raws := raws m @ [Callbacks opts]\<rparr>"
  have g: "grows m ?r" by (simp add: grows_def)
  have "list_ok ?r A (list_at ?r A)" if "addr_ok ?r A" for A
  proof (cases "addr_ok m A")
    case True
    then have "list_at ?r A = list_at m A" by (cases A) (auto simp: nth_append list_at.simps)
    with True assms g show ?thesis by (auto simp: machine_ok_def intro: list_ok_grows)
  next
    case False
    with that have "A = Raw (length (raws m))" by (cases A) auto
    then show ?thesis by (simp add: list_ok_new list_at.simps)
  qed
  then show "machine_ok ?r \<and> grows m ?r"
    using assms g by (auto simp: machine_ok_def list_all_iff intro: ok_grows)
next
  let ?r = "new_deferred m"
  have g: "grows m ?r" by (simp add: grows_def new_deferred_def)
  have "list_ok ?r A (list_at ?r A)" if "addr_ok ?r A" for A
  proof (cases "addr_ok m A")
    case True
    then have "list_at ?r A = list_at m A" by (cases A) (auto simp: nth_append new_deferred_def list_at.simps)
    with True assms g show ?thesis by (auto simp: machine_ok_def intro: list_ok_grows)
  next
    case False
    with that obtain p where "A = Part (length (deferreds m)) p"
      by (cases A) (auto simp: new_deferred_def less_Suc_eq)
    then show ?thesis by (simp add: new_deferred_def list_ok_Deferred list_at.simps)
  qed
  moreover have "w_master x < length (deferreds ?r)" if "x \<in> set (whens ?r)" for x
    using assms that by (auto simp: machine_ok_def list_all_iff new_deferred_def intro: less_SucI)
  moreover have "stack ?r = stack m"
    by (simp add: new_deferred_def)
  ultimately show "machine_ok ?r \<and> grows m ?r"
    using assms g by (auto simp: machine_ok_def list_all_iff intro: ok_grows)
qed

lemma master_ok: "machine_ok m \<Longrightarrow> w < length (whens m) \<Longrightarrow> w_master (whens m ! w) < length (deferreds m)"
  by (auto simp: machine_ok_def list_all_length)

lemma update_when_ok:
  assumes "machine_ok m" and "w < length (whens m)" and "w_master x = w_master (whens m ! w)"
  shows "machine_ok (m\<lparr>whens := (whens m)[w := x]\<rparr>)" and "grows m (m\<lparr>whens := (whens m)[w := x]\<rparr>)"
proof -
  have "list_all (\<lambda>x. w_master x < length (deferreds m)) ((whens m)[w := x])"
    using assms master_ok [OF assms(1,2)]
    by (auto simp: machine_ok_def list_all_length nth_list_update)
  then show "machine_ok (m\<lparr>whens := (whens m)[w := x]\<rparr>)" and "grows m (m\<lparr>whens := (whens m)[w := x]\<rparr>)"
    using assms(1) by (intro machine_ok_whens; simp)+
qed

lemma do_update_ok:
  assumes "machine_ok m" and "w < length (whens m)"
  shows "machine_ok (do_update w i b this args m) \<and> grows m (do_update w i b this args m)"
proof -
  have fire: "machine_ok (do_fire (Part (w_master (whens m ! w)) p) v (m\<lparr>whens := (whens m)[w := x]\<rparr>))
      \<and> grows m (do_fire (Part (w_master (whens m ! w)) p) v (m\<lparr>whens := (whens m)[w := x]\<rparr>))"
    if "w_master x = w_master (whens m ! w)" for p v x
  proof -
    note u = update_when_ok [OF assms that]
    have "addr_ok (m\<lparr>whens := (whens m)[w := x]\<rparr>) (Part (w_master (whens m ! w)) p)"
      using master_ok [OF assms] by simp
    from do_fire_ok [OF u(1) this] u(2) show ?thesis by (blast intro: grows_trans)
  qed
  then show ?thesis
    using update_when_ok [OF assms] by (simp add: do_update_def Let_def)
qed

lemma call_cb_ok:
  assumes "machine_ok m" and "addr_ok m A" and "cb_ok m A c"
  shows "machine_ok (call_cb en A c v m) \<and> grows m (call_cb en A c v m)"
proof (cases c)
  case (User f)
  with assms show ?thesis by (auto simp: call_cb_def intro!: machine_ok_push split: prod.splits)
next
  case (SetState d p)
  with assms show ?thesis by (auto simp: call_cb_def intro: machine_ok_state split: prod.splits)
next
  case (DisableList d p)
  with assms have "addr_ok m (Part d p)" by (cases A) auto
  then have "list_ok m (Part d p) (disable (list_at m (Part d p)))"
    using assms(1) by (intro list_ok_methods machine_ok_at)
  with \<open>addr_ok m (Part d p)\<close> assms(1) DisableList show ?thesis
    by (auto simp: call_cb_def intro: machine_ok_put split: prod.splits)
next
  case (LockProgress d)
  with assms have "addr_ok m (Part d Notify)" by (cases A) auto
  then have "list_ok m (Part d Notify) (lock (list_at m (Part d Notify)))"
    using assms(1) by (intro list_ok_methods machine_ok_at)
  with \<open>addr_ok m (Part d Notify)\<close> assms(1) LockProgress show ?thesis
    by (auto simp: call_cb_def intro: machine_ok_put split: prod.splits)
next
  case (Settle d p)
  with assms do_fire_ok [OF assms(1), of "Part d p"] show ?thesis by (auto simp: call_cb_def split: prod.splits)
next
  case (Forward fn s d p)
  show ?thesis
  proof (cases fn)
    case None
    with Forward assms do_fire_ok [OF assms(1), of "Part d p"] show ?thesis
      by (auto simp: call_cb_def split: prod.splits)
  next
    case (Some f)
    with Forward assms show ?thesis
      by (auto simp: call_cb_def intro!: machine_ok_push split: prod.splits)
  qed
next
  case (Update w i b)
  with assms do_update_ok [OF assms(1)] show ?thesis by (auto simp: call_cb_def split: prod.splits)
qed

text \<open>The machine in which a loop calls the next function.\<close>

lemma fire_call_ok:
  assumes "machine_ok m" and "stack m = Firing A fresh # fs"
    and "(if fresh then fire_first else fire_next) (list_at m A) = (r, l)"
  defines "m' \<equiv> m\<lparr>stack := Firing A False # fs\<rparr>"
  shows "addr_ok m A" and "list_ok m A l" and "machine_ok (put_list A l m')" and "grows m (put_list A l m')"
    and "r = Some c \<Longrightarrow> cb_ok m A c"
proof -
  show A: "addr_ok m A"
    using assms(1,2) by (simp add: machine_ok_def)
  have fs: "list_all (frame_ok m) (Firing A False # fs)"
    using assms(1,2) by (simp add: machine_ok_def)
  have lo: "list_ok m A (list_at m A)"
    by (rule machine_ok_at [OF assms(1) A])
  then have i: "items l = items (list_at m A)" "-1 \<le> firingIndex l" "\<And>c. r = Some c \<Longrightarrow> c \<in> set (items (list_at m A))"
    using fire_items [OF assms(3)] by (auto simp: list_ok_def)
  then show l: "list_ok m A l" and "r = Some c \<Longrightarrow> cb_ok m A c"
    using lo by (auto simp: list_ok_def list_all_iff)
  note m = machine_ok_stack [OF assms(1) fs, folded m'_def]
  have "machine_ok (put_list A l m')" "grows m' (put_list A l m')"
    using m A l by (intro machine_ok_put; auto intro: ok_grows list_ok_grows)+
  with m show "machine_ok (put_list A l m')" "grows m (put_list A l m')"
    by (auto intro: grows_trans)
qed

lemma fire_step_ok:
  assumes "machine_ok m" and "stack m = Firing A fresh # fs"
  shows "step_ok m (fire_step en A fresh fs m)"
proof -
  obtain r l where f: "(if fresh then fire_first else fire_next) (list_at m A) = (r, l)" by fastforce
  note call = fire_call_ok [OF assms f]
  show ?thesis
  proof (cases r)
    case None
    let ?m = "m\<lparr>stack := fs\<rparr>"
    have "list_all (frame_ok m) fs"
      using assms by (simp add: machine_ok_def)
    note m = machine_ok_stack [OF assms(1) this]
    have "machine_ok (put_list A (fire_end l) ?m)" "grows ?m (put_list A (fire_end l) ?m)"
      using m call by (intro machine_ok_put list_ok_methods; auto intro: ok_grows list_ok_grows)+
    with m f None show ?thesis
      by (auto simp: fire_step_def intro!: step_ok_silent intro: grows_trans)
  next
    case (Some c)
    let ?m = "put_list A l (m\<lparr>stack := Firing A False # fs\<rparr>)"
    note c = call_cb_ok [OF call(3) ok_grows(1) [OF call(4,1)] ok_grows(2) [OF call(4) call(5) [OF Some]]]
    then have "grows m (call_cb en A c v ?m)" for v
      using call(4) by (blast intro: grows_trans)
    moreover from this have "addr_ok (call_cb en A c v ?m) A" for v
      using call(1) ok_grows(1) by blast
    ultimately show ?thesis
      using f Some c by (auto simp: fire_step_def step_ok_def Let_def)
  qed
qed

lemma user_args_ok:
  fixes xs :: "'f cbarg list"
  shows "list_all (new_cb_ok m A) (arg_fns (user_args xs))"
proof -
  have "cbarg_fns (map_cbarg User x) = map User (cbarg_fns x)" for x :: "'f cbarg"
    by (induction x) (auto simp: map_concat cong: map_cong)
  then show ?thesis
    by (auto simp: arg_fns_def user_args_def list_all_iff new_cb_ok_def)
qed

lemma arg_fns_one [simp]: "arg_fns [Fn c] = [c]" "arg_fns [] = []"
  by (simp_all add: arg_fns_def)

lemma step_ok_trans: "grows m m1 \<Longrightarrow> step_ok m1 r \<Longrightarrow> step_ok m r"
  by (auto simp: step_ok_def intro: grows_trans)

lemma step_ok_pair: "machine_ok m' \<and> grows m m' \<Longrightarrow> step_ok m ([], m')"
  by (simp add: step_ok_def)

lemma when_adds_ok:
  assumes "w < length (whens m)" and "master < length (deferreds m)"
    and "\<And>d. is_promise v = Some d \<Longrightarrow> d < length (deferreds m)"
  shows "list_all (todo_ok m) (when_adds w master i v)"
  using assms by (auto simp: when_adds_def new_cb_ok_def split: option.splits)

lemma do_when_ok:
  fixes m :: "('f, 'u, 'a) machine"
  assumes "machine_ok m" and "op_valid (When vs) m"
  shows "step_ok m ([], do_when vs m)"
proof -
  define n where "n = length vs"
  define count where "count = (if n \<noteq> 1 \<or> is_promise (hd vs) \<noteq> None then n else 0)"
  define w where "w = length (whens m)"
  define master where "master = length (deferreds m)"
  define x where "x = \<lparr>w_master = master, w_remaining = int count, w_values = vs, w_contexts = replicate n Undef,
      w_progressValues = replicate n Undef, w_progressContexts = replicate n Undef\<rparr>"
  define adds :: "'f todo list" where "adds = (if n > 1 then concat (map (\<lambda>(i, v). when_adds w master i v) (enumerate 0 vs)) else [])"
  let ?m = "(new_deferred m)\<lparr>whens := whens m @ [x]\<rparr>"
  have eq: "do_when vs m = (if count = 1 then m else push_frame (Todo (adds @ [TWhen w])) ?m)"
    by (simp only: do_when_def Let_def n_def count_def w_def master_def x_def adds_def)
  note new = machine_ok_append(2) [OF assms(1)]
  have g: "grows (new_deferred m) ?m"
    by (simp add: grows_def new_deferred_def)
  have lists: "list_at ?m A = list_at (new_deferred m) A" for A
    by (rule list_at_same) simp_all
  have addr: "addr_ok ?m A = addr_ok (new_deferred m) A" for A
    by (cases A) auto
  have "w_master y < length (deferreds ?m)" if "y \<in> set (whens ?m)" for y
    using that assms(1) by (auto simp: new_deferred_def x_def master_def machine_ok_def list_all_iff intro: less_SucI)
  moreover have "list_all (frame_ok ?m) (stack ?m)"
    using new g by (auto simp: machine_ok_def list_all_iff intro: ok_grows)
  ultimately have m: "machine_ok ?m"
    using new lists addr g by (auto simp: machine_ok_def list_all_iff intro: list_ok_grows)
  have "list_all (todo_ok ?m) (when_adds w master i v)" if "v \<in> set vs" for i v
  proof (rule when_adds_ok)
    show "w < length (whens ?m)" "master < length (deferreds ?m)"
      by (simp_all add: w_def master_def new_deferred_def)
    show "d < length (deferreds ?m)" if "is_promise v = Some d" for d
      using assms(2) \<open>v \<in> set vs\<close> that
      by (auto simp: new_deferred_def list_all_iff jv_valid_def split: option.splits intro: less_SucI)
  qed
  then have "list_all (todo_ok ?m) (adds @ [TWhen w])"
    by (auto simp: adds_def list_all_iff w_def in_set_enumerate_eq) (meson nth_mem)
  then have "frame_ok ?m (Todo (adds @ [TWhen w]))"
    by simp
  from machine_ok_push [OF m this] have "machine_ok (do_when vs m) \<and> grows m (do_when vs m)"
    using assms(1) new g by (auto simp: eq intro: grows_trans)
  then show ?thesis by (rule step_ok_pair)
qed

lemma end_when_ok:
  assumes "machine_ok m" and "w < length (whens m)"
  shows "step_ok m ([], end_when w m)"
proof -
  have "addr_ok m (Part (w_master (whens m ! w)) p)" for p
    using master_ok [OF assms] by simp
  from do_fire_ok [OF assms(1) this] show ?thesis
    using assms(1) by (auto simp: end_when_def Let_def intro!: step_ok_pair)
qed

lemma exec_op_ok:
  assumes "machine_ok m" and "op_valid x m"
  shows "step_ok m (exec_op x m)"
proof (cases x)
  case (Then d f g h)
  let ?m = "new_deferred m"
  let ?new = "length (deferreds m)"
  let ?todo = "[TAdd (Part d Resolve) [Fn (Forward f d ?new Resolve)],
           TAdd (Part d Reject) [Fn (Forward g d ?new Reject)],
           TAdd (Part d Notify) [Fn (Forward h d ?new Notify)]]"
  note new = machine_ok_append(2) [OF assms(1)]
  have "frame_ok ?m (Todo ?todo)"
    using assms(2) Then by (simp add: new_deferred_def new_cb_ok_def)
  with new have "machine_ok (push_frame (Todo ?todo) ?m) \<and> grows m (push_frame (Todo ?todo) ?m)"
    using machine_ok_push by (blast intro: grows_trans)
  with Then show ?thesis by (simp add: Let_def step_ok_pair)
next
  case (When vs)
  with assms do_when_ok [OF assms(1)] show ?thesis by simp
next
  case (Add i xs)
  with assms show ?thesis by (simp add: do_add_ok user_args_ok)
next
  case (DAdd d p xs)
  with assms show ?thesis by (simp add: do_add_ok user_args_ok)
next
  case (NewCallbacks opts)
  with machine_ok_append(1) [OF assms(1)] show ?thesis by (simp add: step_ok_pair)
next
  case NewDeferred
  with machine_ok_append(2) [OF assms(1)] show ?thesis by (simp add: step_ok_pair)
next
  case (Always d xs)
  with assms machine_ok_push [OF assms(1), of "Todo [TAdd (Part d Resolve) (user_args xs), TAdd (Part d Reject) (user_args xs)]"]
  show ?thesis by (simp add: step_ok_pair user_args_ok)
next
  case (FireWith i this args)
  with assms do_fire_ok [OF assms(1), of "Raw i"] show ?thesis by (simp add: step_ok_pair)
next
  case (DFireWith d p this args)
  with assms do_fire_ok [OF assms(1), of "Part d p"] show ?thesis by (simp add: step_ok_pair)
next
  case (DFire d p this args)
  with assms do_fire_ok [OF assms(1), of "Part d p"] show ?thesis by (simp add: step_ok_pair)
qed (use assms in \<open>auto intro!: step_ok_pair machine_ok_put list_ok_methods machine_ok_at\<close>)

lemma give_value_ok:
  assumes "machine_ok m" and "kont_ok m k" and "jv_valid m v"
  shows "step_ok m ([], give_value k v m)"
proof (cases k)
  case Main
  with assms show ?thesis by (simp add: step_ok_silent)
next
  case (Plain A)
  with assms show ?thesis
    by (auto intro!: step_ok_pair machine_ok_put list_ok_methods machine_ok_at)
next
  case (Chain s new p this)
  show ?thesis
  proof (cases "is_promise v")
    case None
    with Chain assms do_fire_ok [OF assms(1), of "Part new p"] show ?thesis
      by (simp add: step_ok_pair)
  next
    case (Some d)
    let ?todo = "[TAdd (Part d Notify) [Fn (Settle new Notify)], TAdd (Part d Resolve) [Fn (Settle new Resolve)],
      TAdd (Part d Reject) [Fn (Settle new Reject)]]"
    have "frame_ok m (Todo ?todo)"
      using Chain assms(2,3) Some by (simp add: new_cb_ok_def jv_valid_def)
    from machine_ok_push [OF assms(1) this] Chain Some show ?thesis
      by (simp add: step_ok_pair)
  qed
qed

lemma todo_step_ok: "machine_ok m \<Longrightarrow> todo_ok m t \<Longrightarrow> step_ok m (todo_step t m)"
proof (cases t)
  case (TAdd A args)
  then show "machine_ok m \<Longrightarrow> todo_ok m t \<Longrightarrow> ?thesis" by (simp add: do_add_ok)
next
  case (TSkip w)
  then show "machine_ok m \<Longrightarrow> todo_ok m t \<Longrightarrow> ?thesis"
    by (auto intro!: step_ok_pair update_when_ok)
next
  case (TWhen w)
  then show "machine_ok m \<Longrightarrow> todo_ok m t \<Longrightarrow> ?thesis" by (simp add: end_when_ok)
qed

lemma unwind_ok: "list_all (frame_ok m) fs \<Longrightarrow> list_all (frame_ok m) (unwind cat fs)"
  by (induction cat fs rule: unwind.induct) (auto split: option.splits)

lemma jv_valid_simps [simp]: "jv_valid (m\<lparr>stack := fs\<rparr>) v = jv_valid m v" "jv_valid m Undef"
  by (simp_all add: jv_valid_def is_promise_def split: jv.split)

lemma addr_new [simp]: "\<not> addr_ok new_machine A"
  by (cases A) (auto simp: new_machine_def)

lemma step_preserves:
  assumes "machine_ok m"
  shows "step_ok m (step pg m)"
proof (cases "stack m")
  case Nil
  with assms show ?thesis by (simp add: step_def step_ok_silent)
next
  case (Cons f fs)
  have fs: "list_all (frame_ok m) fs" and f: "frame_ok m f"
    using assms Cons by (auto simp: machine_ok_def)
  show ?thesis
  proof (cases f)
    case (Firing A b)
    with Cons fire_step_ok [OF assms, of A b fs] show ?thesis by (simp add: step_def)
  next
    case (Todo ts)
    show ?thesis
    proof (cases ts)
      case Nil
      with Cons Todo machine_ok_stack [OF assms fs] show ?thesis
        by (simp add: step_def step_ok_pair)
    next
      case ts: (Cons t ts')
      have "list_all (frame_ok m) (Todo ts' # fs)"
        using f fs Todo ts by simp
      note m = machine_ok_stack [OF assms this]
      have "todo_ok (m\<lparr>stack := Todo ts' # fs\<rparr>) t"
        using f Todo ts m(2) by (auto intro: ok_grows)
      from step_ok_trans [OF m(2) todo_step_ok [OF m(1) this]] show ?thesis
        using Cons Todo ts by (simp add: step_def)
    qed
  next
    case (Running u k)
    show ?thesis
    proof (cases "code pg u m")
      case (Do x u')
      have "list_all (frame_ok m) (Running u' k # fs)"
        using f fs Running by simp
      note m = machine_ok_stack [OF assms this]
      show ?thesis
      proof (cases "op_valid x (m\<lparr>stack := Running u' k # fs\<rparr>)")
        case True
        with step_ok_trans [OF m(2) exec_op_ok [OF m(1) True]] Cons Running Do show ?thesis
          by (simp add: step_def Let_def)
      next
        case False
        with m Cons Running Do show ?thesis by (simp add: step_def Let_def step_ok_pair)
      qed
    next
      case (Return v)
      note m = machine_ok_stack [OF assms fs]
      let ?v = "if jv_valid m v then v else Undef"
      have "kont_ok (m\<lparr>stack := fs\<rparr>) k"
        using f Running m(2) by (auto intro: ok_grows)
      moreover have "jv_valid (m\<lparr>stack := fs\<rparr>) ?v"
        by simp
      ultimately show ?thesis
        using step_ok_trans [OF m(2) give_value_ok [OF m(1)]] Cons Running Return by (simp add: step_def)
    next
      case Throw
      with Cons Running machine_ok_stack [OF assms unwind_ok [OF fs, of "catches pg"]] show ?thesis
        by (simp add: step_def step_ok_def)
    qed
  qed
qed

lemma reaches_ok:
  assumes "reaches pg tr m"
  shows "machine_ok m \<and> list_all (event_ok m) tr"
  using assms
proof (induction rule: runs.induct)
  case here
  show ?case by (simp add: machine_ok_def) (simp add: new_machine_def)
next
  case (turn tr m u)
  have "machine_ok (m\<lparr>stack := [Running u Main]\<rparr>)" "grows m (m\<lparr>stack := [Running u Main]\<rparr>)"
    using turn by (intro machine_ok_stack; simp)+
  with turn show ?case
    by (auto simp: list_all_iff intro: ok_grows)
next
  case (steps tr m es m')
  with step_preserves [of m pg] show ?case
    by (auto simp: step_ok_def list_all_iff intro: ok_grows)
qed

end
