(* ===== verification/JqPromise.thy ===== *)
theory JqPromise
  imports JqDeferred
begin

text \<open>
  What \<open>jQuery.Deferred\<close> promises to a page, whatever the page does: a deferred is settled once and for
  all, and the functions given to \<open>done\<close> and \<open>fail\<close> are called at most once, in the order in which they
  were given, all with the same values, and only those of one side. The proof follows the two lists of
  a deferred through every run of the machine of \<open>JqDeferred\<close>.
\<close>

section \<open>What a run shows\<close>

definition registered :: "('f, 'a) event list \<Rightarrow> addr \<Rightarrow> 'f cb list" where
  "registered tr A = concat (map (\<lambda>e. case e of Added B cs \<Rightarrow> if B = A then cs else [] | _ \<Rightarrow> []) tr)"

definition called :: "('f, 'a) event list \<Rightarrow> addr \<Rightarrow> ('f cb \<times> 'a firing_value) list" where
  "called tr A = concat (map (\<lambda>e. case e of Called B c v \<Rightarrow> if B = A \<and> external c then [(c, v)] else [] | _ \<Rightarrow> []) tr)"

lemma trace_simps [simp]:
  "registered [] A = []" "called [] A = []"
  "registered (tr @ tr') A = registered tr A @ registered tr' A" "called (tr @ tr') A = called tr A @ called tr' A"
  "registered (Added B cs # tr) A = (if B = A then cs else []) @ registered tr A"
  "registered (Called B c v # tr) A = registered tr A" "registered (Threw # tr) A = registered tr A"
  "called (Added B cs # tr) A = called tr A" "called (Threw # tr) A = called tr A"
  "called (Called B c v # tr) A = (if B = A \<and> external c then [(c, v)] else []) @ called tr A"
  by (simp_all add: registered_def called_def)

text \<open>The loops of \<open>fire\<close> that run on the first two lists of a deferred.\<close>

definition frame_of :: "nat \<Rightarrow> addr \<Rightarrow> bool \<Rightarrow> (part \<times> bool) list" where
  "frame_of d A b = (case A of Raw _ \<Rightarrow> [] | Part d' p \<Rightarrow> if d' = d \<and> p \<noteq> Notify then [(p, b)] else [])"

fun frames :: "nat \<Rightarrow> ('f, 'u, 'a) frame list \<Rightarrow> (part \<times> bool) list" where
  "frames d [] = []"
| "frames d (Firing A b # fs) = frame_of d A b @ frames d fs"
| "frames d (Running u k # fs) = frames d fs"
| "frames d (Todo ts # fs) = frames d fs"

lemma frame_of_simps [simp]:
  "frame_of d (Raw i) b = []" "frame_of d (Part d' p) b = (if d' = d \<and> p \<noteq> Notify then [(p, b)] else [])"
  by (simp_all add: frame_of_def)

lemma frames_unwind: "\<exists>gs. frames d fs = gs @ frames d (unwind cat fs)"
  by (induction cat fs rule: unwind.induct) (auto split: option.splits)

section \<open>The states of a deferred\<close>

definition untouched :: "nat \<Rightarrow> part \<Rightarrow> ('f, 'a) event list \<Rightarrow> ('f, 'u, 'a) machine \<Rightarrow> bool" where
  "untouched d p tr m \<longleftrightarrow> list_at m (Part d p) = unfired_list p (settle_fns d p @ registered tr (Part d p))
     \<and> called tr (Part d p) = []"

definition dead :: "nat \<Rightarrow> part \<Rightarrow> ('f, 'a) event list \<Rightarrow> ('f, 'u, 'a) machine \<Rightarrow> bool" where
  "dead d p tr m \<longleftrightarrow> list_at m (Part d p) = dead_list p \<and> called tr (Part d p) = []"

definition state_of :: "nat \<Rightarrow> ('f, 'u, 'a) machine \<Rightarrow> part option" where
  "state_of d m = d_state (deferreds m ! d)"

definition pending :: "nat \<Rightarrow> ('f, 'a) event list \<Rightarrow> ('f, 'u, 'a) machine \<Rightarrow> bool" where
  "pending d tr m \<longleftrightarrow> state_of d m = None \<and> frames d (stack m) = []
     \<and> untouched d Resolve tr m \<and> untouched d Reject tr m"

text \<open>
  Settled with the value \<open>v\<close>: the functions \<open>pre\<close> have been called, and those behind the index of a
  running loop will be. A loop that is gone although its list says that it runs has been left by an exception.
\<close>

definition settled :: "nat \<Rightarrow> part \<Rightarrow> 'a firing_value \<Rightarrow> ('f, 'a) event list \<Rightarrow> ('f, 'u, 'a) machine \<Rightarrow> bool" where
  "settled d p v tr m \<longleftrightarrow> state_of d m = Some p \<and> dead d (counterpart p) tr m
     \<and> (\<exists>pre. called tr (Part d p) = map (\<lambda>c. (c, v)) pre
       \<and> (list_at m (Part d p) = idle_list p v \<and> frames d (stack m) = [] \<and> registered tr (Part d p) = pre
         \<or> (\<exists>xs i. list_at m (Part d p) = run_list p v xs i \<and> -1 \<le> i \<and> i < int (length xs) \<and> list_all external (drop (nat (i + 1)) xs)
             \<and> registered tr (Part d p) = pre @ drop (nat (i + 1)) xs
             \<and> (frames d (stack m) = [(p, False)] \<or> frames d (stack m) = [] \<and> Threw \<in> set tr))))"

definition stable :: "nat \<Rightarrow> ('f, 'a) event list \<Rightarrow> ('f, 'u, 'a) machine \<Rightarrow> bool" where
  "stable d tr m \<longleftrightarrow> pending d tr m \<or> (\<exists>p v. p \<noteq> Notify \<and> settled d p v tr m)"

text \<open>
  While the three own functions of the deferred are called, and at the start of a loop over functions
  that were added later, nothing else can run.
\<close>

definition starting :: "nat \<Rightarrow> part \<Rightarrow> 'a firing_value \<Rightarrow> nat \<Rightarrow> ('f, 'u, 'a) frame list \<Rightarrow> ('f, 'a) event list
    \<Rightarrow> ('f, 'u, 'a) machine \<Rightarrow> bool" where
  "starting d p v i fs tr m \<longleftrightarrow> stack m = Firing (Part d p) (i = 0) # fs \<and> i \<le> 2 \<and> frames d fs = []
     \<and> called tr (Part d p) = [] \<and> state_of d m = (if i = 0 then None else Some p)
     \<and> list_at m (Part d p) = (if i = 0 then fresh_list p v None (settle_fns d p @ registered tr (Part d p))
         else run_list p v (settle_fns d p @ registered tr (Part d p)) (int i - 1))
     \<and> (if i = 2 then dead d (counterpart p) tr m else untouched d (counterpart p) tr m)"

definition restarting :: "nat \<Rightarrow> part \<Rightarrow> 'a firing_value \<Rightarrow> ('f, 'u, 'a) frame list \<Rightarrow> ('f, 'a) event list
    \<Rightarrow> ('f, 'u, 'a) machine \<Rightarrow> bool" where
  "restarting d p v fs tr m \<longleftrightarrow> stack m = Firing (Part d p) True # fs \<and> frames d fs = []
     \<and> state_of d m = Some p \<and> dead d (counterpart p) tr m
     \<and> (\<exists>pre xs. list_at m (Part d p) = fresh_list p v (Some v) xs \<and> called tr (Part d p) = map (\<lambda>c. (c, v)) pre
         \<and> registered tr (Part d p) = pre @ xs \<and> list_all external xs)"

definition promise_inv :: "nat \<Rightarrow> ('f, 'a) event list \<Rightarrow> ('f, 'u, 'a) machine \<Rightarrow> bool" where
  "promise_inv d tr m \<longleftrightarrow> stable d tr m
     \<or> (\<exists>p v fs. p \<noteq> Notify \<and> ((\<exists>i. starting d p v i fs tr m) \<or> restarting d p v fs tr m))"

lemma stable_inv: "stable d tr m \<Longrightarrow> promise_inv d tr m"
  by (simp add: promise_inv_def)

section \<open>Steps that do not concern the deferred\<close>

definition same_view :: "nat \<Rightarrow> ('f, 'u, 'a) machine \<Rightarrow> ('f, 'u, 'a) machine \<Rightarrow> bool" where
  "same_view d m m' \<longleftrightarrow> state_of d m' = state_of d m
     \<and> (\<forall>p. p \<noteq> Notify \<longrightarrow> list_at m' (Part d p) = list_at m (Part d p)) \<and> frames d (stack m') = frames d (stack m)"

definition same_trace :: "nat \<Rightarrow> ('f, 'a) event list \<Rightarrow> ('f, 'a) event list \<Rightarrow> bool" where
  "same_trace d tr tr' \<longleftrightarrow> (\<forall>p. p \<noteq> Notify \<longrightarrow> registered tr' (Part d p) = registered tr (Part d p)
     \<and> called tr' (Part d p) = called tr (Part d p)) \<and> (Threw \<in> set tr \<longrightarrow> Threw \<in> set tr')"

lemma same_trace_refl [simp]: "same_trace d tr tr"
  by (simp add: same_trace_def)

lemma same_view_refl [simp]: "same_view d m m"
  by (simp add: same_view_def)

lemma same_view_trans: "same_view d a b \<Longrightarrow> same_view d b c \<Longrightarrow> same_view d a c"
  by (simp add: same_view_def)

lemma counterpart_simps [simp]:
  "counterpart (counterpart p) = p" "(counterpart p = Notify) = (p = Notify)" "(counterpart p = p) = (p = Notify)"
  "(p = counterpart p) = (p = Notify)" "(Notify = counterpart p) = (p = Notify)"
  by (cases p; simp)+

lemma stable_same:
  assumes "stable d tr m" and "same_view d m m'" and "same_trace d tr tr'"
  shows "stable d tr' m'"
proof -
  have un: "untouched d p tr' m' = untouched d p tr m" if "p \<noteq> Notify" for p
    using assms(2,3) that by (simp add: untouched_def same_view_def same_trace_def)
  have de: "dead d p tr' m' = dead d p tr m" if "p \<noteq> Notify" for p
    using assms(2,3) that by (simp add: dead_def same_view_def same_trace_def)
  have "pending d tr' m' = pending d tr m"
    using assms(2) un by (simp add: pending_def same_view_def)
  moreover have "settled d p v tr m \<Longrightarrow> settled d p v tr' m'" if "p \<noteq> Notify" for p v
    unfolding settled_def using assms(2,3) de [of "counterpart p"] that
    by (auto simp: same_view_def same_trace_def)
  ultimately show ?thesis
    using assms(1) unfolding stable_def by metis
qed

lemma same_view_put:
  "addr_ok m A \<Longrightarrow> (\<And>p. p \<noteq> Notify \<Longrightarrow> A \<noteq> Part d p) \<Longrightarrow> same_view d m (put_list A l m)"
proof -
  assume A: "addr_ok m A" "\<And>p. p \<noteq> Notify \<Longrightarrow> A \<noteq> Part d p"
  have "state_of d (put_list A l m) = state_of d m"
    using A(1) by (cases A) (auto simp: state_of_def put_list.simps nth_list_update)
  then show ?thesis
    using A by (auto simp: same_view_def list_at_put)
qed

lemma list_at_more [simp]: "list_at (m\<lparr>stack := fs\<rparr>) A = list_at m A" "list_at (m\<lparr>whens := ws\<rparr>) A = list_at m A"
  "list_at (push_frame f m) A = list_at m A"
  by (auto simp: push_frame_def intro: list_at_same)

lemma state_of_more [simp]: "state_of d (m\<lparr>stack := fs\<rparr>) = state_of d m" "state_of d (m\<lparr>whens := ws\<rparr>) = state_of d m"
  "state_of d (push_frame f m) = state_of d m"
  by (simp_all add: state_of_def push_frame_def)

lemma state_of_put [simp]: "addr_ok m A \<Longrightarrow> state_of d (put_list A l m) = state_of d m"
  by (cases A) (auto simp: state_of_def put_list.simps nth_list_update)

lemma addr_ok_stack [simp]: "addr_ok (m\<lparr>stack := fs\<rparr>) A = addr_ok m A"
  by (cases A) simp_all

lemma stack_push [simp]: "stack (push_frame f m) = f # stack m"
  by (simp add: push_frame_def)

lemma same_view_start:
  assumes "addr_ok m A" and "\<And>p. p \<noteq> Notify \<Longrightarrow> A \<noteq> Part d p"
  shows "same_view d m (start_fire A r m)"
proof -
  have "frame_of d A b = []" for b
    using assms(2) by (cases A) (auto simp: frame_of_def)
  then show ?thesis
    using assms by (auto simp: start_fire_def same_view_def list_at_put split: prod.splits)
qed

section \<open>Adding and firing\<close>

lemma inv_same: "stable d tr m \<Longrightarrow> same_view d m m' \<Longrightarrow> same_trace d tr tr' \<Longrightarrow> promise_inv d tr' m'"
  using stable_same stable_inv by blast

lemma inv_settled: "settled d p v tr m \<Longrightarrow> p \<noteq> Notify \<Longrightarrow> promise_inv d tr m"
  unfolding promise_inv_def stable_def by blast

lemma inv_starting: "starting d p v i fs tr m \<Longrightarrow> p \<noteq> Notify \<Longrightarrow> promise_inv d tr m"
  unfolding promise_inv_def by blast

lemma inv_restarting: "restarting d p v fs tr m \<Longrightarrow> p \<noteq> Notify \<Longrightarrow> promise_inv d tr m"
  unfolding promise_inv_def by blast

lemma settled_run:
  assumes "state_of d m = Some p" and "dead d (counterpart p) tr m" and "called tr (Part d p) = map (\<lambda>c. (c, v)) pre"
    and "list_at m (Part d p) = run_list p v xs i" and "-1 \<le> i" and "i < int (length xs)"
    and "list_all external (drop (nat (i + 1)) xs)" and "registered tr (Part d p) = pre @ drop (nat (i + 1)) xs"
    and "frames d (stack m) = [(p, False)] \<or> frames d (stack m) = [] \<and> Threw \<in> set tr"
  shows "settled d p v tr m"
  unfolding settled_def using assms by blast

lemma settled_dead:
  assumes "settled d q v tr m" and "q \<noteq> Notify" and "p \<noteq> Notify" and "q \<noteq> p"
  shows "dead d p tr m"
proof -
  have "counterpart q = p"
    using assms(2-4) by (cases p; cases q) auto
  with assms(1) show ?thesis by (auto simp: settled_def)
qed

lemma inv_add_part:
  assumes "stable d tr m" and "d < length (deferreds m)" and "p \<noteq> Notify" and "list_all external (arg_fns args)"
  shows "promise_inv d (tr @ fst (do_add (Part d p) args m)) (snd (do_add (Part d p) args m))"
proof -
  let ?A = "Part d p"
  let ?tr = "tr @ fst (do_add ?A args m)"
  let ?m = "snd (do_add ?A args m)"
  have ok: "addr_ok m ?A" using assms(2) by simp
  have fst: "fst (do_add ?A args m) = [Added ?A (arg_fns args)]"
    by (simp add: do_add_def arg_fns_def)
  have snd: "?m = start_fire ?A (add args (list_at m ?A)) m"
    by (simp add: do_add_def)
  show ?thesis
  proof (cases "pending d tr m")
    case True
    then have "untouched d p tr m"
      using assms(3) by (cases p) (auto simp: pending_def)
    then have "?m = put_list ?A (unfired_list p (settle_fns d p @ registered tr ?A @ arg_fns args)) m"
      using assms(3) by (simp add: snd untouched_def add_states start_fire_def)
    with True ok have "pending d ?tr ?m"
      by (auto simp: pending_def untouched_def fst list_at_put)
    then show ?thesis by (simp add: promise_inv_def stable_def)
  next
    case False
    then obtain q v where q: "q \<noteq> Notify" "settled d q v tr m"
      using assms(1) by (auto simp: stable_def)
    show ?thesis
    proof (cases "q = p")
      case False
      then have "dead d p tr m"
        by (rule settled_dead [OF q(2,1) assms(3)])
      then have "?m = put_list ?A (dead_list p) m"
        using assms(3) by (simp add: snd dead_def add_states start_fire_def)
      with q False ok \<open>dead d p tr m\<close> have "settled d q v ?tr ?m"
        unfolding settled_def by (simp add: dead_def fst list_at_put)
      then show ?thesis by (rule inv_settled [OF _ q(1)])
    next
      case True
      from q(2) True obtain pre where s: "state_of d m = Some p" "dead d (counterpart p) tr m"
        and pre: "called tr ?A = map (\<lambda>c. (c, v)) pre"
        and or: "list_at m ?A = idle_list p v \<and> frames d (stack m) = [] \<and> registered tr ?A = pre
         \<or> (\<exists>xs i. list_at m ?A = run_list p v xs i \<and> -1 \<le> i \<and> i < int (length xs) \<and> list_all external (drop (nat (i + 1)) xs)
             \<and> registered tr ?A = pre @ drop (nat (i + 1)) xs
             \<and> (frames d (stack m) = [(p, False)] \<or> frames d (stack m) = [] \<and> Threw \<in> set tr))"
        unfolding settled_def by blast
      from or show ?thesis
      proof (rule disjE; elim exE conjE)
        assume idle: "list_at m ?A = idle_list p v" "frames d (stack m) = []" "registered tr ?A = pre"
        obtain l where "add args (idle_list p v) = (l, True)" "fire_begin l = fresh_list p v (Some v) (arg_fns args)"
          using add_states(4) [OF assms(3), of args v] by (elim exE conjE) (rule that)
        then have "?m = push_frame (Firing ?A True) (put_list ?A (fresh_list p v (Some v) (arg_fns args)) m)"
          by (simp add: snd idle start_fire_def)
        then have "restarting d p v (stack m) ?tr ?m"
          using s ok idle pre assms(3,4)
          by (simp add: restarting_def fst list_at_put dead_def) blast
        then show ?thesis by (rule inv_restarting [OF _ assms(3)])
      next
        fix xs i
        assume run: "list_at m ?A = run_list p v xs i" "-1 \<le> i" "i < int (length xs)" "list_all external (drop (nat (i + 1)) xs)"
          "registered tr ?A = pre @ drop (nat (i + 1)) xs"
          and fr: "frames d (stack m) = [(p, False)] \<or> frames d (stack m) = [] \<and> Threw \<in> set tr"
        have "?m = put_list ?A (run_list p v (xs @ arg_fns args) i) m"
          using assms(3) by (simp add: snd run add_states start_fire_def)
        moreover have "drop (nat (i + 1)) (xs @ arg_fns args) = drop (nat (i + 1)) xs @ arg_fns args"
          using run(3) by simp
        ultimately have "settled d p v ?tr ?m"
          using s ok pre run fr assms(3,4)
          by (intro settled_run [where pre = pre and xs = "xs @ arg_fns args" and i = i])
            (auto simp: fst list_at_put dead_def)
        then show ?thesis by (rule inv_settled [OF _ assms(3)])
      qed
    qed
  qed
qed

lemma inv_add:
  assumes "stable d tr m" and "d < length (deferreds m)" and "addr_ok m A" and "list_all external (arg_fns args)"
  shows "promise_inv d (tr @ fst (do_add A args m)) (snd (do_add A args m))"
proof (cases "\<exists>p. p \<noteq> Notify \<and> A = Part d p")
  case True
  with assms inv_add_part show ?thesis by blast
next
  case False
  then have "same_view d m (snd (do_add A args m))"
    unfolding do_add_def snd_conv by (intro same_view_start [OF assms(3)]) blast
  moreover have "same_trace d tr (tr @ fst (do_add A args m))"
    using False by (auto simp: same_trace_def do_add_def)
  ultimately show ?thesis by (rule inv_same [OF assms(1)])
qed

lemma inv_fire_part:
  assumes "stable d tr m" and "d < length (deferreds m)" and "p \<noteq> Notify"
  shows "promise_inv d tr (do_fire (Part d p) v m)"
proof -
  let ?A = "Part d p"
  have ok: "addr_ok m ?A" using assms(2) by simp
  show ?thesis
  proof (cases "pending d tr m")
    case True
    then have u: "untouched d p tr m" "untouched d (counterpart p) tr m"
      using assms(3) by (cases p; auto simp: pending_def)+
    obtain l where l: "fireWith v (unfired_list p (settle_fns d p @ registered tr ?A)) = (l, True)"
        "fire_begin l = fresh_list p v None (settle_fns d p @ registered tr ?A)"
      using fireWith_states(1) [OF assms(3), of v "settle_fns d p @ registered tr ?A"] by (elim exE conjE) (rule that)
    have "do_fire ?A v m =
        push_frame (Firing ?A True) (put_list ?A (fresh_list p v None (settle_fns d p @ registered tr ?A)) m)"
      using u(1) l by (simp add: do_fire_def untouched_def start_fire_def)
    then have "starting d p v 0 (stack m) tr (do_fire ?A v m)"
      using True u ok assms(3) by (simp add: starting_def pending_def untouched_def list_at_put)
    then show ?thesis by (rule inv_starting [OF _ assms(3)])
  next
    case False
    then obtain q w where q: "q \<noteq> Notify" "settled d q w tr m"
      using assms(1) by (auto simp: stable_def)
    have "fireWith v (list_at m ?A) = (list_at m ?A, False)"
    proof (cases "q = p")
      case True
      with q assms(3) show ?thesis by (auto simp: settled_def fireWith_states)
    next
      case False
      then have "dead d p tr m"
        by (rule settled_dead [OF q(2,1) assms(3)])
      with assms(3) show ?thesis by (simp add: dead_def fireWith_states)
    qed
    then have "do_fire ?A v m = put_list ?A (list_at m ?A) m"
      by (simp add: do_fire_def start_fire_def)
    then have "same_view d m (do_fire ?A v m)"
      using ok by (auto simp: same_view_def list_at_put)
    then show ?thesis by (rule inv_same [OF assms(1) _ same_trace_refl])
  qed
qed

lemma inv_fire:
  assumes "stable d tr m" and "d < length (deferreds m)" and "addr_ok m A"
  shows "promise_inv d tr (do_fire A v m)"
proof (cases "\<exists>p. p \<noteq> Notify \<and> A = Part d p")
  case True
  with assms inv_fire_part show ?thesis by blast
next
  case False
  then have "same_view d m (do_fire A v m)"
    unfolding do_fire_def by (intro same_view_start [OF assms(3)]) blast
  then show ?thesis by (rule inv_same [OF assms(1) _ same_trace_refl])
qed

text \<open>Calls of functions that are not the deferred's own.\<close>

lemma same_view_push: "frames d [f] = [] \<Longrightarrow> same_view d m (push_frame f m)"
  by (cases f) (auto simp: same_view_def)

lemma inv_update:
  assumes "stable d tr m" and "d < length (deferreds m)" and "machine_ok m" and "w < length (whens m)"
  shows "promise_inv d tr (do_update w i b this args m)"
proof -
  have fire: "promise_inv d tr (do_fire (Part (w_master (whens m ! w)) p) v (m\<lparr>whens := ws\<rparr>))" for p v ws
  proof (rule inv_fire)
    show "stable d tr (m\<lparr>whens := ws\<rparr>)"
      by (rule stable_same [OF assms(1)]) (simp_all add: same_view_def)
    show "d < length (deferreds (m\<lparr>whens := ws\<rparr>))"
      using assms(2) by simp
    show "addr_ok (m\<lparr>whens := ws\<rparr>) (Part (w_master (whens m ! w)) p)"
      using master_ok [OF assms(3,4)] by simp
  qed
  moreover have "promise_inv d tr (m\<lparr>whens := ws\<rparr>)" for ws
    by (rule inv_same [OF assms(1)]) (simp_all add: same_view_def)
  ultimately show ?thesis
    by (simp add: do_update_def Let_def)
qed

lemma inv_call:
  assumes "stable d tr m" and "d < length (deferreds m)" and "machine_ok m" and "addr_ok m A" and "cb_ok m A c"
    and "external c \<or> (\<forall>p. p \<noteq> Notify \<longrightarrow> A \<noteq> Part d p)"
  shows "promise_inv d tr (call_cb en A c v m)"
proof -
  obtain this args where v: "v = (this, args)" by fastforce
  have push: "promise_inv d tr (push_frame (Running u k) m)" for u k
    by (rule inv_same [OF assms(1)]) (simp_all add: same_view_push)
  have put: "promise_inv d tr (put_list (Part d' p) l m)" if "addr_ok m (Part d' p)" "d' \<noteq> d \<or> p = Notify" for d' p l
    using that by (intro inv_same [OF assms(1)] same_view_put) auto
  show ?thesis
  proof (cases c)
    case (User f)
    with push show ?thesis by (simp add: call_cb_def v)
  next
    case (SetState d' p)
    then have "d' \<noteq> d" using assms(5,6) by auto
    then have "same_view d m (m\<lparr>deferreds := (deferreds m)[d' := (deferreds m ! d')\<lparr>d_state := Some p\<rparr>]\<rparr>)"
      by (auto simp: same_view_def state_of_def list_at.simps)
    with SetState inv_same [OF assms(1)] show ?thesis by (simp add: call_cb_def v)
  next
    case (DisableList d' p)
    then have "counterpart p \<noteq> Notify" "A = Part d' (counterpart p)"
      using assms(5) by auto
    moreover have "\<not> external c"
      using DisableList by simp
    ultimately have "d' \<noteq> d" "addr_ok m (Part d' p)"
      using assms(4,6) by (blast, simp)
    with DisableList put show ?thesis by (simp add: call_cb_def v)
  next
    case (LockProgress d')
    then have "addr_ok m (Part d' Notify)" using assms(4,5) by auto
    with LockProgress put show ?thesis by (simp add: call_cb_def v)
  next
    case (Settle d' p)
    with assms show ?thesis by (simp add: call_cb_def v inv_fire)
  next
    case (Forward fn s d' p)
    with assms push show ?thesis by (simp add: call_cb_def v inv_fire split: option.split)
  next
    case (Update w i b)
    with assms show ?thesis by (simp add: call_cb_def v inv_update)
  qed
qed

section \<open>Every step keeps the promise\<close>

lemma settled_idle:
  "state_of d m = Some p \<Longrightarrow> dead d (counterpart p) tr m \<Longrightarrow> called tr (Part d p) = map (\<lambda>c. (c, v)) pre \<Longrightarrow>
     list_at m (Part d p) = idle_list p v \<Longrightarrow> frames d (stack m) = [] \<Longrightarrow> registered tr (Part d p) = pre \<Longrightarrow> settled d p v tr m"
  unfolding settled_def by blast

lemma settled_stable: "settled d p v tr m \<Longrightarrow> p \<noteq> Notify \<Longrightarrow> stable d tr m"
  unfolding stable_def by blast

lemma dead_cong:
  "dead d p tr m \<Longrightarrow> list_at m' (Part d p) = list_at m (Part d p) \<Longrightarrow> called tr' (Part d p) = called tr (Part d p) \<Longrightarrow>
     dead d p tr' m'"
  by (simp add: dead_def)

text \<open>A loop over functions of the page calls the next one.\<close>

lemma inv_next:
  assumes ok: "machine_ok m" "stack m = Firing (Part d p) b # fs" "frames d fs = []" "p \<noteq> Notify"
    and f: "(if b then fire_first else fire_next) (list_at m (Part d p)) = (Some c, run_list p v xs i)"
    and s: "state_of d m = Some p" "dead d (counterpart p) tr m" "called tr (Part d p) = map (\<lambda>c. (c, v)) pre"
    and i: "-1 \<le> i" "i < int (length xs)" "list_all external (c # drop (nat (i + 1)) xs)"
    and reg: "registered tr (Part d p) = pre @ c # drop (nat (i + 1)) xs"
  shows "promise_inv d (tr @ fst (fire_step en (Part d p) b fs m)) (snd (fire_step en (Part d p) b fs m))"
proof -
  let ?A = "Part d p"
  let ?l = "run_list p v xs i :: ('a cb, 'c firing_value) cblist"
  let ?m = "put_list ?A ?l (m\<lparr>stack := Firing ?A False # fs\<rparr>)"
  let ?tr = "tr @ [Called ?A c v]"
  note call = fire_call_ok [OF ok(1,2) f]
  have A: "addr_ok (m\<lparr>stack := Firing ?A False # fs\<rparr>) ?A"
    using call(1) by simp
  have "settled d p v ?tr ?m"
  proof (rule settled_run)
    show "state_of d ?m = Some p" using s(1) A by simp
    show "dead d (counterpart p) ?tr ?m"
      using s(2) A ok(4) by (auto intro: dead_cong simp: list_at_put)
    show "called ?tr ?A = map (\<lambda>c. (c, v)) (pre @ [c])" using s(3) i(3) by simp
    show "list_at ?m ?A = ?l" using A by (simp add: list_at_put)
    show "-1 \<le> i" "i < int (length xs)" "list_all external (drop (nat (i + 1)) xs)" using i by simp_all
    show "registered ?tr ?A = (pre @ [c]) @ drop (nat (i + 1)) xs" using reg by simp
    show "frames d (stack ?m) = [(p, False)] \<or> frames d (stack ?m) = [] \<and> Threw \<in> set ?tr" using ok(3,4) by simp
  qed
  then have st: "stable d ?tr ?m"
    by (rule settled_stable [OF _ ok(4)])
  have "promise_inv d ?tr (call_cb en ?A c v ?m)"
  proof (rule inv_call [OF st _ call(3)])
    show "d < length (deferreds ?m)" using call(1) by simp
    show "addr_ok ?m ?A" using call(1) by simp
    show "cb_ok ?m ?A c" using ok_grows(2) [OF call(4)] call(5) by simp
    show "external c \<or> (\<forall>q. q \<noteq> Notify \<longrightarrow> ?A \<noteq> Part d q)" using i(3) by simp
  qed
  moreover have "memory ?l = Some v" by (simp add: run_list_def)
  ultimately show ?thesis
    using f by (simp add: fire_step_def Let_def)
qed

lemma inv_end:
  assumes ok: "machine_ok m" "stack m = Firing (Part d p) b # fs" "frames d fs = []" "p \<noteq> Notify"
    and f: "(if b then fire_first else fire_next) (list_at m (Part d p)) = (None, run_list p v xs (-1))"
    and s: "state_of d m = Some p" "dead d (counterpart p) tr m" "called tr (Part d p) = map (\<lambda>c. (c, v)) pre"
    and reg: "registered tr (Part d p) = pre"
  shows "promise_inv d (tr @ fst (fire_step en (Part d p) b fs m)) (snd (fire_step en (Part d p) b fs m))"
proof -
  let ?m = "put_list (Part d p) (idle_list p v) (m\<lparr>stack := fs\<rparr>)"
  have A: "addr_ok (m\<lparr>stack := fs\<rparr>) (Part d p)"
    using ok(1,2) by (simp add: machine_ok_def)
  have "settled d p v tr ?m"
  proof (rule settled_idle)
    show "state_of d ?m = Some p" using s(1) A by simp
    show "dead d (counterpart p) tr ?m"
      using s(2) A ok(4) by (auto intro: dead_cong simp: list_at_put)
    show "called tr (Part d p) = map (\<lambda>c. (c, v)) pre" "registered tr (Part d p) = pre" using s(3) reg by simp_all
    show "list_at ?m (Part d p) = idle_list p v" using A by (simp add: list_at_put)
    show "frames d (stack ?m) = []" using ok(3) by simp
  qed
  then show ?thesis
    using f inv_settled [OF _ ok(4)] by (simp add: fire_step_def fire_states(3) [OF ok(4)])
qed

lemma stable_running:
  assumes "stable d tr m" and "stack m = Firing (Part d p) b # fs" and "p \<noteq> Notify"
  obtains v pre xs i where "\<not> b" and "frames d fs = []" and "state_of d m = Some p" and "dead d (counterpart p) tr m"
    and "called tr (Part d p) = map (\<lambda>c. (c, v)) pre" and "list_at m (Part d p) = run_list p v xs i" and "-1 \<le> i"
    and "i < int (length xs)" and "list_all external (drop (nat (i + 1)) xs)"
    and "registered tr (Part d p) = pre @ drop (nat (i + 1)) xs"
proof -
  have fr: "frames d (stack m) = (p, b) # frames d fs"
    using assms(2,3) by simp
  then obtain q v where q: "q \<noteq> Notify" "settled d q v tr m"
    using assms(1) by (auto simp: stable_def pending_def)
  then obtain pre xs i where "state_of d m = Some q" "dead d (counterpart q) tr m"
      "called tr (Part d q) = map (\<lambda>c. (c, v)) pre"
      "list_at m (Part d q) = run_list q v xs i" "-1 \<le> i" "i < int (length xs)"
      "list_all external (drop (nat (i + 1)) xs)" "registered tr (Part d q) = pre @ drop (nat (i + 1)) xs"
      "frames d (stack m) = [(q, False)]"
    unfolding settled_def using fr by auto
  with fr show ?thesis by (auto intro: that)
qed

lemma inv_running:
  assumes "stable d tr m" and "machine_ok m" and "stack m = Firing (Part d p) b # fs" and "p \<noteq> Notify"
  shows "promise_inv d (tr @ fst (fire_step en (Part d p) b fs m)) (snd (fire_step en (Part d p) b fs m))"
proof -
  from stable_running [OF assms(1,3,4)] obtain v pre xs i where eq: "\<not> b" "frames d fs = []"
    and s: "state_of d m = Some p" "dead d (counterpart p) tr m" "called tr (Part d p) = map (\<lambda>c. (c, v)) pre"
    and run: "list_at m (Part d p) = run_list p v xs i" "-1 \<le> i" "i < int (length xs)"
      "list_all external (drop (nat (i + 1)) xs)" "registered tr (Part d p) = pre @ drop (nat (i + 1)) xs" .
  note next_fn = fire_states(2) [OF assms(4) run(2), of v xs]
  show ?thesis
  proof (cases "nat (i + 1) < length xs")
    case True
    have d: "drop (nat (i + 1)) xs = xs ! nat (i + 1) # drop (nat (i + 1 + 1)) xs"
    proof -
      have "nat (i + 1 + 1) = Suc (nat (i + 1))" using run(2) by simp
      with True show ?thesis by (simp only: Cons_nth_drop_Suc)
    qed
    show ?thesis
    proof (rule inv_next [OF assms(2,3) eq(2) assms(4)])
      show "(if b then fire_first else fire_next) (list_at m (Part d p)) = (Some (xs ! nat (i + 1)), run_list p v xs (i + 1))"
        using True run(1) eq next_fn by simp
    qed (use s run d True eq in auto)
  next
    case False
    show ?thesis
    proof (rule inv_end [OF assms(2,3) eq(2) assms(4)])
      show "(if b then fire_first else fire_next) (list_at m (Part d p)) = (None, run_list p v xs (-1))"
        using False run(1) eq next_fn by simp
    qed (use s run False eq in auto)
  qed
qed

lemma inv_restart:
  assumes "restarting d p v fs tr m" and "machine_ok m" and "p \<noteq> Notify"
  shows "promise_inv d (tr @ fst (fire_step en (Part d p) True fs m)) (snd (fire_step en (Part d p) True fs m))"
proof -
  from assms(1) obtain pre xs where r: "stack m = Firing (Part d p) True # fs" "frames d fs = []"
      "state_of d m = Some p" "dead d (counterpart p) tr m" "list_at m (Part d p) = fresh_list p v (Some v) xs"
      "called tr (Part d p) = map (\<lambda>c. (c, v)) pre" "registered tr (Part d p) = pre @ xs" "list_all external xs"
    unfolding restarting_def by blast
  show ?thesis
  proof (cases xs)
    case Nil
    show ?thesis
    proof (rule inv_end [OF assms(2) r(1,2) assms(3)])
      show "(if True then fire_first else fire_next) (list_at m (Part d p)) = (None, run_list p v [] (-1))"
        using Nil r(5) by (simp add: fire_states(1) [OF assms(3)])
    qed (use r Nil in auto)
  next
    case (Cons c cs)
    show ?thesis
    proof (rule inv_next [OF assms(2) r(1,2) assms(3)])
      show "(if True then fire_first else fire_next) (list_at m (Part d p)) = (Some c, run_list p v xs 0)"
        using Cons r(5) by (simp add: fire_states(1) [OF assms(3)])
    qed (use r Cons in auto)
  qed
qed

text \<open>The three own functions: the state is set, the other list disabled, the progress list locked.\<close>

lemma settle_fns_nth [simp]:
  "settle_fns d p @ xs = SetState d p # DisableList d (counterpart p) # LockProgress d # xs"
  by (simp add: settle_fns_def)

lemma untouched_cong:
  "untouched d p tr m \<Longrightarrow> list_at m' (Part d p) = list_at m (Part d p) \<Longrightarrow> called tr' (Part d p) = called tr (Part d p) \<Longrightarrow>
     registered tr' (Part d p) = registered tr (Part d p) \<Longrightarrow> untouched d p tr' m'"
  by (simp add: untouched_def)

lemma inv_start:
  assumes "starting d p v i fs tr m" and "machine_ok m" and "p \<noteq> Notify" and "list_all external (registered tr (Part d p))"
  shows "promise_inv d (tr @ fst (fire_step en (Part d p) (i = 0) fs m)) (snd (fire_step en (Part d p) (i = 0) fs m))"
proof -
  let ?A = "Part d p"
  let ?reg = "registered tr ?A"
  let ?xs = "SetState d p # DisableList d (counterpart p) # LockProgress d # ?reg"
  note st = assms(1) [unfolded starting_def, simplified]
  have d: "d < length (deferreds m)"
    using assms(2) st by (auto simp: machine_ok_def)
  have mem: "memory (run_list p v cs k) = Some v" for cs k
    by (simp add: run_list_def)
  consider (0) "i = 0" | (1) "i = 1" | (2) "i = 2"
    using st by linarith
  then show ?thesis
  proof cases
    case 0
    let ?m = "put_list ?A (run_list p v ?xs 0) (m\<lparr>stack := Firing ?A False # fs\<rparr>)"
    let ?m' = "?m\<lparr>deferreds := (deferreds ?m)[d := (deferreds ?m ! d)\<lparr>d_state := Some p\<rparr>]\<rparr>"
    have lists: "list_at ?m' B = list_at ?m B" for B
      using d
      by (cases B) (auto simp: list_at.simps nth_list_update)
    have step: "fire_step en ?A True fs m = ([Called ?A (SetState d p) v], ?m')"
      using 0 st by (simp add: fire_step_def fire_states(1) [OF assms(3)] call_cb_def mem split: prod.split)
    have "starting d p v 1 fs (tr @ [Called ?A (SetState d p) v]) ?m'"
      unfolding starting_def using 0 st d assms(3)
      by (auto simp: lists list_at_put state_of_def untouched_def)
    from inv_starting [OF this assms(3)] step 0 show ?thesis by simp
  next
    case 1
    let ?m = "put_list ?A (run_list p v ?xs 1) (m\<lparr>stack := Firing ?A False # fs\<rparr>)"
    let ?B = "Part d (counterpart p)"
    let ?m' = "put_list ?B (disable (list_at ?m ?B)) ?m"
    have other: "list_at ?m ?B = unfired_list (counterpart p) (settle_fns d (counterpart p) @ registered tr ?B)"
        "called tr ?B = []"
      using 1 st d assms(3) by (auto simp: list_at_put untouched_def)
    then have dis: "disable (list_at ?m ?B) = dead_list (counterpart p)"
      using assms(3) by (simp add: fire_states)
    have step: "fire_step en ?A False fs m = ([Called ?A (DisableList d (counterpart p)) v], ?m')"
      using 1 st
      by (simp add: fire_step_def fire_states(2) [OF assms(3)] call_cb_def mem split: prod.split)
    have "starting d p v 2 fs (tr @ [Called ?A (DisableList d (counterpart p)) v]) ?m'"
      unfolding starting_def using 1 st d assms(3) other(2) dis
      by (auto simp: list_at_put dead_def)
    from inv_starting [OF this assms(3)] step 1 show ?thesis by simp
  next
    case 2
    let ?m = "put_list ?A (run_list p v ?xs 2) (m\<lparr>stack := Firing ?A False # fs\<rparr>)"
    let ?N = "Part d Notify"
    let ?m' = "put_list ?N (lock (list_at ?m ?N)) ?m"
    let ?tr = "tr @ [Called ?A (LockProgress d) v]"
    have step: "fire_step en ?A False fs m = ([Called ?A (LockProgress d) v], ?m')"
      using 2 st
      by (simp add: fire_step_def fire_states(2) [OF assms(3)] call_cb_def mem split: prod.split)
    have "settled d p v ?tr ?m'"
    proof (rule settled_run)
      show "state_of d ?m' = Some p" using 2 st d by simp
      show "dead d (counterpart p) ?tr ?m'" using 2 st d assms(3) by (auto simp: dead_def list_at_put)
      show "called ?tr ?A = map (\<lambda>c. (c, v)) []" using st by simp
      show "list_at ?m' ?A = run_list p v ?xs 2" using d assms(3) by (auto simp: list_at_put)
      show "registered ?tr ?A = [] @ drop (nat (2 + 1)) ?xs" by (simp add: numeral_3_eq_3)
      show "frames d (stack ?m') = [(p, False)] \<or> frames d (stack ?m') = [] \<and> Threw \<in> set ?tr"
        using st assms(3) by simp
    qed (use assms(4) in \<open>simp_all add: numeral_3_eq_3\<close>)
    from inv_settled [OF this assms(3)] step 2 show ?thesis by simp
  qed
qed

text \<open>All other steps.\<close>

lemma inv_other_fire:
  assumes "stable d tr m" and "machine_ok m" and "d < length (deferreds m)" and "stack m = Firing A b # fs"
    and "\<And>p. p \<noteq> Notify \<Longrightarrow> A \<noteq> Part d p"
  shows "promise_inv d (tr @ fst (fire_step en A b fs m)) (snd (fire_step en A b fs m))"
proof -
  obtain r l where f: "(if b then fire_first else fire_next) (list_at m A) = (r, l)" by fastforce
  note call = fire_call_ok [OF assms(2,4) f]
  have fr: "frame_of d A b = []" for b
    using assms(5) by (cases A) (auto simp: frame_of_def)
  have view: "same_view d m (put_list A l' (m\<lparr>stack := gs\<rparr>))" if "frames d gs = frames d fs" for l' gs
    using that fr assms(4,5) call(1) by (auto simp: same_view_def list_at_put)
  show ?thesis
  proof (cases r)
    case None
    then have "fire_step en A b fs m = ([], put_list A (fire_end l) (m\<lparr>stack := fs\<rparr>))"
      using f by (simp add: fire_step_def)
    then show ?thesis
      using inv_same [OF assms(1) view [OF refl] same_trace_refl] by simp
  next
    case (Some c)
    let ?m = "put_list A l (m\<lparr>stack := Firing A False # fs\<rparr>)"
    define v where "v = (case memory l of None \<Rightarrow> (Undef, []) | Some v \<Rightarrow> v)"
    have "fire_step en A b fs m = ([Called A c v], call_cb en A c v ?m)"
      using f Some by (simp add: fire_step_def v_def Let_def)
    moreover have "promise_inv d (tr @ [Called A c v]) (call_cb en A c v ?m)"
    proof (rule inv_call)
      have "same_trace d tr (tr @ [Called A c v])"
        using assms(5) by (auto simp: same_trace_def)
      moreover have "same_view d m ?m" by (rule view) (simp add: fr)
      ultimately show "stable d (tr @ [Called A c v]) ?m"
        using stable_same [OF assms(1)] by blast
      show "d < length (deferreds ?m)" using assms(3) by simp
      show "machine_ok ?m" by (rule call(3))
      show "addr_ok ?m A" using ok_grows(1) [OF call(4,1)] .
      show "cb_ok ?m A c" using ok_grows(2) [OF call(4) call(5) [OF Some]] .
      show "external c \<or> (\<forall>p. p \<noteq> Notify \<longrightarrow> A \<noteq> Part d p)" using assms(5) by blast
    qed
    ultimately show ?thesis by simp
  qed
qed

text \<open>What other steps may do: change nothing of the deferred, or add to or fire one list.\<close>

lemma same_view_stack: "frames d fs = frames d (stack m) \<Longrightarrow> same_view d m (m\<lparr>stack := fs\<rparr>)"
  by (simp add: same_view_def)

lemma inv_view: "stable d tr m \<Longrightarrow> same_view d m m' \<Longrightarrow> promise_inv d (tr @ []) m'"
  by (simp add: inv_same)

lemma new_deferred_simps:
  "d < length (deferreds m) \<Longrightarrow> same_view d m (new_deferred m)"
  "state_of (length (deferreds m)) (new_deferred m) = None"
  "p \<noteq> Notify \<Longrightarrow> list_at (new_deferred m) (Part (length (deferreds m)) p)
     = unfired_list p (settle_fns (length (deferreds m)) p)"
  by (simp_all add: new_deferred_def same_view_def state_of_def list_at.simps nth_append Deferred_list)
    (simp add: Deferred_def)

lemma inv_exec:
  assumes "stable d tr m" and "machine_ok m" and "d < length (deferreds m)" and "op_valid x m"
  shows "promise_inv d (tr @ fst (exec_op x m)) (snd (exec_op x m))"
proof -
  have put: "promise_inv d (tr @ []) (put_list (Raw i) l m)" if "i < length (raws m)" for i l
    using that by (intro inv_view [OF assms(1)] same_view_put) auto
  have fire: "promise_inv d (tr @ []) (do_fire A v m)" if "addr_ok m A" for A v
    using inv_fire [OF assms(1,3) that] by simp
  have push: "promise_inv d (tr @ []) (push_frame (Todo ts) m')" if "same_view d m m'" for ts m'
    using that by (intro inv_view [OF assms(1)]) (auto intro: same_view_trans simp: same_view_push)
  have args: "list_all external (arg_fns (user_args xs))" for xs :: "'a cbarg list"
    using user_args_ok [of undefined undefined xs] by (auto simp: new_cb_ok_def list_all_iff)
  show ?thesis
  proof (cases x)
    case (NewCallbacks opts)
    have "same_view d m (m\<lparr>raws := raws m @ [Callbacks opts]\<rparr>)"
      by (simp add: same_view_def list_at.simps state_of_def)
    with NewCallbacks inv_view [OF assms(1)] show ?thesis by simp
  next
    case NewDeferred
    with inv_view [OF assms(1) new_deferred_simps(1) [OF assms(3)]] show ?thesis by simp
  next
    case (Then d' f g h)
    with new_deferred_simps(1) [OF assms(3)] push show ?thesis by (simp add: Let_def)
  next
    case (When vs)
    have "same_view d m (new_deferred m\<lparr>whens := ws\<rparr>)" for ws
      using new_deferred_simps(1) [OF assms(3)] by (simp add: same_view_def new_deferred_def)
    with When push inv_view [OF assms(1) same_view_refl] show ?thesis
      by (simp add: do_when_def Let_def)
  next
    case (Add i xs)
    with assms(4) inv_add [OF assms(1,3), of "Raw i"] args show ?thesis by simp
  next
    case (DAdd d' p xs)
    with assms(4) inv_add [OF assms(1,3), of "Part d' p"] args show ?thesis by simp
  next
    case (Always d' xs)
    with push [OF same_view_refl] show ?thesis by simp
  qed (use assms(4) put fire in auto)
qed

lemma inv_give:
  assumes "stable d tr m" and "machine_ok m" and "d < length (deferreds m)" and "kont_ok m k"
  shows "promise_inv d tr (give_value k v m)"
proof (cases k)
  case Main
  with assms(1) show ?thesis by (simp add: stable_inv)
next
  case (Plain A)
  show ?thesis
  proof (cases "v = FalseV \<and> (\<exists>p. p \<noteq> Notify \<and> A = Part d p)")
    case False
    then have "same_view d m (give_value k v m)"
      using Plain assms(4) same_view_put [of m A d] by auto
    then show ?thesis by (rule inv_same [OF assms(1) _ same_trace_refl])
  next
    case True
    then obtain p where p: "p \<noteq> Notify" "A = Part d p" by blast
    have "\<not> opt_stopOnFalse (options (list_at m A))"
    proof (cases "pending d tr m")
      case True
      then have "untouched d p tr m" using p(1) by (cases p) (auto simp: pending_def)
      then show ?thesis by (simp add: p untouched_def unfired_list_def)
    next
      case False
      then obtain q w where q: "q \<noteq> Notify" "settled d q w tr m"
        using assms(1) by (auto simp: stable_def)
      show ?thesis
      proof (cases "q = p")
        case True
        with q show ?thesis by (auto simp: p settled_def idle_list_def run_list_def)
      next
        case False
        with settled_dead [OF q(2,1) p(1)] show ?thesis by (simp add: p dead_def dead_list_def)
      qed
    qed
    then have "same_view d m (give_value k v m)"
      using Plain assms(4) p by (auto simp: same_view_def list_at_put returned_false_def)
    then show ?thesis by (rule inv_same [OF assms(1) _ same_trace_refl])
  qed
next
  case (Chain s new p this)
  show ?thesis
  proof (cases "is_promise v")
    case None
    with Chain assms show ?thesis by (simp add: inv_fire)
  next
    case (Some d')
    with Chain show ?thesis
      by (auto intro!: inv_same [OF assms(1) same_view_push])
  qed
qed

lemma inv_todo:
  assumes "stable d tr m" and "machine_ok m" and "d < length (deferreds m)" and "todo_ok m t"
  shows "promise_inv d (tr @ fst (todo_step t m)) (snd (todo_step t m))"
proof (cases t)
  case (TAdd A args)
  with assms show ?thesis by (auto intro!: inv_add simp: new_cb_ok_def list_all_iff)
next
  case (TSkip w)
  have "same_view d m (m\<lparr>whens := ws\<rparr>)" for ws by (simp add: same_view_def)
  with TSkip inv_view [OF assms(1)] show ?thesis by simp
next
  case (TWhen w)
  then have "addr_ok m (Part (w_master (whens m ! w)) Resolve)"
    using assms(4) master_ok [OF assms(2), of w] by simp
  from inv_fire [OF assms(1,3) this] TWhen show ?thesis
    by (simp add: end_when_def Let_def stable_inv [OF assms(1)])
qed

lemma frames_unwind_stable:
  assumes "stable d tr m" and "stack m = f # fs"
  shows "stable d (tr @ [Threw]) (m\<lparr>stack := unwind cat fs\<rparr>)"
proof -
  let ?m = "m\<lparr>stack := unwind cat fs\<rparr>"
  obtain gs where gs: "frames d (stack m) = gs @ frames d (stack ?m)"
    using frames_unwind [of d fs cat] assms(2) by (cases f) auto
  have same: "state_of d ?m = state_of d m" "\<And>A. list_at ?m A = list_at m A" "\<And>A. registered (tr @ [Threw]) A = registered tr A"
      "\<And>A. called (tr @ [Threw]) A = called tr A"
    by simp_all
  show ?thesis
  proof (cases "pending d tr m")
    case True
    with gs have "pending d (tr @ [Threw]) ?m"
      by (simp add: pending_def untouched_def)
    then show ?thesis by (simp add: stable_def)
  next
    case False
    then obtain p v where p: "p \<noteq> Notify" "settled d p v tr m"
      using assms(1) by (auto simp: stable_def)
    from p(2) obtain pre where s: "state_of d m = Some p" "dead d (counterpart p) tr m"
      and pre: "called tr (Part d p) = map (\<lambda>c. (c, v)) pre"
      and or: "list_at m (Part d p) = idle_list p v \<and> frames d (stack m) = [] \<and> registered tr (Part d p) = pre
         \<or> (\<exists>xs i. list_at m (Part d p) = run_list p v xs i \<and> -1 \<le> i \<and> i < int (length xs) \<and> list_all external (drop (nat (i + 1)) xs)
             \<and> registered tr (Part d p) = pre @ drop (nat (i + 1)) xs
             \<and> (frames d (stack m) = [(p, False)] \<or> frames d (stack m) = [] \<and> Threw \<in> set tr))"
      unfolding settled_def by blast
    have dead: "dead d (counterpart p) (tr @ [Threw]) ?m"
      using s(2) by (auto intro: dead_cong)
    from or have "settled d p v (tr @ [Threw]) ?m"
    proof (rule disjE; elim exE conjE)
      assume "list_at m (Part d p) = idle_list p v" "frames d (stack m) = []" "registered tr (Part d p) = pre"
      with s dead pre gs show ?thesis by (intro settled_idle [where pre = pre]) auto
    next
      fix xs i
      assume run: "list_at m (Part d p) = run_list p v xs i" "-1 \<le> i" "i < int (length xs)"
          "list_all external (drop (nat (i + 1)) xs)" "registered tr (Part d p) = pre @ drop (nat (i + 1)) xs"
        and fr: "frames d (stack m) = [(p, False)] \<or> frames d (stack m) = [] \<and> Threw \<in> set tr"
      have "frames d (stack ?m) = [(p, False)] \<or> frames d (stack ?m) = []"
        using fr gs by (cases gs) (auto simp: append_eq_Cons_conv)
      with s dead pre run show ?thesis
        by (intro settled_run [where pre = pre and xs = xs and i = i]) auto
    qed
    then show ?thesis by (rule settled_stable [OF _ p(1)])
  qed
qed

lemma registered_external: "list_all (event_ok m) tr \<Longrightarrow> list_all external (registered tr A)"
proof (induction tr)
  case (Cons e tr)
  then show ?case by (cases e) auto
qed simp

lemma inv_step:
  assumes "promise_inv d tr m" and "machine_ok m" and "list_all (event_ok m) tr" and "d < length (deferreds m)"
    and "step pg m = (es, m')"
  shows "promise_inv d (tr @ es) m'"
proof -
  have e: "es = fst (step pg m)" "m' = snd (step pg m)"
    using assms(5) by simp_all
  show ?thesis
  proof (cases "stable d tr m")
    case False
    then obtain p v fs where p: "p \<noteq> Notify" and or: "(\<exists>i. starting d p v i fs tr m) \<or> restarting d p v fs tr m"
      using assms(1) unfolding promise_inv_def by blast
    have reg: "list_all external (registered tr (Part d p))"
      by (rule registered_external [OF assms(3)])
    from or show ?thesis
    proof
      assume "\<exists>i. starting d p v i fs tr m"
      then obtain i where i: "starting d p v i fs tr m" ..
      then have "stack m = Firing (Part d p) (i = 0) # fs" by (simp add: starting_def)
      then have "step pg m = fire_step (enter pg) (Part d p) (i = 0) fs m" by (simp add: step_def)
      with inv_start [OF i assms(2) p reg] e show ?thesis by simp
    next
      assume r: "restarting d p v fs tr m"
      then have "stack m = Firing (Part d p) True # fs" by (simp add: restarting_def)
      then have "step pg m = fire_step (enter pg) (Part d p) True fs m" by (simp add: step_def)
      with inv_restart [OF r assms(2) p] e show ?thesis by simp
    qed
  next
    case True
    show ?thesis
    proof (cases "stack m")
      case Nil
      with True e show ?thesis by (simp add: step_def stable_inv)
    next
      case (Cons f fs)
      have ok: "frame_ok m f" "list_all (frame_ok m) fs"
        using assms(2) Cons by (auto simp: machine_ok_def)
      have moved: "stable d tr (m\<lparr>stack := gs\<rparr>)" "machine_ok (m\<lparr>stack := gs\<rparr>)" "grows m (m\<lparr>stack := gs\<rparr>)"
        if "frames d gs = frames d (stack m)" "list_all (frame_ok m) gs" for gs
        using stable_same [OF True same_view_stack [OF that(1)] same_trace_refl] machine_ok_stack [OF assms(2) that(2)]
        by auto
      show ?thesis
      proof (cases f)
        case (Firing A b)
        then have s: "stack m = Firing A b # fs" "step pg m = fire_step (enter pg) A b fs m"
          using Cons by (simp_all add: step_def)
        show ?thesis
        proof (cases "\<exists>p. p \<noteq> Notify \<and> A = Part d p")
          case True
          then obtain p where "p \<noteq> Notify" "A = Part d p" by blast
          with inv_running [OF \<open>stable d tr m\<close> assms(2), of p b fs] s e show ?thesis by simp
        next
          case False
          with inv_other_fire [OF \<open>stable d tr m\<close> assms(2,4) s(1)] s e show ?thesis by auto
        qed
      next
        case (Todo ts)
        show ?thesis
        proof (cases ts)
          case Nil
          with Cons Todo moved(1) [of fs] ok e show ?thesis by (simp add: step_def stable_inv)
        next
          case ts: (Cons t ts')
          let ?m = "m\<lparr>stack := Todo ts' # fs\<rparr>"
          have gs: "frames d (Todo ts' # fs) = frames d (stack m)" "list_all (frame_ok m) (Todo ts' # fs)"
            using Cons Todo ts ok by simp_all
          have "todo_ok ?m t"
            using ok(1) Todo ts moved(3) [OF gs] by (auto intro: ok_grows)
          with inv_todo [OF moved(1) [OF gs] moved(2) [OF gs]] assms(4) show ?thesis
            using Cons Todo ts e by (simp add: step_def)
        qed
      next
        case (Running u k)
        show ?thesis
        proof (cases "code pg u m")
          case (Do x u')
          have gs: "frames d (Running u' k # fs) = frames d (stack m)" "list_all (frame_ok m) (Running u' k # fs)"
            using Cons Running ok by simp_all
          with inv_exec [OF moved(1) [OF gs] moved(2) [OF gs]] moved(1) [OF gs] assms(4) show ?thesis
            using Cons Running Do e by (auto simp: step_def Let_def stable_inv)
        next
          case (Return v)
          have gs: "frames d fs = frames d (stack m)" using Cons Running by simp
          have "kont_ok (m\<lparr>stack := fs\<rparr>) k"
            using ok(1) Running moved(3) [OF gs ok(2)] by (auto intro: ok_grows)
          with inv_give [OF moved(1) [OF gs ok(2)] moved(2) [OF gs ok(2)]] assms(4) show ?thesis
            using Cons Running Return e by (simp add: step_def)
        next
          case Throw
          with frames_unwind_stable [OF True Cons] Cons Running e show ?thesis
            by (simp add: step_def stable_inv)
        qed
      qed
    qed
  qed
qed

text \<open>What has not been mentioned in a well-formed run belongs to no deferred.\<close>

lemma fresh_frames: "list_all (frame_ok m) fs \<Longrightarrow> length (deferreds m) \<le> d \<Longrightarrow> frames d fs = []"
  by (induction d fs rule: frames.induct) (auto simp: frame_of_def split: addr.splits)

lemma fresh_trace:
  "list_all (event_ok m) tr \<Longrightarrow> length (deferreds m) \<le> d \<Longrightarrow> registered tr (Part d p) = [] \<and> called tr (Part d p) = []"
proof (induction tr)
  case (Cons e tr)
  then show ?case by (cases e) auto
qed simp

text \<open>A step makes at most one deferred.\<close>

lemma length_start [simp]: "length (deferreds (start_fire A r m)) = length (deferreds m)"
  by (auto simp: start_fire_def push_frame_def split: prod.splits)

lemma length_simps [simp]:
  "length (deferreds (snd (do_add A args m))) = length (deferreds m)" "length (deferreds (do_fire A v m)) = length (deferreds m)"
  "length (deferreds (push_frame f m)) = length (deferreds m)"
  by (simp_all add: do_add_def do_fire_def push_frame_def)

lemma length_call [simp]: "length (deferreds (call_cb en A c v m)) = length (deferreds m)"
  by (cases c) (auto simp: call_cb_def do_update_def Let_def split: prod.split option.split)

lemma length_fire_step [simp]: "length (deferreds (snd (fire_step en A b fs m))) = length (deferreds m)"
  by (auto simp: fire_step_def Let_def split: prod.split option.split)

lemma length_give [simp]: "length (deferreds (give_value k v m)) = length (deferreds m)"
  by (cases k) (auto split: option.split)

lemma length_todo [simp]: "length (deferreds (snd (todo_step t m))) = length (deferreds m)"
  by (cases t) (auto simp: end_when_def Let_def)

text \<open>A new deferred is pending.\<close>

definition fresh_deferred :: "('f, 'u, 'a) machine \<Rightarrow> ('f, 'a) event list \<times> ('f, 'u, 'a) machine \<Rightarrow> bool" where
  "fresh_deferred m r \<longleftrightarrow> length (deferreds (snd r)) = length (deferreds m)
     \<or> length (deferreds (snd r)) = Suc (length (deferreds m)) \<and> fst r = []
       \<and> deferreds (snd r) ! length (deferreds m) = Deferred (length (deferreds m))
       \<and> frames (length (deferreds m)) (stack (snd r)) = frames (length (deferreds m)) (stack m)"

lemma exec_fresh: "fresh_deferred m (exec_op x m)"
  by (cases x) (auto simp: fresh_deferred_def new_deferred_def push_frame_def do_when_def Let_def)

lemma step_fresh: "fresh_deferred m (step pg m)"
proof (cases "stack m")
  case Nil
  then show ?thesis by (simp add: step_def fresh_deferred_def)
next
  case (Cons f fs)
  show ?thesis
  proof (cases f)
    case (Running u k)
    show ?thesis
    proof (cases "code pg u m")
      case (Do x u')
      with Cons Running exec_fresh [of "m\<lparr>stack := Running u' k # fs\<rparr>" x] show ?thesis
        by (auto simp: step_def Let_def fresh_deferred_def)
    qed (use Cons Running in \<open>auto simp: step_def fresh_deferred_def\<close>)
  next
    case (Todo ts)
    with Cons show ?thesis by (cases ts) (auto simp: step_def fresh_deferred_def)
  qed (use Cons in \<open>auto simp: step_def fresh_deferred_def\<close>)
qed

lemma reaches_promise:
  assumes "reaches pg tr m" and "d < length (deferreds m)"
  shows "promise_inv d tr m"
  using assms
proof (induction arbitrary: d rule: runs.induct)
  case here
  then show ?case by (simp add: new_machine_def)
next
  case (turn tr m u)
  then have "promise_inv d tr m" by simp
  with turn(2) have "stable d tr m"
    by (auto simp: promise_inv_def starting_def restarting_def)
  then show ?case
    by (rule inv_same) (simp_all add: same_view_def turn(2))
next
  case (steps tr m es m')
  note ok = reaches_ok [OF steps(1)]
  show ?case
  proof (cases "d < length (deferreds m)")
    case True
    with inv_step [OF steps.IH _ _ _ steps(2)] ok show ?thesis by blast
  next
    case False
    let ?n = "length (deferreds m)"
    have e: "es = fst (step pg m)" "m' = snd (step pg m)"
      using steps(2) by simp_all
    have d: "d = length (deferreds m)"
      using step_fresh [of m pg] False steps.prems e by (auto simp: fresh_deferred_def)
    with step_fresh [of m pg] False steps.prems e have n: "d = ?n" "es = []" "deferreds m' ! d = Deferred d"
        "frames d (stack m') = frames d (stack m)"
      by (auto simp: fresh_deferred_def)
    have "frames d (stack m) = []"
      using ok n(1) by (intro fresh_frames [of m]) (auto simp: machine_ok_def)
    moreover have "registered tr (Part d p) = [] \<and> called tr (Part d p) = []" for p
      using ok n(1) by (intro fresh_trace) auto
    moreover have "d_state (Deferred d) = None"
      by (simp add: Deferred_def)
    ultimately have "pending d (tr @ es) m'"
      using n by (simp add: pending_def untouched_def state_of_def list_at.simps Deferred_list)
    then show ?thesis by (simp add: promise_inv_def stable_def)
  qed
qed

text \<open>Only the first of the three own functions changes the state.\<close>

lemma state_start [simp]: "addr_ok m A \<Longrightarrow> state_of d (start_fire A r m) = state_of d m"
  by (auto simp: start_fire_def split: prod.splits)

lemma state_fire [simp]: "addr_ok m A \<Longrightarrow> state_of d (do_fire A v m) = state_of d m"
  by (simp add: do_fire_def)

lemma state_add [simp]: "addr_ok m A \<Longrightarrow> state_of d (snd (do_add A args m)) = state_of d m"
  by (simp add: do_add_def)

lemma state_call:
  "machine_ok m \<Longrightarrow> addr_ok m A \<Longrightarrow> cb_ok m A c \<Longrightarrow> (\<And>p. c \<noteq> SetState d p) \<Longrightarrow> state_of d (call_cb en A c v m) = state_of d m"
proof (cases c)
  case (SetState d' p)
  then show "machine_ok m \<Longrightarrow> addr_ok m A \<Longrightarrow> cb_ok m A c \<Longrightarrow> (\<And>p. c \<noteq> SetState d p) \<Longrightarrow> ?thesis"
    by (cases "d' = d") (auto simp: call_cb_def state_of_def split: prod.splits)
next
  case (Update w i b)
  then show "machine_ok m \<Longrightarrow> addr_ok m A \<Longrightarrow> cb_ok m A c \<Longrightarrow> (\<And>p. c \<noteq> SetState d p) \<Longrightarrow> ?thesis"
    using master_ok [of m w] by (simp add: call_cb_def do_update_def Let_def split: prod.splits)
qed (auto simp: call_cb_def split: prod.splits option.splits)

lemma state_fire_step:
  assumes "machine_ok m" and "stack m = Firing A b # fs"
    and "\<And>c l p. (if b then fire_first else fire_next) (list_at m A) = (Some c, l) \<Longrightarrow> c \<noteq> SetState d p"
  shows "state_of d (snd (fire_step en A b fs m)) = state_of d m"
proof -
  obtain r l where f: "(if b then fire_first else fire_next) (list_at m A) = (r, l)" by fastforce
  note call = fire_call_ok [OF assms(1,2) f]
  show ?thesis
  proof (cases r)
    case None
    with f call(1) show ?thesis by (simp add: fire_step_def)
  next
    case (Some c)
    let ?m = "put_list A l (m\<lparr>stack := Firing A False # fs\<rparr>)"
    have "state_of d (call_cb en A c v ?m) = state_of d ?m" for v
      using assms(3) f Some by (intro state_call call(3) ok_grows(1) [OF call(4,1)] ok_grows(2) [OF call(4) call(5)]) auto
    with f Some call(1) show ?thesis by (simp add: fire_step_def Let_def)
  qed
qed

lemma state_other:
  assumes "machine_ok m" and "d < length (deferreds m)" and "\<And>A b fs. stack m \<noteq> Firing A b # fs"
  shows "state_of d (snd (step pg m)) = state_of d m"
proof (cases "stack m")
  case Nil
  then show ?thesis by (simp add: step_def)
next
  case (Cons f fs)
  have ok: "frame_ok m f" using assms(1) Cons by (simp add: machine_ok_def)
  show ?thesis
  proof (cases f)
    case (Firing A b)
    with Cons assms(3) show ?thesis by simp
  next
    case (Todo ts)
    show ?thesis
    proof (cases ts)
      case ts: (Cons t ts')
      show ?thesis
      proof (cases t)
        case (TWhen w)
        with ok Todo ts master_ok [OF assms(1), of w] Cons show ?thesis
          by (simp add: step_def end_when_def Let_def)
      qed (use ok Todo ts Cons in \<open>simp_all add: step_def\<close>)
    qed (use Cons Todo in \<open>simp add: step_def\<close>)
  next
    case (Running u k)
    show ?thesis
    proof (cases "code pg u m")
      case (Do x u')
      let ?m = "m\<lparr>stack := Running u' k # fs\<rparr>"
      have "state_of d (snd (exec_op x ?m)) = state_of d ?m" if "op_valid x ?m"
        using that assms(2) new_deferred_simps(1) [of d ?m]
        by (cases x) (auto simp: same_view_def do_when_def Let_def state_of_def [of d "_\<lparr>raws := _\<rparr>"]
            state_of_def [of d "_\<lparr>whens := _\<rparr>"] state_of_def [of d m] state_of_def [of d "new_deferred _"])
      with Cons Running Do show ?thesis by (simp add: step_def Let_def)
    next
      case (Return v)
      with ok Running have "state_of d (give_value k v (m\<lparr>stack := fs\<rparr>)) = state_of d m" for v
        by (cases k) (auto split: option.split)
      with Cons Running Return show ?thesis by (simp add: step_def)
    next
      case Throw
      with Cons Running show ?thesis by (simp add: step_def)
    qed
  qed
qed

lemma state_kept:
  assumes "promise_inv d tr m" and "machine_ok m" and "d < length (deferreds m)" and "state_of d m = Some p"
  shows "state_of d (snd (step pg m)) = Some p"
proof (cases "\<exists>A b fs. stack m = Firing A b # fs")
  case False
  with state_other [OF assms(2,3)] assms(4) show ?thesis by simp
next
  case True
  then obtain A b fs where st: "stack m = Firing A b # fs" by blast
  have step: "step pg m = fire_step (enter pg) A b fs m"
    using st by (simp add: step_def)
  have "c \<noteq> SetState d q" if f: "(if b then fire_first else fire_next) (list_at m A) = (Some c, l)" for c l q
  proof
    assume c: "c = SetState d q"
    have "cb_ok m A c"
      by (rule fire_call_ok(5) [OF assms(2) st f refl])
    with c have A: "A = Part d q" and q: "q \<noteq> Notify" by auto
    show False
    proof (cases "stable d tr m")
      case True
      from stable_running [OF True st [unfolded A] q] obtain v xs i where "\<not> b"
          "list_at m (Part d q) = run_list q v xs i" "-1 \<le> i" "list_all external (drop (nat (i + 1)) xs)" .
      with f A q have "nat (i + 1) < length xs" "c = xs ! nat (i + 1)"
        by (simp_all add: fire_states split: if_splits)
      then have "c \<in> set (drop (nat (i + 1)) xs)"
        by (metis Cons_nth_drop_Suc list.set_intros(1))
      with \<open>list_all external (drop (nat (i + 1)) xs)\<close> c show False
        by (auto simp: list_all_iff)
    next
      case False
      then obtain p' v gs where p': "p' \<noteq> Notify"
        and or: "(\<exists>i. starting d p' v i gs tr m) \<or> restarting d p' v gs tr m"
        using assms(1) unfolding promise_inv_def by blast
      from or show False
      proof
        assume "\<exists>i. starting d p' v i gs tr m"
        then obtain i where i: "starting d p' v i gs tr m" ..
        with assms(4) have "i = 1 \<or> i = 2" by (auto simp: starting_def split: if_splits)
        with i f st c p' show False
          by (auto simp: starting_def fire_states)
      next
        assume "restarting d p' v gs tr m"
        then obtain pre xs where "stack m = Firing (Part d p') True # gs"
            "list_at m (Part d p') = fresh_list p' v (Some v) xs" "list_all external xs"
          unfolding restarting_def by blast
        with f st c p' show False
          by (cases xs) (auto simp: fire_states)
      qed
    qed
  qed
  then have "state_of d (snd (fire_step (enter pg) A b fs m)) = state_of d m"
    by (rule state_fire_step [OF assms(2) st])
  with step assms(4) show ?thesis by simp
qed

section \<open>Lists that an exception has left\<close>

text \<open>
  A list whose loop is gone although its flag \<open>firing\<close> is set: \<open>fire\<close> resets the flag only when it comes to its end.
\<close>

definition stuck :: "addr \<Rightarrow> ('f, 'u, 'a) machine \<Rightarrow> bool" where
  "stuck A m \<longleftrightarrow> addr_ok m A \<and> firing (list_at m A) \<and> (\<forall>b. Firing A b \<notin> set (stack m))"

definition not_called :: "addr \<Rightarrow> ('f, 'a) event list \<Rightarrow> bool" where
  "not_called A tr \<longleftrightarrow> (\<forall>c v. Called A c v \<notin> set tr)"

lemma not_called_simps [simp]: "not_called A []" "not_called A [Threw]"
    "not_called A (tr @ tr') = (not_called A tr \<and> not_called A tr')"
  by (auto simp: not_called_def)

lemma push_firing [simp]: "firing (push_arg x l) = firing l" "firing (push_args xs l) = firing l"
  by (induction x l and xs l rule: push_arg_push_args.induct) auto

lemma firing_methods [simp]:
  "firing (disable l) = firing l" "firing (lock l) = firing l" "firing (empty l) = firing l" "firing (returned_false l) = firing l"
  by (simp_all add: disable_def lock_def empty_def returned_false_def Let_def)

lemma firing_remove [simp]: "firing (remove cs l) = firing l"
proof (induction cs arbitrary: l)
  case (Cons c cs)
  have "firing (remove_one c l) = firing l"
    by (simp add: remove_one_def split: option.splits prod.splits)
  with Cons [of "remove_one c l"] show ?case by (simp add: remove_def)
qed (simp add: remove_def)

lemma firing_starts: "firing l \<Longrightarrow> firing (fst (add args l)) \<and> \<not> snd (add args l)"
    "firing l \<Longrightarrow> firing (fst (fireWith v l)) \<and> \<not> snd (fireWith v l)"
  by (auto simp: add_def fireWith_def Let_def split: option.splits if_splits)

lemma stuck_put: "stuck A m \<Longrightarrow> addr_ok m B \<Longrightarrow> (B = A \<Longrightarrow> firing l) \<Longrightarrow> stuck A (put_list B l m)"
  using ok_grows(1) [of m "put_list B l m" A]
  by (auto simp: stuck_def list_at_put grows_def)

lemma stuck_start:
  assumes "stuck A m" and "addr_ok m B" and "B = A \<Longrightarrow> firing (fst r) \<and> \<not> snd r"
  shows "stuck A (start_fire B r m)"
proof (cases "B = A")
  case True
  with assms show ?thesis by (auto simp: start_fire_def intro: stuck_put split: prod.splits)
next
  case False
  with stuck_put [OF assms(1,2)] have "stuck A (put_list B l m)" for l by simp
  moreover have "stuck A m' \<Longrightarrow> stuck A (push_frame (Firing B True) m')" for m'
    using False by (auto simp: stuck_def push_frame_def)
  ultimately show ?thesis by (auto simp: start_fire_def split: prod.splits)
qed

lemma stuck_add: "stuck A m \<Longrightarrow> addr_ok m B \<Longrightarrow> stuck A (snd (do_add B args m)) \<and> not_called A (fst (do_add B args m))"
  by (auto simp: do_add_def not_called_def intro!: stuck_start)
    (use firing_starts(1) [of "list_at m A" args] in \<open>auto simp: stuck_def\<close>)

lemma stuck_fire: "stuck A m \<Longrightarrow> addr_ok m B \<Longrightarrow> stuck A (do_fire B v m)"
  unfolding do_fire_def
  by (rule stuck_start) (use firing_starts(2) [of "list_at m A" v] in \<open>auto simp: stuck_def\<close>)

lemma stuck_push: "stuck A m \<Longrightarrow> (\<And>b. f \<noteq> Firing A b) \<Longrightarrow> stuck A (push_frame f m)"
  by (auto simp: stuck_def push_frame_def)

lemma stuck_same:
  "stuck A m \<Longrightarrow> list_at m' A = list_at m A \<Longrightarrow> grows m m' \<Longrightarrow> set (stack m') \<subseteq> set (stack m) \<Longrightarrow> stuck A m'"
  using ok_grows(1) [of m m' A] by (auto simp: stuck_def)

lemma grows_more [simp]: "grows m (m\<lparr>stack := fs\<rparr>)" "grows m (m\<lparr>whens := (whens m)[w := x]\<rparr>)"
  by (simp_all add: grows_def)

lemma stuck_update:
  assumes "stuck A m" and "machine_ok m" and "w < length (whens m)"
  shows "stuck A (do_update w i b this args m)"
proof -
  have s: "stuck A (m\<lparr>whens := (whens m)[w := x]\<rparr>)" for x
    by (rule stuck_same [OF assms(1)]) simp_all
  then have "stuck A (do_fire (Part (w_master (whens m ! w)) p) v (m\<lparr>whens := (whens m)[w := x]\<rparr>))" for p v x
    using master_ok [OF assms(2,3)] by (intro stuck_fire) simp_all
  with s show ?thesis by (simp add: do_update_def Let_def)
qed

lemma stuck_call:
  assumes "stuck A m" and "machine_ok m" and "addr_ok m B" and "cb_ok m B c"
  shows "stuck A (call_cb en B c v m)"
proof -
  have A: "addr_ok m A" "firing (list_at m A)" using assms(1) by (simp_all add: stuck_def)
  show ?thesis
  proof (cases c)
    case (SetState d p)
    have "list_at (m\<lparr>deferreds := (deferreds m)[d := (deferreds m ! d)\<lparr>d_state := Some p\<rparr>]\<rparr>) A = list_at m A"
      using assms(3,4) SetState by (cases A) (auto simp: list_at.simps nth_list_update)
    with SetState stuck_same [OF assms(1)] show ?thesis
      by (auto simp: call_cb_def grows_def split: prod.splits)
  next
    case (DisableList d p)
    with assms A show ?thesis by (cases B) (auto simp: call_cb_def intro!: stuck_put split: prod.splits)
  next
    case (LockProgress d)
    with assms A show ?thesis by (cases B) (auto simp: call_cb_def intro!: stuck_put split: prod.splits)
  next
    case (Update w i b)
    with assms stuck_update [OF assms(1,2)] show ?thesis by (auto simp: call_cb_def split: prod.splits)
  qed (use assms in \<open>auto simp: call_cb_def intro!: stuck_push stuck_fire split: prod.splits option.splits\<close>)
qed

lemma stuck_fire_step:
  assumes "stuck A m" and "machine_ok m" and "stack m = Firing B b # fs"
  shows "stuck A (snd (fire_step en B b fs m)) \<and> not_called A (fst (fire_step en B b fs m))"
proof -
  have BA: "B \<noteq> A" using assms(1,3) by (auto simp: stuck_def)
  obtain r l where f: "(if b then fire_first else fire_next) (list_at m B) = (r, l)" by fastforce
  note call = fire_call_ok [OF assms(2,3) f]
  have s: "stuck A (put_list B l' (m\<lparr>stack := gs\<rparr>))" if "set gs \<subseteq> insert (Firing B False) (set (stack m))" for l' gs
  proof (rule stuck_put)
    show "stuck A (m\<lparr>stack := gs\<rparr>)"
      using assms(1) that BA by (auto simp: stuck_def)
    show "addr_ok (m\<lparr>stack := gs\<rparr>) B" using call(1) by simp
  qed (use BA in simp)
  show ?thesis
  proof (cases r)
    case None
    with f s [of fs] assms(3) show ?thesis by (auto simp: fire_step_def not_called_def)
  next
    case (Some c)
    have st: "stuck A (put_list B l (m\<lparr>stack := Firing B False # fs\<rparr>))"
      using assms(3) by (intro s) auto
    have "stuck A (call_cb en B c v (put_list B l (m\<lparr>stack := Firing B False # fs\<rparr>)))" for v
      using stuck_call [OF st call(3) ok_grows(1) [OF call(4,1)] ok_grows(2) [OF call(4) call(5) [OF Some]]] .
    with f Some BA show ?thesis by (simp add: fire_step_def not_called_def Let_def)
  qed
qed

lemma stuck_exec:
  assumes "stuck A m" and "machine_ok m" and "op_valid x m"
  shows "stuck A (snd (exec_op x m)) \<and> not_called A (fst (exec_op x m))"
proof -
  have A: "addr_ok m A" "firing (list_at m A)" using assms(1) by (simp_all add: stuck_def)
  have new: "stuck A (new_deferred m)"
    using A(1) by (intro stuck_same [OF assms(1)])
      (cases A; auto simp: new_deferred_def grows_def list_at.simps nth_append)+
  have put: "stuck A (put_list (Raw i) l m)" if "i < length (raws m)" "Raw i = A \<Longrightarrow> firing l" for i l
    using that by (intro stuck_put [OF assms(1)]) auto
  show ?thesis
  proof (cases x)
    case (NewCallbacks opts)
    have "stuck A (m\<lparr>raws := raws m @ [Callbacks opts]\<rparr>)"
      using A(1) by (intro stuck_same [OF assms(1)])
        (cases A; auto simp: grows_def list_at.simps nth_append)+
    with NewCallbacks show ?thesis by simp
  next
    case (When vs)
    have "stuck A ((new_deferred m)\<lparr>whens := whens m @ ws\<rparr>)" for ws
      by (rule stuck_same [OF new]) (simp_all add: grows_def new_deferred_def)
    with When assms(1) show ?thesis by (auto simp: do_when_def Let_def intro!: stuck_push)
  next
    case (Then d f g h)
    with new show ?thesis by (auto simp: Let_def intro!: stuck_push)
  qed (use assms(1,3) A(2) new stuck_add [OF assms(1)] in
      \<open>auto intro!: put stuck_fire stuck_push simp del: put_list.simps\<close>)
qed

lemma stuck_step:
  assumes "stuck A m" and "machine_ok m"
  shows "stuck A (snd (step pg m)) \<and> not_called A (fst (step pg m))"
proof (cases "stack m")
  case Nil
  with assms show ?thesis by (simp add: step_def not_called_def)
next
  case (Cons f fs)
  have ok: "frame_ok m f" "list_all (frame_ok m) fs" using assms(2) Cons by (simp_all add: machine_ok_def)
  have st: "stuck A (m\<lparr>stack := gs\<rparr>)" if "\<And>b. Firing A b \<in> set gs \<Longrightarrow> Firing A b \<in> set (stack m)" for gs
    using assms(1) that by (auto simp: stuck_def)
  show ?thesis
  proof (cases f)
    case (Firing B b)
    with stuck_fire_step [OF assms, of B b fs] Cons show ?thesis by (simp add: step_def)
  next
    case (Todo ts)
    show ?thesis
    proof (cases ts)
      case Nil
      with Cons Todo st [of fs] show ?thesis by (simp add: step_def)
    next
      case ts: (Cons t ts')
      let ?m = "m\<lparr>stack := Todo ts' # fs\<rparr>"
      have s: "stuck A ?m" using Cons by (intro st) auto
      show ?thesis
      proof (cases t)
        case (TAdd B args)
        with stuck_add [OF s, of B args] ok Cons Todo ts show ?thesis by (simp add: step_def)
      next
        case (TSkip w)
        have "stuck A (?m\<lparr>whens := (whens ?m)[w := x]\<rparr>)" for x
          by (rule stuck_same [OF s]) (simp_all add: grows_def)
        with TSkip Cons Todo ts show ?thesis by (simp add: step_def)
      next
        case (TWhen w)
        then have "w_master (whens m ! w) < length (deferreds m)"
          using ok Todo ts by (auto intro: master_ok [OF assms(2)])
        with TWhen s Cons Todo ts stuck_fire [OF s] show ?thesis
          by (simp add: step_def end_when_def Let_def)
      qed
    qed
  next
    case (Running u k)
    show ?thesis
    proof (cases "code pg u m")
      case (Do x u')
      let ?m = "m\<lparr>stack := Running u' k # fs\<rparr>"
      have s: "stuck A ?m" using Cons by (intro st) auto
      have "list_all (frame_ok m) (Running u' k # fs)" using ok Running by simp
      with stuck_exec [OF s machine_ok_stack(1) [OF assms(2)]] s Cons Running Do show ?thesis
        by (simp add: step_def Let_def)
    next
      case (Return v)
      have s: "stuck A (m\<lparr>stack := fs\<rparr>)" using Cons by (intro st) auto
      have A: "firing (list_at m A)" using assms(1) by (simp add: stuck_def)
      have "stuck A (give_value k v (m\<lparr>stack := fs\<rparr>))" for v
        using ok(1) Running s A
        by (cases k) (auto intro!: stuck_put stuck_fire stuck_push split: option.splits)
      with Cons Running Return show ?thesis by (simp add: step_def)
    next
      case Throw
      have "set (unwind (catches pg) fs) \<inter> range (Firing A) \<subseteq> set fs"
        by (induction "catches pg" fs rule: unwind.induct) (auto split: option.splits)
      then have "stuck A (m\<lparr>stack := unwind (catches pg) fs\<rparr>)"
        using Cons by (intro st) auto
      with Cons Running Throw show ?thesis by (simp add: step_def)
    qed
  qed
qed

section \<open>Properties\<close>

lemma settled_calls:
  assumes "settled d p v tr m"
  obtains pre rest where "called tr (Part d p) = map (\<lambda>c. (c, v)) pre" and "registered tr (Part d p) = pre @ rest"
    and "stack m = [] \<Longrightarrow> Threw \<notin> set tr \<Longrightarrow> rest = []"
proof -
  from assms obtain pre where pre: "called tr (Part d p) = map (\<lambda>c. (c, v)) pre"
    and "registered tr (Part d p) = pre \<or> (\<exists>rest. registered tr (Part d p) = pre @ rest
      \<and> (frames d (stack m) = [(p, False)] \<or> Threw \<in> set tr))"
    unfolding settled_def by blast
  then obtain rest where "registered tr (Part d p) = pre @ rest"
      "stack m = [] \<Longrightarrow> Threw \<notin> set tr \<Longrightarrow> rest = []"
    by (metis append_Nil2 frames.simps(1) list.distinct(1))
  with pre show ?thesis by (rule that)
qed

text \<open>C5: whatever the functions of the page do, the functions given to a deferred are called as promised.
  While it is pending none is called. Once it is settled, none of the other side is ever called; those of
  its side are called in the order in which they were given, no matter when, and all with the same
  values; and whenever nothing runs, all of them have been called, unless an exception was thrown.\<close>

theorem deferred_calls:
  assumes "reaches pg tr m" and "d < length (deferreds m)"
  shows "case d_state (deferreds m ! d) of
      None \<Rightarrow> called tr (Part d Resolve) = [] \<and> called tr (Part d Reject) = []
    | Some p \<Rightarrow> p \<noteq> Notify \<and> called tr (Part d (counterpart p)) = []
        \<and> (\<exists>v pre rest. called tr (Part d p) = map (\<lambda>c. (c, v)) pre \<and> registered tr (Part d p) = pre @ rest
            \<and> (stack m = [] \<and> Threw \<notin> set tr \<longrightarrow> rest = []))"
proof (cases "pending d tr m")
  case True
  then show ?thesis by (simp add: pending_def untouched_def state_of_def)
next
  case False
  have inv: "promise_inv d tr m" by (rule reaches_promise [OF assms])
  have some: "called tr (Part d p) = map (\<lambda>c. (c, v)) pre \<Longrightarrow> registered tr (Part d p) = pre @ rest \<Longrightarrow>
      state_of d m = Some p \<Longrightarrow> p \<noteq> Notify \<Longrightarrow> called tr (Part d (counterpart p)) = [] \<Longrightarrow>
      (stack m = [] \<Longrightarrow> Threw \<notin> set tr \<Longrightarrow> rest = []) \<Longrightarrow> ?thesis" for p v pre rest
    by (simp add: state_of_def del: split_paired_Ex) blast
  consider (stable) "stable d tr m" | (starting) p v i fs where "p \<noteq> Notify" "starting d p v i fs tr m"
    | (restarting) p v fs where "p \<noteq> Notify" "restarting d p v fs tr m"
    using inv unfolding promise_inv_def by blast
  then show ?thesis
  proof cases
    case stable
    with False obtain p v where p: "p \<noteq> Notify" "settled d p v tr m" by (auto simp: stable_def)
    obtain pre rest where "called tr (Part d p) = map (\<lambda>c. (c, v)) pre"
        "registered tr (Part d p) = pre @ rest" "stack m = [] \<and> Threw \<notin> set tr \<longrightarrow> rest = []"
      by (rule settled_calls [OF p(2)]) blast
    then show ?thesis
      using p by (intro some [of p v pre rest]) (auto simp: settled_def dead_def)
  next
    case starting
    show ?thesis
    proof (cases "i = 0")
      case True
      with starting show ?thesis
        by (cases p) (auto simp: starting_def untouched_def state_of_def)
    next
      case False
      with starting show ?thesis
        by (intro some [of p v "[]" "registered tr (Part d p)"]) (auto simp: starting_def untouched_def dead_def split: if_splits)
    qed
  next
    case restarting
    then obtain pre xs where "called tr (Part d p) = map (\<lambda>c. (c, v)) pre" "registered tr (Part d p) = pre @ xs"
      unfolding restarting_def by blast
    with restarting show ?thesis
      by (intro some [of p v pre xs]) (auto simp: restarting_def dead_def)
  qed
qed

text \<open>C30: a deferred that is resolved stays resolved and one that is rejected stays rejected, in every run
  that goes on from there.\<close>

theorem deferred_settled_once:
  assumes "reaches pg tr m" and "d < length (deferreds m)" and "d_state (deferreds m ! d) = Some p"
    and "step pg m = (es, m')"
  shows "d_state (deferreds m' ! d) = Some p"
  using state_kept [OF reaches_promise [OF assms(1,2)] _ assms(2), of p pg] reaches_ok [OF assms(1)] assms(3,4)
  by (simp add: state_of_def)

text \<open>A callback list that an exception has left while it fired, be it of a deferred or not, never calls a
  function again: its flag stays set, and every later \<open>add\<close> or \<open>fire\<close> waits for a loop that is gone.\<close>

lemma exception_wedges_list:
  assumes "reaches pg before m" and "stuck A m" and "runs pg m tr m'"
  shows "not_called A tr \<and> firing (list_at m' A)"
proof -
  from assms(3) have "machine_ok m' \<and> stuck A m' \<and> not_called A tr"
  proof (induction rule: runs.induct)
    case here
    then show ?case using assms(2) reaches_ok [OF assms(1)] by simp
  next
    case (turn tr m' u)
    then show ?case
      using machine_ok_stack(1) [of m' "[Running u Main]"] by (simp add: stuck_def)
  next
    case (steps tr m1 es m2)
    with stuck_step [of A m1 pg] step_preserves [of m1 pg] show ?case
      by (simp add: step_ok_def)
  qed
  then show ?thesis by (simp add: stuck_def)
qed


section \<open>A sample page\<close>

text \<open>
  The functions of the page are lists of operations, after which they return or, the function 9, throw.
\<close>

definition sample_page :: "(nat, (nat, nat) op list \<times> bool, nat) page" where
  "sample_page = \<lparr>enter = \<lambda>f this args. ([], f = 9),
     code = \<lambda>u m. (case u of (x # xs, e) \<Rightarrow> Do x (xs, e) | ([], e) \<Rightarrow> if e then Throw else Return Undef),
     catches = \<lambda>u. None\<rparr>"

fun run_steps :: "nat \<Rightarrow> ('f, 'u, 'a) page \<Rightarrow> ('f, 'a) event list \<times> ('f, 'u, 'a) machine
    \<Rightarrow> ('f, 'a) event list \<times> ('f, 'u, 'a) machine" where
  "run_steps 0 pg r = r"
| "run_steps (Suc n) pg (tr, m) = (let (es, m') = step pg m in run_steps n pg (tr @ es, m'))"

lemma run_steps_runs: "runs pg m0 tr m \<Longrightarrow> run_steps n pg (tr, m) = (tr', m') \<Longrightarrow> runs pg m0 tr' m'"
  by (induction n arbitrary: tr m) (auto split: prod.splits intro: steps)

text \<open>The page starts one function, and everything that follows runs.\<close>

definition sample_run :: "nat \<Rightarrow> (nat, nat) op list \<Rightarrow> (nat, nat) event list \<times> (nat, (nat, nat) op list \<times> bool, nat) machine" where
  "sample_run n xs = run_steps n sample_page ([], new_machine\<lparr>stack := [Running (xs, False) Main]\<rparr>)"

lemma sample_reaches: "sample_run n xs = (tr, m) \<Longrightarrow> reaches sample_page tr m"
  unfolding sample_run_def
  by (rule run_steps_runs [OF turn [OF here]]) (simp_all add: new_machine_def)

definition sample_ops :: "(nat, nat) op list" where
  "sample_ops = [NewDeferred, DAdd 0 Resolve [Fn 1], DFire 0 Resolve (DeferredV 0) [Other 5], DAdd 0 Resolve [Fn 2]]"

theorem deferred_calls_witness:
  "\<exists>tr m. reaches sample_page tr m \<and> stack m = [] \<and> registered tr (Part 0 Resolve) = [User 1, User 2]
     \<and> (\<exists>v. called tr (Part 0 Resolve) = [(User 1, v), (User 2, v)])"
proof -
  obtain tr m where r: "sample_run 40 sample_ops = (tr, m)" by fastforce
  have "case sample_run 40 sample_ops of (tr, m) \<Rightarrow> stack m = [] \<and> list_all (\<lambda>e. e \<noteq> Threw) tr
      \<and> length (deferreds m) = 1 \<and> d_state (deferreds m ! 0) = Some Resolve \<and> registered tr (Part 0 Resolve) = [User 1, User 2]"
    by code_simp
  then have m: "stack m = []" "Threw \<notin> set tr" "length (deferreds m) = 1" "d_state (deferreds m ! 0) = Some Resolve"
      "registered tr (Part 0 Resolve) = [User 1, User 2]"
    by (auto simp: r list_all_iff)
  obtain v pre rest where "called tr (Part 0 Resolve) = map (\<lambda>c. (c, v)) pre"
      "registered tr (Part 0 Resolve) = pre @ rest" "stack m = [] \<and> Threw \<notin> set tr \<longrightarrow> rest = []"
    using deferred_calls [OF sample_reaches [OF r], of 0] m(3,4) by auto
  with m have "called tr (Part 0 Resolve) = [(User 1, v), (User 2, v)]" by simp
  with m sample_reaches [OF r] show ?thesis by blast
qed


theorem deferred_settled_once_witness:
  "\<exists>tr m. reaches sample_page tr m \<and> stack m \<noteq> [] \<and> d_state (deferreds (snd (step sample_page m)) ! 0) = Some Resolve"
proof -
  obtain tr m where r: "sample_run 8 sample_ops = (tr, m)" by fastforce
  have "case sample_run 8 sample_ops of (tr, m) \<Rightarrow> stack m \<noteq> []
      \<and> length (deferreds m) = 1 \<and> d_state (deferreds m ! 0) = Some Resolve"
    by code_simp
  then have m: "stack m \<noteq> []" "0 < length (deferreds m)" "d_state (deferreds m ! 0) = Some Resolve"
    by (simp_all add: r)
  obtain es m' where s: "step sample_page m = (es, m')" by fastforce
  from deferred_settled_once [OF sample_reaches [OF r] m(2,3) s] m(1) sample_reaches [OF r] s show ?thesis
    by (intro exI [of _ tr] exI [of _ m]) simp
qed

text \<open>A page whose function 9 throws while the list of a deferred fires, and which adds a function later.\<close>

text \<open>A deferred can notify after it has been resolved, although resolving locks the progress list: when
  a function is added to the locked list, \<open>add\<close> fires it with the remembered value, and \<open>fire\<close> sets
  \<open>locked\<close> to the option \<open>once\<close>. Here functions are called with the value 2 given after the resolution.\<close>

lemma notify_after_resolve:
  "case sample_run 60 [NewDeferred, DAdd 0 Notify [Fn 1], DFire 0 Notify (DeferredV 0) [Other 1],
       DFire 0 Resolve (DeferredV 0) [], DAdd 0 Notify [Fn 2], DFire 0 Notify (DeferredV 0) [Other 2]] of
     (tr, m) \<Rightarrow> stack m = [] \<and> d_state (deferreds m ! 0) = Some Resolve \<and> called tr (Part 0 Notify) =
       [(User 1, PromiseV 0, [Other 1]), (User 2, PromiseV 0, [Other 1]),
        (User 1, PromiseV 0, [Other 2]), (User 2, PromiseV 0, [Other 2])]"
  by code_simp

end
