(* ===== verification/JsMachine.thy ===== *)
theory JsMachine
  imports JsPrelude
begin

text \<open>
  Code that answers to what happens to it: every happening changes the state and puts something out. The
  locales state what the developments of the components share: an invariant that every happening keeps
  holds after every run, and code that follows a specification happening by happening puts out
  the same in every run.
\<close>

fun outputs :: "('x \<Rightarrow> 's \<Rightarrow> 'e list \<times> 's) \<Rightarrow> 'x list \<Rightarrow> 's \<Rightarrow> 'e list \<times> 's" where
  "outputs f [] s = ([], s)"
| "outputs f (x # xs) s = (let (cs, s) = f x s; (ds, s) = outputs f xs s in (cs @ ds, s))"

text \<open>The happenings that a run allows, each in the state in which it comes.\<close>

fun guarded :: "('x \<Rightarrow> 's \<Rightarrow> 'e list \<times> 's) \<Rightarrow> ('x \<Rightarrow> 's \<Rightarrow> bool) \<Rightarrow> 'x list \<Rightarrow> 's \<Rightarrow> bool" where
  "guarded f ok [] s = True"
| "guarded f ok (x # xs) s = (ok x s \<and> guarded f ok xs (snd (f x s)))"

lemma outputs_Cons:
  "fst (outputs f (x # xs) s) = fst (f x s) @ fst (outputs f xs (snd (f x s)))"
  "snd (outputs f (x # xs) s) = snd (outputs f xs (snd (f x s)))"
  by (simp_all add: split_beta Let_def)

lemma outputs_append:
  "fst (outputs f (xs @ ys) s) = fst (outputs f xs s) @ fst (outputs f ys (snd (outputs f xs s)))"
  "snd (outputs f (xs @ ys) s) = snd (outputs f ys (snd (outputs f xs s)))"
  by (induction xs arbitrary: s) (simp_all add: split_beta Let_def)

lemma guarded_True: "guarded f (\<lambda>x s. True) xs s"
  by (induction xs arbitrary: s) auto

locale machine =
  fixes step :: "'x \<Rightarrow> 's \<Rightarrow> 'e list \<times> 's"
    and allowed :: "'x \<Rightarrow> 's \<Rightarrow> bool"
    and inv :: "'s \<Rightarrow> bool"
  assumes kept: "inv s \<Longrightarrow> allowed x s \<Longrightarrow> inv (snd (step x s))"
begin

lemma after_run: "inv s \<Longrightarrow> guarded step allowed xs s \<Longrightarrow> inv (snd (outputs step xs s))"
  by (induction xs arbitrary: s) (auto simp: kept outputs_Cons simp del: outputs.simps(2))

text \<open>What each happening keeps of a measure, a run keeps, while the invariant holds.\<close>

lemma adds_up:
  fixes seen :: "'e list \<Rightarrow> 'b list"
  assumes app: "\<And>es fs. seen (es @ fs) = seen es @ seen fs" "\<And>x xs. given (x # xs) = given [x] @ given xs"
    and nil: "seen [] = []" "given [] = []"
    and one: "\<And>x s. inv s \<Longrightarrow> allowed x s \<Longrightarrow> seen (fst (step x s)) @ held (snd (step x s)) = held s @ given [x]"
    and run: "inv s" "guarded step allowed xs s"
  shows "seen (fst (outputs step xs s)) @ held (snd (outputs step xs s)) = held s @ given xs"
  using run
proof (induction xs arbitrary: s)
  case Nil
  then show ?case by (simp add: nil)
next
  case (Cons x xs)
  then have "seen (fst (outputs step xs (snd (step x s)))) @ held (snd (outputs step xs (snd (step x s))))
      = held (snd (step x s)) @ given xs"
    by (simp add: kept)
  with one [of s x] Cons.prems app(2) [of x xs] show ?case
    by (simp add: outputs_Cons app(1) del: outputs.simps(2))
qed

end

locale simulation =
  fixes code :: "'x \<Rightarrow> 's \<Rightarrow> 'e list \<times> 's"
    and spec :: "'x \<Rightarrow> 'a \<Rightarrow> 'e list \<times> 'a"
    and allowed :: "'x \<Rightarrow> 'a \<Rightarrow> bool"
    and rel :: "'a \<Rightarrow> 's \<Rightarrow> bool"
  assumes follows: "rel a s \<Longrightarrow> allowed x a \<Longrightarrow>
    fst (code x s) = fst (spec x a) \<and> rel (snd (spec x a)) (snd (code x s))"
begin

lemma same_outputs:
  "rel a s \<Longrightarrow> guarded spec allowed xs a
    \<Longrightarrow> fst (outputs code xs s) = fst (outputs spec xs a) \<and> rel (snd (outputs spec xs a)) (snd (outputs code xs s))"
  by (induction xs arbitrary: a s) (auto simp: follows outputs_Cons simp del: outputs.simps(2))

lemma run_outputs: "rel a s \<Longrightarrow> guarded spec allowed xs a \<Longrightarrow> fst (outputs code xs s) = fst (outputs spec xs a)"
  by (simp add: same_outputs)

lemma run_related:
  "rel a s \<Longrightarrow> guarded spec allowed xs a \<Longrightarrow> rel (snd (outputs spec xs a)) (snd (outputs code xs s))"
  by (simp add: same_outputs)

end

end
