(* ===== verification/JqReady.thy ===== *)
theory JqReady
  imports JsMachine
begin

text \<open>
  \<open>$(function)\<close> (\<open>lib/jquery.js\<close>): how jQuery learns that the page is ready, and how scripts hold it back.
  The browser is what the code asks it; events reach the handler \<open>completed\<close> when it is registered for
  them. \<open>ready\<close> calls \<open>resolveWith\<close> on a deferred and then triggers an event;
  these calls are listed.
\<close>

section \<open>The code\<close>

datatype ready_state = Loading | Interactive | Complete

datatype event_target = Document | Window

datatype dom_event = DOMContentLoaded | Load | ReadyStateChange

text \<open>
  What the code reads of the browser: \<open>document.readyState\<close>, whether there is \<open>addEventListener\<close> and
  \<open>documentElement.doScroll\<close>, whether the window is the top one, and whether \<open>doScroll\<close> succeeds.
\<close>

record browser =
  readyState :: ready_state
  addEventListener :: bool
  hasDoScroll :: bool
  isTop :: bool
  doScroll_ok :: bool

datatype timer = ReadyTimer | ScrollTimer

record ready_vars =
  isReady :: bool
  readyWait :: int
  readyList :: bool
  listeners :: "(event_target \<times> dom_event) list"
  timers :: "timer list"

datatype ready_call = ResolveReady | TriggerReady | OffReady

definition init_ready :: ready_vars where
  "init_ready = \<lparr>isReady = False, readyWait = 1, readyList = False, listeners = [], timers = []\<rparr>"

text \<open>\<open>ready\<close>; the argument says whether \<open>wait === true\<close>.\<close>

definition ready :: "bool \<Rightarrow> ready_vars \<Rightarrow> ready_call list \<times> ready_vars" where
  "ready wait s =
     (let s = (if wait then s\<lparr>readyWait := readyWait s - 1\<rparr> else s)
      in if (if wait then readyWait s \<noteq> 0 else isReady s) then ([], s)
         else
           let s = s\<lparr>isReady := True\<rparr>;
               s = (if wait then s else s\<lparr>readyWait := readyWait s - 1\<rparr>)
           in if \<not> wait \<and> readyWait s > 0 then ([], s)
              else ([ResolveReady, TriggerReady, OffReady], s))"

definition holdReady :: "bool \<Rightarrow> ready_vars \<Rightarrow> ready_call list \<times> ready_vars" where
  "holdReady hold s = (if hold then ([], s\<lparr>readyWait := readyWait s + 1\<rparr>) else ready True s)"

definition detach :: "browser \<Rightarrow> ready_vars \<Rightarrow> ready_vars" where
  "detach br s = s\<lparr>listeners :=
     (if addEventListener br then filter (\<lambda>x. x \<notin> {(Document, DOMContentLoaded), (Window, Load)}) (listeners s)
      else filter (\<lambda>x. x \<notin> {(Document, ReadyStateChange), (Window, Load)}) (listeners s))\<rparr>"

definition completed :: "browser \<Rightarrow> dom_event \<Rightarrow> ready_vars \<Rightarrow> ready_call list \<times> ready_vars" where
  "completed br e s =
     (if addEventListener br \<or> e = Load \<or> readyState br = Complete then ready False (detach br s) else ([], s))"

definition doScrollCheck :: "browser \<Rightarrow> ready_vars \<Rightarrow> ready_call list \<times> ready_vars" where
  "doScrollCheck br s =
     (if isReady s then ([], s)
      else if doScroll_ok br then ready False (detach br s)
      else ([], s\<lparr>timers := timers s @ [ScrollTimer]\<rparr>))"

definition ready_promise :: "browser \<Rightarrow> ready_vars \<Rightarrow> ready_call list \<times> ready_vars" where
  "ready_promise br s =
     (if readyList s then ([], s)
      else
        let s = s\<lparr>readyList := True\<rparr>
        in if readyState br = Complete \<or> readyState br \<noteq> Loading \<and> \<not> hasDoScroll br
           then ([], s\<lparr>timers := timers s @ [ReadyTimer]\<rparr>)
           else if addEventListener br
           then ([], s\<lparr>listeners := listeners s @ [(Document, DOMContentLoaded), (Window, Load)]\<rparr>)
           else
             let s = s\<lparr>listeners := listeners s @ [(Document, ReadyStateChange), (Window, Load)]\<rparr>
             in if isTop br \<and> hasDoScroll br then doScrollCheck br s else ([], s))"

section \<open>Runs\<close>

text \<open>
  What can happen: the browser dispatches an event or runs the oldest timer, or a script holds or releases
  the event or passes a function to \<open>$\<close>.
\<close>

datatype happening = Dispatch browser event_target dom_event | Tick browser | Hold | Release | Bind browser

fun happen :: "happening \<Rightarrow> ready_vars \<Rightarrow> ready_call list \<times> ready_vars" where
  "happen (Dispatch br t e) s = (if (t, e) \<in> set (listeners s) then completed br e s else ([], s))"
| "happen (Tick br) s =
     (case timers s of
        [] \<Rightarrow> ([], s)
      | ReadyTimer # ts \<Rightarrow> ready False (s\<lparr>timers := ts\<rparr>)
      | ScrollTimer # ts \<Rightarrow> doScrollCheck br (s\<lparr>timers := ts\<rparr>))"
| "happen Hold s = holdReady True s"
| "happen Release s = holdReady False s"
| "happen (Bind br) s = ready_promise br s"

text \<open>The script of the library ends with \<open>jQuery.ready.promise()\<close>.\<close>

definition from_load :: "browser \<Rightarrow> happening list \<Rightarrow> ready_call list \<times> ready_vars" where
  "from_load br xs = outputs happen (Bind br # xs) init_ready"

section \<open>The specification\<close>

text \<open>
  The contract: scripts hold the event a number of times; the browser announces once that the document is
  ready; the functions are called when it has been announced and nothing holds the event. What
  announces it depends on the browser and on how far the document was when the library was loaded.
\<close>

definition loaded_late :: "browser \<Rightarrow> bool" where
  "loaded_late br \<longleftrightarrow> readyState br = Complete \<or> readyState br = Interactive \<and> \<not> hasDoScroll br"

definition polls :: "browser \<Rightarrow> bool" where
  "polls br \<longleftrightarrow> \<not> addEventListener br \<and> isTop br \<and> hasDoScroll br"

fun announces :: "browser \<Rightarrow> happening \<Rightarrow> bool" where
  "announces br (Tick now) = (loaded_late br \<or> polls br \<and> doScroll_ok now)"
| "announces br (Dispatch now t e) =
     (\<not> loaded_late br \<and>
       (t = Window \<and> e = Load
        \<or> t = Document \<and> (if addEventListener br then e = DOMContentLoaded
            else e = ReadyStateChange \<and> readyState now = Complete)))"
| "announces br x = False"

record ready_spec =
  announced :: bool
  holds :: int

definition spec_calls :: "ready_spec \<Rightarrow> ready_call list" where
  "spec_calls a = (if announced a \<and> holds a = 0 then [ResolveReady, TriggerReady, OffReady] else [])"

fun spec_happen :: "browser \<Rightarrow> happening \<Rightarrow> ready_spec \<Rightarrow> ready_call list \<times> ready_spec" where
  "spec_happen br Hold a = ([], a\<lparr>holds := holds a + 1\<rparr>)"
| "spec_happen br Release a = (let a = a\<lparr>holds := holds a - 1\<rparr> in (spec_calls a, a))"
| "spec_happen br x a =
     (if \<not> announced a \<and> announces br x then let a = a\<lparr>announced := True\<rparr> in (spec_calls a, a) else ([], a))"

text \<open>An old browser in which scrolling works at once announces the document while the library is loaded.\<close>

definition spec_load :: "browser \<Rightarrow> happening list \<Rightarrow> ready_call list \<times> ready_spec" where
  "spec_load br xs =
     (let a = \<lparr>announced = \<not> loaded_late br \<and> polls br \<and> doScroll_ok br, holds = 0\<rparr>;
          (cs, a') = outputs (spec_happen br) xs a
      in (spec_calls a @ cs, a'))"

text \<open>Scripts release only what they hold, and the browser does not change its kind.\<close>

fun balanced :: "int \<Rightarrow> happening list \<Rightarrow> bool" where
  "balanced n [] = True"
| "balanced n (Hold # xs) = balanced (n + 1) xs"
| "balanced n (Release # xs) = (n > 0 \<and> balanced (n - 1) xs)"
| "balanced n (_ # xs) = balanced n xs"

definition same_kind :: "browser \<Rightarrow> browser \<Rightarrow> bool" where
  "same_kind br now \<longleftrightarrow> addEventListener now = addEventListener br \<and> hasDoScroll now = hasDoScroll br \<and> isTop now = isTop br"

fun of_kind :: "browser \<Rightarrow> happening \<Rightarrow> bool" where
  "of_kind br (Dispatch now t e) = same_kind br now"
| "of_kind br (Tick now) = same_kind br now"
| "of_kind br (Bind now) = same_kind br now"
| "of_kind br x = True"

section \<open>The code refines the specification\<close>

text \<open>Until the announcement exactly its sources are registered; afterwards a poll may be left over.\<close>

definition refines :: "browser \<Rightarrow> ready_spec \<Rightarrow> ready_vars \<Rightarrow> bool" where
  "refines br a s \<longleftrightarrow> readyList s \<and> isReady s = announced a
     \<and> readyWait s = holds a + (if announced a then 0 else 1)
     \<and> (if announced a then listeners s = [] \<and> set (timers s) \<subseteq> {ScrollTimer}
        else listeners s = (if loaded_late br then []
            else [(Document, if addEventListener br then DOMContentLoaded else ReadyStateChange), (Window, Load)])
          \<and> timers s = (if loaded_late br then [ReadyTimer] else if polls br then [ScrollTimer] else []))"

lemma ready_announces:
  assumes "\<not> isReady s" and "readyWait s = holds a + 1" and "0 \<le> holds a"
  shows "ready False s = (spec_calls (a\<lparr>announced := True\<rparr>), s\<lparr>isReady := True, readyWait := holds a\<rparr>)"
  using assms by (simp add: ready_def spec_calls_def)

lemma ready_released:
  assumes "isReady s = announced a" and "readyWait s = holds a + (if announced a then 0 else 1)" and "0 < holds a"
  shows "ready True s = (spec_calls (a\<lparr>holds := holds a - 1\<rparr>), s\<lparr>readyWait := readyWait s - 1\<rparr>)"
  using assms by (auto simp: ready_def spec_calls_def Let_def)

lemma refines_happen:
  assumes "refines br a s" and "0 \<le> holds a" and "x = Release \<Longrightarrow> 0 < holds a" and "of_kind br x"
  shows "fst (happen x s) = fst (spec_happen br x a) \<and> refines br (snd (spec_happen br x a)) (snd (happen x s))"
proof (cases x)
  case (Dispatch now t e)
  with assms show ?thesis
    by (auto simp: refines_def completed_def detach_def same_kind_def ready_announces [of _ a] Let_def split: if_splits)
next
  case (Tick now)
  with assms show ?thesis
    by (auto simp: refines_def doScrollCheck_def detach_def same_kind_def polls_def ready_announces [of _ a] Let_def
        split: if_splits list.split timer.split)
next
  case Hold
  with assms show ?thesis by (auto simp: refines_def holdReady_def)
next
  case Release
  with assms ready_released [of s a] show ?thesis by (auto simp: refines_def holdReady_def Let_def)
next
  case (Bind now)
  with assms show ?thesis by (auto simp: refines_def ready_promise_def)
qed

definition allowed :: "browser \<Rightarrow> happening \<Rightarrow> ready_spec \<Rightarrow> bool" where
  "allowed br x a \<longleftrightarrow> 0 \<le> holds a \<and> (x = Release \<longrightarrow> 0 < holds a) \<and> of_kind br x"

interpretation ready_code: simulation happen "spec_happen br" "allowed br" "refines br" for br
  by unfold_locales (auto simp: allowed_def intro: refines_happen [THEN conjunct1] refines_happen [THEN conjunct2])

lemma balanced_allowed:
  "balanced (holds a) xs \<Longrightarrow> 0 \<le> holds a \<Longrightarrow> list_all (of_kind br) xs \<Longrightarrow> guarded (spec_happen br) (allowed br) xs a"
proof (induction xs arbitrary: a)
  case (Cons x xs)
  then show ?case by (cases x) (auto simp: allowed_def Let_def)
qed simp


definition modern :: browser where
  "modern = \<lparr>readyState = Loading, addEventListener = True, hasDoScroll = False, isTop = True, doScroll_ok = False\<rparr>"


text \<open>A release without a hold calls the functions although the document is not ready.\<close>

lemma release_too_early: "fst (from_load modern [Release]) = [ResolveReady, TriggerReady, OffReady]"
  by code_simp

end
