(* ===== verification/JqNamespace.thy ===== *)
theory JqNamespace
  imports JqCallbacks "HOL-Library.Sublist" "HOL-Library.Multiset" "HOL-Library.List_Lexorder" "HOL-Library.Char_ord"
begin

text \<open>
  Types and namespaces of events (\<open>lib/jquery.js\<close>), and the regular expression that
  \<open>jQuery.event.remove\<close> and \<open>trigger\<close> build from namespaces.
\<close>

section \<open>Types and namespaces\<close>

text \<open>\<open>rtypenamespace\<close>: the type up to the first dot, and what follows it unless that is empty.\<close>

definition event_type :: "string \<Rightarrow> string" where
  "event_type w = takeWhile (\<lambda>c. c \<noteq> CHR ''.'') w"

definition event_rest :: "string \<Rightarrow> string" where
  "event_rest w = drop 1 (dropWhile (\<lambda>c. c \<noteq> CHR ''.'') w)"

definition namespaces :: "string \<Rightarrow> string list" where
  "namespaces w = sort (split_on CHR ''.'' (event_rest w))"

definition type_words :: "string \<Rightarrow> string list" where
  "type_words types = (if text_words types = [] then [''''] else text_words types)"

text \<open>
  The regular expression \<open>(^|\.)a\.(?:.*\.|)b(\.|$)\<close> that is built from the namespaces \<open>a\<close>, \<open>b\<close>. A regular
  expression gives the positions where a match that starts at a position can end. The
  names are put into it unescaped; here they are taken literally.
\<close>

datatype rx = Chr char | AtStart | AtEnd | Dots | Seq rx rx | Alt rx rx | Eps

fun rx_ends :: "rx \<Rightarrow> string \<Rightarrow> nat \<Rightarrow> nat list" where
  "rx_ends (Chr c) s i = (if i < length s \<and> s ! i = c then [Suc i] else [])"
| "rx_ends AtStart s i = (if i = 0 then [i] else [])"
| "rx_ends AtEnd s i = (if i = length s then [i] else [])"
| "rx_ends Dots s i = [i..<Suc (i + length (takeWhile (\<lambda>c. c \<notin> {nl, cr}) (drop i s)))]"
| "rx_ends (Seq r q) s i = concat (map (rx_ends q s) (rx_ends r s i))"
| "rx_ends (Alt r q) s i = rx_ends r s i @ rx_ends q s i"
| "rx_ends Eps s i = [i]"

definition rx_test :: "rx \<Rightarrow> string \<Rightarrow> bool" where
  "rx_test r s \<longleftrightarrow> list_ex (\<lambda>i. rx_ends r s i \<noteq> []) [0..<Suc (length s)]"

definition rx_text :: "string \<Rightarrow> rx" where
  "rx_text s = foldr (\<lambda>c r. Seq (Chr c) r) s Eps"

fun rx_names :: "string list \<Rightarrow> rx" where
  "rx_names [] = Eps"
| "rx_names [a] = rx_text a"
| "rx_names (a # b # ns) =
     Seq (rx_text a) (Seq (Chr CHR ''.'') (Seq (Alt (Seq Dots (Chr CHR ''.'')) Eps) (rx_names (b # ns))))"

definition namespace_rx :: "string list \<Rightarrow> rx" where
  "namespace_rx ns = Seq (Alt AtStart (Chr CHR ''.'')) (Seq (rx_names ns) (Alt (Chr CHR ''.'') AtEnd))"

section \<open>What the namespace test means\<close>

text \<open>The same expression on what is left of the text.\<close>

fun rests :: "rx \<Rightarrow> string \<Rightarrow> string set" where
  "rests (Chr c) u = {v. u = c # v}"
| "rests AtStart u = {}"
| "rests AtEnd u = {v. u = [] \<and> v = []}"
| "rests Dots u = {v. \<exists>p. u = p @ v \<and> list_all (\<lambda>c. c \<notin> {nl, cr}) p}"
| "rests (Seq r q) u = (\<Union>v \<in> rests r u. rests q v)"
| "rests (Alt r q) u = rests r u \<union> rests q u"
| "rests Eps u = {u}"

fun no_start :: "rx \<Rightarrow> bool" where
  "no_start AtStart = False"
| "no_start (Seq r q) = (no_start r \<and> no_start q)"
| "no_start (Alt r q) = (no_start r \<and> no_start q)"
| "no_start r = True"

lemma split_takeWhile:
  "(\<exists>p. u = p @ v \<and> list_all P p) \<longleftrightarrow> (\<exists>k \<le> length (takeWhile P u). v = drop k u)"
proof
  assume "\<exists>p. u = p @ v \<and> list_all P p"
  then obtain p where p: "u = p @ v" "list_all P p" by blast
  then have "takeWhile P u = p @ takeWhile P v"
    by (auto simp: list_all_iff takeWhile_append2)
  with p show "\<exists>k \<le> length (takeWhile P u). v = drop k u"
    by (intro exI [of _ "length p"]) simp
next
  assume "\<exists>k \<le> length (takeWhile P u). v = drop k u"
  then obtain k where k: "k \<le> length (takeWhile P u)" "v = drop k u" by blast
  have "take k u = take k (takeWhile P u)"
    using k(1) by (metis append_take_drop_id length_take min.absorb2 take_append take_take takeWhile_eq_take)
  then have "list_all P (take k u)"
    by (auto simp: list_all_iff dest!: in_set_takeD dest: set_takeWhileD)
  with k(2) show "\<exists>p. u = p @ v \<and> list_all P p"
    by (intro exI [of _ "take k u"]) simp
qed

lemma image_drop: "(\<lambda>j. drop j s) ` {i..<Suc (i + n)} = {v. \<exists>k \<le> n. v = drop k (drop i s)}"
proof (intro set_eqI iffI)
  fix v assume "v \<in> (\<lambda>j. drop j s) ` {i..<Suc (i + n)}"
  then obtain j where "i \<le> j" "j \<le> i + n" "v = drop j s" by auto
  then show "v \<in> {v. \<exists>k \<le> n. v = drop k (drop i s)}"
    by (auto intro!: exI [of _ "j - i"])
next
  fix v assume "v \<in> {v. \<exists>k \<le> n. v = drop k (drop i s)}"
  then obtain k where "k \<le> n" "v = drop (k + i) s" by auto
  then show "v \<in> (\<lambda>j. drop j s) ` {i..<Suc (i + n)}"
    by (auto intro!: image_eqI [of _ _ "k + i"])
qed

lemma rx_ends_rests:
  "no_start r \<Longrightarrow> i \<le> length s \<Longrightarrow> (\<forall>j \<in> set (rx_ends r s i). j \<le> length s) \<and> (\<lambda>j. drop j s) ` set (rx_ends r s i) = rests r (drop i s)"
proof (induction r s i rule: rx_ends.induct)
  case (1 c s i)
  then show ?case by (cases "i < length s") (auto simp flip: Cons_nth_drop_Suc)
next
  case (4 s i)
  let ?n = "length (takeWhile (\<lambda>c. c \<notin> {nl, cr}) (drop i s))"
  have "?n \<le> length s - i"
    by (metis length_drop length_takeWhile_le)
  then have le: "j \<le> length s" if "j \<in> {i..<Suc (i + ?n)}" for j
    using that 4(2) unfolding atLeastLessThan_iff by linarith
  have ends: "set (rx_ends Dots s i) = {i..<Suc (i + ?n)}"
    by (simp only: rx_ends.simps set_upt)
  have rests: "rests Dots (drop i s) = {v. \<exists>k \<le> ?n. v = drop k (drop i s)}"
    by (simp only: rests.simps split_takeWhile)
  show ?case
  proof (intro conjI ballI)
    fix j assume "j \<in> set (rx_ends Dots s i)"
    then show "j \<le> length s" unfolding ends by (rule le)
  next
    show "(\<lambda>j. drop j s) ` set (rx_ends Dots s i) = rests Dots (drop i s)"
      unfolding ends rests by (rule image_drop)
  qed
next
  case (5 r q s i)
  have ns: "no_start r" "no_start q" using 5(3) by auto
  have le: "\<forall>j \<in> set (rx_ends r s i). j \<le> length s"
    and first: "(\<lambda>j. drop j s) ` set (rx_ends r s i) = rests r (drop i s)"
    using 5(1) [OF ns(1) 5(4)] by blast+
  have second: "(\<forall>k \<in> set (rx_ends q s j). k \<le> length s) \<and> (\<lambda>j. drop j s) ` set (rx_ends q s j) = rests q (drop j s)"
    if "j \<in> set (rx_ends r s i)" for j
    by (rule 5(2) [OF that ns(2) bspec [OF le that]])
  have "(\<lambda>j. drop j s) ` set (rx_ends (Seq r q) s i) = (\<Union>j \<in> set (rx_ends r s i). (\<lambda>j. drop j s) ` set (rx_ends q s j))"
    by (simp only: rx_ends.simps set_concat set_map image_UN image_image)
  also have "\<dots> = (\<Union>j \<in> set (rx_ends r s i). rests q (drop j s))"
    using second by (intro SUP_cong refl) blast
  also have "\<dots> = rests (Seq r q) (drop i s)"
    by (simp only: rests.simps image_image flip: first)
  finally have image: "(\<lambda>j. drop j s) ` set (rx_ends (Seq r q) s i) = rests (Seq r q) (drop i s)" .
  have "\<forall>k \<in> set (rx_ends (Seq r q) s i). k \<le> length s"
  proof
    fix k assume "k \<in> set (rx_ends (Seq r q) s i)"
    then obtain j where j: "j \<in> set (rx_ends r s i)" "k \<in> set (rx_ends q s j)" by auto
    with second [OF j(1)] show "k \<le> length s" by blast
  qed
  then show ?case using image by (rule conjI)
next
  case (6 r q s i)
  then show ?case by (simp only: no_start.simps rx_ends.simps rests.simps set_append image_Un) auto
qed auto

lemma rests_text: "rests (rx_text a) u = {v. u = a @ v}"
  by (induction a arbitrary: u) (auto simp: rx_text_def)

lemma no_start_text [simp]: "no_start (rx_text a)"
  by (induction a) (auto simp: rx_text_def)

lemma no_start_names [simp]: "no_start (rx_names ns)"
  by (induction ns rule: rx_names.induct) auto

section \<open>Splitting\<close>

lemma split_on_cases:
  obtains (last) "c \<notin> set u" "split_on c u = [u]"
    | (more) a w where "u = a @ c # w" "c \<notin> set a" "split_on c u = a # split_on c w"
proof (cases "c \<in> set u")
  case True
  then obtain a w where u: "u = a @ c # w" "c \<notin> set a" by (meson split_list_first)
  have "c \<notin> set a \<Longrightarrow> split_on c a = [a]" by (induction a) auto
  with u show ?thesis by (intro more) (simp_all add: split_on_append)
next
  case False
  then have "split_on c u = [u]" by (induction u) auto
  with False show ?thesis by (rule last)
qed

lemma append_dot_eq:
  "c \<notin> set a \<Longrightarrow> c \<notin> set b \<Longrightarrow> a @ c # v = b @ c # w \<longleftrightarrow> a = b \<and> v = w"
  by (induction a arbitrary: b) (case_tac b; auto)+

text \<open>Where a text can be cut at a dot.\<close>

lemma split_suffix:
  "(\<exists>p w. u = p @ c # w \<and> Q (split_on c w)) \<longleftrightarrow> (\<exists>xs ys. split_on c u = xs @ ys \<and> xs \<noteq> [] \<and> ys \<noteq> [] \<and> Q ys)"
proof
  assume "\<exists>p w. u = p @ c # w \<and> Q (split_on c w)"
  then obtain p w where "u = p @ c # w" "Q (split_on c w)" by blast
  then show "\<exists>xs ys. split_on c u = xs @ ys \<and> xs \<noteq> [] \<and> ys \<noteq> [] \<and> Q ys"
    by (intro exI [of _ "split_on c p"] exI [of _ "split_on c w"]) (simp add: split_on_append)
next
  assume "\<exists>xs ys. split_on c u = xs @ ys \<and> xs \<noteq> [] \<and> ys \<noteq> [] \<and> Q ys"
  then obtain xs ys where "split_on c u = xs @ ys" "xs \<noteq> []" "ys \<noteq> []" "Q ys" by blast
  then show "\<exists>p w. u = p @ c # w \<and> Q (split_on c w)"
  proof (induction xs arbitrary: u)
    case (Cons x xs)
    show ?case
    proof (rule split_on_cases [of c u])
      assume "split_on c u = [u]"
      with Cons.prems show ?thesis by simp
    next
      fix a w assume u: "u = a @ c # w" "split_on c u = a # split_on c w"
      show ?thesis
      proof (cases "xs = []")
        case True
        with u Cons.prems show ?thesis by auto
      next
        case False
        with u Cons.prems Cons.IH [of w] obtain p w' where "w = p @ c # w'" "Q (split_on c w')" by auto
        with u have "u = (a @ c # p) @ c # w'" by simp
        with \<open>Q (split_on c w')\<close> show ?thesis by blast
      qed
    qed
  qed simp
qed

section \<open>The test\<close>

abbreviation dot :: char where "dot \<equiv> CHR ''.''"

definition names_match :: "string list \<Rightarrow> string \<Rightarrow> bool" where
  "names_match ns u \<longleftrightarrow> (\<exists>v \<in> rests (rx_names ns) u. v = [] \<or> (\<exists>w. v = dot # w))"

lemma names_match_one: "dot \<notin> set a \<Longrightarrow> names_match [a] u \<longleftrightarrow> hd (split_on dot u) = a"
proof -
  assume a: "dot \<notin> set a"
  have "names_match [a] u \<longleftrightarrow> u = a \<or> (\<exists>w. u = a @ dot # w)"
    by (auto simp: names_match_def rests_text)
  also have "\<dots> \<longleftrightarrow> hd (split_on dot u) = a"
    by (rule split_on_cases [of dot u]) (use a in \<open>auto simp: append_dot_eq\<close>)
  finally show ?thesis .
qed

lemma add_side:
  assumes "\<And>w p w'. U w \<Longrightarrow> W w p w' \<Longrightarrow> L p"
  shows "(U w \<and> (A w \<or> (\<exists>p w'. W w p w' \<and> L p \<and> B w'))) \<longleftrightarrow> (U w \<and> (A w \<or> (\<exists>p w'. W w p w' \<and> B w')))"
  using assms by blast

lemma ex_side: "(\<And>w. U w \<Longrightarrow> A w = B w) \<Longrightarrow> (\<exists>w. U w \<and> A w) \<longleftrightarrow> (\<exists>w. U w \<and> B w)"
  by blast

lemma ex_shuffle:
  "(\<exists>v \<in> {v. \<exists>w. U w \<and> (v \<in> N w \<or> (\<exists>p w'. W w p w' \<and> v \<in> N w'))}. Y v) \<longleftrightarrow>
    (\<exists>w. U w \<and> ((\<exists>v \<in> N w. Y v) \<or> (\<exists>p w'. W w p w' \<and> (\<exists>v \<in> N w'. Y v))))"
  by blast

lemma names_match_more:
  assumes "nl \<notin> set u" and "cr \<notin> set u"
  shows "names_match (a # b # ns) u \<longleftrightarrow>
    (\<exists>w. u = a @ dot # w \<and> (names_match (b # ns) w \<or> (\<exists>p w'. w = p @ dot # w' \<and> names_match (b # ns) w')))"
proof -
  let ?N = "rests (rx_names (b # ns))"
  have "list_all (\<lambda>c. c \<notin> {nl, cr}) p" if "u = a @ dot # w" "w = p @ dot # w'" for p w w'
    using assms that by (auto simp: list_all_iff)
  then have "(u = a @ dot # w \<and> (v \<in> ?N w \<or> (\<exists>p w'. w = p @ dot # w' \<and> list_all (\<lambda>c. c \<notin> {nl, cr}) p \<and> v \<in> ?N w')))
      \<longleftrightarrow> (u = a @ dot # w \<and> (v \<in> ?N w \<or> (\<exists>p w'. w = p @ dot # w' \<and> v \<in> ?N w')))" for v w
    by (rule add_side [of "\<lambda>w. u = a @ dot # w" "\<lambda>w p w'. w = p @ dot # w'" _ w "\<lambda>w. v \<in> ?N w" "\<lambda>w'. v \<in> ?N w'"])
  moreover have "rests (rx_names (a # b # ns)) u =
      {v. \<exists>w. u = a @ dot # w \<and> (v \<in> ?N w \<or> (\<exists>p w'. w = p @ dot # w' \<and> list_all (\<lambda>c. c \<notin> {nl, cr}) p \<and> v \<in> ?N w'))}"
    by (subst rx_names.simps) (auto simp: rests_text simp del: rx_names.simps)
  ultimately show ?thesis
    unfolding names_match_def by (simp only: ex_shuffle)
qed

lemma subseq_Cons_iff: "subseq (b # ns) zs \<longleftrightarrow> (\<exists>xs ys. zs = xs @ ys \<and> ys \<noteq> [] \<and> hd ys = b \<and> subseq ns (tl ys))"
proof
  assume "subseq (b # ns) zs"
  then obtain xs ys where "zs = xs @ b # ys" "subseq ns ys" by (auto dest: list_emb_ConsD)
  then show "\<exists>xs ys. zs = xs @ ys \<and> ys \<noteq> [] \<and> hd ys = b \<and> subseq ns (tl ys)"
    by (intro exI [of _ xs] exI [of _ "b # ys"]) simp
next
  assume "\<exists>xs ys. zs = xs @ ys \<and> ys \<noteq> [] \<and> hd ys = b \<and> subseq ns (tl ys)"
  then obtain xs ys where z: "zs = xs @ ys" "ys \<noteq> []" "hd ys = b" "subseq ns (tl ys)" by blast
  then have "ys = b # tl ys" by (cases ys) auto
  with z have "subseq (b # ns) ys" by (metis subseq_Cons2)
  with z(1) show "subseq (b # ns) zs" by (simp add: list_emb_append2)
qed

lemma suffix_or_all:
  "zs \<noteq> [] \<Longrightarrow> (Q zs \<or> (\<exists>xs ys. zs = xs @ ys \<and> xs \<noteq> [] \<and> ys \<noteq> [] \<and> Q ys)) \<longleftrightarrow> (\<exists>xs ys. zs = xs @ ys \<and> ys \<noteq> [] \<and> Q ys)"
  by (metis append_Nil)

lemma names_match_iff:
  assumes "ns \<noteq> []" and "list_all (\<lambda>n. dot \<notin> set n) ns" and "nl \<notin> set u" and "cr \<notin> set u"
  shows "names_match ns u \<longleftrightarrow> hd (split_on dot u) = hd ns \<and> subseq (tl ns) (tl (split_on dot u))"
  using assms
proof (induction ns arbitrary: u rule: rx_names.induct)
  case (2 a)
  then show ?case by (simp add: names_match_one)
next
  case (3 a b ns)
  have IH: "names_match (b # ns) w \<longleftrightarrow> hd (split_on dot w) = b \<and> subseq ns (tl (split_on dot w))"
    if "u = x @ dot # w" for x w
    using 3 that by simp
  have after: "(names_match (b # ns) w \<or> (\<exists>p w'. w = p @ dot # w' \<and> names_match (b # ns) w'))
      \<longleftrightarrow> subseq (b # ns) (split_on dot w)" if u: "u = x @ dot # w" for x w
  proof -
    let ?Q = "\<lambda>ys. hd ys = b \<and> subseq ns (tl ys)"
    have "(\<exists>p w'. w = p @ dot # w' \<and> names_match (b # ns) w') \<longleftrightarrow> (\<exists>p w'. w = p @ dot # w' \<and> ?Q (split_on dot w'))"
    proof -
      have "names_match (b # ns) w' \<longleftrightarrow> ?Q (split_on dot w')" if "w = p @ dot # w'" for p w'
        using IH [of "x @ dot # p" w'] u that by simp
      then show ?thesis by blast
    qed
    also have "\<dots> \<longleftrightarrow> (\<exists>xs ys. split_on dot w = xs @ ys \<and> xs \<noteq> [] \<and> ys \<noteq> [] \<and> ?Q ys)"
      by (rule split_suffix)
    finally have later: "(\<exists>p w'. w = p @ dot # w' \<and> names_match (b # ns) w')
      \<longleftrightarrow> (\<exists>xs ys. split_on dot w = xs @ ys \<and> xs \<noteq> [] \<and> ys \<noteq> [] \<and> ?Q ys)" .
    show ?thesis
      unfolding later subseq_Cons_iff [of b] IH [OF u] by (rule suffix_or_all [of _ ?Q]) simp
  qed
  have "names_match (a # b # ns) u \<longleftrightarrow> (\<exists>w. u = a @ dot # w \<and> subseq (b # ns) (split_on dot w))"
    unfolding names_match_more [OF 3(4,5)] using after by (rule ex_side)
  also have "\<dots> \<longleftrightarrow> hd (split_on dot u) = a \<and> subseq (b # ns) (tl (split_on dot u))"
    by (rule split_on_cases [of dot u]) (use 3(3) in \<open>auto simp: append_dot_eq\<close>)
  finally show ?case by simp
qed simp

lemma cut_at_dot:
  "(\<exists>i < length s. s ! i = c \<and> Q (drop (Suc i) s)) \<longleftrightarrow> (\<exists>p w. s = p @ c # w \<and> Q w)"
proof
  assume "\<exists>i < length s. s ! i = c \<and> Q (drop (Suc i) s)"
  then obtain i where "i < length s" "s ! i = c" "Q (drop (Suc i) s)" by blast
  then show "\<exists>p w. s = p @ c # w \<and> Q w"
    by (intro exI [of _ "take i s"] exI [of _ "drop (Suc i) s"]) (auto simp flip: id_take_nth_drop)
next
  assume "\<exists>p w. s = p @ c # w \<and> Q w"
  then obtain p w where "s = p @ c # w" "Q w" by blast
  then show "\<exists>i < length s. s ! i = c \<and> Q (drop (Suc i) s)"
    by (intro exI [of _ "length p"]) simp
qed

text \<open>The expression finds the names in this order among the parts of the text.\<close>

lemma namespace_rx_subseq:
  assumes "ns \<noteq> []" and "list_all (\<lambda>n. dot \<notin> set n) ns" and "nl \<notin> set s" and "cr \<notin> set s"
  shows "rx_test (namespace_rx ns) s \<longleftrightarrow> subseq ns (split_on dot s)"
proof -
  define r where "r = Seq (rx_names ns) (Alt (Chr dot) AtEnd)"
  have no_start: "no_start r" by (simp add: r_def)
  have from_i: "rx_ends r s i \<noteq> [] \<longleftrightarrow> names_match ns (drop i s)" if "i \<le> length s" for i
  proof -
    have "rx_ends r s i \<noteq> [] \<longleftrightarrow> (\<lambda>j. drop j s) ` set (rx_ends r s i) \<noteq> {}" by (simp only: image_is_empty set_empty)
    also have "\<dots> \<longleftrightarrow> rests r (drop i s) \<noteq> {}"
      using rx_ends_rests [OF no_start that] by simp
    also have "\<dots> \<longleftrightarrow> names_match ns (drop i s)"
      by (auto simp: names_match_def r_def)
    finally show ?thesis .
  qed
  have start: "rx_ends (namespace_rx ns) s i \<noteq> [] \<longleftrightarrow>
      i = 0 \<and> rx_ends r s 0 \<noteq> [] \<or> i < length s \<and> s ! i = dot \<and> rx_ends r s (Suc i) \<noteq> []" for i
    by (auto simp: namespace_rx_def simp flip: r_def)
  have "rx_test (namespace_rx ns) s \<longleftrightarrow>
      rx_ends r s 0 \<noteq> [] \<or> (\<exists>i < length s. s ! i = dot \<and> rx_ends r s (Suc i) \<noteq> [])"
    unfolding rx_test_def list_ex_iff start set_upt Bex_def by (auto simp: less_Suc_eq_le intro: less_imp_le)
  also have "\<dots> \<longleftrightarrow> names_match ns s \<or> (\<exists>i < length s. s ! i = dot \<and> names_match ns (drop (Suc i) s))"
    using from_i [of 0] from_i [of "Suc _"] by (simp add: Suc_le_eq) metis
  also have "(\<exists>i < length s. s ! i = dot \<and> names_match ns (drop (Suc i) s)) \<longleftrightarrow> (\<exists>p w. s = p @ dot # w \<and> names_match ns w)"
    by (rule cut_at_dot)
  also have "names_match ns s \<or> (\<exists>p w. s = p @ dot # w \<and> names_match ns w) \<longleftrightarrow> subseq ns (split_on dot s)"
  proof -
    let ?Q = "\<lambda>ys. hd ys = hd ns \<and> subseq (tl ns) (tl ys)"
    have "names_match ns w \<longleftrightarrow> ?Q (split_on dot w)" if "s = p @ dot # w" for p w
      using assms that by (intro names_match_iff) auto
    then have "(\<exists>p w. s = p @ dot # w \<and> names_match ns w) \<longleftrightarrow> (\<exists>p w. s = p @ dot # w \<and> ?Q (split_on dot w))"
      by blast
    also have "\<dots> \<longleftrightarrow> (\<exists>xs ys. split_on dot s = xs @ ys \<and> xs \<noteq> [] \<and> ys \<noteq> [] \<and> ?Q ys)"
      by (rule split_suffix)
    finally have "names_match ns s \<or> (\<exists>p w. s = p @ dot # w \<and> names_match ns w) \<longleftrightarrow>
        ?Q (split_on dot s) \<or> (\<exists>xs ys. split_on dot s = xs @ ys \<and> xs \<noteq> [] \<and> ys \<noteq> [] \<and> ?Q ys)"
      by (simp only: names_match_iff [OF assms])
    also have "\<dots> \<longleftrightarrow> (\<exists>xs ys. split_on dot s = xs @ ys \<and> ys \<noteq> [] \<and> ?Q ys)"
      by (rule suffix_or_all [of _ ?Q]) simp
    also have "\<dots> \<longleftrightarrow> subseq (hd ns # tl ns) (split_on dot s)"
      by (simp only: subseq_Cons_iff)
    finally show ?thesis by (simp add: assms(1))
  qed
  finally show ?thesis .
qed

lemma subseq_mset: "subseq xs ys \<Longrightarrow> mset xs \<subseteq># mset ys"
  by (induction rule: list_emb.induct) (auto intro: subset_mset.order_trans)

lemma sorted_subseq:
  fixes xs ys :: "'a :: linorder list"
  assumes "sorted xs" and "sorted ys"
  shows "subseq xs ys \<longleftrightarrow> mset xs \<subseteq># mset ys"
proof
  assume "mset xs \<subseteq># mset ys"
  with assms show "subseq xs ys"
  proof (induction ys arbitrary: xs)
    case (Cons y ys)
    show ?case
    proof (cases "y \<in> set xs")
      case True
      then obtain x zs where xs: "xs = x # zs" by (cases xs) auto
      have "x \<in> set (y # ys)" using Cons.prems(3) xs by (metis in_multiset_in_set list.set_intros(1) mset_subset_eqD)
      with True xs Cons.prems have "x = y" by (auto intro: antisym)
      with xs Cons show ?thesis by simp
    next
      case False
      then have "mset xs \<subseteq># mset ys"
      proof (intro mset_subset_eqI)
        fix a show "count (mset xs) a \<le> count (mset ys) a"
        proof (cases "a = y")
          case True
          then have "count (mset xs) a = 0" using False by (metis count_inI set_mset_mset)
          then show ?thesis by (simp only: le0)
        next
          case False
          then show ?thesis using mset_subset_eq_count [OF Cons.prems(3), of a] by simp
        qed
      qed
      with Cons have "subseq xs ys" by simp
      then show ?thesis by (rule list_emb_Cons)
    qed
  qed simp
qed (rule subseq_mset)

lemma sorted_namespaces [simp]: "sorted (namespaces w)" "namespaces w \<noteq> []"
  by (simp_all add: namespaces_def) (metis length_0_conv length_sort split_on_nonempty)

lemma set_event_rest: "set (event_rest w) \<subseteq> set w"
  by (auto simp: event_rest_def dest!: in_set_dropD set_dropWhileD)

lemma namespaces_chars: "n \<in> set (namespaces w) \<Longrightarrow> c \<in> set n \<Longrightarrow> c \<in> set w \<and> c \<noteq> dot"
proof -
  assume "n \<in> set (namespaces w)" "c \<in> set n"
  then have n: "n \<in> set (split_on dot (event_rest w))" by (simp add: namespaces_def)
  have "n \<in> set (split_on dot s) \<Longrightarrow> set n \<subseteq> set s" for s
    by (induction s arbitrary: n) (auto split: list.splits if_splits, blast+)
  with n set_event_rest [of w] split_on_no_sep [OF n] \<open>c \<in> set n\<close> show ?thesis by blast
qed

lemma set_join: "c \<in> set (join_with sep ns) \<Longrightarrow> c \<in> set sep \<or> (\<exists>n \<in> set ns. c \<in> set n)"
  by (induction sep ns rule: join_with.induct) auto

lemma namespace_test_mset:
  assumes "nl \<notin> set w'" and "cr \<notin> set w'"
  shows "rx_test (namespace_rx (namespaces w)) (join_with [dot] (namespaces w')) \<longleftrightarrow>
    mset (namespaces w) \<subseteq># mset (namespaces w')"
proof -
  have "c \<notin> set (join_with [dot] (namespaces w'))" if "c \<noteq> dot" "c \<notin> set w'" for c
    using set_join [of c "[dot]" "namespaces w'"] namespaces_chars [of _ w' c] that by auto
  moreover have "list_all (\<lambda>n. dot \<notin> set n) (namespaces x)" for x
    using namespaces_chars by (auto simp: list_all_iff)
  ultimately have "rx_test (namespace_rx (namespaces w)) (join_with [dot] (namespaces w')) \<longleftrightarrow>
      subseq (namespaces w) (split_on dot (join_with [dot] (namespaces w')))"
    using assms by (intro namespace_rx_subseq) auto
  also have "split_on dot (join_with [dot] (namespaces w')) = namespaces w'"
    using namespaces_chars by (intro split_join) (auto simp: list_all_iff)
  finally show ?thesis by (simp add: sorted_subseq)
qed



end
