(* ===== verification/JqEvent.thy ===== *)
theory JqEvent
  imports JqNamespace
begin

text \<open>
  \<open>jQuery.event.add\<close> and \<open>remove\<close> (\<open>lib/jquery.js\<close>): the handlers of the elements, the native listeners
  of the browser, and the events whose type is changed. Elements are numbers; what the code asks about them is a
  parameter. The browser has \<open>addEventListener\<close>; the handlers for old browsers (\<open>submit\<close>, \<open>change\<close>)
  are left out.
\<close>

section \<open>The registry\<close>

text \<open>
  Functions: those of the page, \<open>returnFalse\<close>, and the function that \<open>one\<close> wraps around another, which shares
  its \<open>guid\<close>.
\<close>

datatype 'f fn = UserFn 'f | ReturnFalse | OnceFn "'f fn"

text \<open>What can be passed for an optional argument; \<open>NoArg\<close> is \<open>undefined\<close> or \<open>null\<close>.\<close>

datatype ('f, 'd) arg = NoArg | Text string | Fun "'f fn" | FalseArg | Value 'd

text \<open>A selector that is \<open>undefined\<close> or empty is \<open>None\<close>.\<close>

record ('f, 'd) handle_obj =
  ho_type :: string
  ho_origType :: string
  ho_data :: "('f, 'd) arg"
  ho_handler :: "'f fn"
  ho_guid :: nat
  ho_selector :: "string option"
  ho_needsContext :: bool
  ho_namespace :: string

record ('f, 'd) handlers =
  objs :: "('f, 'd) handle_obj list"
  delegateCount :: nat

record ('f, 'd) elem_data =
  events :: "('f, 'd) handlers obj option"
  handle :: bool

text \<open>
  \<open>native\<close> holds the listeners that are attached with the \<open>handle\<close> of their element; \<open>attaches\<close> and
  \<open>capturing\<close> are the counters and the listeners of a document for \<open>focusin\<close> and \<open>focusout\<close>.
\<close>

record ('f, 'd) registry =
  elem_data :: "nat \<Rightarrow> ('f, 'd) elem_data"
  native :: "(nat \<times> string) list"
  attaches :: "nat \<Rightarrow> string \<Rightarrow> nat"
  capturing :: "(nat \<times> string) list"
  fn_guid :: "'f fn \<Rightarrow> nat option"
  next_guid :: nat
  global :: "string list"

record page_env =
  acceptsData :: "nat \<Rightarrow> bool"
  canListen :: "nat \<Rightarrow> bool"
  ownerDocument :: "nat \<Rightarrow> nat"
  focusin_support :: bool
  needsContext :: "string \<Rightarrow> bool"

definition new_registry :: "('f, 'd) registry" where
  "new_registry = \<lparr>elem_data = \<lambda>e. \<lparr>events = None, handle = False\<rparr>, native = [], attaches = \<lambda>d t. 0, capturing = [],
     fn_guid = \<lambda>f. None, next_guid = 1, global = []\<rparr>"

definition set_elem :: "nat \<Rightarrow> ('f, 'd) elem_data \<Rightarrow> ('f, 'd) registry \<Rightarrow> ('f, 'd) registry" where
  "set_elem e d r = r\<lparr>elem_data := (elem_data r)(e := d)\<rparr>"

definition events_of :: "('f, 'd) registry \<Rightarrow> nat \<Rightarrow> ('f, 'd) handlers obj" where
  "events_of r e = (case events (elem_data r e) of None \<Rightarrow> [] | Some ev \<Rightarrow> ev)"

definition set_events :: "nat \<Rightarrow> ('f, 'd) handlers obj \<Rightarrow> ('f, 'd) registry \<Rightarrow> ('f, 'd) registry" where
  "set_events e ev r = set_elem e ((elem_data r e)\<lparr>events := Some ev\<rparr>) r"

section \<open>Special events\<close>

definition bindType :: "string \<Rightarrow> string option" where
  "bindType t = map_of [(''mouseenter'', ''mouseover''), (''mouseleave'', ''mouseout''),
     (''pointerenter'', ''pointerover''), (''pointerleave'', ''pointerout'')] t"

definition delegateType :: "string \<Rightarrow> string option" where
  "delegateType t = map_of [(''focus'', ''focusin''), (''blur'', ''focusout''),
     (''mouseenter'', ''mouseover''), (''mouseleave'', ''mouseout''),
     (''pointerenter'', ''pointerover''), (''pointerleave'', ''pointerout'')] t"

definition mapped_type :: "string option \<Rightarrow> string \<Rightarrow> string" where
  "mapped_type selector t = (case if selector \<noteq> None then delegateType t else bindType t of Some u \<Rightarrow> u | None \<Rightarrow> t)"

text \<open>The events that a browser without them gets from a capturing listener of the document.\<close>

definition simulated :: "page_env \<Rightarrow> string \<Rightarrow> bool" where
  "simulated env t \<longleftrightarrow> \<not> focusin_support env \<and> (t = ''focusin'' \<or> t = ''focusout'')"

definition donor :: "string \<Rightarrow> string" where
  "donor t = (if t = ''focusin'' then ''focus'' else ''blur'')"

definition special_setup :: "page_env \<Rightarrow> nat \<Rightarrow> string \<Rightarrow> ('f, 'd) registry \<Rightarrow> ('f, 'd) registry" where
  "special_setup env e t r =
     (let doc = ownerDocument env e;
          r = (if attaches r doc t = 0 then r\<lparr>capturing := capturing r @ [(doc, donor t)]\<rparr> else r)
      in r\<lparr>attaches := (attaches r)(doc := (attaches r doc)(t := attaches r doc t + 1))\<rparr>)"

definition special_teardown :: "page_env \<Rightarrow> nat \<Rightarrow> string \<Rightarrow> ('f, 'd) registry \<Rightarrow> ('f, 'd) registry" where
  "special_teardown env e t r =
     (let doc = ownerDocument env e;
          n = attaches r doc t - 1;
          r = (if n = 0 then r\<lparr>capturing := filter (\<lambda>x. x \<noteq> (doc, donor t)) (capturing r)\<rparr> else r)
      in r\<lparr>attaches := (attaches r)(doc := (attaches r doc)(t := n))\<rparr>)"

definition start_listening :: "page_env \<Rightarrow> nat \<Rightarrow> string \<Rightarrow> ('f, 'd) registry \<Rightarrow> ('f, 'd) registry" where
  "start_listening env e t r =
     (if simulated env t then special_setup env e t r
      else if canListen env e then r\<lparr>native := native r @ [(e, t)]\<rparr> else r)"

text \<open>\<open>remove\<close> asks the special event of the type it was given, not of the type that this stands for.\<close>

definition stop_listening :: "page_env \<Rightarrow> nat \<Rightarrow> string \<Rightarrow> string \<Rightarrow> ('f, 'd) registry \<Rightarrow> ('f, 'd) registry" where
  "stop_listening env e origType t r =
     (if simulated env origType then special_teardown env e t r
      else if canListen env e then r\<lparr>native := filter (\<lambda>x. x \<noteq> (e, t)) (native r)\<rparr> else r)"

section \<open>Adding handlers\<close>

fun guid_of :: "('f, 'd) registry \<Rightarrow> 'f fn \<Rightarrow> nat option" where
  "guid_of r (OnceFn f) = guid_of r f"
| "guid_of r f = fn_guid r f"

fun base_fn :: "'f fn \<Rightarrow> 'f fn" where
  "base_fn (OnceFn f) = base_fn f"
| "base_fn f = f"

text \<open>\<open>if ( !handler.guid ) handler.guid = jQuery.guid++\<close>\<close>

definition give_guid :: "'f fn \<Rightarrow> ('f, 'd) registry \<Rightarrow> ('f, 'd) registry" where
  "give_guid f r =
     (if guid_of r f = None then r\<lparr>fn_guid := (fn_guid r)(base_fn f \<mapsto> next_guid r), next_guid := next_guid r + 1\<rparr> else r)"

text \<open>The events and the main handler of an element that has none.\<close>

definition init_elem :: "nat \<Rightarrow> ('f, 'd) registry \<Rightarrow> ('f, 'd) registry" where
  "init_elem e r =
     (let d = elem_data r e;
          d = (if events d = None then d\<lparr>events := Some []\<rparr> else d)
      in set_elem e (d\<lparr>handle := True\<rparr>) r)"

definition insert_handler :: "('f, 'd) handle_obj \<Rightarrow> ('f, 'd) handlers \<Rightarrow> ('f, 'd) handlers" where
  "insert_handler ho hs =
     (if ho_selector ho \<noteq> None
      then hs\<lparr>objs := take (delegateCount hs) (objs hs) @ ho # drop (delegateCount hs) (objs hs),
          delegateCount := delegateCount hs + 1\<rparr>
      else hs\<lparr>objs := objs hs @ [ho]\<rparr>)"

text \<open>
  One word of the types. \<open>mk\<close> makes the object for the handler from the two types and the namespace. A type
  that is a member of \<open>Object.prototype\<close> is found there and is no list.
\<close>

definition add_word :: "page_env \<Rightarrow> nat \<Rightarrow> string option \<Rightarrow> (string \<Rightarrow> string \<Rightarrow> string \<Rightarrow> ('f, 'd) handle_obj) \<Rightarrow> string
    \<Rightarrow> (('f, 'd) registry, unit) effect" where
  "add_word env e selector mk w r =
     (let origType = event_type w
      in if origType = [] then (Inr (), r)
         else
           let t = mapped_type selector origType;
               ho = mk t origType (join_with ''.'' (namespaces w))
           in case obj_get (events_of r e) t of
                Some hs \<Rightarrow>
                  let r = set_events e (obj_set t (insert_handler ho hs) (events_of r e)) r
                  in (Inr (), r\<lparr>global := t # global r\<rparr>)
              | None \<Rightarrow>
                  if t \<in> set object_prototype then (Inl (type_error ''handlers.push is not a function''), r)
                  else
                    let r = start_listening env e t r;
                        r = set_events e (obj_set t (insert_handler ho \<lparr>objs = [], delegateCount = 0\<rparr>) (events_of r e)) r
                    in (Inr (), r\<lparr>global := t # global r\<rparr>))"

fun add_words :: "page_env \<Rightarrow> nat \<Rightarrow> string option \<Rightarrow> (string \<Rightarrow> string \<Rightarrow> string \<Rightarrow> ('f, 'd) handle_obj) \<Rightarrow> string list
    \<Rightarrow> (('f, 'd) registry, unit) effect" where
  "add_words env e selector mk [] = retE ()"
| "add_words env e selector mk (w # ws) = bindE (add_word env e selector mk w) (\<lambda>_. add_words env e selector mk ws)"

text \<open>\<open>add\<close> with a function, and with an object of another element as \<open>clone\<close> passes it.\<close>

definition make_obj :: "page_env \<Rightarrow> 'f fn \<Rightarrow> nat \<Rightarrow> ('f, 'd) arg \<Rightarrow> string option \<Rightarrow> string \<Rightarrow> string \<Rightarrow> string
    \<Rightarrow> ('f, 'd) handle_obj" where
  "make_obj env f g data selector t origType ns =
     \<lparr>ho_type = t, ho_origType = origType, ho_data = data, ho_handler = f, ho_guid = g, ho_selector = selector,
      ho_needsContext = (case selector of Some s \<Rightarrow> needsContext env s | None \<Rightarrow> False), ho_namespace = ns\<rparr>"

definition event_add :: "page_env \<Rightarrow> nat \<Rightarrow> string \<Rightarrow> 'f fn \<Rightarrow> ('f, 'd) arg \<Rightarrow> string option
    \<Rightarrow> (('f, 'd) registry, unit) effect" where
  "event_add env e types f data selector r =
     (if acceptsData env e then
        let r = init_elem e (give_guid f r)
        in add_words env e selector (make_obj env f (the (guid_of r f)) data selector) (rev (type_words types)) r
      else (Inr (), r))"

definition event_add_obj :: "page_env \<Rightarrow> nat \<Rightarrow> string \<Rightarrow> ('f, 'd) handle_obj \<Rightarrow> ('f, 'd) arg
    \<Rightarrow> (('f, 'd) registry, unit) effect" where
  "event_add_obj env e types ho data r =
     (if acceptsData env e then
        let r = init_elem e (give_guid (ho_handler ho) r)
        in add_words env e (ho_selector ho)
             (\<lambda>t origType ns. ho\<lparr>ho_data := (if ho_data ho = NoArg then data else ho_data ho)\<rparr>) (rev (type_words types)) r
      else (Inr (), r))"

section \<open>Removing handlers\<close>

text \<open>
  Which objects go. The handler is given by its \<open>guid\<close>, which is \<open>None\<close> for a function that was never
  added; namespaces are tested when the word has some.
\<close>

definition namespace_test :: "string \<Rightarrow> ('f, 'd) handle_obj \<Rightarrow> bool" where
  "namespace_test w ho \<longleftrightarrow> event_rest w = [] \<or> rx_test (namespace_rx (namespaces w)) (ho_namespace ho)"

definition selector_test :: "string option \<Rightarrow> ('f, 'd) handle_obj \<Rightarrow> bool" where
  "selector_test selector ho \<longleftrightarrow> selector = None \<or> selector = ho_selector ho \<or> selector = Some ''**'' \<and> ho_selector ho \<noteq> None"

definition goes :: "bool \<Rightarrow> nat option option \<Rightarrow> string option \<Rightarrow> string \<Rightarrow> ('f, 'd) handle_obj \<Rightarrow> bool" where
  "goes mapped handler selector w ho \<longleftrightarrow>
     (mapped \<or> event_type w = ho_origType ho) \<and> (case handler of None \<Rightarrow> True | Some g \<Rightarrow> g = Some (ho_guid ho))
     \<and> namespace_test w ho \<and> selector_test selector ho"

text \<open>The loop over the handlers of a type, from the last to the first.\<close>

fun remove_from :: "(('f, 'd) handle_obj \<Rightarrow> bool) \<Rightarrow> nat \<Rightarrow> ('f, 'd) handlers \<Rightarrow> ('f, 'd) handlers" where
  "remove_from P 0 hs = hs"
| "remove_from P (Suc j) hs =
     (let ho = objs hs ! j
      in remove_from P j
          (if P ho
           then hs\<lparr>objs := take j (objs hs) @ drop (Suc j) (objs hs),
               delegateCount := (if ho_selector ho \<noteq> None then delegateCount hs - 1 else delegateCount hs)\<rparr>
           else hs))"

text \<open>The number of formal parameters of the functions that \<open>events[type]\<close> may find in \<open>Object.prototype\<close>.\<close>

definition inherited_length :: "string \<Rightarrow> nat" where
  "inherited_length t =
     (if t \<in> {''toString'', ''valueOf'', ''toLocaleString'', ''__proto__''} then 0
      else if t \<in> {''__defineGetter__'', ''__defineSetter__''} then 2
      else if t \<in> set object_prototype then 1 else 0)"

definition remove_word :: "page_env \<Rightarrow> nat \<Rightarrow> bool \<Rightarrow> nat option option \<Rightarrow> string option \<Rightarrow> string
    \<Rightarrow> (('f, 'd) registry, unit) effect" where
  "remove_word env e mapped handler selector w r =
     (let t = mapped_type selector (event_type w)
      in case obj_get (events_of r e) t of
           None \<Rightarrow>
             if inherited_length t > 0 \<and> \<not> mapped
             then (Inl (type_error ''Cannot read property 'origType' of undefined''), r) else (Inr (), r)
         | Some hs \<Rightarrow>
             let hs' = remove_from (goes mapped handler selector w) (length (objs hs)) hs
             in if objs hs \<noteq> [] \<and> objs hs' = []
                then let r = stop_listening env e (event_type w) t r in (Inr (), set_events e (obj_delete t (events_of r e)) r)
                else (Inr (), set_events e (obj_set t hs' (events_of r e)) r))"

text \<open>The end of \<open>remove\<close>: an element without handlers loses its events and the main handler.\<close>

definition forget_elem :: "nat \<Rightarrow> ('f, 'd) registry \<Rightarrow> ('f, 'd) registry" where
  "forget_elem e r = (if events_of r e = [] then set_elem e \<lparr>events = None, handle = False\<rparr> r else r)"

text \<open>A word without type: \<open>remove\<close> calls itself for every type of the element, with the word appended.\<close>

fun remove_all :: "page_env \<Rightarrow> nat \<Rightarrow> nat option option \<Rightarrow> string option \<Rightarrow> string \<Rightarrow> string list
    \<Rightarrow> (('f, 'd) registry, unit) effect" where
  "remove_all env e handler selector w [] = retE ()"
| "remove_all env e handler selector w (t # ts) =
     bindE (\<lambda>r. if obj_get (events_of r e) t = None then (Inr (), r)
                else bindE (remove_word env e True handler selector (t @ w)) (\<lambda>_. modE (forget_elem e)) r)
       (\<lambda>_. remove_all env e handler selector w ts)"

fun remove_words :: "page_env \<Rightarrow> nat \<Rightarrow> nat option option \<Rightarrow> string option \<Rightarrow> string list
    \<Rightarrow> (('f, 'd) registry, unit) effect" where
  "remove_words env e handler selector [] = retE ()"
| "remove_words env e handler selector (w # ws) =
     bindE (\<lambda>r. if event_type w = [] then remove_all env e handler selector w (obj_keys (events_of r e)) r
                else remove_word env e False handler selector w r)
       (\<lambda>_. remove_words env e handler selector ws)"

definition event_remove :: "page_env \<Rightarrow> nat \<Rightarrow> string \<Rightarrow> nat option option \<Rightarrow> string option
    \<Rightarrow> (('f, 'd) registry, unit) effect" where
  "event_remove env e types handler selector r =
     (if events (elem_data r e) = None then (Inr (), r)
      else bindE (remove_words env e handler selector (rev (type_words types))) (\<lambda>_. modE (forget_elem e)) r)"

section \<open>The methods\<close>

text \<open>How \<open>on\<close> reads its arguments: the selector, the data and the function.\<close>

definition text_of :: "('f, 'd) arg \<Rightarrow> string option" where
  "text_of a = (case a of Text s \<Rightarrow> if s = [] then None else Some s | _ \<Rightarrow> None)"

definition on_args :: "('f, 'd) arg \<Rightarrow> ('f, 'd) arg \<Rightarrow> ('f, 'd) arg \<Rightarrow> ('f, 'd) arg \<times> ('f, 'd) arg \<times> ('f, 'd) arg" where
  "on_args selector data fn =
     (if data = NoArg \<and> fn = NoArg then (NoArg, NoArg, selector)
      else if fn = NoArg then
        (case selector of Text s \<Rightarrow> (selector, NoArg, data) | _ \<Rightarrow> (NoArg, selector, data))
      else (selector, data, fn))"

definition fn_arg :: "('f, 'd) arg \<Rightarrow> 'f fn option" where
  "fn_arg a = (case a of Fun f \<Rightarrow> Some f | FalseArg \<Rightarrow> Some ReturnFalse | _ \<Rightarrow> None)"

fun each_elem :: "(nat \<Rightarrow> ('s, unit) effect) \<Rightarrow> nat list \<Rightarrow> ('s, unit) effect" where
  "each_elem m [] = retE ()"
| "each_elem m (e # es) = bindE (m e) (\<lambda>_. each_elem m es)"

definition on_ev :: "page_env \<Rightarrow> nat list \<Rightarrow> string \<Rightarrow> ('f, 'd) arg \<Rightarrow> ('f, 'd) arg \<Rightarrow> ('f, 'd) arg \<Rightarrow> bool
    \<Rightarrow> (('f, 'd) registry, unit) effect" where
  "on_ev env es types selector data fn one =
     (case on_args selector data fn of
        (selector, data, fn) \<Rightarrow>
          (case fn_arg fn of
             None \<Rightarrow> retE ()
           | Some f \<Rightarrow>
               bindE (modE (if one then give_guid f else id))
                 (\<lambda>_. each_elem (\<lambda>e. event_add env e types (if one then OnceFn f else f) data (text_of selector)) es)))"

text \<open>\<open>on\<close> and \<open>off\<close> with an object of types and functions.\<close>

fun on_map :: "page_env \<Rightarrow> nat list \<Rightarrow> (string \<times> ('f, 'd) arg) list \<Rightarrow> ('f, 'd) arg \<Rightarrow> ('f, 'd) arg \<Rightarrow> bool
    \<Rightarrow> (('f, 'd) registry, unit) effect" where
  "on_map env es types selector data one =
     (let (selector, data) = (case selector of
            Text s \<Rightarrow> (selector, data)
          | _ \<Rightarrow> (NoArg, if data \<in> {NoArg, FalseArg, Text []} then selector else data))
      in foldr (\<lambda>(t, fn) k. bindE (on_ev env es t selector data fn one) (\<lambda>_. k)) types (retE ()))"

definition off_ev :: "page_env \<Rightarrow> nat list \<Rightarrow> string \<Rightarrow> ('f, 'd) arg \<Rightarrow> ('f, 'd) arg
    \<Rightarrow> (('f, 'd) registry, unit) effect" where
  "off_ev env es types selector fn =
     (let (selector, fn) = (case selector of FalseArg \<Rightarrow> (NoArg, selector) | Fun f \<Rightarrow> (NoArg, selector) | _ \<Rightarrow> (selector, fn))
      in bindE (readE (\<lambda>r. map_option (guid_of r) (fn_arg fn)))
           (\<lambda>handler. each_elem (\<lambda>e. event_remove env e types handler (text_of selector)) es))"

fun off_map :: "page_env \<Rightarrow> nat list \<Rightarrow> (string \<times> ('f, 'd) arg) list \<Rightarrow> ('f, 'd) arg
    \<Rightarrow> (('f, 'd) registry, unit) effect" where
  "off_map env es types selector =
     foldr (\<lambda>(t, fn) k. bindE (off_ev env es t selector fn) (\<lambda>_. k)) types (retE ())"

text \<open>\<open>off\<close> with an event that is being dispatched, from the element that dispatches it.\<close>

definition off_event :: "page_env \<Rightarrow> nat \<Rightarrow> ('f, 'd) handle_obj \<Rightarrow> (('f, 'd) registry, unit) effect" where
  "off_event env delegateTarget ho =
     off_ev env [delegateTarget]
       (if ho_namespace ho \<noteq> [] then ho_origType ho @ ''.'' @ ho_namespace ho else ho_origType ho)
       (case ho_selector ho of None \<Rightarrow> NoArg | Some s \<Rightarrow> Text s) (Fun (ho_handler ho))"

section \<open>Lists of handlers\<close>

abbreviation delegated :: "('f, 'd) handle_obj \<Rightarrow> bool" where
  "delegated ho \<equiv> ho_selector ho \<noteq> None"

text \<open>The delegated handlers come first, and \<open>delegateCount\<close> is their number.\<close>

definition handlers_ok :: "('f, 'd) handlers \<Rightarrow> bool" where
  "handlers_ok hs \<longleftrightarrow> (\<exists>xs ys. objs hs = xs @ ys \<and> delegateCount hs = length xs
     \<and> list_all delegated xs \<and> list_all (\<lambda>ho. \<not> delegated ho) ys)"

lemma handlers_okI: "objs hs = xs @ ys \<Longrightarrow> delegateCount hs = length xs \<Longrightarrow> list_all delegated xs \<Longrightarrow>
    list_all (\<lambda>ho. \<not> delegated ho) ys \<Longrightarrow> handlers_ok hs"
  by (auto simp: handlers_ok_def)

lemma handlers_ok_insert:
  assumes "handlers_ok hs"
  shows "handlers_ok (insert_handler ho hs)"
proof -
  obtain xs ys where "objs hs = xs @ ys" "delegateCount hs = length xs" "list_all delegated xs" "list_all (\<lambda>ho. \<not> delegated ho) ys"
    using assms by (auto simp: handlers_ok_def)
  then show ?thesis
    by (cases "delegated ho")
      (auto intro: handlers_okI [of _ "xs @ [ho]" ys] handlers_okI [of _ xs "ys @ [ho]"] simp: insert_handler_def)
qed

lemma remove_from_eq:
  "j \<le> length (objs hs) \<Longrightarrow> remove_from P j hs = hs\<lparr>objs := filter (\<lambda>ho. \<not> P ho) (take j (objs hs)) @ drop j (objs hs),
     delegateCount := delegateCount hs - length (filter (\<lambda>ho. P ho \<and> delegated ho) (take j (objs hs)))\<rparr>"
proof (induction j arbitrary: hs)
  case (Suc j)
  let ?ho = "objs hs ! j"
  have take: "take (Suc j) (objs hs) = take j (objs hs) @ [?ho]" and drop: "drop j (objs hs) = ?ho # drop (Suc j) (objs hs)"
    using Suc.prems by (simp_all add: take_Suc_conv_app_nth Cons_nth_drop_Suc)
  show ?case
  proof (cases "P ?ho")
    case True
    let ?hs = "hs\<lparr>objs := take j (objs hs) @ drop (Suc j) (objs hs),
        delegateCount := (if delegated ?ho then delegateCount hs - 1 else delegateCount hs)\<rparr>"
    have "remove_from P (Suc j) hs = remove_from P j ?hs"
      using True by (simp add: Let_def)
    with Suc True show ?thesis by (simp add: take)
  next
    case False
    with Suc show ?thesis by (simp add: Let_def take drop)
  qed
qed simp

lemma remove_from_all:
  "objs (remove_from P (length (objs hs)) hs) = filter (\<lambda>ho. \<not> P ho) (objs hs)"
  by (simp add: remove_from_eq)

lemma handlers_ok_remove:
  assumes "handlers_ok hs"
  shows "handlers_ok (remove_from P (length (objs hs)) hs)"
proof -
  obtain xs ys where hs: "objs hs = xs @ ys" "delegateCount hs = length xs" "list_all delegated xs" "list_all (\<lambda>ho. \<not> delegated ho) ys"
    using assms by (auto simp: handlers_ok_def)
  have "filter (\<lambda>ho. P ho \<and> delegated ho) ys = []" "filter (\<lambda>ho. P ho \<and> delegated ho) xs = filter P xs"
    using hs(3,4) by (auto simp: filter_empty_conv list_all_iff intro!: filter_cong)
  moreover have "length xs - length (filter P xs) = length (filter (\<lambda>ho. \<not> P ho) xs)"
    using sum_length_filter_compl [of P xs] by simp
  ultimately show ?thesis
    using hs by (intro handlers_okI [of _ "filter (\<lambda>ho. \<not> P ho) xs" "filter (\<lambda>ho. \<not> P ho) ys"])
      (auto simp: remove_from_eq list_all_iff)
qed

section \<open>Frame lemmas\<close>

definition handlers_of :: "('f, 'd) registry \<Rightarrow> nat \<Rightarrow> string \<Rightarrow> ('f, 'd) handle_obj list" where
  "handlers_of r e t = (case obj_get (events_of r e) t of None \<Rightarrow> [] | Some hs \<Rightarrow> objs hs)"

lemma elem_data_listening [simp]:
  "elem_data (start_listening env e t r) = elem_data r" "elem_data (stop_listening env e u t r) = elem_data r"
  by (simp_all add: start_listening_def stop_listening_def special_setup_def special_teardown_def Let_def)

lemma events_of_listening [simp]:
  "events_of (start_listening env e t r) e' = events_of r e'" "events_of (stop_listening env e u t r) e' = events_of r e'"
  by (simp_all add: events_of_def)

lemma events_of_set [simp]: "events_of (set_events e ev r) e' = (if e' = e then ev else events_of r e')"
  by (simp add: events_of_def set_events_def set_elem_def)

lemma events_of_init [simp]: "events_of (init_elem e r) e' = events_of r e'"
  by (auto simp: events_of_def init_elem_def set_elem_def Let_def)

lemma events_of_forget [simp]: "events_of (forget_elem e r) e' = events_of r e'"
  by (auto simp: events_of_def forget_elem_def set_elem_def split: option.splits)

lemma events_of_more [simp]:
  "events_of (r\<lparr>global := g\<rparr>) e = events_of r e" "events_of (r\<lparr>native := n\<rparr>) e = events_of r e"
  "events_of (give_guid f r) e = events_of r e"
  by (simp_all add: events_of_def give_guid_def)

lemma handlers_of_forget [simp]: "handlers_of (forget_elem e r) e' t = handlers_of r e' t"
  by (simp add: handlers_of_def)

section \<open>What is removed\<close>

lemma handlers_of_remove_word:
  assumes "mapped \<or> inherited_length (mapped_type selector (event_type w)) = 0 \<or>
      obj_get (events_of r e) (mapped_type selector (event_type w)) \<noteq> None"
  shows "fst (remove_word env e mapped handler selector w r) = Inr ()"
    and "handlers_of (snd (remove_word env e mapped handler selector w r)) e' t =
      (if e' = e \<and> t = mapped_type selector (event_type w)
       then filter (\<lambda>ho. \<not> goes mapped handler selector w ho) (handlers_of r e t) else handlers_of r e' t)"
  using assms
  by (auto simp: remove_word_def handlers_of_def Let_def remove_from_all obj_simps split: option.splits)

lemma remove_word_keys:
  assumes "obj_get (events_of (snd (remove_word env e mapped handler selector w r)) e') t \<noteq> None"
  shows "obj_get (events_of r e') t \<noteq> None"
  using assms
  by (auto simp: remove_word_def Let_def obj_simps split: option.splits if_splits)

lemma bindE_Inr: "fst (m s) = Inr x \<Longrightarrow> bindE m f s = f x (snd (m s))"
  by (simp add: bindE_def split_beta)

definition removes :: "nat option option \<Rightarrow> string option \<Rightarrow> string list \<Rightarrow> string \<Rightarrow> ('f, 'd) handle_obj \<Rightarrow> bool" where
  "removes handler selector ws t ho \<longleftrightarrow>
     (\<exists>w \<in> set ws. t = mapped_type selector (event_type w) \<and> goes False handler selector w ho)"

lemma handlers_of_remove_words:
  assumes "list_all (\<lambda>w. event_type w \<noteq> [] \<and> inherited_length (mapped_type selector (event_type w)) = 0) ws"
  shows "fst (remove_words env e handler selector ws r) = Inr () \<and>
    handlers_of (snd (remove_words env e handler selector ws r)) e' t =
      (if e' = e then filter (\<lambda>ho. \<not> removes handler selector ws t ho) (handlers_of r e t) else handlers_of r e' t)"
  using assms
proof (induction ws arbitrary: r)
  case Nil
  then show ?case by (simp add: retE_def removes_def)
next
  case (Cons w ws)
  have "inherited_length (mapped_type selector (event_type w)) = 0" using Cons.prems by simp
  note one = handlers_of_remove_word [of False selector w r e env handler, OF disjI2, OF disjI1, OF this]
  have "remove_words env e handler selector (w # ws) r =
      remove_words env e handler selector ws (snd (remove_word env e False handler selector w r))"
    using Cons.prems one(1) by (simp add: bindE_Inr)
  with Cons show ?case
    by (auto simp: one(2) removes_def filter_filter intro!: filter_cong)
qed

lemma removed_typed:
  assumes "\<forall>w \<in> set (type_words types). event_type w \<noteq> [] \<and> inherited_length (mapped_type selector (event_type w)) = 0"
  shows "fst (event_remove env e types handler selector r) = Inr () \<and>
    handlers_of (snd (event_remove env e types handler selector r)) e' t =
      (if e' = e then filter (\<lambda>ho. \<not> removes handler selector (type_words types) t ho) (handlers_of r e t)
       else handlers_of r e' t)"
proof (cases "events (elem_data r e) = None")
  case True
  then have "handlers_of r e t = []" by (simp add: handlers_of_def events_of_def obj_get_def)
  with True show ?thesis by (simp add: event_remove_def)
next
  case False
  have "list_all (\<lambda>w. event_type w \<noteq> [] \<and> inherited_length (mapped_type selector (event_type w)) = 0) (rev (type_words types))"
    using assms by (simp add: list_all_iff)
  note all = handlers_of_remove_words [OF this, of env e handler r e' t]
  then have "event_remove env e types handler selector r =
      (Inr (), forget_elem e (snd (remove_words env e handler selector (rev (type_words types)) r)))"
    using False by (auto simp: event_remove_def bindE_Inr modE_def)
  with all show ?thesis by (simp add: removes_def)
qed


section \<open>The registry stays consistent\<close>

text \<open>
  What holds of one element: it has a main handler exactly when it has events; every list is kept under a type
  without dots that stands for itself, has handlers, the delegated ones first, and is listened to by the browser exactly when that is
  the element's own business.
\<close>

definition elem_ok :: "page_env \<Rightarrow> ('f, 'd) registry \<Rightarrow> nat \<Rightarrow> bool" where
  "elem_ok env r e \<longleftrightarrow> handle (elem_data r e) = (events (elem_data r e) \<noteq> None) \<and> obj_ok (events_of r e)
     \<and> (\<forall>t hs. obj_get (events_of r e) t = Some hs \<longrightarrow>
           objs hs \<noteq> [] \<and> handlers_ok hs \<and> bindType t = None \<and> t \<noteq> [] \<and> dot \<notin> set t \<and> t \<notin> set object_prototype)
     \<and> (\<forall>t. (e, t) \<in> set (native r) \<longleftrightarrow> obj_get (events_of r e) t \<noteq> None \<and> \<not> simulated env t \<and> canListen env e)"

definition users :: "page_env \<Rightarrow> ('f, 'd) registry \<Rightarrow> nat \<Rightarrow> string \<Rightarrow> nat set" where
  "users env r d t = {e. ownerDocument env e = d \<and> obj_get (events_of r e) t \<noteq> None}"

definition registry_ok :: "page_env \<Rightarrow> ('f, 'd) registry \<Rightarrow> bool" where
  "registry_ok env r \<longleftrightarrow> (\<forall>e. elem_ok env r e) \<and> distinct (native r)
     \<and> (\<forall>d t. simulated env t \<longrightarrow> finite (users env r d t) \<and> card (users env r d t) \<le> attaches r d t
           \<and> ((d, donor t) \<in> set (capturing r) \<longleftrightarrow> attaches r d t > 0))"

lemma mapped_type_fix: "bindType (mapped_type selector t) = None"
  by (auto simp: mapped_type_def bindType_def delegateType_def split: option.splits if_splits)

lemma mapped_type_chars: "t \<noteq> [] \<Longrightarrow> dot \<notin> set t \<Longrightarrow> mapped_type selector t \<noteq> [] \<and> dot \<notin> set (mapped_type selector t)"
  by (auto simp: mapped_type_def bindType_def delegateType_def split: option.splits if_splits)

lemma event_type_no_dot: "dot \<notin> set (event_type w)"
  by (auto simp: event_type_def dest!: set_takeWhileD)

lemma mapped_simulated: "simulated env t \<Longrightarrow> mapped_type selector t = t"
  by (auto simp: simulated_def mapped_type_def bindType_def delegateType_def)

lemma donor_inj: "simulated env t \<Longrightarrow> simulated env u \<Longrightarrow> donor t = donor u \<longleftrightarrow> t = u"
  by (auto simp: simulated_def donor_def)

text \<open>The parts of the invariant that the two kinds of change preserve.\<close>

lemma registry_ok_new: "registry_ok env new_registry"
  by (simp add: registry_ok_def elem_ok_def new_registry_def events_of_def obj_ok_def obj_get_def users_def)

lemma attaches_start:
  "attaches (start_listening env e t r) d u =
     (if simulated env t \<and> d = ownerDocument env e \<and> u = t then attaches r d u + 1 else attaches r d u)"
  by (simp add: start_listening_def special_setup_def Let_def)

lemma attaches_stop:
  "attaches (stop_listening env e v t r) d u =
     (if simulated env v \<and> d = ownerDocument env e \<and> u = t then attaches r d u - 1 else attaches r d u)"
  by (simp add: stop_listening_def special_teardown_def Let_def)

lemma native_start:
  "native (start_listening env e t r) = (if \<not> simulated env t \<and> canListen env e then native r @ [(e, t)] else native r)"
  by (simp add: start_listening_def special_setup_def Let_def)

lemma native_stop:
  "native (stop_listening env e v t r) =
     (if \<not> simulated env v \<and> canListen env e then filter (\<lambda>x. x \<noteq> (e, t)) (native r) else native r)"
  by (simp add: stop_listening_def special_teardown_def Let_def)

lemma capturing_start:
  "set (capturing (start_listening env e t r)) =
     (if simulated env t \<and> attaches r (ownerDocument env e) t = 0 then insert (ownerDocument env e, donor t) (set (capturing r))
      else set (capturing r))"
  by (simp add: start_listening_def special_setup_def Let_def)

lemma capturing_stop:
  "set (capturing (stop_listening env e v t r)) =
     (if simulated env v \<and> attaches r (ownerDocument env e) t \<le> 1 then set (capturing r) - {(ownerDocument env e, donor t)}
      else set (capturing r))"
  by (auto simp: stop_listening_def special_teardown_def Let_def)

lemma set_events_simps [simp]:
  "native (set_events e ev r) = native r" "attaches (set_events e ev r) = attaches r"
  "capturing (set_events e ev r) = capturing r"
  "elem_data (set_events e ev r) e' = (if e' = e then (elem_data r e)\<lparr>events := Some ev\<rparr> else elem_data r e')"
  by (simp_all add: set_events_def set_elem_def)

lemma users_set:
  "users env (set_events e ev r) d t =
     (if ownerDocument env e = d \<and> obj_get ev t \<noteq> None then insert e (users env r d t) else users env r d t - {e})"
  by (auto simp: users_def)

lemma users_listening [simp]:
  "users env (start_listening env' e t r) = users env r" "users env (stop_listening env' e v t r) = users env r"
  by (simp_all add: users_def fun_eq_iff)

lemma users_more [simp]: "users env (r\<lparr>global := g\<rparr>) = users env r"
  by (simp add: users_def fun_eq_iff)

lemma registry_ok_global [simp]: "registry_ok env (r\<lparr>global := g\<rparr>) = registry_ok env r"
  by (simp add: registry_ok_def elem_ok_def)

text \<open>A list is changed and keeps handlers; a list begins; a list goes.\<close>

lemma registry_ok_change:
  assumes "registry_ok env r" and "obj_get (events_of r e) t = Some hs" and "objs hs' \<noteq> []" and "handlers_ok hs'"
  shows "registry_ok env (set_events e (obj_set t hs' (events_of r e)) r)"
proof -
  have e: "elem_ok env r x" for x using assms(1) by (simp add: registry_ok_def)
  have "elem_ok env (set_events e (obj_set t hs' (events_of r e)) r) x" for x
    using e [of x] e [of e] assms(2-)
    by (auto simp: elem_ok_def obj_ok_set obj_simps events_of_def split: option.splits if_splits)
  moreover have "users env (set_events e (obj_set t hs' (events_of r e)) r) d u = users env r d u" for d u
    using assms(2) by (auto simp: users_set obj_simps) (auto simp: users_def)
  ultimately show ?thesis
    using assms(1) by (simp add: registry_ok_def)
qed

lemma registry_ok_begin:
  assumes "registry_ok env r" and "obj_get (events_of r e) t = None" and "objs hs \<noteq> []" and "handlers_ok hs"
    and "events (elem_data r e) \<noteq> None" and "bindType t = None" and "t \<noteq> []" and "dot \<notin> set t" and "t \<notin> set object_prototype"
  shows "registry_ok env (set_events e (obj_set t hs (events_of r e)) (start_listening env e t r))"
proof -
  let ?r = "set_events e (obj_set t hs (events_of r e)) (start_listening env e t r)"
  have e: "elem_ok env r x" for x using assms(1) by (simp add: registry_ok_def)
  have "elem_ok env ?r x" for x
    using e [of x] e [of e] assms(2-)
    by (auto simp: elem_ok_def obj_ok_set obj_simps native_start split: if_splits)
  moreover have "distinct (native ?r)"
    using assms(1,2) e [of e] by (auto simp: registry_ok_def native_start elem_ok_def)
  moreover have "users env ?r d u = (if ownerDocument env e = d \<and> u = t then insert e (users env r d u) else users env r d u)" for d u
    by (auto simp: users_set obj_simps) (auto simp: users_def)
  then have "finite (users env ?r d u) \<and> card (users env ?r d u) \<le> attaches ?r d u
      \<and> ((d, donor u) \<in> set (capturing ?r) \<longleftrightarrow> attaches ?r d u > 0)" if "simulated env u" for d u
  proof -
    have "finite (users env r d u) \<and> card (users env r d u) \<le> attaches r d u
        \<and> ((d, donor u) \<in> set (capturing r) \<longleftrightarrow> attaches r d u > 0)"
      using assms(1) that by (simp add: registry_ok_def)
    then show ?thesis
      using that donor_inj [OF that, of t] \<open>users env ?r d u = _\<close>
      by (auto simp: attaches_start capturing_start card_insert_if split: if_splits)
  qed
  ultimately show ?thesis
    by (simp add: registry_ok_def)
qed

lemma registry_ok_end:
  assumes "registry_ok env r" and "obj_get (events_of r e) t = Some hs" and "simulated env v \<Longrightarrow> v = t"
  shows "registry_ok env (set_events e (obj_delete t (events_of r e)) (stop_listening env e v t r))"
proof -
  let ?r = "set_events e (obj_delete t (events_of r e)) (stop_listening env e v t r)"
  have e: "elem_ok env r x" for x using assms(1) by (simp add: registry_ok_def)
  have "elem_ok env ?r x" for x
    using e [of x] e [of e] assms(2-)
    by (auto simp: elem_ok_def obj_ok_delete obj_simps native_stop events_of_def split: if_splits option.splits)
  moreover have "distinct (native ?r)"
    using assms(1) by (auto simp: registry_ok_def native_stop)
  moreover have users: "users env ?r d u = (if u = t then users env r d u - {e} else users env r d u)" for d u
    by (auto simp: users_set obj_simps) (auto simp: users_def)
  have "finite (users env ?r d u) \<and> card (users env ?r d u) \<le> attaches ?r d u
      \<and> ((d, donor u) \<in> set (capturing ?r) \<longleftrightarrow> attaches ?r d u > 0)" if u: "simulated env u" for d u
  proof -
    have old: "finite (users env r d u)" "card (users env r d u) \<le> attaches r d u"
        "(d, donor u) \<in> set (capturing r) \<longleftrightarrow> attaches r d u > 0"
      using assms(1) u by (auto simp: registry_ok_def)
    have "e \<in> users env r d u \<longleftrightarrow> ownerDocument env e = d" if "u = t"
      using assms(2) that by (auto simp: users_def)
    then show ?thesis
      using old u donor_inj [OF u, of t] assms(3)
      by (auto simp: users attaches_stop capturing_stop card_Diff_singleton_if split: if_splits)
  qed
  ultimately show ?thesis
    by (simp add: registry_ok_def)
qed

lemma insert_nonempty [simp]: "objs (insert_handler ho hs) \<noteq> []"
  by (simp add: insert_handler_def)

lemma handlers_ok_empty: "handlers_ok \<lparr>objs = [], delegateCount = 0\<rparr>"
  by (simp add: handlers_ok_def)

lemma add_word_ok:
  assumes "registry_ok env r" and "events (elem_data r e) \<noteq> None"
  shows "registry_ok env (snd (add_word env e selector mk w r)) \<and> events (elem_data (snd (add_word env e selector mk w r)) e) \<noteq> None"
proof (cases "event_type w = []")
  case True
  with assms show ?thesis by (simp add: add_word_def)
next
  case False
  let ?t = "mapped_type selector (event_type w)"
  have t: "?t \<noteq> [] \<and> dot \<notin> set ?t"
    by (rule mapped_type_chars [OF False event_type_no_dot])
  show ?thesis
  proof (cases "obj_get (events_of r e) ?t")
    case None
    with assms False t show ?thesis
      by (auto simp: add_word_def Let_def intro!: registry_ok_begin handlers_ok_insert handlers_ok_empty mapped_type_fix)
  next
    case (Some hs)
    then have "handlers_ok hs" using assms(1) by (auto simp: registry_ok_def elem_ok_def)
    with Some assms False show ?thesis
      by (auto simp: add_word_def Let_def intro!: registry_ok_change handlers_ok_insert)
  qed
qed

lemma add_words_ok:
  "registry_ok env r \<Longrightarrow> events (elem_data r e) \<noteq> None \<Longrightarrow> registry_ok env (snd (add_words env e selector mk ws r))"
proof (induction ws arbitrary: r)
  case Nil
  then show ?case by (simp add: retE_def)
next
  case (Cons w ws)
  note one = add_word_ok [OF Cons.prems, of selector mk w]
  with Cons.IH [of "snd (add_word env e selector mk w r)"] show ?case
    by (auto simp: bindE_def split: prod.splits sum.splits)
qed

lemma init_elem_simps [simp]:
  "native (init_elem e r) = native r" "attaches (init_elem e r) = attaches r" "capturing (init_elem e r) = capturing r"
  "users env (init_elem e r) = users env r" "handle (elem_data (init_elem e r) e') = (e' = e \<or> handle (elem_data r e'))"
  "events (elem_data (init_elem e r) e') = (if e' = e then Some (events_of r e) else events (elem_data r e'))"
  by (auto simp: init_elem_def set_elem_def users_def events_of_def fun_eq_iff Let_def split: option.splits)

lemma forget_elem_simps [simp]:
  "native (forget_elem e r) = native r" "attaches (forget_elem e r) = attaches r" "capturing (forget_elem e r) = capturing r"
  "users env (forget_elem e r) = users env r"
  by (auto simp: forget_elem_def set_elem_def users_def events_of_def fun_eq_iff split: option.splits)

lemma give_guid_simps [simp]:
  "native (give_guid f r) = native r" "attaches (give_guid f r) = attaches r" "capturing (give_guid f r) = capturing r"
  "users env (give_guid f r) = users env r" "elem_data (give_guid f r) = elem_data r"
  by (auto simp: give_guid_def users_def events_of_def fun_eq_iff)

lemma registry_ok_init:
  "registry_ok env r \<Longrightarrow> registry_ok env (init_elem e (give_guid f r)) \<and> events (elem_data (init_elem e (give_guid f r)) e) \<noteq> None"
  by (auto simp: registry_ok_def elem_ok_def)

lemma event_add_ok:
  "registry_ok env r \<Longrightarrow> registry_ok env (snd (event_add env e types f data selector r))"
  "registry_ok env r \<Longrightarrow> registry_ok env (snd (event_add_obj env e types ho data r))"
  by (simp_all add: event_add_def event_add_obj_def Let_def add_words_ok registry_ok_init)

lemma remove_word_ok:
  assumes "registry_ok env r"
  shows "registry_ok env (snd (remove_word env e mapped handler selector w r))"
proof (cases "obj_get (events_of r e) (mapped_type selector (event_type w))")
  case None
  with assms show ?thesis by (simp add: remove_word_def Let_def)
next
  case (Some hs)
  then have hs: "handlers_ok hs" "objs hs \<noteq> []" using assms by (auto simp: registry_ok_def elem_ok_def)
  with assms Some show ?thesis
    by (auto simp: remove_word_def Let_def mapped_simulated intro!: registry_ok_change registry_ok_end handlers_ok_remove)
qed

lemma registry_ok_forget:
  "registry_ok env r \<Longrightarrow> registry_ok env (forget_elem e r)"
  by (simp add: registry_ok_def elem_ok_def) (simp add: forget_elem_def set_elem_def)

lemma registry_ok_bind:
  assumes "registry_ok env r" and "\<And>r. registry_ok env r \<Longrightarrow> registry_ok env (snd (m r))"
    and "\<And>x r. registry_ok env r \<Longrightarrow> registry_ok env (snd (k x r))"
  shows "registry_ok env (snd (bindE m k r))"
  using assms(2) [OF assms(1)] assms(3) by (auto simp: bindE_def split: prod.splits sum.splits)

lemma remove_words_ok:
  "registry_ok env r \<Longrightarrow> registry_ok env (snd (remove_all env e handler selector w ts r))"
  "registry_ok env r \<Longrightarrow> registry_ok env (snd (remove_words env e handler selector ws r))"
proof -
  have all: "registry_ok env r \<Longrightarrow> registry_ok env (snd (remove_all env e handler selector w ts r))" for w ts r
  proof (induction ts arbitrary: r)
    case (Cons t ts)
    show ?case
      unfolding remove_all.simps
      by (rule registry_ok_bind [OF Cons.prems])
        (auto intro!: registry_ok_bind remove_word_ok Cons.IH simp: modE_def registry_ok_forget)
  qed (simp add: retE_def)
  show "registry_ok env r \<Longrightarrow> registry_ok env (snd (remove_all env e handler selector w ts r))"
    by (rule all)
  show "registry_ok env r \<Longrightarrow> registry_ok env (snd (remove_words env e handler selector ws r))"
  proof (induction ws arbitrary: r)
    case (Cons w ws)
    show ?case
      unfolding remove_words.simps
      by (rule registry_ok_bind [OF Cons.prems]) (auto intro!: all remove_word_ok Cons.IH)
  qed (simp add: retE_def)
qed

lemma event_remove_ok: "registry_ok env r \<Longrightarrow> registry_ok env (snd (event_remove env e types handler selector r))"
  using remove_words_ok(2) [of env r e handler selector "rev (type_words types)"]
  by (auto simp: event_remove_def bindE_def modE_def registry_ok_forget split: prod.splits sum.splits)

text \<open>The registries that the calls of a page lead to, those that throw included.\<close>

inductive registered :: "page_env \<Rightarrow> ('f, 'd) registry \<Rightarrow> bool" for env where
  start: "registered env new_registry"
| adds: "registered env r \<Longrightarrow> event_add env e types f data selector r = (x, r') \<Longrightarrow> registered env r'"
| copies: "registered env r \<Longrightarrow> event_add_obj env e types ho data r = (x, r') \<Longrightarrow> registered env r'"
| removes: "registered env r \<Longrightarrow> event_remove env e types handler selector r = (x, r') \<Longrightarrow> registered env r'"

lemma registered_ok: "registered env r \<Longrightarrow> registry_ok env r"
proof (induction rule: registered.induct)
  case start
  show ?case by (rule registry_ok_new)
next
  case (adds r e types f data selector x r')
  then show ?case using event_add_ok(1) [of env r e types f data selector] by simp
next
  case (copies r e types ho data x r')
  then show ?case using event_add_ok(2) [of env r e types ho data] by simp
next
  case (removes r e types handler selector x r')
  then show ?case using event_remove_ok [of env r e types handler selector] by simp
qed


section \<open>Removing by namespace\<close>

lemma event_rest_append: "dot \<notin> set t \<Longrightarrow> event_type w = [] \<Longrightarrow> event_rest (t @ w) = event_rest w \<and> event_type (t @ w) = t"
proof -
  assume t: "dot \<notin> set t" and w: "event_type w = []"
  have "dropWhile (\<lambda>c. c \<noteq> dot) (t @ w) = dropWhile (\<lambda>c. c \<noteq> dot) w" "takeWhile (\<lambda>c. c \<noteq> dot) (t @ w) = t @ takeWhile (\<lambda>c. c \<noteq> dot) w"
    using t by (induction t) auto
  with w show ?thesis by (simp add: event_rest_def event_type_def)
qed

definition leaves :: "nat option option \<Rightarrow> string option \<Rightarrow> string \<Rightarrow> ('f, 'd) handle_obj \<Rightarrow> bool" where
  "leaves handler selector w ho \<longleftrightarrow>
     (case handler of None \<Rightarrow> True | Some g \<Rightarrow> g = Some (ho_guid ho)) \<and> namespace_test w ho \<and> selector_test selector ho"

lemma handlers_of_remove_all:
  assumes "event_type w = []" and "list_all (\<lambda>t. dot \<notin> set t \<and> bindType t = None) ts"
  shows "fst (remove_all env e handler None w ts r) = Inr () \<and>
    handlers_of (snd (remove_all env e handler None w ts r)) e' t =
      (if e' = e \<and> t \<in> set ts then filter (\<lambda>ho. \<not> leaves handler None w ho) (handlers_of r e t) else handlers_of r e' t)"
  using assms(2)
proof (induction ts arbitrary: r)
  case Nil
  then show ?case by (simp add: retE_def)
next
  case (Cons u ts)
  have u: "dot \<notin> set u" "mapped_type None u = u" using Cons.prems by (auto simp: mapped_type_def)
  note rest = event_rest_append [OF u(1) assms(1)]
  have goes: "goes True handler None (u @ w) ho = leaves handler None w ho" for ho :: "('a, 'b) handle_obj"
    using rest by (simp add: goes_def leaves_def namespace_test_def namespaces_def)
  show ?case
  proof (cases "obj_get (events_of r e) u = None")
    case True
    then have "handlers_of r e u = []" by (simp add: handlers_of_def)
    with True Cons show ?thesis
      by (auto simp: bindE_Inr)
  next
    case False
    note one = handlers_of_remove_word [of True None "u @ w" r e env handler, OF disjI1 [OF TrueI]]
    have "remove_all env e handler None w (u # ts) r =
        remove_all env e handler None w ts (forget_elem e (snd (remove_word env e True handler None (u @ w) r)))"
      using False one(1) by (auto simp: bindE_Inr modE_def)
    with Cons rest u show ?thesis
      by (auto simp: one(2) goes filter_filter)
  qed
qed


section \<open>Samples\<close>

text \<open>A browser without \<open>focusin\<close> events, with elements that belong to the document 0.\<close>

definition sample_env :: page_env where
  "sample_env = \<lparr>acceptsData = \<lambda>e. True, canListen = \<lambda>e. True, ownerDocument = \<lambda>e. 0, focusin_support = False,
     needsContext = \<lambda>s. False\<rparr>"

definition sample_registry :: "(nat, nat) registry" where
  "sample_registry = snd (event_add sample_env 1 ''click.a.b focus'' (UserFn 5) NoArg None
     (snd (event_add sample_env 1 ''click.b'' (UserFn 6) NoArg (Some ''p'') new_registry)))"

lemma sample_registered: "registered sample_env sample_registry"
  unfolding sample_registry_def
  by (rule adds [OF adds [OF start surjective_pairing] surjective_pairing])

lemma sample_types:
  "type_words ''click.b'' = [''click.b'']" "type_words ''.b.a'' = [''.b.a'']"
  "map ho_guid (handlers_of sample_registry 1 ''click'') = [1, 2]"
  "filter (\<lambda>ho. \<not> leaves None None ''.b.a'' ho) (handlers_of sample_registry 1 ''click'') =
     filter (\<lambda>ho. ho_guid ho = 1) (handlers_of sample_registry 1 ''click'')"
  by code_simp+




section \<open>Defects\<close>

text \<open>Removing a delegated \<open>focus\<close> handler with its selector leaves the document's listener behind: \<open>remove\<close> looks
  for \<open>teardown\<close> in the special event of \<open>focus\<close>, whereas \<open>add\<close> has called the \<open>setup\<close> of
  \<open>focusin\<close>. The element has no handlers any more, the document still captures every \<open>focus\<close>.\<close>

lemma delegated_focus_leaks:
  "let on = on_ev sample_env [1] ''focus'' (Text ''p'') NoArg (Fun (UserFn (5::nat))) False;
       off = off_ev sample_env [1] ''focus'' (Text ''p'') (Fun (UserFn 5));
       r = snd (on (new_registry :: (nat, nat) registry)); r' = snd (off r)
   in map ho_guid (handlers_of r 1 ''focusin'') = [1] \<and> events (elem_data r' 1) = None
      \<and> capturing r' = [(0, ''focus'')] \<and> attaches r' 0 ''focusin'' = 1"
  by code_simp

text \<open>\<open>off('focus')\<close> does not remove delegated handlers for \<open>focus\<close>, although \<open>off('click')\<close>
  removes those for \<open>click\<close>.\<close>

lemma off_focus_keeps_delegated:
  "let on = (\<lambda>t. on_ev sample_env [1] t (Text ''p'') NoArg (Fun (UserFn (5::nat))) False);
       off = (\<lambda>t. off_ev sample_env [1] t NoArg NoArg);
       r = snd (on ''focus click'' (new_registry :: (nat, nat) registry)); r' = snd (off ''focus click'' r)
   in handlers_of r' 1 ''click'' = [] \<and> map ho_origType (handlers_of r' 1 ''focusin'') = [''focus'']"
  by code_simp

text \<open>A type that is a member of \<open>Object.prototype\<close> cannot be bound.\<close>

lemma inherited_type_throws:
  "fst (event_add sample_env 1 ''constructor'' (UserFn (5::nat)) NoArg None (new_registry :: (nat, nat) registry))
     = Inl (type_error ''handlers.push is not a function'')"
  by code_simp

end
