(* ===== verification/JqDispatch.thy ===== *)
theory JqDispatch
  imports JqEvent
begin

text \<open>
  \<open>jQuery.event.dispatch\<close>, \<open>handlers\<close> and \<open>trigger\<close> (\<open>lib/jquery.js\<close>): which handlers are called for an
  event, in which order, and what stops them. The document, the selector engine and the functions of the page
  are parameters; a function of the page may do anything to the registry and to its own state while it runs.
\<close>

section \<open>Events and the page\<close>

text \<open>A function returns \<open>undefined\<close>, \<open>false\<close> or something else.\<close>

datatype 'v ret = Undefined | FalseRet | Val 'v

text \<open>
  \<open>rnamespace\<close> holds the namespaces of which the regular expression is made; \<open>button\<close> is \<open>None\<close> when it is no
  number; \<open>triggered\<close> is \<open>isTrigger\<close>.
\<close>

record ('f, 'd, 'v) jq_event =
  ev_type :: string
  target :: nat
  button :: "int option"
  relatedTarget :: "nat option"
  rnamespace :: "string list option"
  isDefaultPrevented :: bool
  isPropagationStopped :: bool
  isImmediatePropagationStopped :: bool
  ev_result :: "'v ret"
  delegateTarget :: nat
  currentTarget :: nat
  ev_handleObj :: "('f, 'd) handle_obj option"
  ev_data :: "('f, 'd) arg"
  originalEvent :: bool
  returnValue :: "'v ret"
  isTrigger :: nat

text \<open>
  The document: \<open>ancestors\<close> follows \<open>parentNode\<close> to the root. \<open>finds\<close> is the selector engine:
  whether an element is among those that a selector finds from a context; the flag chooses the
  search that positional selectors need.
\<close>

record dom =
  ancestors :: "nat \<Rightarrow> nat list"
  nodeType :: "nat \<Rightarrow> nat"
  disabledElem :: "nat \<Rightarrow> bool"
  finds :: "bool \<Rightarrow> nat \<Rightarrow> string \<Rightarrow> nat \<Rightarrow> bool"
  containsElem :: "nat \<Rightarrow> nat \<Rightarrow> bool"
  isWindow :: "nat \<Rightarrow> bool"
  windowOf :: "nat \<Rightarrow> nat"
  inlineHandler :: "nat \<Rightarrow> string \<Rightarrow> bool"
  nativeMethod :: "nat \<Rightarrow> string \<Rightarrow> bool"
  isLink :: "nat \<Rightarrow> bool"
  isCheckbox :: "nat \<Rightarrow> bool"

text \<open>
  The state: the registry, what belongs to the page, the type that \<open>trigger\<close> is just firing natively,
  the element with the focus, and, as a trace, the calls of handlers and of native methods.
\<close>

datatype ('f, 'd) call = HandlerCall nat "('f, 'd) handle_obj" | InlineCall nat string | NativeCall nat string

record ('f, 'd, 'x) world =
  reg :: "('f, 'd) registry"
  page_state :: 'x
  triggered :: "string option"
  activeElement :: "nat option"
  trace :: "('f, 'd) call list"

text \<open>A function of the page gets its element and the event, and changes the event, the registry and its state.\<close>

type_synonym ('f, 'd, 'v, 'x) page_fn =
  "nat \<Rightarrow> ('f, 'd, 'v) jq_event \<Rightarrow> ('f, 'd) registry \<times> 'x
     \<Rightarrow> ('v ret \<times> ('f, 'd, 'v) jq_event) result \<times> ('f, 'd) registry \<times> 'x"

record ('f, 'd, 'v, 'x) setting =
  env :: page_env
  doc :: dom
  page_fn :: "'f \<Rightarrow> ('f, 'd, 'v, 'x) page_fn"
  inline_fn :: "string \<Rightarrow> ('f, 'd, 'v, 'x) page_fn"
  native_fn :: "string \<Rightarrow> nat \<Rightarrow> ('f, 'd) registry \<times> 'x \<Rightarrow> ('f, 'd) registry \<times> 'x"

definition log_call :: "('f, 'd) call \<Rightarrow> (('f, 'd, 'x) world, unit) effect" where
  "log_call c = modE (\<lambda>w. w\<lparr>trace := trace w @ [c]\<rparr>)"

definition run_page :: "('f, 'd, 'v, 'x) page_fn \<Rightarrow> nat \<Rightarrow> ('f, 'd, 'v) jq_event
    \<Rightarrow> (('f, 'd, 'x) world, 'v ret \<times> ('f, 'd, 'v) jq_event) effect" where
  "run_page f this ev w =
     (case f this ev (reg w, page_state w) of (res, r, x) \<Rightarrow> (res, w\<lparr>reg := r, page_state := x\<rparr>))"

text \<open>A handler; the function that \<open>one\<close> makes removes itself through the event and then calls the other.\<close>

fun run_fn :: "('f, 'd, 'v, 'x) setting \<Rightarrow> 'f fn \<Rightarrow> nat \<Rightarrow> ('f, 'd, 'v) jq_event
    \<Rightarrow> (('f, 'd, 'x) world, 'v ret \<times> ('f, 'd, 'v) jq_event) effect" where
  "run_fn S (UserFn f) this ev = run_page (page_fn S f) this ev"
| "run_fn S ReturnFalse this ev = retE (FalseRet, ev)"
| "run_fn S (OnceFn f) this ev =
     bindE (\<lambda>w. case ev_handleObj ev of
         None \<Rightarrow> (Inr (), w)
       | Some ho \<Rightarrow> (case off_event (env S) (delegateTarget ev) ho (reg w) of (x, r) \<Rightarrow> (x, w\<lparr>reg := r\<rparr>)))
       (\<lambda>_. run_fn S f this ev)"

section \<open>Dispatch\<close>

text \<open>The elements from the target up to the one that dispatches, which is not among them.\<close>

definition delegation_path :: "dom \<Rightarrow> nat \<Rightarrow> nat \<Rightarrow> nat list" where
  "delegation_path D this t = takeWhile (\<lambda>e. e \<noteq> this) (t # ancestors D t)"

definition matching :: "dom \<Rightarrow> nat \<Rightarrow> nat \<Rightarrow> ('f, 'd) handlers \<Rightarrow> ('f, 'd) handle_obj list" where
  "matching D this cur hs =
     filter (\<lambda>ho. case ho_selector ho of None \<Rightarrow> False | Some s \<Rightarrow> finds D (ho_needsContext ho) this s cur)
       (take (delegateCount hs) (objs hs))"

definition event_handlers :: "dom \<Rightarrow> nat \<Rightarrow> ('f, 'd, 'v) jq_event \<Rightarrow> ('f, 'd) handlers
    \<Rightarrow> (nat \<times> ('f, 'd) handle_obj list) list" where
  "event_handlers D this ev hs =
     (if delegateCount hs \<noteq> 0 \<and> nodeType D (target ev) \<noteq> 0
        \<and> (ev_type ev \<noteq> ''click'' \<or> (case button ev of None \<Rightarrow> True | Some b \<Rightarrow> b < 1))
      then filter (\<lambda>p. snd p \<noteq> [])
        (map (\<lambda>cur. (cur, if nodeType D cur = 1 \<and> (\<not> disabledElem D cur \<or> ev_type ev \<noteq> ''click'')
            then matching D this cur hs else []))
          (delegation_path D this (target ev)))
      else [])
     @ (if delegateCount hs < length (objs hs) then [(this, drop (delegateCount hs) (objs hs))] else [])"

text \<open>\<open>mouseenter\<close> and its like call the handler when the pointer comes from outside, under their own type.\<close>

definition handle_special :: "('f, 'd, 'v, 'x) setting \<Rightarrow> ('f, 'd) handle_obj \<Rightarrow> nat \<Rightarrow> ('f, 'd, 'v) jq_event
    \<Rightarrow> (('f, 'd, 'x) world, 'v ret \<times> ('f, 'd, 'v) jq_event) effect" where
  "handle_special S ho this ev =
     (case bindType (ho_origType ho) of
        None \<Rightarrow> bindE (log_call (HandlerCall this ho)) (\<lambda>_. run_fn S (ho_handler ho) this ev)
      | Some fix_type \<Rightarrow>
          if (case relatedTarget ev of None \<Rightarrow> True | Some e \<Rightarrow> e \<noteq> this \<and> \<not> containsElem (doc S) this e)
          then bindE (log_call (HandlerCall this ho))
            (\<lambda>_. bindE (run_fn S (ho_handler ho) this (ev\<lparr>ev_type := ho_origType ho\<rparr>))
              (\<lambda>(ret, ev). retE (ret, ev\<lparr>ev_type := fix_type\<rparr>)))
          else retE (Undefined, ev))"

definition namespace_passes :: "('f, 'd, 'v) jq_event \<Rightarrow> ('f, 'd) handle_obj \<Rightarrow> bool" where
  "namespace_passes ev ho \<longleftrightarrow> (case rnamespace ev of None \<Rightarrow> True | Some ns \<Rightarrow> rx_test (namespace_rx ns) (ho_namespace ho))"

definition take_result :: "'v ret \<Rightarrow> ('f, 'd, 'v) jq_event \<Rightarrow> ('f, 'd, 'v) jq_event" where
  "take_result ret ev =
     (case ret of
        Undefined \<Rightarrow> ev
      | FalseRet \<Rightarrow> ev\<lparr>ev_result := ret, isDefaultPrevented := True, isPropagationStopped := True\<rparr>
      | Val v \<Rightarrow> ev\<lparr>ev_result := ret\<rparr>)"

fun run_handlers :: "('f, 'd, 'v, 'x) setting \<Rightarrow> nat \<Rightarrow> ('f, 'd) handle_obj list \<Rightarrow> ('f, 'd, 'v) jq_event
    \<Rightarrow> (('f, 'd, 'x) world, ('f, 'd, 'v) jq_event) effect" where
  "run_handlers S this [] ev = retE ev"
| "run_handlers S this (ho # hos) ev =
     (if isImmediatePropagationStopped ev then retE ev
      else if namespace_passes ev ho then
        bindE (handle_special S ho this (ev\<lparr>ev_handleObj := Some ho, ev_data := ho_data ho\<rparr>))
          (\<lambda>(ret, ev). run_handlers S this hos (take_result ret ev))
      else run_handlers S this hos ev)"

fun run_queue :: "('f, 'd, 'v, 'x) setting \<Rightarrow> (nat \<times> ('f, 'd) handle_obj list) list \<Rightarrow> ('f, 'd, 'v) jq_event
    \<Rightarrow> (('f, 'd, 'x) world, ('f, 'd, 'v) jq_event) effect" where
  "run_queue S [] ev = retE ev"
| "run_queue S ((e, hos) # q) ev =
     (if isPropagationStopped ev then retE ev
      else bindE (run_handlers S e hos (ev\<lparr>currentTarget := e\<rparr>)) (run_queue S q))"

text \<open>\<open>dispatch\<close> on an element; the hook after it exists for \<open>beforeunload\<close>.\<close>

definition postDispatch :: "string \<Rightarrow> ('f, 'd, 'v) jq_event \<Rightarrow> ('f, 'd, 'v) jq_event" where
  "postDispatch t ev =
     (if t = ''beforeunload'' \<and> ev_result ev \<noteq> Undefined \<and> originalEvent ev
      then ev\<lparr>returnValue := ev_result ev\<rparr> else ev)"

definition handlers_at :: "('f, 'd) registry \<Rightarrow> nat \<Rightarrow> string \<Rightarrow> ('f, 'd) handlers" where
  "handlers_at r e t = (case obj_get (events_of r e) t of None \<Rightarrow> \<lparr>objs = [], delegateCount = 0\<rparr> | Some hs \<Rightarrow> hs)"

definition dispatch :: "('f, 'd, 'v, 'x) setting \<Rightarrow> nat \<Rightarrow> ('f, 'd, 'v) jq_event
    \<Rightarrow> (('f, 'd, 'x) world, ('f, 'd, 'v) jq_event) effect" where
  "dispatch S this ev =
     bindE (readE (\<lambda>w. event_handlers (doc S) this ev (handlers_at (reg w) this (ev_type ev))))
       (\<lambda>q. bindE (run_queue S q (ev\<lparr>delegateTarget := this\<rparr>)) (\<lambda>ev'. retE (postDispatch (ev_type ev) ev')))"

section \<open>Trigger\<close>

text \<open>\<open>rfocusMorph\<close>: the second type is the one that the first is simulated for.\<close>

definition focusMorph :: "string \<Rightarrow> string option \<Rightarrow> bool" where
  "focusMorph t u \<longleftrightarrow> t = ''focusin'' \<and> u = Some ''focus'' \<or> t = ''focusout'' \<and> u = Some ''blur''"

definition bubble_type :: "string \<Rightarrow> string" where
  "bubble_type t = (case delegateType t of Some u \<Rightarrow> u | None \<Rightarrow> t)"

definition own_type :: "string \<Rightarrow> string" where
  "own_type t = (case bindType t of Some u \<Rightarrow> u | None \<Rightarrow> t)"

text \<open>The elements that the event passes; a document is followed by its window.\<close>

definition event_path :: "('f, 'd, 'v, 'x) setting \<Rightarrow> nat \<Rightarrow> string \<Rightarrow> bool \<Rightarrow> nat list" where
  "event_path S elem t onlyHandlers =
     (if onlyHandlers \<or> t = ''load'' \<or> isWindow (doc S) elem then [elem]
      else
        let up = (if focusMorph (bubble_type t) (Some t) then [elem] else []) @ ancestors (doc S) elem;
            path = elem # up
        in if last path = ownerDocument (env S) elem then path @ [windowOf (doc S) (last path)] else path)"

text \<open>One element: its jQuery handlers, unless \<open>trigger\<close> is calling a method of this type, and its inline handler.\<close>

definition has_inline :: "('f, 'd, 'v, 'x) setting \<Rightarrow> nat \<Rightarrow> string \<Rightarrow> bool" where
  "has_inline S cur t \<longleftrightarrow> CHR '':'' \<notin> set t \<and> inlineHandler (doc S) cur t \<and> acceptsData (env S) cur"

definition visit_elem :: "('f, 'd, 'v, 'x) setting \<Rightarrow> string \<Rightarrow> nat \<Rightarrow> ('f, 'd, 'v) jq_event
    \<Rightarrow> (('f, 'd, 'x) world, ('f, 'd, 'v) jq_event) effect" where
  "visit_elem S t cur ev =
     bindE (\<lambda>w. if obj_get (events_of (reg w) cur) (ev_type ev) \<noteq> None \<and> triggered w \<noteq> Some (ev_type ev)
                then dispatch S cur ev w else (Inr ev, w))
       (\<lambda>ev. if has_inline S cur t
             then bindE (log_call (InlineCall cur t)) (\<lambda>_. bindE (run_page (inline_fn S t) cur ev)
               (\<lambda>(ret, ev). retE (ev\<lparr>ev_result := ret, isDefaultPrevented := (ret = FalseRet \<or> isDefaultPrevented ev)\<rparr>)))
             else retE ev)"

fun run_path :: "('f, 'd, 'v, 'x) setting \<Rightarrow> string \<Rightarrow> string \<Rightarrow> nat list \<Rightarrow> ('f, 'd, 'v) jq_event
    \<Rightarrow> (('f, 'd, 'x) world, ('f, 'd, 'v) jq_event) effect" where
  "run_path S t here [] ev = retE ev"
| "run_path S t here (cur # path) ev =
     (if isPropagationStopped ev then retE ev
      else bindE (visit_elem S t cur (ev\<lparr>ev_type := here\<rparr>)) (run_path S t (bubble_type t) path))"

text \<open>The method that the browser itself would call; what it throws is ignored.\<close>

definition call_native :: "('f, 'd, 'v, 'x) setting \<Rightarrow> nat \<Rightarrow> string \<Rightarrow> (('f, 'd, 'x) world, unit) effect" where
  "call_native S elem t =
     bindE (log_call (NativeCall elem t))
       (\<lambda>_. modE (\<lambda>w. case native_fn S t elem (reg w, page_state w) of (r, x) \<Rightarrow> w\<lparr>reg := r, page_state := x\<rparr>))"

definition default_action :: "('f, 'd, 'v, 'x) setting \<Rightarrow> nat \<Rightarrow> string \<Rightarrow> ('f, 'd, 'v) jq_event
    \<Rightarrow> (('f, 'd, 'x) world, unit) effect" where
  "default_action S elem t ev =
     (if \<not> isDefaultPrevented ev \<and> (t = ''click'' \<longrightarrow> \<not> isLink (doc S) (target ev)) \<and> acceptsData (env S) elem
        \<and> CHR '':'' \<notin> set t \<and> nativeMethod (doc S) elem t \<and> \<not> isWindow (doc S) elem
      then bindE (modE (\<lambda>w. w\<lparr>triggered := Some t\<rparr>))
        (\<lambda>_. bindE (call_native S elem t) (\<lambda>_. modE (\<lambda>w. w\<lparr>triggered := None\<rparr>)))
      else retE ())"

text \<open>\<open>focus\<close>, \<open>blur\<close> and \<open>click\<close> on a checkbox are left to the browser where it has the method.\<close>

definition native_instead :: "('f, 'd, 'v, 'x) setting \<Rightarrow> nat \<Rightarrow> string \<Rightarrow> nat option \<Rightarrow> bool" where
  "native_instead S elem t active \<longleftrightarrow> nativeMethod (doc S) elem t \<and>
     (t = ''focus'' \<and> active \<noteq> Some elem \<or> t = ''blur'' \<and> active = Some elem \<or> t = ''click'' \<and> isCheckbox (doc S) elem)"

definition new_event :: "string \<Rightarrow> nat \<Rightarrow> string list \<Rightarrow> bool \<Rightarrow> ('f, 'd, 'v) jq_event" where
  "new_event t elem ns onlyHandlers = \<lparr>ev_type = t, target = elem, button = None, relatedTarget = None,
     rnamespace = (if join_with ''.'' ns = [] then None else Some ns),
     isDefaultPrevented = False, isPropagationStopped = False, isImmediatePropagationStopped = False,
     ev_result = Undefined, delegateTarget = elem, currentTarget = elem, ev_handleObj = None, ev_data = NoArg,
     originalEvent = False, returnValue = Undefined, isTrigger = (if onlyHandlers then 2 else 3)\<rparr>"

definition trigger :: "('f, 'd, 'v, 'x) setting \<Rightarrow> string \<Rightarrow> nat \<Rightarrow> bool \<Rightarrow> (('f, 'd, 'x) world, 'v ret) effect" where
  "trigger S types elem onlyHandlers w =
     (if nodeType (doc S) elem = 3 \<or> nodeType (doc S) elem = 8 \<or> focusMorph types (triggered w) then (Inr Undefined, w)
      else
        let t = hd (split_on CHR ''.'' types);
            ns = sort (tl (split_on CHR ''.'' types));
            ev = new_event t elem ns onlyHandlers
        in if \<not> onlyHandlers \<and> native_instead S elem t (activeElement w)
           then bindE (call_native S elem t) (\<lambda>_. retE Undefined) w
           else bindE (run_path S t (own_type t) (event_path S elem t onlyHandlers) ev)
             (\<lambda>ev. bindE (if onlyHandlers then retE () else default_action S elem t (ev\<lparr>ev_type := t\<rparr>))
               (\<lambda>_. retE (ev_result ev))) w)"

section \<open>What is called\<close>

text \<open>The calls that a dispatch plans: those of the queue whose namespaces fit.\<close>

definition planned :: "('f, 'd, 'v) jq_event \<Rightarrow> (nat \<times> ('f, 'd) handle_obj list) list \<Rightarrow> ('f, 'd) call list" where
  "planned ev q = concat (map (\<lambda>(e, hos). map (HandlerCall e) (filter (namespace_passes ev) hos)) q)"

text \<open>What is assumed of the page: its functions do not change the namespaces of the event.\<close>

definition keeps_names :: "('f, 'd, 'v, 'x) setting \<Rightarrow> bool" where
  "keeps_names S \<longleftrightarrow> (\<forall>f this ev s ret ev'. fst (page_fn S f this ev s) = Inr (ret, ev') \<longrightarrow> rnamespace ev' = rnamespace ev)"

definition own_types :: "('f, 'd) handle_obj list \<Rightarrow> bool" where
  "own_types hos \<longleftrightarrow> list_all (\<lambda>ho. bindType (ho_origType ho) = None) hos"

lemma namespace_passes_cong: "rnamespace ev' = rnamespace ev \<Longrightarrow> namespace_passes ev' = namespace_passes ev"
  by (simp add: namespace_passes_def fun_eq_iff)

lemma planned_cong: "rnamespace ev' = rnamespace ev \<Longrightarrow> planned ev' q = planned ev q"
  by (drule namespace_passes_cong) (simp add: planned_def)

lemma take_result_names [simp]: "rnamespace (take_result ret ev) = rnamespace ev"
  by (simp add: take_result_def split: ret.split)

lemma run_fn_keeps:
  assumes "keeps_names S" and "run_fn S f this ev w = (res, w')"
  shows "trace w' = trace w \<and> (\<forall>ret ev'. res = Inr (ret, ev') \<longrightarrow> rnamespace ev' = rnamespace ev)"
  using assms(2)
proof (induction f arbitrary: w)
  case (UserFn f)
  obtain res' r x where run: "page_fn S f this ev (reg w, page_state w) = (res', r, x)"
    by (rule prod_cases3)
  have "fst (page_fn S f this ev (reg w, page_state w)) = Inr (ret, ev') \<Longrightarrow> rnamespace ev' = rnamespace ev" for ret ev'
    using assms(1) unfolding keeps_names_def by blast
  with UserFn run show ?case by (auto simp: run_page_def)
next
  case ReturnFalse
  then show ?case by (auto simp: retE_def)
next
  case (OnceFn f)
  show ?case
  proof (cases "ev_handleObj ev")
    case None
    with OnceFn.prems OnceFn.IH [of w] show ?thesis by (simp add: bindE_def)
  next
    case (Some ho)
    obtain x r where "off_event (env S) (delegateTarget ev) ho (reg w) = (x, r)" by fastforce
    with OnceFn.prems OnceFn.IH [of "w\<lparr>reg := r\<rparr>"] Some show ?thesis
      by (cases x) (auto simp: bindE_def)
  qed
qed

text \<open>What a part of a dispatch does: it calls a beginning of what is planned, and all of it unless it is stopped at once.\<close>

definition calls_plan :: "('f, 'd) call list \<Rightarrow> ('f, 'd, 'v) jq_event \<Rightarrow> ('f, 'd, 'x) world
    \<Rightarrow> ('f, 'd, 'v) jq_event result \<times> ('f, 'd, 'x) world \<Rightarrow> bool" where
  "calls_plan plan ev w r \<longleftrightarrow> (\<exists>pre. trace (snd r) = trace w @ pre \<and> prefix pre plan \<and>
     (\<forall>ev'. fst r = Inr ev' \<longrightarrow> rnamespace ev' = rnamespace ev \<and> (\<not> isImmediatePropagationStopped ev' \<longrightarrow> pre = plan)))"

lemma run_handlers_plan:
  assumes "keeps_names S"
  shows "own_types hos \<Longrightarrow>
    calls_plan (map (HandlerCall this) (filter (namespace_passes ev) hos)) ev w (run_handlers S this hos ev w)"
proof (induction hos arbitrary: ev w)
  case Nil
  then show ?case by (simp add: calls_plan_def retE_def)
next
  case (Cons ho hos)
  have own: "bindType (ho_origType ho) = None" "own_types hos" using Cons.prems by (auto simp: own_types_def)
  show ?case
  proof (cases "isImmediatePropagationStopped ev \<or> \<not> namespace_passes ev ho")
    case True
    with Cons.IH [OF own(2), of ev w] show ?thesis by (auto simp: calls_plan_def retE_def)
  next
    case False
    let ?ev = "ev\<lparr>ev_handleObj := Some ho, ev_data := ho_data ho\<rparr>"
    let ?w = "w\<lparr>trace := trace w @ [HandlerCall this ho]\<rparr>"
    obtain res w1 where run: "run_fn S (ho_handler ho) this ?ev ?w = (res, w1)" by fastforce
    note keeps = run_fn_keeps [OF assms run]
    show ?thesis
    proof (cases res)
      case (Inl e)
      with run keeps False own(1) show ?thesis
        by (auto simp: calls_plan_def handle_special_def log_call_def bindE_def modE_def)
    next
      case (Inr r)
      obtain ret ev1 where r: "r = (ret, ev1)" by fastforce
      let ?ev1 = "take_result ret ev1"
      have names: "rnamespace ?ev1 = rnamespace ev" using keeps Inr r by simp
      have "run_handlers S this (ho # hos) ev w = run_handlers S this hos ?ev1 w1"
        using False own(1) run Inr r by (simp add: handle_special_def log_call_def bindE_def modE_def)
      with Cons.IH [OF own(2), of ?ev1 w1] keeps names False show ?thesis
        by (auto simp: calls_plan_def namespace_passes_cong [OF names])
    qed
  qed
qed

definition queue_result :: "(nat \<times> ('f, 'd) handle_obj list) list \<Rightarrow> ('f, 'd, 'v) jq_event \<Rightarrow> ('f, 'd, 'x) world
    \<Rightarrow> ('f, 'd, 'v) jq_event result \<times> ('f, 'd, 'x) world \<Rightarrow> bool" where
  "queue_result q ev w r \<longleftrightarrow> (\<exists>pre. trace (snd r) = trace w @ pre \<and> prefix pre (planned ev q) \<and>
     (\<forall>ev'. fst r = Inr ev' \<and> \<not> isImmediatePropagationStopped ev' \<longrightarrow>
        (\<exists>k \<le> length q. pre = planned ev (take k q) \<and> (k < length q \<longrightarrow> isPropagationStopped ev'))))"

lemma run_queue_plan:
  assumes "keeps_names S"
  shows "list_all (\<lambda>p. own_types (snd p)) q \<Longrightarrow> queue_result q ev w (run_queue S q ev w)"
proof (induction q arbitrary: ev w)
  case Nil
  then show ?case by (simp add: queue_result_def retE_def planned_def)
next
  case (Cons p q)
  obtain e hos where p: "p = (e, hos)" by fastforce
  show ?case
  proof (cases "isPropagationStopped ev")
    case True
    then show ?thesis
      by (auto simp: queue_result_def retE_def p planned_def intro!: exI [of _ 0])
  next
    case False
    let ?ev = "ev\<lparr>currentTarget := e\<rparr>"
    let ?plan = "map (HandlerCall e) (filter (namespace_passes ev) hos)"
    have plan: "planned ev (p # q) = ?plan @ planned ev q" by (simp add: planned_def p)
    obtain res w1 where run: "run_handlers S e hos ?ev w = (res, w1)" by fastforce
    have "own_types hos" using Cons.prems p by simp
    from run_handlers_plan [OF assms this, of e ?ev w] run
    obtain pre where pre: "trace w1 = trace w @ pre" "prefix pre ?plan"
        "\<And>ev'. res = Inr ev' \<Longrightarrow> rnamespace ev' = rnamespace ev \<and> (\<not> isImmediatePropagationStopped ev' \<longrightarrow> pre = ?plan)"
      by (auto simp: calls_plan_def namespace_passes_cong [of ?ev ev])
    show ?thesis
    proof (cases res)
      case (Inl x)
      with pre False run show ?thesis
        unfolding queue_result_def plan by (auto simp: p bindE_def intro: prefix_prefix)
    next
      case (Inr ev1)
      note pre3 = pre(3) [OF Inr]
      have step: "run_queue S (p # q) ev w = run_queue S q ev1 w1"
        using False run Inr by (simp add: p bindE_def)
      show ?thesis
      proof (cases "isImmediatePropagationStopped ev1")
        case False
        have names: "planned ev1 = planned ev" by (intro ext planned_cong) (simp add: pre3)
        have "queue_result q ev1 w1 (run_queue S q ev1 w1)"
          using Cons by simp
        then obtain pre2 where pre2: "trace (snd (run_queue S q ev1 w1)) = trace w1 @ pre2" "prefix pre2 (planned ev q)"
            "\<And>ev'. fst (run_queue S q ev1 w1) = Inr ev' \<and> \<not> isImmediatePropagationStopped ev' \<Longrightarrow>
              \<exists>k \<le> length q. pre2 = planned ev (take k q) \<and> (k < length q \<longrightarrow> isPropagationStopped ev')"
          unfolding queue_result_def names by blast
        have "\<exists>k \<le> length (p # q). ?plan @ pre2 = planned ev (take k (p # q)) \<and> (k < length (p # q) \<longrightarrow> isPropagationStopped ev')"
          if "fst (run_queue S q ev1 w1) = Inr ev' \<and> \<not> isImmediatePropagationStopped ev'" for ev'
        proof -
          from pre2(3) [OF that] obtain k where "k \<le> length q" "pre2 = planned ev (take k q)" "k < length q \<longrightarrow> isPropagationStopped ev'"
            by blast
          then show ?thesis by (intro exI [of _ "Suc k"]) (simp add: planned_def p)
        qed
        with pre(1) pre2(1,2) pre3 False show ?thesis
          unfolding queue_result_def step plan by (intro exI [of _ "?plan @ pre2"]) auto
      next
        case True
        have stays: "isImmediatePropagationStopped ev \<Longrightarrow> \<exists>ev'. run_queue S q ev w = (Inr ev', w) \<and> isImmediatePropagationStopped ev'"
          for ev :: "('a, 'b, 'c) jq_event" and q w
        proof (induction q arbitrary: ev)
          case (Cons p q)
          obtain e hos where p: "p = (e, hos)" by fastforce
          have "run_handlers S e hos (ev\<lparr>currentTarget := e\<rparr>) w = (Inr (ev\<lparr>currentTarget := e\<rparr>), w)"
            using Cons.prems by (cases hos) (auto simp: retE_def)
          with Cons show ?case by (auto simp: p bindE_def retE_def)
        qed (simp add: retE_def)
        from stays [OF True] obtain ev' where "run_queue S q ev1 w1 = (Inr ev', w1)" "isImmediatePropagationStopped ev'"
          by blast
        with pre show ?thesis
          unfolding queue_result_def step plan by (intro exI [of _ pre]) (auto intro: prefix_prefix)
      qed
    qed
  qed
qed

lemma queue_subset:
  assumes "p \<in> set (event_handlers D this ev hs)"
  shows "set (snd p) \<subseteq> set (objs hs)"
proof -
  have "set (take n xs) \<subseteq> set xs" "set (drop n xs) \<subseteq> set xs" for n and xs :: "('a, 'b) handle_obj list"
    by (rule set_take_subset set_drop_subset)+
  moreover have "set (matching D this cur hs) \<subseteq> set (take (delegateCount hs) (objs hs))" for cur
    by (auto simp: matching_def)
  ultimately show ?thesis
    using assms by (auto simp: event_handlers_def split: if_splits) blast+
qed


section \<open>The queue\<close>

text \<open>The specification of the queue: from the target upwards the delegated handlers that match, then the others.\<close>

definition clickable :: "dom \<Rightarrow> ('f, 'd, 'v) jq_event \<Rightarrow> nat \<Rightarrow> bool" where
  "clickable D ev e \<longleftrightarrow> nodeType D e = 1 \<and> (\<not> disabledElem D e \<or> ev_type ev \<noteq> ''click'')"

definition left_click :: "('f, 'd, 'v) jq_event \<Rightarrow> bool" where
  "left_click ev \<longleftrightarrow> (case button ev of None \<Rightarrow> True | Some b \<Rightarrow> b < 1)"

definition spec_queue :: "dom \<Rightarrow> nat \<Rightarrow> ('f, 'd, 'v) jq_event \<Rightarrow> ('f, 'd) handle_obj list \<Rightarrow> (nat \<times> ('f, 'd) handle_obj list) list" where
  "spec_queue D this ev hos = filter (\<lambda>p. snd p \<noteq> [])
     ((if ev_type ev = ''click'' \<and> \<not> left_click ev then []
       else map (\<lambda>e. (e, filter (\<lambda>ho. \<exists>s. ho_selector ho = Some s \<and> finds D (ho_needsContext ho) this s e) hos))
         (filter (clickable D ev) (delegation_path D this (target ev))))
      @ [(this, filter (\<lambda>ho. ho_selector ho = None) hos)])"

lemma filter_map_if:
  "filter (\<lambda>p. snd p \<noteq> []) (map (\<lambda>e. (e, if P e then f e else [])) xs) = filter (\<lambda>p. snd p \<noteq> []) (map (\<lambda>e. (e, f e)) (filter P xs))"
  by (induction xs) auto

text \<open>C25: in every registry that calls can lead to, the handlers for an event are the specified ones: first, for every
  element from the target up to below the element that dispatches, its delegated handlers whose selector finds it,
  in the order in which they were added, then the handlers of the element itself. Disabled elements and other
  buttons than the first get no delegated clicks.\<close>

theorem dispatch_queue:
  assumes "registered E r" and "nodeType D (target ev) \<noteq> 0"
  shows "event_handlers D this ev (handlers_at r this t) = spec_queue D this ev (handlers_of r this t)"
proof -
  let ?hs = "handlers_at r this t"
  have objs: "objs ?hs = handlers_of r this t"
    by (simp add: handlers_at_def handlers_of_def split: option.split)
  have "elem_ok E r this" using registered_ok [OF assms(1)] by (simp add: registry_ok_def)
  then have "handlers_ok ?hs"
    by (auto simp: handlers_at_def elem_ok_def handlers_ok_empty split: option.split)
  then obtain xs ys where hs: "objs ?hs = xs @ ys" "delegateCount ?hs = length xs" "list_all delegated xs" "list_all (\<lambda>ho. \<not> delegated ho) ys"
    by (auto simp: handlers_ok_def)
  have sel: "filter (\<lambda>ho. ho_selector ho = None) (handlers_of r this t) = ys"
      "filter (\<lambda>ho. \<exists>s. ho_selector ho = Some s \<and> finds D (ho_needsContext ho) this s e) (handlers_of r this t) = matching D this e ?hs" for e
    using hs unfolding objs [symmetric] matching_def
    by (auto simp: filter_empty_conv list_all_iff intro!: filter_cong split: option.split)
  have empty: "matching D this e ?hs = []" if "delegateCount ?hs = 0" for e
    using that by (simp add: matching_def)
  show ?thesis
    unfolding spec_queue_def sel event_handlers_def
    using hs(1,2) assms(2) empty
    by (auto simp: filter_map_if clickable_def [abs_def] left_click_def split: option.split)
qed

section \<open>Handlers that run once\<close>

lemma words_of_word:
  assumes "list_all (\<lambda>c. \<not> is_space c) u" and "u \<noteq> []"
  shows "type_words u = [u]"
proof -
  have "dropWhile is_space u = u" using assms by (cases u) auto
  moreover have "takeWhile (\<lambda>c. \<not> is_space c) u = u" "dropWhile (\<lambda>c. \<not> is_space c) u = []"
    using assms(1) by (auto simp: list_all_iff)
  moreover have "text_words [] = []" by (simp add: text_words.simps)
  ultimately have "text_words u = [u]"
    using assms(2) by (simp add: text_words.simps [of u] del: dropWhile_eq_Nil_conv)
  then show ?thesis by (simp add: type_words_def)
qed

lemma spaces: "\<not> is_space dot" "is_space nl" "is_space cr"
  by code_simp+

text \<open>The type and the namespaces that \<open>off\<close> reads back from a handler.\<close>

definition written_type :: "string \<Rightarrow> string" where
  "written_type w = (let ns = join_with ''.'' (namespaces w) in if ns \<noteq> [] then event_type w @ ''.'' @ ns else event_type w)"

lemma written_type:
  assumes "list_all (\<lambda>c. \<not> is_space c) w" and "event_type w \<noteq> []"
  shows "type_words (written_type w) = [written_type w]" and "event_type (written_type w) = event_type w"
    and "event_rest (written_type w) = [] \<or>
      rx_test (namespace_rx (namespaces (written_type w))) (join_with ''.'' (namespaces w))"
proof -
  let ?ns = "join_with [dot] (namespaces w)"
  have chars: "\<not> is_space c" if "c \<in> set w \<or> c = dot" for c
    using assms(1) that spaces(1) by (auto simp: list_all_iff)
  have "set (event_type w) \<subseteq> set w" by (auto simp: event_type_def dest: set_takeWhileD)
  moreover have ns: "set ?ns \<subseteq> insert dot (set w)"
  proof
    fix c assume "c \<in> set ?ns"
    from set_join [OF this] namespaces_chars [of _ w c] show "c \<in> insert dot (set w)" by auto
  qed
  ultimately have "list_all (\<lambda>c. \<not> is_space c) (written_type w)"
    using chars by (auto simp: written_type_def Let_def list_all_iff)
  moreover have "written_type w \<noteq> []"
    using assms(2) by (simp add: written_type_def Let_def)
  ultimately show "type_words (written_type w) = [written_type w]"
    by (rule words_of_word)
  have first: "takeWhile (\<lambda>c. c \<noteq> dot) (x @ dot # y) = x" "dropWhile (\<lambda>c. c \<noteq> dot) (x @ dot # y) = dot # y"
      "takeWhile (\<lambda>c. c \<noteq> dot) x = x" "dropWhile (\<lambda>c. c \<noteq> dot) x = []" if "dot \<notin> set x" for x y
    using that by (induction x) auto
  then have "event_type (x @ dot # y) = x" "event_rest (x @ dot # y) = y" "event_type x = x" "event_rest x = []" if "dot \<notin> set x" for x y
    using that by (simp_all add: event_type_def event_rest_def del: dropWhile_eq_Nil_conv)
  from this [OF event_type_no_dot [of w]]
  have parts: "event_type (written_type w) = event_type w" "event_rest (written_type w) = ?ns"
    by (simp_all add: written_type_def Let_def)
  then show "event_type (written_type w) = event_type w" by simp
  have "split_on dot ?ns = namespaces w"
    using namespaces_chars by (intro split_join) (auto simp: list_all_iff)
  then have "namespaces (written_type w) = namespaces w"
    using parts(2) by (simp add: namespaces_def sorted_sort_id)
  moreover have "nl \<notin> set w" "cr \<notin> set w"
    using chars [of nl] chars [of cr] spaces by auto
  ultimately show "event_rest (written_type w) = [] \<or>
      rx_test (namespace_rx (namespaces (written_type w))) (join_with ''.'' (namespaces w))"
    by (simp add: namespace_test_mset)
qed

text \<open>A handler that was added with \<open>one\<close> is gone before it runs: when the function made by \<open>one\<close> takes the event
  off, every handler of the type with the same function, namespaces and selector is removed, whatever
  namespaces and selector these are.\<close>

lemma one_removed:
  assumes "list_all (\<lambda>c. \<not> is_space c) w" and "event_type w \<noteq> []"
    and "inherited_length (mapped_type selector (event_type w)) = 0"
    and "guid_of r f = Some g" and "selector \<noteq> Some []"
    and "ho = make_obj E f g data selector t (event_type w) (join_with ''.'' (namespaces w))"
  shows "ho \<notin> set (handlers_of (snd (off_event E e ho r)) e (mapped_type selector (event_type w)))"
proof -
  let ?u = "written_type w"
  let ?t = "mapped_type selector (event_type w)"
  note u = written_type [OF assms(1,2)]
  have "off_event E e ho r = off_ev E [e] ?u (case selector of None \<Rightarrow> NoArg | Some s \<Rightarrow> Text s) (Fun f) r"
    by (simp add: off_event_def assms(6) make_obj_def written_type_def Let_def)
  also have "\<dots> = bindE (event_remove E e ?u (Some (Some g)) selector) (\<lambda>_. retE ()) r"
    using assms(4,5) by (auto simp: off_ev_def bindE_def readE_def fn_arg_def text_of_def split: option.splits)
  finally have "snd (off_event E e ho r) = snd (event_remove E e ?u (Some (Some g)) selector r)"
    by (auto simp: bindE_def retE_def split: prod.splits sum.splits)
  moreover have "\<forall>x \<in> set (type_words ?u). event_type x \<noteq> [] \<and> inherited_length (mapped_type selector (event_type x)) = 0"
    using assms(2,3) u by simp
  note removed_typed [OF this, of E e "Some (Some g)" r e ?t]
  moreover have "removes (Some (Some g)) selector (type_words ?u) ?t ho"
    using u by (auto simp: removes_def goes_def assms(6) make_obj_def namespace_test_def selector_test_def)
  ultimately show ?thesis by simp
qed

section \<open>A sample page\<close>

text \<open>
  Element 3 in element 2 in element 1 in the document 0; the selector \<open>p\<close> finds element 2 and \<open>q\<close> element 3.
  The function 7 of the page stops the propagation; the others do nothing.
\<close>

definition sample_dom :: dom where
  "sample_dom = \<lparr>ancestors = \<lambda>e. map (\<lambda>n. e - Suc n) [0..<e], nodeType = \<lambda>e. if e = 0 then 9 else 1, disabledElem = \<lambda>e. False,
     finds = \<lambda>b this s e. s = ''p'' \<and> e = 2 \<or> s = ''q'' \<and> e = 3, containsElem = \<lambda>a b. a < b, isWindow = \<lambda>e. e = 9,
     windowOf = \<lambda>e. 9, inlineHandler = \<lambda>e t. False, nativeMethod = \<lambda>e t. False, isLink = \<lambda>e. False, isCheckbox = \<lambda>e. False\<rparr>"

definition sample_setting :: "(nat, nat, nat, unit) setting" where
  "sample_setting = \<lparr>env = sample_env, doc = sample_dom,
     page_fn = \<lambda>f this ev s. (Inr (Undefined, if f = 7 then ev\<lparr>isPropagationStopped := True\<rparr> else ev), s),
     inline_fn = \<lambda>t this ev s. (Inr (Undefined, ev), s), native_fn = \<lambda>t e s. s\<rparr>"

definition sample_world :: "(nat, nat, unit) world" where
  "sample_world = \<lparr>reg = snd (event_add sample_env 1 ''click'' (UserFn 5) NoArg None
       (snd (event_add sample_env 1 ''click'' (UserFn 7) NoArg (Some ''p'')
         (snd (event_add sample_env 1 ''click.x'' (UserFn 6) NoArg (Some ''q'') new_registry))))),
     page_state = (), triggered = None, activeElement = None, trace = []\<rparr>"

definition sample_click :: "(nat, nat, nat) jq_event" where
  "sample_click = new_event ''click'' 3 [] False"

lemma sample_keeps: "keeps_names sample_setting"
  by (auto simp: keeps_names_def sample_setting_def)

definition called_guids :: "('f, 'd) call list \<Rightarrow> (nat \<times> nat) list" where
  "called_guids cs = concat (map (\<lambda>c. case c of HandlerCall e ho \<Rightarrow> [(e, ho_guid ho)] | _ \<Rightarrow> []) cs)"

lemma sample_dispatch:
  "own_types (objs (handlers_at (reg sample_world) 1 (ev_type sample_click)))"
  "called_guids (planned sample_click (event_handlers (doc sample_setting) 1 sample_click
     (handlers_at (reg sample_world) 1 (ev_type sample_click)))) = [(3, 1), (2, 2), (1, 3)]"
  "called_guids (trace (snd (dispatch sample_setting 1 sample_click sample_world))) = [(3, 1), (2, 2)]"
  by code_simp+


theorem dispatch_queue_witness:
  "map fst (spec_queue sample_dom 1 sample_click (handlers_of (reg sample_world) 1 ''click'')) = [3, 2, 1]"
proof -
  have r: "registered sample_env (reg sample_world)"
    unfolding sample_world_def by simp (rule adds [OF adds [OF adds [OF start surjective_pairing] surjective_pairing] surjective_pairing])
  have n: "nodeType sample_dom (target sample_click) \<noteq> 0" by code_simp
  have "map fst (event_handlers sample_dom 1 sample_click (handlers_at (reg sample_world) 1 ''click'')) = [3, 2, 1]"
    by code_simp
  then show ?thesis by (simp only: dispatch_queue [OF r n])
qed

text \<open>A function that is bound once and for good is gone altogether when the event has come once.\<close>

definition once_registry :: "(nat, nat) registry" where
  "once_registry = snd (on_ev sample_env [1] ''click.a'' NoArg NoArg (Fun (UserFn 5)) True
     (snd (on_ev sample_env [1] ''click.a'' NoArg NoArg (Fun (UserFn 5)) False new_registry)))"

text \<open>\<open>one\<close> shares the function's \<open>guid\<close>, by which handlers are removed: when a page has bound a function with
  \<open>on\<close> and binds the same function once more with \<open>one\<close>, the first event removes both. The second
  event finds no handler.\<close>

lemma one_removes_permanent:
  "let ev = (new_event ''click'' 1 [] False :: (nat, nat, nat) jq_event);
       w = sample_world\<lparr>reg := once_registry\<rparr>;
       w' = snd (dispatch sample_setting 1 ev w); w'' = snd (dispatch sample_setting 1 ev w')
   in length (trace w') = 2 \<and> events (elem_data (reg w') 1) = None \<and> trace w'' = trace w'"
  by code_simp

end
