(* ===== verification/JqAjax.thy ===== *)
theory JqAjax
  imports JsPrelude
begin

text \<open>
  \<open>jQuery.ajax\<close> (\<open>lib/jquery.js\<close>): the life of requests. Between any two things that \<open>ajax\<close>, \<open>abort\<close> and
  \<open>done\<close> do by themselves they call functions of the page: prefilters, handlers of the global events, \<open>beforeSend\<close>,
  factories of transports, the transport, converters and callbacks. Such a function may start and abort requests and may
  throw. So a world has a stack of the calls that are waiting for such a function, and what
  the functions do is left open. Headers and addresses have no influence on the life of a request.
\<close>

section \<open>Requests\<close>

text \<open>
  What of the settings matters: \<open>global\<close>, whether there is a \<open>beforeSend\<close>, and whether a timer is wanted
  (\<open>async\<close> with a positive \<open>timeout\<close>). Prefilters, \<open>beforeSend\<close> and handlers get the object and may change it.
\<close>

record settings =
  opt_global :: bool
  opt_beforeSend :: bool
  opt_timeout :: bool

text \<open>
  The variables of the closure. \<open>fireGlobals\<close> is unset before the prefilters have run; \<open>sending\<close> says whether
  \<open>transport.send\<close> has been called, which hands \<open>done\<close> out; \<open>released\<close> whether the
  request has been taken off the counter of active requests.
\<close>

record request =
  opts :: settings
  rstate :: nat
  fireGlobals :: bool
  transport :: bool
  timer :: bool
  sending :: bool
  released :: bool

text \<open>Where the library goes on when the function that it has called returns.\<close>

datatype point =
    AfterPrefilters | AfterStart | AfterBeforeSend | AfterFactories | AfterAjaxSend | AfterSend
  | AfterTransportAbort
  | AfterConvert | AfterSettle | AfterStatus | AfterOutcomeEvent | AfterComplete | AfterCompleteEvent | AfterStop

datatype ajax_event = AjaxStart | AjaxStop | AjaxSend nat | Sent nat | Settled nat bool | Completed nat | Thrown

record ajax_world =
  active :: int
  requests :: "request list"
  waiting :: "(nat \<times> point) list"
  raising :: bool
  happened :: "ajax_event list"

definition new_world :: ajax_world where
  "new_world = \<lparr>active = 0, requests = [], waiting = [], raising = False, happened = []\<rparr>"

definition put_request :: "nat \<Rightarrow> request \<Rightarrow> ajax_world \<Rightarrow> ajax_world" where
  "put_request r q w = w\<lparr>requests := (requests w)[r := q]\<rparr>"

definition await :: "nat \<Rightarrow> point \<Rightarrow> ajax_world \<Rightarrow> ajax_world" where
  "await r p w = w\<lparr>waiting := (r, p) # waiting w\<rparr>"

definition note_event :: "ajax_event \<Rightarrow> ajax_world \<Rightarrow> ajax_world" where
  "note_event e w = w\<lparr>happened := happened w @ [e]\<rparr>"

section \<open>The code\<close>

text \<open>\<open>done\<close> up to the first function it calls, a converter.\<close>

definition ajax_done :: "nat \<Rightarrow> ajax_world \<Rightarrow> ajax_world" where
  "ajax_done r w =
     (let q = requests w ! r
      in if rstate q = 2 then w
         else await r AfterConvert (put_request r (q\<lparr>rstate := 2, timer := False, transport := False\<rparr>) w))"

definition ajax_abort :: "nat \<Rightarrow> ajax_world \<Rightarrow> ajax_world" where
  "ajax_abort r w = (if transport (requests w ! r) then await r AfterTransportAbort w else ajax_done r w)"

text \<open>A call of \<open>ajax\<close> up to the prefilters.\<close>

definition ajax :: "settings \<Rightarrow> ajax_world \<Rightarrow> ajax_world" where
  "ajax s w = await (length (requests w)) AfterPrefilters
     (w\<lparr>requests := requests w @ [\<lparr>opts = s, rstate = 0, fireGlobals = False, transport = False, timer = False,
        sending = False, released = False\<rparr>]\<rparr>)"

text \<open>The end of \<open>ajax\<close>, after the transport has been chosen, and its start after the handlers of \<open>ajaxStart\<close>.\<close>

definition send_request :: "nat \<Rightarrow> ajax_world \<Rightarrow> ajax_world" where
  "send_request r w =
     (let q = requests w ! r
      in if rstate q = 2 then w
         else await r AfterSend (note_event (Sent r)
           (put_request r (q\<lparr>timer := opt_timeout (opts q), rstate := 1, sending := True\<rparr>) w)))"

definition before_send :: "nat \<Rightarrow> ajax_world \<Rightarrow> ajax_world" where
  "before_send r w =
     (if opt_beforeSend (opts (requests w ! r)) then await r AfterBeforeSend w else await r AfterFactories w)"

definition complete_request :: "nat \<Rightarrow> ajax_world \<Rightarrow> ajax_world" where
  "complete_request r w = await r AfterComplete (note_event (Completed r) w)"

text \<open>
  What follows at every point. The function of the page has given an answer: whether \<open>beforeSend\<close> did not return
  \<open>false\<close>, whether there is a transport, whether the response is a success.
\<close>

definition after_prefilters :: "nat \<Rightarrow> ajax_world \<Rightarrow> ajax_world" where [simp]:
  "after_prefilters r w =
     (let q = requests w ! r
      in if rstate q = 2 then w
         else
           let w1 = put_request r (q\<lparr>fireGlobals := opt_global (opts q)\<rparr>) w
           in if opt_global (opts q)
              then
                let w2 = w1\<lparr>active := active w1 + 1\<rparr>
                in if active w = 0 then await r AfterStart (note_event AjaxStart w2) else before_send r w2
              else before_send r w1)"

definition after_before_send :: "nat \<Rightarrow> bool \<Rightarrow> ajax_world \<Rightarrow> ajax_world" where [simp]:
  "after_before_send r b w =
     (if \<not> b \<or> rstate (requests w ! r) = 2 then ajax_abort r w else await r AfterFactories w)"

definition after_factories :: "nat \<Rightarrow> bool \<Rightarrow> ajax_world \<Rightarrow> ajax_world" where [simp]:
  "after_factories r b w =
     (let q = requests w ! r; w1 = put_request r (q\<lparr>transport := b\<rparr>) w
      in if \<not> b then ajax_done r w1
         else if fireGlobals q then await r AfterAjaxSend (note_event (AjaxSend r) w1)
         else send_request r w1)"

definition release_request :: "nat \<Rightarrow> ajax_world \<Rightarrow> ajax_world" where [simp]:
  "release_request r w =
     (let w1 = put_request r ((requests w ! r)\<lparr>released := True\<rparr>) (w\<lparr>active := active w - 1\<rparr>)
      in if active w1 = 0 then await r AfterStop (note_event AjaxStop w1) else w1)"

fun resume :: "nat \<Rightarrow> point \<Rightarrow> bool \<Rightarrow> ajax_world \<Rightarrow> ajax_world" where
  "resume r AfterPrefilters b w = after_prefilters r w"
| "resume r AfterStart b w = before_send r w"
| "resume r AfterBeforeSend b w = after_before_send r b w"
| "resume r AfterFactories b w = after_factories r b w"
| "resume r AfterAjaxSend b w = send_request r w"
| "resume r AfterSend b w = w"
| "resume r AfterTransportAbort b w = ajax_done r w"
| "resume r AfterConvert b w = await r AfterSettle (note_event (Settled r b) w)"
| "resume r AfterSettle b w = await r AfterStatus w"
| "resume r AfterStatus b w =
     (if fireGlobals (requests w ! r) then await r AfterOutcomeEvent w else complete_request r w)"
| "resume r AfterOutcomeEvent b w = complete_request r w"
| "resume r AfterComplete b w = (if fireGlobals (requests w ! r) then await r AfterCompleteEvent w else w)"
| "resume r AfterCompleteEvent b w = release_request r w"
| "resume r AfterStop b w = w"

text \<open>
  An exception leaves the calls one after the other; \<open>ajax\<close> catches what \<open>transport.send\<close> throws while the
  request is not done.
\<close>

definition unwind_one :: "nat \<Rightarrow> point \<Rightarrow> ajax_world \<Rightarrow> ajax_world" where
  "unwind_one r p w =
     (if p = AfterSend \<and> rstate (requests w ! r) < 2 then ajax_done r (w\<lparr>raising := False\<rparr>) else w)"

section \<open>Runs\<close>

text \<open>
  What a page and its browser can do. A function of the page returns, throws or catches an exception; any of them
  may start a request, abort one or change its settings; a transport calls \<open>done\<close> when it has been sent, at any time and any number of
  times; a timer runs when nothing else does.
\<close>

inductive ajax_step :: "ajax_world \<Rightarrow> ajax_world \<Rightarrow> bool" where
  starts: "\<not> raising w \<Longrightarrow> ajax_step w (ajax s w)"
| aborts: "\<not> raising w \<Longrightarrow> r < length (requests w) \<Longrightarrow> ajax_step w (ajax_abort r w)"
| configures: "\<not> raising w \<Longrightarrow> r < length (requests w) \<Longrightarrow>
    ajax_step w (put_request r ((requests w ! r)\<lparr>opts := s\<rparr>) w)"
| responds: "\<not> raising w \<Longrightarrow> r < length (requests w) \<Longrightarrow> sending (requests w ! r) \<Longrightarrow> ajax_step w (ajax_done r w)"
| times_out: "waiting w = [] \<Longrightarrow> \<not> raising w \<Longrightarrow> r < length (requests w) \<Longrightarrow> timer (requests w ! r) \<Longrightarrow>
    ajax_step w (ajax_abort r (put_request r ((requests w ! r)\<lparr>timer := False\<rparr>) w))"
| returns: "\<not> raising w \<Longrightarrow> waiting w = (r, p) # fs \<Longrightarrow> ajax_step w (resume r p b (w\<lparr>waiting := fs\<rparr>))"
| throws: "\<not> raising w \<Longrightarrow> ajax_step w (note_event Thrown (w\<lparr>raising := True\<rparr>))"
| unwinds: "raising w \<Longrightarrow> waiting w = (r, p) # fs \<Longrightarrow> ajax_step w (unwind_one r p (w\<lparr>waiting := fs\<rparr>))"
| catches: "raising w \<Longrightarrow> ajax_step w (w\<lparr>raising := False\<rparr>)"

inductive ajax_runs :: "ajax_world \<Rightarrow> ajax_world \<Rightarrow> bool" for w where
  refl: "ajax_runs w w"
| step: "ajax_runs w w1 \<Longrightarrow> ajax_step w1 w2 \<Longrightarrow> ajax_runs w w2"

section \<open>One request\<close>

fun life_point :: "point \<Rightarrow> bool" where
  "life_point p = (p \<in> {AfterPrefilters, AfterStart, AfterBeforeSend, AfterFactories, AfterAjaxSend, AfterSend})"

fun done_point :: "point \<Rightarrow> bool" where
  "done_point p = (p \<in> {AfterConvert, AfterSettle, AfterStatus, AfterOutcomeEvent, AfterComplete, AfterCompleteEvent, AfterStop})"

text \<open>What concerns a request: where the library waits for it, and what has happened to it.\<close>

definition points :: "ajax_world \<Rightarrow> nat \<Rightarrow> point list" where
  "points w r = map snd (filter (\<lambda>f. fst f = r) (waiting w))"

definition settles :: "ajax_world \<Rightarrow> nat \<Rightarrow> nat" where
  "settles w r = length (filter (\<lambda>e. \<exists>b. e = Settled r b) (happened w))"

definition completions :: "ajax_world \<Rightarrow> nat \<Rightarrow> nat" where
  "completions w r = length (filter ((=) (Completed r)) (happened w))"

definition sends :: "ajax_world \<Rightarrow> nat \<Rightarrow> nat" where
  "sends w r = length (filter ((=) (Sent r)) (happened w))"

text \<open>
  The invariant of a request: what the points at which the library waits say about it. The flag \<open>th\<close> says
  that an exception has been thrown; without one a request that is done is settled, completed and released in the end,
  and one that is not done has been sent or is still with \<open>ajax\<close>.
\<close>

fun stage_ok :: "point list \<Rightarrow> bool \<Rightarrow> bool \<Rightarrow> bool \<Rightarrow> nat \<Rightarrow> nat \<Rightarrow> bool" where
  "stage_ok [] th glob rel s c = (s \<le> 1 \<and> c \<le> s \<and> (\<not> th \<longrightarrow> s = 1 \<and> c = 1 \<and> rel = glob))"
| "stage_ok [AfterConvert] th glob rel s c = (s = 0 \<and> c = 0 \<and> \<not> rel)"
| "stage_ok [AfterSettle] th glob rel s c = (s = 1 \<and> c = 0 \<and> \<not> rel)"
| "stage_ok [AfterStatus] th glob rel s c = (s = 1 \<and> c = 0 \<and> \<not> rel)"
| "stage_ok [AfterOutcomeEvent] th glob rel s c = (s = 1 \<and> c = 0 \<and> \<not> rel)"
| "stage_ok [AfterComplete] th glob rel s c = (s = 1 \<and> c = 1 \<and> \<not> rel)"
| "stage_ok [AfterCompleteEvent] th glob rel s c = (s = 1 \<and> c = 1 \<and> \<not> rel \<and> glob)"
| "stage_ok [AfterStop] th glob rel s c = (s = 1 \<and> c = 1 \<and> rel \<and> glob)"
| "stage_ok ps th glob rel s c = False"

fun early_ok :: "point list \<Rightarrow> bool \<Rightarrow> request \<Rightarrow> bool" where
  "early_ok [] th q = (\<not> th \<and> rstate q \<noteq> 2 \<longrightarrow> sending q)"
| "early_ok [AfterPrefilters] th q = (\<not> fireGlobals q \<and> \<not> transport q \<and> \<not> sending q)"
| "early_ok [AfterStart] th q = (\<not> transport q \<and> \<not> sending q)"
| "early_ok [AfterBeforeSend] th q = (\<not> transport q \<and> \<not> sending q)"
| "early_ok [AfterFactories] th q = (\<not> transport q \<and> \<not> sending q)"
| "early_ok [AfterAjaxSend] th q = (\<not> sending q)"
| "early_ok [AfterSend] th q = sending q"
| "early_ok ps th q = False"

definition late_ok :: "point list \<Rightarrow> bool \<Rightarrow> request \<Rightarrow> nat \<Rightarrow> nat \<Rightarrow> bool" where
  "late_ok D th q s c \<longleftrightarrow>
     (if rstate q = 2 then stage_ok D th (fireGlobals q) (released q) s c
      else D = [] \<and> s = 0 \<and> c = 0 \<and> \<not> released q)"

definition request_ok :: "bool \<Rightarrow> request \<Rightarrow> point list \<Rightarrow> nat \<Rightarrow> nat \<Rightarrow> nat \<Rightarrow> bool" where
  "request_ok th q ps s c n \<longleftrightarrow>
     rstate q \<le> 2 \<and> (released q \<longrightarrow> fireGlobals q) \<and> n = of_bool (sending q)
     \<and> early_ok (filter life_point ps) th q \<and> late_ok (filter done_point ps) th q s c"

lemma stage_ok_thrown: "stage_ok D th g rel s c \<Longrightarrow> stage_ok D True g rel s c"
  by (induction D th g rel s c rule: stage_ok.induct) auto

lemma stage_ok_pop: "stage_ok (p # D) True g rel s c \<Longrightarrow> stage_ok D True g rel s c"
  by (cases p; cases D) auto

lemma early_ok_thrown: "early_ok E th q \<Longrightarrow> early_ok E True q"
  by (induction E th q rule: early_ok.induct) auto

lemma early_ok_pop: "early_ok (p # E) True q \<Longrightarrow> early_ok E True q"
  by (cases p; cases E) auto

lemma early_ok_same [simp]:
  "early_ok E th (q\<lparr>timer := b\<rparr>) = early_ok E th q" "early_ok E th (q\<lparr>opts := x\<rparr>) = early_ok E th q"
  "early_ok E th (q\<lparr>released := b\<rparr>) = early_ok E th q"
  by (induction E th q rule: early_ok.induct) auto

lemma early_ok_done:
  "early_ok E th q \<Longrightarrow> early_ok E th (q\<lparr>rstate := 2, timer := b, transport := False\<rparr>)"
  by (induction E th q rule: early_ok.induct) auto

lemma late_ok_thrown: "late_ok D th q s c \<Longrightarrow> late_ok D True q s c"
  by (auto simp: late_ok_def stage_ok_thrown split: if_splits)

lemma late_ok_pop: "late_ok (p # D) True q s c \<Longrightarrow> late_ok D True q s c"
  by (auto simp: late_ok_def dest: stage_ok_pop split: if_splits)

lemma request_ok_thrown: "request_ok th q ps s c n \<Longrightarrow> request_ok True q ps s c n"
  by (auto simp: request_ok_def early_ok_thrown late_ok_thrown)

lemma request_ok_pop: "request_ok True q (p # ps) s c n \<Longrightarrow> request_ok True q ps s c n"
  by (auto simp: request_ok_def dest: early_ok_pop late_ok_pop split: if_splits)

lemma request_ok_new:
  "request_ok th \<lparr>opts = s, rstate = 0, fireGlobals = False, transport = False, timer = False, sending = False, released = False\<rparr>
     [AfterPrefilters] 0 0 0"
  by (simp add: request_ok_def late_ok_def)

lemma request_ok_done:
  "request_ok th q ps s c n \<Longrightarrow> rstate q \<noteq> 2 \<Longrightarrow>
     request_ok th (q\<lparr>rstate := 2, timer := False, transport := False\<rparr>) (AfterConvert # ps) s c n"
  by (simp add: request_ok_def late_ok_def early_ok_done)

lemma request_ok_same [simp]:
  "request_ok th (q\<lparr>timer := b\<rparr>) ps s c n = request_ok th q ps s c n"
  "request_ok th (q\<lparr>opts := x\<rparr>) ps s c n = request_ok th q ps s c n"
  by (simp_all add: request_ok_def late_ok_def)

lemma request_ok_abort: "request_ok th q (AfterTransportAbort # ps) s c n = request_ok th q ps s c n"
  by (simp add: request_ok_def)

section \<open>The views\<close>

lemma requests_simps [simp]:
  "requests (await r p w) = requests w" "requests (note_event e w) = requests w"
  "requests (put_request r q w) = (requests w)[r := q]"
  by (simp_all add: await_def note_event_def put_request_def)

lemma waiting_simps [simp]:
  "waiting (await r p w) = (r, p) # waiting w" "waiting (note_event e w) = waiting w"
  "waiting (put_request r q w) = waiting w"
  by (simp_all add: await_def note_event_def put_request_def)

lemma happened_simps [simp]:
  "happened (await r p w) = happened w" "happened (note_event e w) = happened w @ [e]"
  "happened (put_request r q w) = happened w"
  by (simp_all add: await_def note_event_def put_request_def)

lemma other_simps [simp]:
  "active (await r p w) = active w" "active (note_event e w) = active w" "active (put_request r q w) = active w"
  "raising (await r p w) = raising w" "raising (note_event e w) = raising w" "raising (put_request r q w) = raising w"
  by (simp_all add: await_def note_event_def put_request_def)

lemma points_simps [simp]:
  "points (await r p w) r' = (if r' = r then p # points w r' else points w r')"
  "points (note_event e w) r' = points w r'" "points (put_request r q w) r' = points w r'"
  "points (w\<lparr>active := a\<rparr>) r' = points w r'" "points (w\<lparr>raising := b\<rparr>) r' = points w r'"
  "points (w\<lparr>requests := qs\<rparr>) r' = points w r'"
  by (simp_all add: points_def)

lemma counts_simps [simp]:
  "settles (await r p w) r' = settles w r'" "settles (put_request r q w) r' = settles w r'"
  "settles (w\<lparr>active := a\<rparr>) r' = settles w r'" "settles (w\<lparr>raising := b\<rparr>) r' = settles w r'"
  "settles (w\<lparr>requests := qs\<rparr>) r' = settles w r'" "settles (w\<lparr>waiting := fs\<rparr>) r' = settles w r'"
  "completions (await r p w) r' = completions w r'" "completions (put_request r q w) r' = completions w r'"
  "completions (w\<lparr>active := a\<rparr>) r' = completions w r'" "completions (w\<lparr>raising := b\<rparr>) r' = completions w r'"
  "completions (w\<lparr>requests := qs\<rparr>) r' = completions w r'" "completions (w\<lparr>waiting := fs\<rparr>) r' = completions w r'"
  "sends (await r p w) r' = sends w r'" "sends (put_request r q w) r' = sends w r'"
  "sends (w\<lparr>active := a\<rparr>) r' = sends w r'" "sends (w\<lparr>raising := b\<rparr>) r' = sends w r'"
  "sends (w\<lparr>requests := qs\<rparr>) r' = sends w r'" "sends (w\<lparr>waiting := fs\<rparr>) r' = sends w r'"
  by (simp_all add: settles_def completions_def sends_def)

lemma counts_note [simp]:
  "settles (note_event e w) r = (if \<exists>b. e = Settled r b then settles w r + 1 else settles w r)"
  "completions (note_event e w) r = (if e = Completed r then completions w r + 1 else completions w r)"
  "sends (note_event e w) r = (if e = Sent r then sends w r + 1 else sends w r)"
  by (auto simp: settles_def completions_def sends_def)

text \<open>The invariant of a world, but for its counter.\<close>

definition thrown :: "ajax_world \<Rightarrow> bool" where
  "thrown w \<longleftrightarrow> Thrown \<in> set (happened w)"

lemma thrown_simps [simp]:
  "thrown (await r p w) = thrown w" "thrown (put_request r q w) = thrown w" "thrown (w\<lparr>active := a\<rparr>) = thrown w"
  "thrown (w\<lparr>raising := b\<rparr>) = thrown w" "thrown (w\<lparr>requests := qs\<rparr>) = thrown w" "thrown (w\<lparr>waiting := fs\<rparr>) = thrown w"
  "thrown (note_event e w) = (e = Thrown \<or> thrown w)"
  by (auto simp: thrown_def)

definition view_ok :: "ajax_world \<Rightarrow> nat \<Rightarrow> bool" where
  "view_ok w r \<longleftrightarrow> request_ok (thrown w) (requests w ! r) (points w r) (settles w r) (completions w r) (sends w r)"

definition requests_ok :: "ajax_world \<Rightarrow> bool" where
  "requests_ok w \<longleftrightarrow> (\<forall>r < length (requests w). view_ok w r)
     \<and> (\<forall>r \<ge> length (requests w). points w r = [] \<and> settles w r = 0 \<and> completions w r = 0 \<and> sends w r = 0)
     \<and> (raising w \<longrightarrow> thrown w)"

text \<open>Everything that the library does for a request leaves the others alone.\<close>

definition same_else :: "nat \<Rightarrow> ajax_world \<Rightarrow> ajax_world \<Rightarrow> bool" where
  "same_else r w w' \<longleftrightarrow> length (requests w') = length (requests w) \<and> thrown w' = thrown w \<and> raising w' = raising w
     \<and> (\<forall>r'. r' \<noteq> r \<longrightarrow> requests w' ! r' = requests w ! r' \<and> points w' r' = points w r' \<and> settles w' r' = settles w r'
           \<and> completions w' r' = completions w r' \<and> sends w' r' = sends w r')"

lemma same_else_refl [simp]: "same_else r w w"
  by (simp add: same_else_def)

lemma same_else_simps [simp]:
  "same_else r w (await r p w') = same_else r w w'" "same_else r w (put_request r q w') = same_else r w w'"
  "same_else r w (w'\<lparr>active := a\<rparr>) = same_else r w w'"
  "same_else r w (note_event (Settled r b) w') = same_else r w w'" "same_else r w (note_event (Completed r) w') = same_else r w w'"
  "same_else r w (note_event (Sent r) w') = same_else r w w'" "same_else r w (note_event (AjaxSend r) w') = same_else r w w'"
  "same_else r w (note_event AjaxStart w') = same_else r w w'" "same_else r w (note_event AjaxStop w') = same_else r w w'"
  by (auto simp: same_else_def)

lemma same_else_done [simp]: "same_else r w (ajax_done r w') = same_else r w w'"
  by (simp add: ajax_done_def Let_def)

lemma same_else_abort [simp]: "same_else r w (ajax_abort r w') = same_else r w w'"
  by (simp add: ajax_abort_def)

lemma same_else_parts [simp]:
  "same_else r w (send_request r w') = same_else r w w'" "same_else r w (before_send r w') = same_else r w w'"
  "same_else r w (complete_request r w') = same_else r w w'"
  by (simp_all add: send_request_def before_send_def complete_request_def Let_def)

lemma same_else_resume [simp]: "same_else r w (resume r p b w)"
  by (cases p) (simp_all add: Let_def)

lemma requests_ok_at:
  assumes "requests_ok w" and "same_else r w w'" and "r < length (requests w)" and "view_ok w' r"
  shows "requests_ok w'"
  using assms by (auto simp: requests_ok_def same_else_def view_ok_def)

lemma view_ok_put:
  assumes "r < length (requests w)"
  shows "view_ok (put_request r q w) r = request_ok (thrown w) q (points w r) (settles w r) (completions w r) (sends w r)"
  using assms by (simp add: view_ok_def)

lemma view_ok_done:
  assumes "r < length (requests w)" and "view_ok w r"
  shows "view_ok (ajax_done r w) r"
  using assms request_ok_done [of "thrown w" "requests w ! r"] by (auto simp: view_ok_def ajax_done_def Let_def)

lemma view_ok_abort:
  assumes "r < length (requests w)" and "view_ok w r"
  shows "view_ok (ajax_abort r w) r"
  using assms view_ok_done [OF assms] by (auto simp: ajax_abort_def view_ok_def request_ok_abort)

text \<open>The library goes on at a point.\<close>

lemma early_okD:
  assumes "early_ok (p # E) th q" and "life_point p"
  shows "E = []"
  using assms by (cases p; cases E) auto

lemma early_send: "\<not> sending q \<Longrightarrow> rstate q \<noteq> 2 \<Longrightarrow> early_ok [AfterSend] th (q\<lparr>timer := b, rstate := 1, sending := True\<rparr>)"
  by simp

lemma stage_okD:
  assumes "stage_ok (p # D) th g rel s c"
  shows "D = []"
  using assms by (cases p; cases D) auto

lemma late_okD: "late_ok (p # D) th q s c \<Longrightarrow> D = [] \<and> rstate q = 2"
  by (auto simp: late_ok_def dest: stage_okD split: if_splits)

lemma view_ok_resume:
  assumes "r < length (requests w)"
    and "request_ok (thrown w) (requests w ! r) (p # points w r) (settles w r) (completions w r) (sends w r)"
  shows "view_ok (resume r p b w) r"
proof (cases "life_point p")
  case True
  define q D where "q = requests w ! r" and "D = filter done_point (points w r)"
  have *: "early_ok (p # filter life_point (points w r)) (thrown w) q"
    using assms(2) True by (simp add: request_ok_def q_def)
  then have E: "filter life_point (points w r) = []" using True by (rule early_okD)
  have "\<not> done_point p" using True by (cases p) simp_all
  then have late: "late_ok D (thrown w) q (settles w r) (completions w r)"
    and rest: "rstate q \<le> 2" "released q \<longrightarrow> fireGlobals q" "sends w r = of_bool (sending q)"
    using assms(2) True by (simp_all add: request_ok_def q_def D_def)
  have early: "early_ok [p] (thrown w) q" using * E by simp
  show ?thesis
    using True assms(1) E early late rest by (cases p)
      (auto simp: view_ok_def request_ok_def before_send_def send_request_def ajax_abort_def ajax_done_def
        late_ok_def Let_def split: if_splits simp flip: q_def D_def)
next
  case False
  show ?thesis
  proof (cases "p = AfterTransportAbort")
    case True
    with assms have "view_ok w r" by (simp add: view_ok_def request_ok_abort)
    with assms(1) True show ?thesis by (simp add: view_ok_done)
  next
    case other: False
    with False have "done_point p" by (cases p) simp_all
    with assms(2) False have "filter done_point (points w r) = []" and "rstate (requests w ! r) = 2"
      using late_okD [of p "filter done_point (points w r)"] by (auto simp: request_ok_def)
    with assms \<open>done_point p\<close> False show ?thesis
      by (cases p) (auto simp: view_ok_def complete_request_def request_ok_def late_ok_def Let_def)
  qed
qed

lemma requests_ok_view: "requests_ok w \<Longrightarrow> r < length (requests w) \<Longrightarrow> view_ok w r"
  by (simp add: requests_ok_def)

lemma requests_ok_index:
  assumes "requests_ok w" and "points w r \<noteq> []"
  shows "r < length (requests w)"
proof (rule ccontr)
  assume "\<not> r < length (requests w)"
  with assms show False by (simp add: requests_ok_def)
qed

lemma requests_ok_done: "requests_ok w \<Longrightarrow> r < length (requests w) \<Longrightarrow> requests_ok (ajax_done r w)"
  by (rule requests_ok_at [of w r]) (simp_all add: view_ok_done requests_ok_view)

lemma requests_ok_abort: "requests_ok w \<Longrightarrow> r < length (requests w) \<Longrightarrow> requests_ok (ajax_abort r w)"
  by (rule requests_ok_at [of w r]) (simp_all add: view_ok_abort requests_ok_view)

lemma requests_ok_put:
  assumes "requests_ok w" and "r < length (requests w)"
    and "\<And>th ps s c n. request_ok th q ps s c n = request_ok th (requests w ! r) ps s c n"
  shows "requests_ok (put_request r q w)"
proof (rule requests_ok_at [OF assms(1) _ assms(2)])
  show "view_ok (put_request r q w) r"
    using requests_ok_view [OF assms(1,2)] assms(3) by (simp add: view_ok_put [OF assms(2)]) (simp add: view_ok_def)
qed simp

lemma requests_ok_ajax: "requests_ok w \<Longrightarrow> requests_ok (ajax s w)"
  by (auto simp: requests_ok_def ajax_def view_ok_def request_ok_new nth_append less_Suc_eq)

lemma requests_ok_step:
  assumes "requests_ok w" and "ajax_step w w'"
  shows "requests_ok w'"
  using assms(2)
proof cases
  case (starts s)
  with assms(1) show ?thesis by (simp add: requests_ok_ajax)
next
  case (aborts r)
  with assms(1) show ?thesis by (simp add: requests_ok_abort)
next
  case (configures r s)
  with requests_ok_put [OF assms(1), of r "(requests w ! r)\<lparr>opts := s\<rparr>"] show ?thesis by simp
next
  case (responds r)
  with assms(1) show ?thesis by (simp add: requests_ok_done)
next
  case (times_out r)
  with requests_ok_put [OF assms(1), of r "(requests w ! r)\<lparr>timer := False\<rparr>"] show ?thesis
    by (simp add: requests_ok_abort)
next
  case (returns r p fs b)
  let ?w = "w\<lparr>waiting := fs\<rparr>"
  have points: "points w r' = (if r' = r then p # points ?w r' else points ?w r')" for r'
    using returns by (simp add: points_def)
  have r: "r < length (requests w)"
    using points [of r] by (intro requests_ok_index [OF assms(1)]) simp
  have "request_ok (thrown w) (requests w ! r) (p # points ?w r) (settles w r) (completions w r) (sends w r)"
    using requests_ok_view [OF assms(1) r] points [of r] by (simp add: view_ok_def)
  with r have "view_ok (resume r p b ?w) r" by (intro view_ok_resume) simp_all
  moreover have "same_else r w ?w"
    using points by (simp add: same_else_def)
  then have "same_else r w (resume r p b ?w)"
    using same_else_resume [of r ?w p b] by (simp add: same_else_def)
  ultimately show ?thesis
    using returns r by (auto intro: requests_ok_at [OF assms(1)])
next
  case throws
  with assms(1) show ?thesis
    by (auto simp: requests_ok_def view_ok_def intro: request_ok_thrown)
next
  case (unwinds r p fs)
  let ?w = "w\<lparr>waiting := fs\<rparr>"
  have th: "thrown w" using assms(1) unwinds by (simp add: requests_ok_def)
  have points: "points w r' = (if r' = r then p # points ?w r' else points ?w r')" for r'
    using unwinds by (simp add: points_def)
  have r: "r < length (requests w)"
    using points [of r] by (intro requests_ok_index [OF assms(1)]) simp
  have "view_ok ?w r"
    using requests_ok_view [OF assms(1) r] points [of r] th by (simp add: view_ok_def request_ok_pop)
  moreover have "view_ok ?w r'" if "r' \<noteq> r" "r' < length (requests w)" for r'
    using requests_ok_view [OF assms(1) that(2)] points [of r'] that by (simp add: view_ok_def)
  ultimately have "view_ok ?w r'" if "r' < length (requests w)" for r'
    using that by (cases "r' = r") simp_all
  moreover have "points ?w r' = []" if "\<not> r' < length (requests w)" for r'
    using requests_ok_index [OF assms(1), of r'] that points [of r'] by (auto split: if_splits)
  ultimately have ok: "requests_ok ?w"
    using assms(1) by (simp add: requests_ok_def)
  then have ok': "requests_ok (?w\<lparr>raising := False\<rparr>)"
    using th by (auto simp: requests_ok_def view_ok_def)
  have "requests_ok (ajax_done r (?w\<lparr>raising := False\<rparr>))"
    using r ok' by (simp add: requests_ok_done)
  with ok unwinds show ?thesis by (simp add: unwind_one_def)
next
  case catches
  with assms(1) show ?thesis by (auto simp: requests_ok_def view_ok_def)
qed

lemma requests_ok_new: "requests_ok new_world"
  by (simp add: requests_ok_def new_world_def points_def settles_def completions_def sends_def)

lemma requests_ok_runs: "ajax_runs new_world w \<Longrightarrow> requests_ok w"
  by (induction rule: ajax_runs.induct) (auto intro: requests_ok_new requests_ok_step)

section \<open>The counter of active requests\<close>

text \<open>
  A request counts from the prefilters until \<open>ajaxComplete\<close> has been triggered, if \<open>global\<close> was set. The events \<open>ajaxStart\<close> and
  \<open>ajaxStop\<close> that have been triggered say whether the page was told last that requests are active.
\<close>

definition counted :: "request \<Rightarrow> bool" where
  "counted q = (fireGlobals q \<and> \<not> released q)"

fun announced :: "bool \<Rightarrow> ajax_event list \<Rightarrow> bool option" where
  "announced b [] = Some b"
| "announced b (AjaxStart # es) = (if b then None else announced True es)"
| "announced b (AjaxStop # es) = (if b then announced False es else None)"
| "announced b (e # es) = announced b es"

lemma announced_append:
  "announced b (es @ fs) = (case announced b es of None \<Rightarrow> None | Some c \<Rightarrow> announced c fs)"
  by (induction b es rule: announced.induct) simp_all

definition counter_ok :: "ajax_world \<Rightarrow> bool" where
  "counter_ok w \<longleftrightarrow> active w = int (length (filter counted (requests w)))
     \<and> announced False (happened w) = Some (active w \<noteq> 0)"

lemma length_filter_update:
  "i < length xs \<Longrightarrow>
     int (length (filter P (xs[i := y]))) = int (length (filter P xs)) - of_bool (P (xs ! i)) + of_bool (P y)"
proof (induction xs arbitrary: i)
  case (Cons x xs)
  then show ?case by (cases i) simp_all
qed simp

lemma counter_ok_simps [simp]:
  "counter_ok (await r p w) = counter_ok w" "counter_ok (w\<lparr>waiting := fs\<rparr>) = counter_ok w"
  "counter_ok (w\<lparr>raising := b\<rparr>) = counter_ok w"
  "counter_ok (note_event (AjaxSend r) w) = counter_ok w" "counter_ok (note_event (Sent r) w) = counter_ok w"
  "counter_ok (note_event (Settled r b) w) = counter_ok w" "counter_ok (note_event (Completed r) w) = counter_ok w"
  "counter_ok (note_event Thrown w) = counter_ok w"
  by (simp_all add: counter_ok_def announced_append split: option.splits)

lemma counter_ok_put [simp]:
  "r < length (requests w) \<Longrightarrow> counted q = counted (requests w ! r) \<Longrightarrow> counter_ok (put_request r q w) = counter_ok w"
  by (simp add: counter_ok_def length_filter_update)

lemma counter_ok_done [simp]: "r < length (requests w) \<Longrightarrow> counter_ok (ajax_done r w) = counter_ok w"
  by (simp add: ajax_done_def Let_def counted_def)

lemma counter_ok_abort [simp]: "r < length (requests w) \<Longrightarrow> counter_ok (ajax_abort r w) = counter_ok w"
  by (simp add: ajax_abort_def)

lemma counter_ok_parts [simp]:
  "r < length (requests w) \<Longrightarrow> counter_ok (send_request r w) = counter_ok w"
  "counter_ok (before_send r w) = counter_ok w" "counter_ok (complete_request r w) = counter_ok w"
  by (simp_all add: send_request_def before_send_def complete_request_def Let_def counted_def)

lemma counter_ok_ajax [simp]: "counter_ok (ajax s w) = counter_ok w"
  by (simp add: ajax_def counter_ok_def counted_def)

text \<open>What the request is like at the two points that change the counter.\<close>

lemma at_prefilters:
  assumes "request_ok th q (AfterPrefilters # ps) s c n" and "rstate q \<noteq> 2"
  shows "\<not> fireGlobals q \<and> \<not> released q"
proof -
  have "early_ok (AfterPrefilters # filter life_point ps) th q" using assms(1) by (simp add: request_ok_def)
  moreover from this have "filter life_point ps = []" by (rule early_okD) simp
  ultimately show ?thesis using assms by (simp add: request_ok_def late_ok_def)
qed

lemma at_complete_event:
  assumes "request_ok th q (AfterCompleteEvent # ps) s c n"
  shows "counted q"
proof -
  have *: "late_ok (AfterCompleteEvent # filter done_point ps) th q s c" using assms by (simp add: request_ok_def)
  with late_okD [OF *] show ?thesis by (simp add: late_ok_def counted_def)
qed

lemma counter_ok_resume:
  assumes "r < length (requests w)" and "counter_ok w"
    and "request_ok th (requests w ! r) (p # ps) s c n"
  shows "counter_ok (resume r p b w)"
proof (cases p)
  case AfterPrefilters
  with assms at_prefilters [of th "requests w ! r" ps s c n] show ?thesis
    by (auto simp: Let_def counter_ok_def length_filter_update counted_def announced_append note_event_def
        before_send_def await_def put_request_def)
next
  case AfterCompleteEvent
  with assms(3) have "counted (requests w ! r)" by (simp add: at_complete_event)
  moreover from this assms(1) have "filter counted (requests w) \<noteq> []" by (auto simp: filter_empty_conv intro!: bexI [OF _ nth_mem])
  ultimately show ?thesis
    using assms AfterCompleteEvent
    by (auto simp: Let_def counter_ok_def length_filter_update counted_def announced_append note_event_def
        await_def put_request_def)
qed (use assms in \<open>simp_all add: Let_def counted_def\<close>)

lemma waiting_index:
  assumes "requests_ok w" and "waiting w = (r, p) # fs"
  shows "r < length (requests w)"
    and "request_ok (thrown w) (requests w ! r) (p # points (w\<lparr>waiting := fs\<rparr>) r) (settles w r) (completions w r) (sends w r)"
proof -
  have *: "points w r = p # points (w\<lparr>waiting := fs\<rparr>) r" using assms(2) by (simp add: points_def)
  then show "r < length (requests w)" by (intro requests_ok_index [OF assms(1)]) simp
  from requests_ok_view [OF assms(1) this] *
  show "request_ok (thrown w) (requests w ! r) (p # points (w\<lparr>waiting := fs\<rparr>) r) (settles w r) (completions w r) (sends w r)"
    by (simp add: view_ok_def)
qed

lemma counter_ok_step:
  assumes "requests_ok w" and "counter_ok w" and "ajax_step w w'"
  shows "counter_ok w'"
  using assms(3)
proof cases
  case (returns r p fs b)
  with waiting_index [OF assms(1) returns(3)] assms(2) show ?thesis
    by (auto intro: counter_ok_resume)
next
  case (unwinds r p fs)
  with waiting_index(1) [OF assms(1) unwinds(3)] assms(2) show ?thesis by (simp add: unwind_one_def)
qed (use assms(2) in \<open>simp_all add: counted_def\<close>)

lemma counter_ok_runs: "ajax_runs new_world w \<Longrightarrow> counter_ok w"
proof (induction rule: ajax_runs.induct)
  case refl
  show ?case by (simp add: counter_ok_def new_world_def)
next
  case (step w1 w2)
  then show ?case using requests_ok_runs counter_ok_step by blast
qed


section \<open>Properties\<close>

lemma stage_ok_counts: "stage_ok D th g rel s c \<Longrightarrow> s \<le> 1 \<and> c \<le> s"
  by (induction D th g rel s c rule: stage_ok.induct) auto

lemma request_ok_counts:
  "request_ok th q ps s c n \<Longrightarrow> s \<le> 1 \<and> c \<le> s \<and> n \<le> 1 \<and> (rstate q \<noteq> 2 \<longrightarrow> s = 0)"
  by (auto simp: request_ok_def late_ok_def dest: stage_ok_counts split: if_splits)

lemma request_ok_end:
  "request_ok False q [] s c n \<Longrightarrow>
     (if rstate q = 2 then s = 1 \<and> c = 1 \<and> released q = fireGlobals q else n = 1 \<and> s = 0)"
  by (auto simp: request_ok_def late_ok_def)

text \<open>C10: Whatever the functions of the page do, a request is sent at most once, its deferred is settled at most once and only
  when it is done, and it is completed at most once and only after that. As long as nothing has thrown, when the page
  has nothing to do every request that is done has been settled, completed and, if it had been counted, taken off
  the counter, and every other one has been sent and is left to its transport.
\<close>

theorem request_life:
  assumes "ajax_runs new_world w" and "r < length (requests w)"
  shows "sends w r \<le> 1 \<and> settles w r \<le> 1 \<and> completions w r \<le> settles w r
    \<and> (rstate (requests w ! r) \<noteq> 2 \<longrightarrow> settles w r = 0)
    \<and> (\<not> thrown w \<and> waiting w = [] \<longrightarrow>
        (if rstate (requests w ! r) = 2
         then settles w r = 1 \<and> completions w r = 1 \<and> released (requests w ! r) = fireGlobals (requests w ! r)
         else sends w r = 1))"
proof -
  have *: "request_ok (thrown w) (requests w ! r) (points w r) (settles w r) (completions w r) (sends w r)"
    using requests_ok_view [OF requests_ok_runs [OF assms(1)] assms(2)] by (simp add: view_ok_def)
  have "if rstate (requests w ! r) = 2
         then settles w r = 1 \<and> completions w r = 1 \<and> released (requests w ! r) = fireGlobals (requests w ! r)
         else sends w r = 1 \<and> settles w r = 0" if "\<not> thrown w" "waiting w = []"
    using * that by (intro request_ok_end) (simp add: points_def)
  with request_ok_counts [OF *] show ?thesis by (auto split: if_splits)
qed

text \<open>C11: \<open>jQuery.active\<close> is at any time the number of requests that have been counted and not been taken off, and
  \<open>ajaxStart\<close> and \<open>ajaxStop\<close> are triggered by turns, so that the last of them says whether the counter is positive.
  As long as nothing has thrown, the counter is back at zero when nothing is waiting and every request is done.
\<close>

theorem active_counts_requests:
  assumes "ajax_runs new_world w"
  shows "active w = int (length (filter counted (requests w)))
    \<and> announced False (happened w) = Some (active w \<noteq> 0)
    \<and> (\<not> thrown w \<and> waiting w = [] \<and> (\<forall>q \<in> set (requests w). rstate q = 2) \<longrightarrow> active w = 0)"
proof -
  have ok: "requests_ok w" and counter: "counter_ok w"
    using assms by (simp_all add: requests_ok_runs counter_ok_runs)
  have "\<not> counted (requests w ! r)"
    if "\<not> thrown w" "waiting w = []" "\<forall>q \<in> set (requests w). rstate q = 2" "r < length (requests w)" for r
    using requests_ok_view [OF ok that(4)] request_ok_end [of "requests w ! r"] that
    by (force simp: view_ok_def points_def counted_def)
  then have "filter counted (requests w) = []"
    if "\<not> thrown w" "waiting w = []" "\<forall>q \<in> set (requests w). rstate q = 2"
    using that by (auto simp: filter_empty_conv in_set_conv_nth)
  with counter show ?thesis by (auto simp: counter_ok_def)
qed

text \<open>A request that an exception has left done, counted and without anything that waits to finish it.\<close>

definition left_open :: "nat \<Rightarrow> ajax_world \<Rightarrow> bool" where
  "left_open r w \<longleftrightarrow> r < length (requests w) \<and> rstate (requests w ! r) = 2 \<and> counted (requests w ! r)
     \<and> filter done_point (points w r) = []"

definition announcements :: "ajax_world \<Rightarrow> ajax_event list" where
  "announcements w = filter (\<lambda>e. e = AjaxStart \<or> e = AjaxStop) (happened w)"

lemma left_open_simps [simp]:
  "left_open r (note_event e w) = left_open r w" "left_open r (w\<lparr>active := a\<rparr>) = left_open r w"
  "left_open r (w\<lparr>raising := b\<rparr>) = left_open r w"
  "left_open r (await r' p w) = (left_open r w \<and> (r' = r \<longrightarrow> \<not> done_point p))"
  by (auto simp: left_open_def)

lemma left_open_put [simp]:
  assumes "counted q = counted (requests w ! r')" and "rstate q = rstate (requests w ! r')"
  shows "left_open r (put_request r' q w) = left_open r w"
  using assms by (cases "r' = r"; cases "r' < length (requests w)") (simp_all add: left_open_def)

lemma left_open_done [simp]: "left_open r w \<Longrightarrow> ajax_done r w = w"
  by (simp add: left_open_def ajax_done_def)

lemma left_open_else: "same_else r' w w' \<Longrightarrow> r' \<noteq> r \<Longrightarrow> left_open r w \<Longrightarrow> left_open r w'"
  by (simp add: left_open_def same_else_def)

lemma left_open_abort: "left_open r w \<Longrightarrow> left_open r (ajax_abort r' w)"
  by (cases "r' = r") (auto simp: ajax_abort_def intro: left_open_else [of r' w])

lemma left_open_other_done: "left_open r w \<Longrightarrow> left_open r (ajax_done r' w)"
  by (cases "r' = r") (auto intro: left_open_else [of r' w])

lemma left_open_pop: "left_open r w \<Longrightarrow> waiting w = (r', p) # fs \<Longrightarrow> left_open r (w\<lparr>waiting := fs\<rparr>)"
  by (auto simp: left_open_def points_def split: if_splits)

lemma left_open_point: "left_open r w \<Longrightarrow> waiting w = (r, p) # fs \<Longrightarrow> \<not> done_point p"
  by (auto simp: left_open_def points_def split: if_splits)

lemma left_open_resume:
  assumes "left_open r w" and "\<not> done_point p"
  shows "left_open r (resume r p b w)"
proof -
  have "rstate (requests w ! r) = 2" and "r < length (requests w)" using assms(1) by (simp_all add: left_open_def)
  with assms show ?thesis
    by (cases p) (simp_all add: Let_def before_send_def send_request_def left_open_abort counted_def)
qed

lemma left_open_step:
  assumes "left_open r w" and "ajax_step w w'"
  shows "left_open r w'"
  using assms(2)
proof cases
  case (starts s)
  with assms(1) show ?thesis by (auto simp: left_open_def ajax_def nth_append)
next
  case (returns r' p fs b)
  note pop = left_open_pop [OF assms(1) returns(3)]
  show ?thesis
  proof (cases "r' = r")
    case True
    with pop left_open_point [OF assms(1)] returns show ?thesis by (simp add: left_open_resume del: done_point.simps)
  next
    case False
    with pop returns show ?thesis by (auto intro: left_open_else [OF same_else_resume])
  qed
next
  case (unwinds r' p fs)
  then show ?thesis
    using left_open_pop [OF assms(1) unwinds(3)] by (simp add: unwind_one_def left_open_other_done)
qed (use assms(1) in \<open>simp_all add: left_open_abort left_open_other_done counted_def\<close>)

lemma announcements_simps [simp]:
  "announcements (await r p w) = announcements w" "announcements (put_request r q w) = announcements w"
  "announcements (w\<lparr>active := a\<rparr>) = announcements w" "announcements (w\<lparr>raising := b\<rparr>) = announcements w"
  "announcements (w\<lparr>requests := qs\<rparr>) = announcements w" "announcements (w\<lparr>waiting := fs\<rparr>) = announcements w"
  "e \<noteq> AjaxStart \<Longrightarrow> e \<noteq> AjaxStop \<Longrightarrow> announcements (note_event e w) = announcements w"
  by (simp_all add: announcements_def)

lemma announcements_parts [simp]:
  "announcements (ajax_done r w) = announcements w" "announcements (ajax_abort r w) = announcements w"
  "announcements (ajax s w) = announcements w" "announcements (send_request r w) = announcements w"
  "announcements (before_send r w) = announcements w" "announcements (complete_request r w) = announcements w"
  by (simp_all add: ajax_done_def ajax_abort_def ajax_def send_request_def before_send_def complete_request_def Let_def)

lemma announcements_resume:
  "announcements (resume r p b w) = announcements w \<or> active w = 0 \<or> active (resume r p b w) = 0"
  by (cases p) (auto simp: Let_def)

lemma announcements_step:
  assumes "ajax_step w w'"
  shows "announcements w' = announcements w \<or> active w = 0 \<or> active w' = 0"
  using assms
proof cases
  case (returns r p fs b)
  then show ?thesis using announcements_resume [of r p b "w\<lparr>waiting := fs\<rparr>"] by simp
qed (simp_all add: unwind_one_def)

lemma left_open_active:
  assumes "counter_ok w" and "left_open r w"
  shows "active w \<noteq> 0"
proof -
  have "requests w ! r \<in> set (filter counted (requests w))" using assms(2) by (auto simp: left_open_def)
  then have "filter counted (requests w) \<noteq> []" by (metis empty_iff list.set(1))
  with assms(1) show ?thesis by (simp add: counter_ok_def)
qed

lemma left_open_runs:
  assumes "ajax_runs w w'" and "requests_ok w" and "counter_ok w" and "left_open r w"
  shows "requests_ok w' \<and> counter_ok w' \<and> left_open r w' \<and> announcements w' = announcements w"
  using assms
proof (induction rule: ajax_runs.induct)
  case (step w1 w2)
  then have before: "requests_ok w1" "counter_ok w1" "left_open r w1" "announcements w1 = announcements w" by simp_all
  with step.hyps(2) have after: "requests_ok w2" "counter_ok w2" "left_open r w2"
    using requests_ok_step counter_ok_step left_open_step by blast+
  with before announcements_step [OF step.hyps(2)] left_open_active show ?case by auto
qed simp

text \<open>C38: An exception that leaves a callback while \<open>done\<close> runs leaves the request on the counter: from then on \<open>jQuery.active\<close>
  never gets back to zero and neither \<open>ajaxStop\<close> nor \<open>ajaxStart\<close> is triggered again, whatever else happens on the page.
\<close>

theorem exception_silences_ajaxStop:
  assumes "ajax_runs new_world w" and "r < length (requests w)" and "rstate (requests w ! r) = 2"
    and "fireGlobals (requests w ! r)" and "\<not> released (requests w ! r)" and "filter done_point (points w r) = []"
    and "ajax_runs w w'"
  shows "active w' \<ge> 1 \<and> announcements w' = announcements w"
proof -
  have "left_open r w" using assms(2-6) by (simp add: left_open_def counted_def)
  then have *: "counter_ok w' \<and> left_open r w' \<and> announcements w' = announcements w"
    using left_open_runs [OF assms(7)] requests_ok_runs counter_ok_runs assms(1) by blast
  then have "active w' \<noteq> 0" using left_open_active by blast
  with * show ?thesis by (simp add: counter_ok_def Suc_le_eq)
qed

section \<open>Sample runs\<close>

definition go :: "bool \<Rightarrow> ajax_world \<Rightarrow> ajax_world" where
  "go b w = (case waiting w of [] \<Rightarrow> w | (r, p) # fs \<Rightarrow> resume r p b (w\<lparr>waiting := fs\<rparr>))"

lemma runs_go: "ajax_runs w w1 \<Longrightarrow> \<not> raising w1 \<Longrightarrow> ajax_runs w (go b w1)"
  by (auto simp: go_def intro: ajax_runs.step ajax_step.returns split: list.splits)

lemma raising_resume: "raising (resume r p b w) = raising w"
  using same_else_resume [of r w p b] by (simp add: same_else_def)

lemma raising_go [simp]: "raising (go b w) = raising w"
  by (simp add: go_def raising_resume split: list.splits)

lemma runs_goes: "ajax_runs w w1 \<Longrightarrow> \<not> raising w1 \<Longrightarrow> ajax_runs w (foldr go bs w1) \<and> \<not> raising (foldr go bs w1)"
  by (induction bs) (auto intro: runs_go)

text \<open>A request with global events: it is sent, answered and completed, or a callback of its deferred throws.\<close>

definition sample_settings :: settings where
  "sample_settings = \<lparr>opt_global = True, opt_beforeSend = False, opt_timeout = False\<rparr>"

definition sample_sent :: ajax_world where
  "sample_sent = foldr go [True, True, True, True, True] (ajax sample_settings new_world)"

definition sample_completed :: ajax_world where
  "sample_completed = foldr go [True, True, True, True, True, True, True] (ajax_done 0 sample_sent)"

definition sample_thrown :: ajax_world where
  "sample_thrown =
     (let w = note_event Thrown ((go True (ajax_done 0 sample_sent))\<lparr>raising := True\<rparr>)
      in w\<lparr>waiting := [], raising := False\<rparr>)"

lemma sample_sent_runs: "ajax_runs new_world sample_sent \<and> \<not> raising sample_sent"
  unfolding sample_sent_def
  by (rule runs_goes, rule ajax_runs.step [OF ajax_runs.refl ajax_step.starts])
    (simp_all add: new_world_def ajax_def await_def)

lemma sample_done_runs: "ajax_runs new_world (ajax_done 0 sample_sent) \<and> \<not> raising (ajax_done 0 sample_sent)"
proof -
  have "0 < length (requests sample_sent)" "sending (requests sample_sent ! 0)" by code_simp+
  then have "ajax_step sample_sent (ajax_done 0 sample_sent)"
    using sample_sent_runs by (intro ajax_step.responds) simp_all
  moreover have "\<not> raising (ajax_done 0 sample_sent)" by code_simp
  ultimately show ?thesis using sample_sent_runs by (auto intro: ajax_runs.step)
qed

lemma sample_completed_runs: "ajax_runs new_world sample_completed"
  unfolding sample_completed_def using runs_goes sample_done_runs by blast

lemma sample_thrown_runs: "ajax_runs new_world sample_thrown"
proof -
  define w where "w = go True (ajax_done 0 sample_sent)"
  define w1 where "w1 = note_event Thrown (w\<lparr>raising := True\<rparr>)"
  have runs: "ajax_runs new_world w" "\<not> raising w"
    using runs_go sample_done_runs by (auto simp: w_def)
  have waiting: "waiting w = [(0, AfterSettle)]" unfolding w_def by code_simp
  have "ajax_runs new_world w1" unfolding w1_def by (rule ajax_runs.step [OF runs(1) ajax_step.throws [OF runs(2)]])
  moreover have "ajax_step w1 (unwind_one 0 AfterSettle (w1\<lparr>waiting := []\<rparr>))"
    by (rule ajax_step.unwinds) (simp_all add: w1_def waiting)
  ultimately have "ajax_runs new_world (w1\<lparr>waiting := []\<rparr>)" by (auto simp: unwind_one_def intro: ajax_runs.step)
  then have "ajax_runs new_world (w1\<lparr>waiting := []\<rparr>\<lparr>raising := False\<rparr>)"
    by (rule ajax_runs.step) (rule ajax_step.catches, simp add: w1_def)
  then show ?thesis by (simp add: sample_thrown_def w1_def w_def Let_def)
qed

theorem request_life_witness:
  "ajax_runs new_world sample_completed \<and> settles sample_completed 0 = 1 \<and> completions sample_completed 0 = 1
    \<and> sends sample_completed 0 = 1"
proof -
  have "0 < length (requests sample_completed)" "\<not> thrown sample_completed" "waiting sample_completed = []"
    "rstate (requests sample_completed ! 0) = 2" "sends sample_completed 0 = 1"
    by code_simp+
  with request_life [OF sample_completed_runs, of 0] sample_completed_runs show ?thesis by simp
qed

theorem active_counts_requests_witness:
  "ajax_runs new_world sample_completed \<and> active sample_completed = 0
    \<and> announced False (happened sample_completed) = Some False
    \<and> active sample_sent = 1 \<and> announced False (happened sample_sent) = Some True"
proof -
  have "\<not> thrown sample_completed" "waiting sample_completed = []"
    "\<forall>q \<in> set (requests sample_completed). rstate q = 2" "length (filter counted (requests sample_sent)) = 1"
    by code_simp+
  moreover from this(1-3) active_counts_requests [OF sample_completed_runs] have "active sample_completed = 0"
    by blast
  ultimately show ?thesis
    using active_counts_requests [OF sample_completed_runs] active_counts_requests [of sample_sent] sample_sent_runs
      sample_completed_runs by simp
qed

theorem exception_silences_ajaxStop_witness:
  "ajax_runs new_world sample_thrown \<and> ajax_runs sample_thrown (ajax sample_settings sample_thrown)
    \<and> active (ajax sample_settings sample_thrown) \<ge> 1 \<and> announcements sample_thrown = [AjaxStart]"
proof -
  have "\<not> raising sample_thrown" by code_simp
  then have "ajax_runs sample_thrown (ajax sample_settings sample_thrown)"
    by (intro ajax_runs.step [OF ajax_runs.refl] ajax_step.starts)
  moreover have "0 < length (requests sample_thrown)" "rstate (requests sample_thrown ! 0) = 2"
    "fireGlobals (requests sample_thrown ! 0)" "\<not> released (requests sample_thrown ! 0)"
    "filter done_point (points sample_thrown 0) = []" "announcements sample_thrown = [AjaxStart]"
    by code_simp+
  ultimately show ?thesis
    using exception_silences_ajaxStop [OF sample_thrown_runs, of 0 "ajax sample_settings sample_thrown"] sample_thrown_runs
    by simp
qed

end
