(* ===== verification/JqConvert.thy ===== *)
theory JqConvert
  imports JsPrelude
begin

text \<open>
  Responses and their conversions in \<open>jQuery.ajax\<close> (\<open>lib/jquery.js\<close>): \<open>ajaxHandleResponses\<close>, which chooses the response, and
  \<open>ajaxConvert\<close>, which takes it through the types to the wanted one. The functions of the page,
  converters and the filter, are numbers with a meaning \<open>call\<close>; they are taken not to change the settings meanwhile.
\<close>

section \<open>Converters\<close>

text \<open>An entry of \<open>converters\<close>: \<open>true\<close>, a function, or something falsy, which is also what a missing entry yields.\<close>

datatype converter = Equal | Apply nat | Falsy

record 'v conv_settings =
  s_converters :: "converter obj"
  s_responseFields :: "string obj"
  s_dataFilter :: "('v \<Rightarrow> 'v result) option"
  s_throws :: bool
  s_dataTypes :: "string list"

definition conv_get :: "converter obj \<Rightarrow> string \<Rightarrow> converter" where
  "conv_get cs k = (case obj_get cs k of None \<Rightarrow> Falsy | Some c \<Rightarrow> c)"

text \<open>The map with lowercased keys.\<close>

definition lowercased :: "converter obj \<Rightarrow> converter obj" where
  "lowercased cs = fold (\<lambda>(k, c). obj_set (lower k) c) cs []"

definition direct :: "converter obj \<Rightarrow> string \<Rightarrow> string \<Rightarrow> converter" where
  "direct cs p c =
     (if conv_get cs (p @ '' '' @ c) \<noteq> Falsy then conv_get cs (p @ '' '' @ c) else conv_get cs (''* '' @ c))"

text \<open>
  The search for a pair: the converter to be applied, the type after it, and what is put back before the other types.
  A loop that ends without \<open>break\<close> leaves \<open>conv\<close> falsy.
\<close>

fun seek_pair :: "converter obj \<Rightarrow> string \<Rightarrow> string \<Rightarrow> string list \<Rightarrow> converter \<times> string \<times> string list" where
  "seek_pair cs p c [] = (Falsy, c, [])"
| "seek_pair cs p c (k # ks) =
     (let tmp = split_on CHR '' '' k
      in if length tmp > 1 \<and> tmp ! 1 = c then
           (case direct cs p (tmp ! 0) of
              Falsy \<Rightarrow> seek_pair cs p c ks
            | Equal \<Rightarrow> (conv_get cs k, c, [])
            | Apply f \<Rightarrow> if conv_get cs k \<noteq> Equal then (Apply f, tmp ! 0, [tmp ! 1]) else (Apply f, c, []))
         else seek_pair cs p c ks)"

definition seek :: "converter obj \<Rightarrow> string \<Rightarrow> string \<Rightarrow> converter \<times> string \<times> string list" where
  "seek cs p c = (if direct cs p c \<noteq> Falsy then (direct cs p c, c, []) else seek_pair cs p c (obj_keys cs))"

section \<open>\<open>ajaxConvert\<close>\<close>

text \<open>
  What a conversion ends with; a \<open>parsererror\<close> carries what a converter has thrown, or the types between which there is
  none. The state has the fields that \<open>jqXHR\<close> has got; \<open>current\<close> is empty for \<open>undefined\<close>.
\<close>

datatype 'v outcome = Success 'v | ConverterThrew exn | NoConversion string string

record 'v conversion =
  current :: string
  is_first :: bool
  types :: "string list"
  response :: 'v
  xhr_fields :: "'v obj"

datatype 'v conv_step = Ends "'v outcome result \<times> 'v obj" | Goes "'v conversion"

definition set_response_field :: "'v conv_settings \<Rightarrow> string \<Rightarrow> 'v \<Rightarrow> 'v obj \<Rightarrow> 'v obj" where
  "set_response_field s t v xs =
     (case obj_get (s_responseFields s) t of None \<Rightarrow> xs | Some f \<Rightarrow> if f = '''' then xs else obj_set f v xs)"

definition apply_converter :: "(nat \<Rightarrow> 'v \<Rightarrow> 'v result) \<Rightarrow> 'v conv_settings \<Rightarrow> string \<Rightarrow> string \<Rightarrow> converter \<Rightarrow> 'v \<Rightarrow>
    ('v outcome result) + 'v" where
  "apply_converter call s p c cv v =
     (case cv of
        Equal \<Rightarrow> Inr v
      | Apply f \<Rightarrow> (case call f v of
            Inr v' \<Rightarrow> Inr v'
          | Inl e \<Rightarrow> Inl (if s_throws s then Inl e else Inr (ConverterThrew e)))
      | Falsy \<Rightarrow> Inl (Inr (NoConversion p c)))"

text \<open>One turn of the loop, in two halves: what is done with the current type, and how the next one is reached.\<close>

definition convert_next :: "(nat \<Rightarrow> 'v \<Rightarrow> 'v result) \<Rightarrow> 'v conv_settings \<Rightarrow> converter obj \<Rightarrow> string \<Rightarrow> string list \<Rightarrow>
    'v \<Rightarrow> 'v obj \<Rightarrow> 'v conv_step" where
  "convert_next call s cs prev ds v xs =
     (let next = (\<lambda>c ds v. Goes \<lparr>current = c, is_first = False, types = ds, response = v, xhr_fields = xs\<rparr>)
      in case ds of
           [] \<Rightarrow> next '''' [] v
         | c # ds' \<Rightarrow>
             if c = '''' then next '''' ds' v
             else if c = ''*'' then next prev ds' v
             else if prev \<noteq> ''*'' \<and> prev \<noteq> c then
               (case seek cs prev c of (cv, c', put) \<Rightarrow>
                  case apply_converter call s prev c' cv v of
                    Inl r \<Rightarrow> Ends (r, xs)
                  | Inr v' \<Rightarrow> next c' (put @ ds') v')
             else next c ds' v)"

definition convert_step :: "(nat \<Rightarrow> 'v \<Rightarrow> 'v result) \<Rightarrow> 'v conv_settings \<Rightarrow> bool \<Rightarrow> converter obj \<Rightarrow> 'v conversion \<Rightarrow>
    'v conv_step" where
  "convert_step call s isSuccess cs p =
     (let cur = current p; xs = set_response_field s cur (response p) (xhr_fields p)
      in if cur = '''' then Ends (Inr (Success (response p)), xhr_fields p)
         else
           case (case s_dataFilter s of
               Some f \<Rightarrow> if is_first p \<and> isSuccess then f (response p) else Inr (response p)
             | None \<Rightarrow> Inr (response p)) of
             Inl e \<Rightarrow> Ends (Inl e, xs)
           | Inr v \<Rightarrow> convert_next call s cs cur (types p) v xs)"

partial_function (option) convert_run :: "(nat \<Rightarrow> 'v \<Rightarrow> 'v result) \<Rightarrow> 'v conv_settings \<Rightarrow> bool \<Rightarrow> converter obj \<Rightarrow>
    'v conversion \<Rightarrow> ('v outcome result \<times> 'v obj) option" where
  "convert_run call s isSuccess cs p =
     (case convert_step call s isSuccess cs p of
        Ends r \<Rightarrow> Some r
      | Goes p' \<Rightarrow> convert_run call s isSuccess cs p')"

definition ajaxConvert :: "(nat \<Rightarrow> 'v \<Rightarrow> 'v result) \<Rightarrow> 'v conv_settings \<Rightarrow> 'v \<Rightarrow> 'v obj \<Rightarrow> bool \<Rightarrow>
    ('v outcome result \<times> 'v obj) option" where
  "ajaxConvert call s v xhr isSuccess =
     (let ts = s_dataTypes s;
          cs = (if length ts > 1 \<and> ts ! 1 \<noteq> '''' then lowercased (s_converters s) else [])
      in convert_run call s isSuccess cs
           (case ts of
              [] \<Rightarrow> \<lparr>current = '''', is_first = True, types = [], response = v, xhr_fields = xhr\<rparr>
            | t # ts' \<Rightarrow> \<lparr>current = t, is_first = True, types = ts', response = v, xhr_fields = xhr\<rparr>))"

section \<open>\<open>ajaxHandleResponses\<close>\<close>

text \<open>
  The expressions of \<open>contents\<close> are a parameter: for every type whether its expression matches the content type, which is
  the forced \<open>mimeType\<close> or the header, if there is one. The result are the new data types and the response.
\<close>

record content_info =
  content_type :: "string option"
  contents :: "(string \<times> (string \<Rightarrow> bool)) list"

definition drop_auto :: "string list \<Rightarrow> string list" where
  "drop_auto ts = dropWhile ((=) ''*'') ts"

definition content_types :: "content_info \<Rightarrow> string list \<Rightarrow> string list" where
  "content_types ci ts =
     (let ts' = drop_auto ts;
          ct = (if ts \<noteq> [] \<and> hd ts = ''*'' then content_type ci else None)
      in case ct of
           None \<Rightarrow> ts'
         | Some c \<Rightarrow> if c = '''' then ts'
             else (case find (\<lambda>(t, m). m c) (contents ci) of None \<Rightarrow> ts' | Some (t, _) \<Rightarrow> t # ts'))"

definition type_name :: "string list \<Rightarrow> string" where
  "type_name ts = (case ts of [] \<Rightarrow> ''undefined'' | t # _ \<Rightarrow> t)"

definition convertible :: "converter obj \<Rightarrow> string list \<Rightarrow> string \<Rightarrow> bool" where
  "convertible cs ts t \<longleftrightarrow> ts = [] \<or> hd ts = '''' \<or> conv_get cs (t @ '' '' @ hd ts) \<noteq> Falsy"

definition final_type :: "converter obj \<Rightarrow> string list \<Rightarrow> 'v obj \<Rightarrow> string option" where
  "final_type cs ts rs =
     (if obj_get rs (type_name ts) \<noteq> None then (case ts of [] \<Rightarrow> None | t # _ \<Rightarrow> Some t)
      else
        case find (convertible cs ts) (obj_keys rs) of
          Some t \<Rightarrow>
            if t = '''' then find (\<lambda>t. t \<noteq> '''') (takeWhile (\<lambda>t. \<not> convertible cs ts t) (obj_keys rs))
            else Some t
        | None \<Rightarrow> find (\<lambda>t. t \<noteq> '''') (obj_keys rs))"

definition ajaxHandleResponses :: "'v conv_settings \<Rightarrow> content_info \<Rightarrow> 'v obj \<Rightarrow> string list \<times> 'v option" where
  "ajaxHandleResponses s ci rs =
     (let ts = content_types ci (s_dataTypes s)
      in case final_type (s_converters s) ts rs of
           None \<Rightarrow> (ts, None)
         | Some t \<Rightarrow>
             if t = '''' then (ts, None)
             else (if ts \<noteq> [] \<and> hd ts = t then ts else t # ts, obj_get rs t))"


section \<open>The conversion that is meant\<close>

text \<open>
  Types are taken in turn, without \<open>*\<close>. From one to the next goes a direct converter, or a pair of them over a type between;
  a step that is no conversion needs no function. A chain is a list of functions with the types they lead to.
\<close>

definition leads :: "converter obj \<Rightarrow> string \<Rightarrow> string \<Rightarrow> string \<Rightarrow> bool" where
  "leads cs p c k \<longleftrightarrow>
     (let tmp = split_on CHR '' '' k in length tmp > 1 \<and> tmp ! 1 = c \<and> direct cs p (tmp ! 0) \<noteq> Falsy)"

definition pair_chain :: "converter obj \<Rightarrow> string \<Rightarrow> string \<Rightarrow> string \<Rightarrow> (nat \<times> string) list" where
  "pair_chain cs p c k =
     (let m = split_on CHR '' '' k ! 0
      in case (direct cs p m, conv_get cs k) of
           (Apply f, Apply g) \<Rightarrow> [(f, m), (g, c)]
         | (Apply f, _) \<Rightarrow> [(f, c)]
         | (_, Apply g) \<Rightarrow> [(g, c)]
         | _ \<Rightarrow> [])"

definition chain :: "converter obj \<Rightarrow> string \<Rightarrow> string \<Rightarrow> (nat \<times> string) list option" where
  "chain cs p c =
     (if p = ''*'' \<or> p = c then Some []
      else case direct cs p c of
          Equal \<Rightarrow> Some []
        | Apply f \<Rightarrow> Some [(f, c)]
        | Falsy \<Rightarrow> map_option (pair_chain cs p c) (find (leads cs p c) (obj_keys cs)))"

text \<open>Functions are applied one after the other; between two of them the field of the type reached is set.\<close>

fun apply_chain :: "(nat \<Rightarrow> 'v \<Rightarrow> 'v result) \<Rightarrow> 'v conv_settings \<Rightarrow> (nat \<times> string) list \<Rightarrow> 'v \<Rightarrow> 'v obj \<Rightarrow>
    ('v result) \<times> 'v obj" where
  "apply_chain call s [] v xs = (Inr v, xs)"
| "apply_chain call s [(f, t)] v xs = (call f v, xs)"
| "apply_chain call s ((f, t) # h # hs) v xs =
     (case call f v of
        Inl e \<Rightarrow> (Inl e, xs)
      | Inr v' \<Rightarrow> apply_chain call s (h # hs) v' (set_response_field s t v' xs))"

fun spec_convert :: "(nat \<Rightarrow> 'v \<Rightarrow> 'v result) \<Rightarrow> 'v conv_settings \<Rightarrow> converter obj \<Rightarrow> string \<Rightarrow> string list \<Rightarrow> 'v \<Rightarrow>
    'v obj \<Rightarrow> 'v outcome result \<times> 'v obj" where
  "spec_convert call s cs p [] v xs = (Inr (Success v), xs)"
| "spec_convert call s cs p (c # ts) v xs =
     (if c = '''' then (Inr (Success v), xs)
      else if c = ''*'' then spec_convert call s cs p ts v (set_response_field s p v xs)
      else case chain cs p c of
          None \<Rightarrow> (Inr (NoConversion p c), xs)
        | Some hs \<Rightarrow> (case apply_chain call s hs v xs of
              (Inl e, xs') \<Rightarrow> (if s_throws s then Inl e else Inr (ConverterThrew e), xs')
            | (Inr v', xs') \<Rightarrow> spec_convert call s cs c ts v' (set_response_field s c v' xs')))"

text \<open>Converters as the documentation wants them: two types with a space between, and not falsy.\<close>

definition converters_ok :: "converter obj \<Rightarrow> bool" where
  "converters_ok cs \<longleftrightarrow>
     (\<forall>(k, c) \<in> set cs. c \<noteq> Falsy \<and> length (split_on CHR '' '' k) = 2 \<and> split_on CHR '' '' k ! 0 \<noteq> '''')
     \<and> distinct (map fst cs)"

lemma converters_ok_get:
  assumes "converters_ok cs" and "k \<in> set (obj_keys cs)"
  shows "conv_get cs k \<noteq> Falsy" and "length (split_on CHR '' '' k) = 2" and "split_on CHR '' '' k ! 0 \<noteq> ''''"
proof -
  from assms(2) obtain c where c: "(k, c) \<in> set cs" by (auto simp: obj_keys_def)
  with assms(1) have "map_of cs k = Some c" by (simp add: converters_ok_def)
  with c assms(1) show "conv_get cs k \<noteq> Falsy" and "length (split_on CHR '' '' k) = 2"
    and "split_on CHR '' '' k ! 0 \<noteq> ''''"
    by (auto simp: converters_ok_def conv_get_def obj_get_def)
qed

text \<open>A key is its two types.\<close>

lemma key_types:
  assumes "length (split_on CHR '' '' k) = 2"
  shows "k = split_on CHR '' '' k ! 0 @ '' '' @ split_on CHR '' '' k ! 1"
proof -
  obtain a b where ab: "split_on CHR '' '' k = [a, b]"
    using assms by (cases "split_on CHR '' '' k"; cases "tl (split_on CHR '' '' k)") auto
  have "k = join_with '' '' (split_on CHR '' '' k)" by simp
  also have "\<dots> = a @ '' '' @ b" by (simp add: ab)
  finally show ?thesis unfolding ab by simp
qed

text \<open>The search of the code finds the chain.\<close>

lemma seek_pair_none:
  "find (leads cs p c) ks = None \<Longrightarrow> seek_pair cs p c ks = (Falsy, c, [])"
  by (induction ks) (auto simp: leads_def Let_def split: converter.splits if_splits)

lemma seek_pair_some:
  "find (leads cs p c) ks = Some k \<Longrightarrow>
     seek_pair cs p c ks =
       (let m = split_on CHR '' '' k ! 0
        in case direct cs p m of
             Apply f \<Rightarrow> if conv_get cs k \<noteq> Equal then (Apply f, m, [c]) else (Apply f, c, [])
           | _ \<Rightarrow> (conv_get cs k, c, []))"
  by (induction ks) (auto simp: leads_def Let_def split: converter.splits if_splits)


definition convert_rest :: "(nat \<Rightarrow> 'v \<Rightarrow> 'v result) \<Rightarrow> 'v conv_settings \<Rightarrow> bool \<Rightarrow> converter obj \<Rightarrow> string \<Rightarrow>
    string list \<Rightarrow> 'v \<Rightarrow> 'v obj \<Rightarrow> ('v outcome result \<times> 'v obj) option" where
  "convert_rest call s b cs prev ds v xs =
     (case convert_next call s cs prev ds v xs of Ends r \<Rightarrow> Some r | Goes p \<Rightarrow> convert_run call s b cs p)"

abbreviation later :: "string \<Rightarrow> string list \<Rightarrow> 'v \<Rightarrow> 'v obj \<Rightarrow> 'v conversion" where
  "later c ds v xs \<equiv> \<lparr>current = c, is_first = False, types = ds, response = v, xhr_fields = xs\<rparr>"

lemma run_end: "convert_run call s b cs (later '''' ds v xs) = Some (Inr (Success v), xs)"
  by (subst convert_run.simps) (simp add: convert_step_def)

lemma run_later:
  "c \<noteq> '''' \<Longrightarrow> convert_run call s b cs (later c ds v xs) = convert_rest call s b cs c ds v (set_response_field s c v xs)"
  by (subst convert_run.simps) (simp add: convert_step_def convert_rest_def Let_def split: option.split)

lemma rest_Nil: "convert_rest call s b cs c [] v xs = Some (Inr (Success v), xs)"
  by (simp add: convert_rest_def convert_next_def run_end)

lemma rest_Cons:
  "convert_rest call s b cs c (d # ds) v xs =
     (if d = '''' then Some (Inr (Success v), xs)
      else if d = ''*'' then convert_run call s b cs (later c ds v xs)
      else if c \<noteq> ''*'' \<and> c \<noteq> d then
        (case seek cs c d of (cv, c', put) \<Rightarrow>
           case apply_converter call s c c' cv v of
             Inl r \<Rightarrow> Some (r, xs)
           | Inr v' \<Rightarrow> convert_run call s b cs (later c' (put @ ds) v' xs))
      else convert_run call s b cs (later d ds v xs))"
  by (simp add: convert_rest_def convert_next_def Let_def run_end split: prod.split sum.split)

text \<open>What the search of a pair says about its key.\<close>

lemma pair_key:
  assumes "converters_ok cs" and "direct cs p c = Falsy" and "find (leads cs p c) (obj_keys cs) = Some k"
  obtains m where "split_on CHR '' '' k ! 0 = m" and "m \<noteq> ''''" and "m \<noteq> ''*''" and "m \<noteq> c"
    and "direct cs p m \<noteq> Falsy" and "conv_get cs k \<noteq> Falsy" and "direct cs m c = conv_get cs k"
proof -
  have k: "k \<in> set (obj_keys cs)" and leads: "leads cs p c k"
    using assms(3) by (auto simp: find_Some_iff)
  define m where "m = split_on CHR '' '' k ! 0"
  note ok = converters_ok_get [OF assms(1) k]
  have key: "k = m @ '' '' @ c" and dir: "direct cs p m \<noteq> Falsy"
    using key_types [OF ok(2)] leads by (simp_all add: leads_def Let_def m_def)
  have "m \<noteq> ''*''" using assms(2) ok(1) key by (auto simp: direct_def split: if_splits)
  moreover have "m \<noteq> c" using assms(2) dir by auto
  moreover have "direct cs m c = conv_get cs k" using ok(1) key by (simp add: direct_def)
  ultimately show ?thesis using that m_def ok dir by blast
qed

lemma apply_converter_simps [simp]:
  "apply_converter call s p c Equal v = Inr v"
  "apply_converter call s p c Falsy v = Inl (Inr (NoConversion p c))"
  by (simp_all add: apply_converter_def)

lemma rest_spec:
  assumes ok: "converters_ok cs" and "c \<noteq> ''''"
  shows "convert_rest call s b cs c ds v xs = Some (spec_convert call s cs c ds v xs)"
  using assms(2)
proof (induction ds arbitrary: c v xs)
  case Nil
  then show ?case by (simp add: rest_Nil)
next
  case (Cons d ds)
  consider "d = '''' \<or> d = ''*'' \<or> c = ''*'' \<or> c = d"
    | (direct) "d \<noteq> ''''" "d \<noteq> ''*''" "c \<noteq> ''*''" "c \<noteq> d" "direct cs c d \<noteq> Falsy"
    | (none) "d \<noteq> ''''" "d \<noteq> ''*''" "c \<noteq> ''*''" "c \<noteq> d" "direct cs c d = Falsy"
        "find (leads cs c d) (obj_keys cs) = None"
    | (pair) k where "d \<noteq> ''''" "d \<noteq> ''*''" "c \<noteq> ''*''" "c \<noteq> d" "direct cs c d = Falsy"
        "find (leads cs c d) (obj_keys cs) = Some k"
    by fastforce
  then show ?case
  proof cases
    case 1
    with Cons show ?thesis by (auto simp: rest_Cons run_later chain_def)
  next
    case direct
    with Cons show ?thesis
      by (auto simp: rest_Cons run_later chain_def seek_def apply_converter_def split: converter.splits sum.splits)
  next
    case none
    with Cons.prems show ?thesis by (simp add: rest_Cons run_later chain_def seek_def seek_pair_none)
  next
    case pair
    obtain m where m: "split_on CHR '' '' k ! 0 = m" "m \<noteq> ''''" "m \<noteq> ''*''" "m \<noteq> d"
      "direct cs c m \<noteq> Falsy" "conv_get cs k \<noteq> Falsy" "direct cs m d = conv_get cs k"
      using pair_key [OF ok pair(5,6)] by blast
    note pair_facts = rest_Cons run_later chain_def seek_def pair_chain_def apply_converter_def Let_def
    show ?thesis
    proof (cases "direct cs c m")
      case Equal
      with pair m Cons show ?thesis
        by (cases "conv_get cs k")
          (auto simp: pair_facts seek_pair_some [OF pair(6)] split: sum.splits)
    next
      case (Apply f)
      with pair m Cons show ?thesis
        by (cases "conv_get cs k"; cases "call f v")
          (auto simp: pair_facts seek_pair_some [OF pair(6)] split: sum.splits)
    qed (use m in simp)
  qed
qed


definition spec_ajaxConvert :: "(nat \<Rightarrow> 'v \<Rightarrow> 'v result) \<Rightarrow> 'v conv_settings \<Rightarrow> 'v \<Rightarrow> 'v obj \<Rightarrow> bool \<Rightarrow>
    'v outcome result \<times> 'v obj" where
  "spec_ajaxConvert call s v xhr isSuccess =
     (case s_dataTypes s of
        [] \<Rightarrow> (Inr (Success v), xhr)
      | t # ts \<Rightarrow>
          if t = '''' then (Inr (Success v), xhr)
          else
            let xs = set_response_field s t v xhr
            in case (case s_dataFilter s of Some f \<Rightarrow> if isSuccess then f v else Inr v | None \<Rightarrow> Inr v) of
                 Inl e \<Rightarrow> (Inl e, xs)
               | Inr v' \<Rightarrow> spec_convert call s (lowercased (s_converters s)) t ts v' xs)"

lemma spec_convert_short: "ts = [] \<or> hd ts = '''' \<Longrightarrow> spec_convert call s cs p ts v xs = (Inr (Success v), xs)"
  by (cases ts) auto

lemma ajaxConvert_returns:
  assumes "converters_ok (lowercased (s_converters s))"
  shows "ajaxConvert call s v xhr isSuccess = Some (spec_ajaxConvert call s v xhr isSuccess)"
proof (cases "s_dataTypes s")
  case Nil
  then show ?thesis
    by (subst ajaxConvert_def, subst convert_run.simps) (simp add: spec_ajaxConvert_def convert_step_def)
next
  case (Cons t ts)
  define cs where "cs = (if ts \<noteq> [] \<and> hd ts \<noteq> '''' then lowercased (s_converters s) else [])"
  have "converters_ok cs" using assms by (simp add: converters_ok_def cs_def)
  moreover have "spec_convert call s cs t ts v' xs = spec_convert call s (lowercased (s_converters s)) t ts v' xs" for v' xs
    by (simp add: spec_convert_short cs_def)
  ultimately have "t \<noteq> '''' \<Longrightarrow> convert_rest call s isSuccess cs t ts v' xs =
      Some (spec_convert call s (lowercased (s_converters s)) t ts v' xs)" for v' xs
    using rest_spec [of cs t call s isSuccess ts v' xs] by simp
  note rest = this [unfolded convert_rest_def]
  have "ajaxConvert call s v xhr isSuccess =
      convert_run call s isSuccess cs \<lparr>current = t, is_first = True, types = ts, response = v, xhr_fields = xhr\<rparr>"
    using Cons by (cases ts) (simp_all add: ajaxConvert_def cs_def)
  then show ?thesis
    using Cons rest by (simp, subst convert_run.simps)
      (simp add: spec_ajaxConvert_def convert_step_def Let_def split: option.split sum.split)
qed


text \<open>C12: With converters as they should be, \<open>ajaxConvert\<close> returns for any types, response and functions of the page, and with what is
  meant: types are reached one after the other by a direct converter or a pair over one type, the filter sees a
  successful response once, fields are set on the way, and the first step that fails is the outcome.\<close>

theorem ajaxConvert_refines:
  assumes "converters_ok (lowercased (s_converters s))"
  shows "ajaxConvert call s v xhr isSuccess = Some (spec_ajaxConvert call s v xhr isSuccess)"
  using assms by (rule ajaxConvert_returns)

section \<open>A converter that is switched off\<close>

lemma convert_run_diverges:
  assumes inv: "\<And>p. I p \<Longrightarrow> \<exists>q. convert_step call s b cs p = Goes q \<and> I q" and "I p"
  shows "convert_run call s b cs p = None"
proof -
  have "c = call \<and> t = s \<and> x = b \<and> y = cs \<longrightarrow> \<not> I p" if r: "convert_run c t x y p = Some r" for c t x y p r
  proof (rule convert_run.raw_induct [where P = "\<lambda>c t x y p r. c = call \<and> t = s \<and> x = b \<and> y = cs \<longrightarrow> \<not> I p", OF _ r])
    fix run c t x y p z
    assume IH: "\<And>c t x y p z. run c t x y p = Some z \<Longrightarrow> c = call \<and> t = s \<and> x = b \<and> y = cs \<longrightarrow> \<not> I p"
      and step: "(case convert_step c t x y p of Ends r \<Rightarrow> Some r | Goes p' \<Rightarrow> run c t x y p') = Some z"
    show "c = call \<and> t = s \<and> x = b \<and> y = cs \<longrightarrow> \<not> I p"
    proof (intro impI notI)
      assume same: "c = call \<and> t = s \<and> x = b \<and> y = cs" and "I p"
      with inv obtain q where "convert_step call s b cs p = Goes q" and "I q" by blast
      with step IH [of c t x y q z] same show False by simp
    qed
  qed
  with assms(2) show ?thesis by (cases "convert_run call s b cs p") auto
qed

text \<open>The converters of \<open>ajaxSettings\<close>: \<open>String\<close>, \<open>parseJSON\<close> and \<open>parseXML\<close> are 0, 1 and 2.\<close>

definition default_converters :: "converter obj" where
  "default_converters = [(''* text'', Apply 0), (''text html'', Equal), (''text json'', Apply 1), (''text xml'', Apply 2)]"

definition switched_off :: "string \<Rightarrow> converter obj" where
  "switched_off k = obj_set k Falsy default_converters"

lemma seek_switched_off:
  "t \<in> {''html'', ''json'', ''xml''} \<Longrightarrow>
     seek (lowercased (switched_off (''text '' @ t))) ''text'' t = (Apply 0, ''text'', [t])"
  by (elim insertE emptyE; simp only:; code_simp)

text \<open>A page that switches the conversion of text to HTML, JSON or XML off with \<open>converters: {"text html": false}\<close> and asks
  for that type is caught in \<open>ajaxConvert\<close> for ever when text comes back: the search for a pair finds \<open>* text\<close> and the very
  entry that is off, so the text is converted to text again and again.\<close>

lemma converter_off_hangs:
  assumes "t \<in> {''html'', ''json'', ''xml''}" and "s_converters s = switched_off (''text '' @ t)"
    and "s_dataTypes s = [t]" and "s_dataFilter s = None" and "\<And>v. \<exists>v'. call 0 v = Inr v'"
  shows "ajaxHandleResponses s ci [(''text'', v)] = ([''text'', t], Some v)
    \<and> ajaxConvert call (s\<lparr>s_dataTypes := [''text'', t]\<rparr>) v xhr isSuccess = None"
proof -
  define I where "I p \<longleftrightarrow> current p = ''text'' \<and> types p = [t]" for p :: "'a conversion"
  have t: "t \<noteq> ''''" "t \<noteq> ''*''" "t \<noteq> ''text''" using assms(1) by auto
  have "\<exists>q. convert_step call (s\<lparr>s_dataTypes := [''text'', t]\<rparr>) isSuccess (lowercased (s_converters s)) p = Goes q \<and> I q"
    if "I p" for p
    using that t assms(2,4,5) seek_switched_off [OF assms(1)]
    by (auto simp: I_def convert_step_def convert_next_def apply_converter_def Let_def split: sum.split) (metis sum.simps(4))
  then have "ajaxConvert call (s\<lparr>s_dataTypes := [''text'', t]\<rparr>) v xhr isSuccess = None"
    using t convert_run_diverges [of I call "s\<lparr>s_dataTypes := [''text'', t]\<rparr>" isSuccess "lowercased (s_converters s)"]
    by (simp add: ajaxConvert_def I_def)
  moreover have "final_type (switched_off (''text '' @ t)) [t] [(''text'', v)] = Some ''text''"
    using assms(1) by (elim insertE emptyE; simp only:; code_simp)
  then have "ajaxHandleResponses s ci [(''text'', v)] = ([''text'', t], Some v)"
    using t assms(2,3) by (simp add: ajaxHandleResponses_def content_types_def drop_auto_def obj_get_def)
  ultimately show ?thesis by simp
qed

section \<open>Choosing a response that can be converted\<close>

lemma direct_get: "conv_get cs (t @ '' '' @ d) \<noteq> Falsy \<Longrightarrow> direct cs t d \<noteq> Falsy"
  by (simp add: direct_def)

lemma spec_one_no_conversion:
  assumes "t = d \<or> direct cs t d \<noteq> Falsy"
  shows "fst (spec_convert call s cs t [d] v xs) \<noteq> Inr (NoConversion p c)"
proof -
  from assms have "chain cs t d \<noteq> None" by (auto simp: chain_def split: converter.split)
  then obtain hs where "chain cs t d = Some hs" by blast
  then show ?thesis by (auto split: prod.split sum.split)
qed

lemma final_type_keys:
  assumes "final_type cs [d] rs = Some t" and "d \<noteq> ''''"
  shows "t \<in> set (obj_keys rs)"
proof (cases "obj_get rs d = None")
  case False
  with assms show ?thesis
    by (auto simp: final_type_def type_name_def obj_get_def obj_keys_def dest!: map_of_SomeD intro: rev_image_eqI)
next
  case True
  with assms show ?thesis
    by (auto simp: final_type_def type_name_def find_Some_iff split: option.splits if_splits dest: set_takeWhileD)
      (meson nth_mem set_takeWhileD)
qed

text \<open>C39: When one of the responses has the wanted type or a converter to it, \<open>ajaxHandleResponses\<close> delivers a response from which
  \<open>ajaxConvert\<close> gets to that type: it returns, and never says that there is no conversion.\<close>

theorem response_convertible:
  assumes "converters_ok (s_converters s)" and "lowercased (s_converters s) = s_converters s"
    and "s_dataTypes s = [d]" and "d \<noteq> ''''" and "d \<noteq> ''*''"
    and "k \<in> set (obj_keys rs)" and "'''' \<notin> set (obj_keys rs)"
    and "k = d \<or> conv_get (s_converters s) (k @ '' '' @ d) \<noteq> Falsy"
  shows "\<exists>ts v. ajaxHandleResponses s ci rs = (ts, Some v)
    \<and> (\<exists>r xs. ajaxConvert call (s\<lparr>s_dataTypes := ts\<rparr>) v xhr isSuccess = Some (r, xs)
         \<and> (\<forall>p c. r \<noteq> Inr (NoConversion p c)))"
proof -
  let ?cs = "s_converters s"
  have "\<exists>t. final_type ?cs [d] rs = Some t \<and> (t = d \<or> direct ?cs t d \<noteq> Falsy)"
  proof (cases "obj_get rs d = None")
    case False
    then show ?thesis by (simp add: final_type_def type_name_def)
  next
    case True
    then have "k \<noteq> d" using assms(6) by (auto simp: obj_get_def obj_keys_def map_of_eq_None_iff)
    with assms(6,8) obtain t where t: "find (convertible ?cs [d]) (obj_keys rs) = Some t"
      by (cases "find (convertible ?cs [d]) (obj_keys rs)") (auto simp: find_None_iff convertible_def)
    then have "t \<in> set (obj_keys rs)" "convertible ?cs [d] t" by (auto simp: find_Some_iff)
    with assms(4,7) direct_get have "t \<noteq> ''''" "direct ?cs t d \<noteq> Falsy" by (auto simp: convertible_def)
    with t True show ?thesis by (simp add: final_type_def type_name_def)
  qed
  then obtain t where t: "final_type ?cs [d] rs = Some t" "t = d \<or> direct ?cs t d \<noteq> Falsy" by blast
  note key = final_type_keys [OF t(1) assms(4)]
  obtain v where "obj_get rs t = Some v"
    using key by (cases "obj_get rs t") (auto simp: obj_get_def obj_keys_def map_of_eq_None_iff)
  moreover have "t \<noteq> ''''" using key assms(7) by metis
  ultimately have v: "obj_get rs t = Some v" "t \<noteq> ''''" by simp_all
  define ts where "ts = (if d = t then [d] else [t, d])"
  have handled: "ajaxHandleResponses s ci rs = (ts, Some v)"
    using assms(3,5) t v by (simp add: ajaxHandleResponses_def content_types_def drop_auto_def ts_def)
  have no: "fst (spec_ajaxConvert call (s\<lparr>s_dataTypes := ts\<rparr>) v xhr isSuccess) \<noteq> Inr (NoConversion p c)" for p c
    using v assms(2)
    by (simp add: ts_def spec_ajaxConvert_def Let_def spec_one_no_conversion [OF t(2)] del: spec_convert.simps(2) split: option.split sum.split)
  have "ajaxConvert call (s\<lparr>s_dataTypes := ts\<rparr>) v xhr isSuccess = Some (spec_ajaxConvert call (s\<lparr>s_dataTypes := ts\<rparr>) v xhr isSuccess)"
    using assms(1,2) by (intro ajaxConvert_returns) simp
  with handled no show ?thesis by (metis prod.collapse)
qed


section \<open>Sample conversions\<close>

text \<open>Values are texts; \<open>String\<close> returns its argument, parsing adds a mark.\<close>

definition sample_call :: "nat \<Rightarrow> string \<Rightarrow> string result" where
  "sample_call f v = Inr (if f = 0 then v else ''!'' @ v)"

definition sample_types :: "string list \<Rightarrow> converter obj \<Rightarrow> string conv_settings" where
  "sample_types ts cs = \<lparr>s_converters = cs, s_responseFields = [(''text'', ''responseText'')], s_dataFilter = None,
     s_throws = False, s_dataTypes = ts\<rparr>"

lemma defaults_ok: "converters_ok default_converters" "lowercased default_converters = default_converters"
  by code_simp+

theorem ajaxConvert_refines_witness:
  "ajaxConvert sample_call (sample_types [''js'', ''json''] default_converters) ''1'' [] True
     = Some (Inr (Success ''!1''), [(''responseText'', ''1'')])"
proof -
  have "spec_ajaxConvert sample_call (sample_types [''js'', ''json''] default_converters) ''1'' [] True
      = (Inr (Success ''!1''), [(''responseText'', ''1'')])"
    by code_simp
  then show ?thesis
    using ajaxConvert_refines [of "sample_types [''js'', ''json''] default_converters" sample_call "''1''" "[]" True]
    by (simp add: sample_types_def defaults_ok)
qed

theorem response_convertible_witness:
  "\<exists>ts v. ajaxHandleResponses (sample_types [''json''] default_converters) \<lparr>content_type = None, contents = []\<rparr>
       [(''xml'', ''2''), (''text'', ''1'')] = (ts, Some v)
     \<and> (\<exists>r xs. ajaxConvert sample_call ((sample_types [''json''] default_converters)\<lparr>s_dataTypes := ts\<rparr>) v [] True = Some (r, xs)
          \<and> (\<forall>p c. r \<noteq> Inr (NoConversion p c)))"
  using defaults_ok
  by (intro response_convertible [where d = "''json''" and k = "''text''"])
    (simp_all add: sample_types_def obj_keys_def, code_simp)

end
