(* ===== verification/JqParam.thy ===== *)
theory JqParam
  imports JsPrelude
begin

text \<open>
  \<open>jQuery.param\<close> and \<open>buildParams\<close> (\<open>lib/jquery.js\<close>): the text of a form or of an object in an address, and that a
  server which decodes it gets back what was put in.
\<close>

section \<open>\<open>encodeURIComponent\<close>\<close>

text \<open>Strings are code units below 256, so a character has at most two bytes and nothing is thrown.\<close>

definition hex_char :: "nat \<Rightarrow> char" where
  "hex_char n = (if n < 10 then char_of (48 + n) else char_of (55 + n))"

definition utf8 :: "char \<Rightarrow> nat list" where
  "utf8 c = (let n = of_char c in if n < 128 then [n] else [192 + n div 64, 128 + n mod 64])"

definition escape_byte :: "nat \<Rightarrow> string" where
  "escape_byte b = [CHR ''%'', hex_char (b div 16), hex_char (b mod 16)]"

definition unreserved :: "char \<Rightarrow> bool" where
  "unreserved c \<longleftrightarrow> is_word c \<or> c \<in> set ''-.!~*()'' \<or> c = squote"

definition encode_char :: "char \<Rightarrow> string" where
  "encode_char c = (if unreserved c then [c] else concat (map escape_byte (utf8 c)))"

definition encodeURIComponent :: "string \<Rightarrow> string" where
  "encodeURIComponent s = concat (map encode_char s)"

text \<open>\<open>replace( r20, "+" )\<close>.\<close>

fun replace_r20 :: "string \<Rightarrow> string" where
  "replace_r20 (a # b # c # s) =
     (if [a, b, c] = ''%20'' then CHR ''+'' # replace_r20 s else a # replace_r20 (b # c # s))"
| "replace_r20 s = s"

section \<open>Parameters\<close>

text \<open>
  A value of the page: a primitive value with the text it has as a string, \<open>null\<close> or \<open>undefined\<close>, a function with the text of
  what it returns, an array, or a plain object. What an array or object looks like as a string is the parameter
  \<open>str\<close>; objects of other classes, such as dates, do not occur.
\<close>

datatype pvalue = Prim string | Nullish | Callable string | Arr "pvalue list" | Plain "(string \<times> pvalue) list"

definition is_object :: "pvalue \<Rightarrow> bool" where
  "is_object v = (case v of Arr _ \<Rightarrow> True | Plain _ \<Rightarrow> True | _ \<Rightarrow> False)"

definition value_text :: "(pvalue \<Rightarrow> string) \<Rightarrow> pvalue \<Rightarrow> string" where
  "value_text str v = (case v of Callable s \<Rightarrow> s | Nullish \<Rightarrow> [] | Prim s \<Rightarrow> s | _ \<Rightarrow> str v)"

text \<open>\<open>/\[\]$/\<close>.\<close>

definition ends_in_brackets :: "string \<Rightarrow> bool" where
  "ends_in_brackets p = ends_with ''[]'' p"

text \<open>The calls of \<open>add\<close>, in order.\<close>

fun buildParams :: "string \<Rightarrow> pvalue \<Rightarrow> bool \<Rightarrow> (string \<times> pvalue) list"
  and build_items :: "string \<Rightarrow> nat \<Rightarrow> pvalue list \<Rightarrow> (string \<times> pvalue) list"
  and build_fields :: "string \<Rightarrow> (string \<times> pvalue) list \<Rightarrow> (string \<times> pvalue) list" where
  "buildParams prefix obj traditional =
     (case obj of
        Arr vs \<Rightarrow>
          if traditional \<or> ends_in_brackets prefix then map (\<lambda>v. (prefix, v)) vs else build_items prefix 0 vs
      | Plain ps \<Rightarrow> if traditional then [(prefix, obj)] else build_fields prefix ps
      | _ \<Rightarrow> [(prefix, obj)])"
| "build_items prefix i [] = []"
| "build_items prefix i (v # vs) =
     buildParams (prefix @ ''['' @ (if is_object v then show_nat i else []) @ '']'') v False @ build_items prefix (Suc i) vs"
| "build_fields prefix [] = []"
| "build_fields prefix ((n, v) # ps) = buildParams (prefix @ ''['' @ n @ '']'') v False @ build_fields prefix ps"

definition add_param :: "(pvalue \<Rightarrow> string) \<Rightarrow> string \<times> pvalue \<Rightarrow> string" where
  "add_param str kv = encodeURIComponent (fst kv) @ ''='' @ encodeURIComponent (value_text str (snd kv))"

text \<open>The argument: the elements of a form with their names and values, or an object.\<close>

datatype param_arg = FormElements "(string \<times> pvalue) list" | Params "(string \<times> pvalue) list"

definition param_adds :: "param_arg \<Rightarrow> bool \<Rightarrow> (string \<times> pvalue) list" where
  "param_adds a traditional =
     (case a of
        FormElements es \<Rightarrow> es
      | Params ps \<Rightarrow> concat (map (\<lambda>(n, v). buildParams n v traditional) ps))"

definition param :: "(pvalue \<Rightarrow> string) \<Rightarrow> param_arg \<Rightarrow> bool \<Rightarrow> string" where
  "param str a traditional = replace_r20 (join_with ''&'' (map (add_param str) (param_adds a traditional)))"

section \<open>How a server reads it\<close>

text \<open>\<open>application/x-www-form-urlencoded\<close>: pairs between \<open>&\<close>, the name up to the first \<open>=\<close>, \<open>+\<close> for a space, bytes after \<open>%\<close>.\<close>

definition hex_val :: "char \<Rightarrow> nat" where
  "hex_val c = (if is_digit c then of_char c - 48 else of_char c - 55)"

fun decode_bytes :: "string \<Rightarrow> nat list" where
  "decode_bytes [] = []"
| "decode_bytes (c # s) =
     (if c = CHR ''+'' then 32 # decode_bytes s
      else if c = CHR ''%'' then
        (case s of h # l # s' \<Rightarrow> (16 * hex_val h + hex_val l) # decode_bytes s' | _ \<Rightarrow> [])
      else of_char c # decode_bytes s)"

fun utf8_decode :: "nat list \<Rightarrow> string" where
  "utf8_decode [] = []"
| "utf8_decode (n # ns) =
     (if n < 128 then char_of n # utf8_decode ns
      else case ns of [] \<Rightarrow> [] | m # ms \<Rightarrow> char_of ((n - 192) * 64 + (m - 128)) # utf8_decode ms)"

definition form_decode_text :: "string \<Rightarrow> string" where
  "form_decode_text s = utf8_decode (decode_bytes s)"

definition form_decode_pair :: "string \<Rightarrow> string \<times> string" where
  "form_decode_pair p =
     (form_decode_text (takeWhile (\<lambda>c. c \<noteq> CHR ''='') p), form_decode_text (drop 1 (dropWhile (\<lambda>c. c \<noteq> CHR ''='') p)))"

definition form_decode :: "string \<Rightarrow> (string \<times> string) list" where
  "form_decode s = map form_decode_pair (filter (\<lambda>p. p \<noteq> []) (split_on CHR ''&'' s))"


section \<open>Encoding and decoding\<close>

lemma hex_digits:
  assumes "n < 16"
  shows "hex_val (hex_char n) = n" and "unreserved (hex_char n)" and "hex_char n \<noteq> CHR ''%''"
proof -
  show "hex_val (hex_char n) = n"
    using assms by (auto simp: hex_val_def hex_char_def is_digit_def char_in_def)
  show "unreserved (hex_char n)"
    using assms by (auto simp: unreserved_def is_word_def hex_char_def is_digit_def char_in_def)
  then show "hex_char n \<noteq> CHR ''%''"
    by (auto simp: unreserved_def is_word_def is_digit_def char_in_def)
qed

lemma hex_char_inj: "m < 16 \<Longrightarrow> n < 16 \<Longrightarrow> hex_char m = hex_char n \<longleftrightarrow> m = n"
  using hex_digits(1) by metis

lemma unreserved_not: "unreserved c \<Longrightarrow> c \<notin> {CHR ''%'', CHR ''+'', CHR ''&'', CHR ''='', CHR '' ''}"
  by (auto simp: unreserved_def is_word_def is_digit_def char_in_def)

text \<open>What becomes of a character after \<open>r20\<close> has been replaced.\<close>

definition sent_char :: "char \<Rightarrow> string" where
  "sent_char c = (if c = CHR '' '' then ''+'' else encode_char c)"

definition sent :: "string \<Rightarrow> string" where
  "sent s = concat (map sent_char s)"

lemma r20_plain: "c \<noteq> CHR ''%'' \<Longrightarrow> replace_r20 (c # s) = c # replace_r20 s"
  by (cases s; cases "tl s") auto

lemma r20_block:
  "h \<noteq> CHR ''%'' \<Longrightarrow> l \<noteq> CHR ''%'' \<Longrightarrow> replace_r20 (CHR ''%'' # h # l # s) =
     (if h = CHR ''2'' \<and> l = CHR ''0'' then CHR ''+'' # replace_r20 s else CHR ''%'' # h # l # replace_r20 s)"
  by (simp add: r20_plain)

lemma r20_byte:
  assumes "b < 256"
  shows "replace_r20 (escape_byte b @ s) = (if b = 32 then ''+'' else escape_byte b) @ replace_r20 s"
proof -
  have hex: "hex_char 2 = CHR ''2''" "hex_char 0 = CHR ''0''" by code_simp+
  have "hex_char (b div 16) = CHR ''2'' \<and> hex_char (b mod 16) = CHR ''0'' \<longleftrightarrow> b div 16 = 2 \<and> b mod 16 = 0"
    using assms unfolding hex [symmetric] by (subst (1 2) hex_char_inj) auto
  also have "\<dots> \<longleftrightarrow> b = 32" using div_mult_mod_eq [of b 16] by auto
  finally show ?thesis
    using assms hex_digits(3) [of "b div 16"] hex_digits(3) [of "b mod 16"]
    by (simp add: escape_byte_def r20_block del: replace_r20.simps)
qed

lemma utf8_bytes: "b \<in> set (utf8 c) \<Longrightarrow> b < 256"
proof -
  have "(of_char c :: nat) < 256" "(of_char c :: nat) div 64 < 4" by (simp_all add: less_mult_imp_div_less)
  then show "b \<in> set (utf8 c) \<Longrightarrow> b < 256" by (auto simp: utf8_def Let_def split: if_splits)
qed

lemma utf8_space: "32 \<in> set (utf8 c) \<Longrightarrow> c = CHR '' ''"
proof -
  assume "32 \<in> set (utf8 c)"
  then have "of_char c = (32 :: nat)" by (auto simp: utf8_def Let_def split: if_splits)
  then have "c = char_of (32 :: nat)" by (metis char_of_char)
  moreover have "char_of (32 :: nat) = CHR '' ''" by code_simp
  ultimately show ?thesis by simp
qed

lemma r20_bytes:
  "list_all (\<lambda>b. b < 256) bs \<Longrightarrow> 32 \<notin> set bs \<Longrightarrow>
     replace_r20 (concat (map escape_byte bs) @ s) = concat (map escape_byte bs) @ replace_r20 s"
  by (induction bs) (simp_all add: r20_byte del: replace_r20.simps)

lemma r20_char: "replace_r20 (encode_char c @ s) = sent_char c @ replace_r20 s"
proof (cases "c = CHR '' ''")
  case True
  have "encode_char (CHR '' '') = escape_byte 32" by code_simp
  with True r20_byte [of 32 s] show ?thesis by (simp add: sent_char_def del: replace_r20.simps)
next
  case False
  then have "32 \<notin> set (utf8 c)" using utf8_space by blast
  moreover have "list_all (\<lambda>b. b < 256) (utf8 c)" using utf8_bytes by (simp add: list_all_iff)
  ultimately show ?thesis
    using False unreserved_not [of c] by (auto simp: encode_char_def sent_char_def r20_bytes r20_plain)
qed

lemma r20_encoded: "replace_r20 (encodeURIComponent s @ t) = sent s @ replace_r20 t"
  by (induction s) (simp_all add: encodeURIComponent_def sent_def r20_char del: replace_r20.simps)

lemma sent_chars:
  assumes "x \<in> set (sent s)"
  shows "unreserved x \<or> x = CHR ''%'' \<or> x = CHR ''+''"
proof -
  from assms obtain c where c: "x \<in> set (sent_char c)" by (auto simp: sent_def)
  have "unreserved x \<or> x = CHR ''%''" if "b \<in> set (utf8 c)" "x \<in> set (escape_byte b)" for b
    using that utf8_bytes [OF that(1)] hex_digits(2) by (auto simp: escape_byte_def)
  with c show ?thesis by (auto simp: sent_char_def encode_char_def split: if_splits)
qed

lemma sent_no_sep: "CHR ''&'' \<notin> set (sent s)" "CHR ''='' \<notin> set (sent s)"
  using sent_chars [of _ s] unreserved_not by fastforce+

lemma decode_byte: "b < 256 \<Longrightarrow> decode_bytes (escape_byte b @ s) = b # decode_bytes s"
  by (simp add: escape_byte_def hex_digits(1))

lemma decode_escaped: "list_all (\<lambda>b. b < 256) bs \<Longrightarrow> decode_bytes (concat (map escape_byte bs) @ s) = bs @ decode_bytes s"
  by (induction bs) (simp_all add: decode_byte del: decode_bytes.simps)

lemma decode_char: "decode_bytes (sent_char c @ s) = utf8 c @ decode_bytes s"
proof -
  have "list_all (\<lambda>b. b < 256) (utf8 c)" using utf8_bytes by (simp add: list_all_iff)
  moreover have "utf8 c = [of_char c]" if "unreserved c"
    using that by (auto simp: utf8_def unreserved_def is_word_def is_digit_def char_in_def Let_def)
  moreover have "utf8 (CHR '' '') = [32]" by code_simp
  ultimately show ?thesis
    using unreserved_not [of c]
    by (auto simp: sent_char_def encode_char_def decode_escaped simp del: decode_bytes.simps) (simp_all)
qed

lemma utf8_decode_char: "utf8_decode (utf8 c @ ns) = c # utf8_decode ns"
proof -
  have "(of_char c :: nat) < 256" by simp
  moreover have "(192 + n div 64 - 192) * 64 + (128 + n mod 64 - 128) = n" for n :: nat by simp
  ultimately show ?thesis by (simp add: utf8_def Let_def)
qed

lemma decode_sent: "form_decode_text (sent s) = s"
proof -
  have "decode_bytes (sent s) = concat (map utf8 s)"
    by (induction s) (simp_all add: sent_def decode_char del: decode_bytes.simps(2))
  moreover have "utf8_decode (concat (map utf8 s)) = s"
    by (induction s) (simp_all add: utf8_decode_char del: utf8_decode.simps(2))
  ultimately show ?thesis by (simp add: form_decode_text_def)
qed

section \<open>The whole text\<close>

definition sent_pair :: "(pvalue \<Rightarrow> string) \<Rightarrow> string \<times> pvalue \<Rightarrow> string" where
  "sent_pair str kv = sent (fst kv) @ ''='' @ sent (value_text str (snd kv))"

lemma r20_pair: "replace_r20 (add_param str kv @ t) = sent_pair str kv @ replace_r20 t"
  by (simp add: add_param_def sent_pair_def r20_encoded r20_plain del: replace_r20.simps)

lemma r20_join: "replace_r20 (join_with ''&'' (map (add_param str) kvs)) = join_with ''&'' (map (sent_pair str) kvs)"
proof (induction "''&''" "map (add_param str) kvs" arbitrary: kvs rule: join_with.induct)
  case (2 x)
  then show ?case using r20_pair [of str _ "[]"] by (auto simp del: replace_r20.simps) (simp)
next
  case (3 x y xs)
  then obtain kv kw ks where kvs: "kvs = kv # kw # ks" by (cases kvs; cases "tl kvs") auto
  with 3(1) [of "kw # ks"] 3(2) show ?case
    by (simp add: r20_pair r20_plain del: replace_r20.simps)
qed simp

lemma decode_pair: "form_decode_pair (sent_pair str kv) = (fst kv, value_text str (snd kv))"
proof -
  have "takeWhile (\<lambda>c. c \<noteq> CHR ''='') (sent_pair str kv) = sent (fst kv)"
    using sent_no_sep(2) by (auto simp: sent_pair_def takeWhile_append takeWhile_eq_all_conv)
  moreover have "dropWhile (\<lambda>c. c \<noteq> CHR ''='') (sent_pair str kv) = CHR ''='' # sent (value_text str (snd kv))"
    using sent_no_sep(2) by (auto simp: sent_pair_def dropWhile_append)
  ultimately show ?thesis by (simp add: form_decode_pair_def decode_sent)
qed

lemma sent_pair_sep: "CHR ''&'' \<notin> set (sent_pair str kv)" "sent_pair str kv \<noteq> []"
  using sent_no_sep by (auto simp: sent_pair_def)

lemma param_decoded:
  "form_decode (param str a traditional) = map (\<lambda>(k, v). (k, value_text str v)) (param_adds a traditional)"
proof (cases "param_adds a traditional")
  case Nil
  then show ?thesis by (simp add: param_def form_decode_def)
next
  case (Cons kv kvs)
  let ?ps = "map (sent_pair str) (param_adds a traditional)"
  have "split_on CHR ''&'' (join_with ''&'' ?ps) = ?ps"
    using Cons by (intro split_join) (auto simp: sent_pair_sep)
  moreover have "filter (\<lambda>p. p \<noteq> []) ?ps = ?ps" by (simp add: filter_id_conv sent_pair_sep)
  ultimately show ?thesis
    by (simp add: param_def form_decode_def r20_join decode_pair comp_def case_prod_unfold)
qed


section \<open>Nested values\<close>

text \<open>The place of a value in the argument: names, and indices of arrays; a name in the address is written \<open>a[b][c]\<close>.\<close>

fun key_text :: "string list \<Rightarrow> string" where
  "key_text [] = []"
| "key_text (n # ps) = n @ concat (map (\<lambda>p. ''['' @ p @ '']'') ps)"

definition key_path :: "string \<Rightarrow> string list" where
  "key_path k = (case split_on CHR ''['' k of [] \<Rightarrow> [] | n # ps \<Rightarrow> n # map butlast ps)"

definition name_ok :: "string \<Rightarrow> bool" where
  "name_ok n \<longleftrightarrow> CHR ''['' \<notin> set n \<and> CHR '']'' \<notin> set n"

definition path_ok :: "string list \<Rightarrow> bool" where
  "path_ok p \<longleftrightarrow> p \<noteq> [] \<and> list_all name_ok p"

lemma key_path_text:
  assumes "path_ok p"
  shows "key_path (key_text p) = p"
proof -
  obtain n ps where p: "p = n # ps" using assms by (cases p) (auto simp: path_ok_def)
  have join: "join_with sep (x # ys) = x @ concat (map (\<lambda>y. sep @ y) ys)" for sep x and ys :: "string list"
    by (induction ys arbitrary: x) simp_all
  have "key_text (n # ps) = join_with ''['' (n # map (\<lambda>p. p @ '']'') ps)" by (simp add: join comp_def)
  moreover have "split_on CHR ''['' (join_with ''['' (n # map (\<lambda>p. p @ '']'') ps)) = n # map (\<lambda>p. p @ '']'') ps"
    using assms by (intro split_join) (auto simp: p path_ok_def name_ok_def list_all_iff)
  ultimately show ?thesis by (simp add: key_path_def p comp_def)
qed

lemma key_text_snoc: "p \<noteq> [] \<Longrightarrow> key_text (p @ [m]) = key_text p @ ''['' @ m @ '']''"
  by (cases p) simp_all

text \<open>The scalars of a value with their places, in order: the elements of an array that are scalars have no index.\<close>

fun leaves :: "string list \<Rightarrow> pvalue \<Rightarrow> (string list \<times> pvalue) list"
  and item_leaves :: "string list \<Rightarrow> nat \<Rightarrow> pvalue list \<Rightarrow> (string list \<times> pvalue) list"
  and field_leaves :: "string list \<Rightarrow> (string \<times> pvalue) list \<Rightarrow> (string list \<times> pvalue) list" where
  "leaves p (Arr vs) = item_leaves p 0 vs"
| "leaves p (Plain ps) = field_leaves p ps"
| "leaves p v = [(p, v)]"
| "item_leaves p i [] = []"
| "item_leaves p i (v # vs) = leaves (p @ [if is_object v then show_nat i else []]) v @ item_leaves p (Suc i) vs"
| "field_leaves p [] = []"
| "field_leaves p ((n, v) # ps) = leaves (p @ [n]) v @ field_leaves p ps"

fun names_ok :: "pvalue \<Rightarrow> bool" where
  "names_ok (Arr vs) = list_all names_ok vs"
| "names_ok (Plain ps) = list_all (\<lambda>(n, v). name_ok n \<and> n \<noteq> [] \<and> names_ok v) ps"
| "names_ok v = True"

text \<open>The prefix of an array never looks like one whose elements are all scalars.\<close>

definition array_place :: "string list \<Rightarrow> pvalue \<Rightarrow> bool" where
  "array_place p v \<longleftrightarrow> is_object v \<longrightarrow> tl p = [] \<or> last p \<noteq> []"

lemma ends_in_brackets_key:
  assumes "path_ok p" and "tl p = [] \<or> last p \<noteq> []"
  shows "\<not> ends_in_brackets (key_text p)"
proof (cases p rule: rev_cases)
  case Nil
  with assms show ?thesis by (simp add: path_ok_def)
next
  case (snoc q m)
  show ?thesis
  proof (cases "q = []")
    case True
    with snoc assms(1) show ?thesis
      by (cases m rule: rev_cases) (auto simp: ends_in_brackets_def ends_with_def path_ok_def name_ok_def)
  next
    case False
    with snoc assms have "m \<noteq> []" "name_ok m" by (cases q; auto simp: path_ok_def)+
    with snoc False show ?thesis
      by (cases m rule: rev_cases) (auto simp: key_text_snoc ends_in_brackets_def ends_with_def name_ok_def)
  qed
qed

lemma name_ok_index: "name_ok (show_nat i)"
  using show_nat_digits [of i] by (auto simp: name_ok_def list_all_iff is_digit_def char_in_def)

lemma path_ok_snoc: "path_ok p \<Longrightarrow> name_ok n \<Longrightarrow> path_ok (p @ [n])"
  by (simp add: path_ok_def)

abbreviation written :: "(string list \<times> pvalue) list \<Rightarrow> (string \<times> pvalue) list" where
  "written ls \<equiv> map (\<lambda>(p, v). (key_text p, v)) ls"

lemma build_leaves:
  "names_ok v \<Longrightarrow> path_ok p \<Longrightarrow> array_place p v \<Longrightarrow>
     buildParams (key_text p) v False = written (leaves p v) \<and> list_all (\<lambda>(q, _). path_ok q) (leaves p v)"
  "list_all names_ok vs \<Longrightarrow> path_ok p \<Longrightarrow>
     build_items (key_text p) i vs = written (item_leaves p i vs) \<and> list_all (\<lambda>(q, _). path_ok q) (item_leaves p i vs)"
  "list_all (\<lambda>(n, v). name_ok n \<and> n \<noteq> [] \<and> names_ok v) ps \<Longrightarrow> path_ok p \<Longrightarrow>
     build_fields (key_text p) ps = written (field_leaves p ps) \<and> list_all (\<lambda>(q, _). path_ok q) (field_leaves p ps)"
proof (induction p v and p i vs and p ps rule: leaves_item_leaves_field_leaves.induct)
  case (1 p vs)
  then show ?case using ends_in_brackets_key [of p] by (simp add: array_place_def is_object_def)
next
  case (2 p ps)
  then show ?case by simp
next
  case (5 p i v vs)
  let ?n = "if is_object v then show_nat i else []"
  have "path_ok (p @ [?n])" using 5 name_ok_index by (auto intro!: path_ok_snoc simp: name_ok_def)
  moreover have "array_place (p @ [?n]) v" by (simp add: array_place_def)
  moreover have "key_text p @ ''['' @ ?n @ '']'' = key_text (p @ [?n])" using 5 by (simp add: key_text_snoc path_ok_def)
  ultimately show ?case using 5 by (simp del: buildParams.simps)
next
  case (7 p n v ps)
  then have "path_ok (p @ [n])" by (auto intro!: path_ok_snoc)
  moreover have "array_place (p @ [n]) v" using 7 by (simp add: array_place_def)
  moreover have "key_text p @ ''['' @ n @ '']'' = key_text (p @ [n])" using 7 by (simp add: key_text_snoc path_ok_def)
  ultimately show ?case using 7 by (simp del: buildParams.simps)
qed (simp_all)

section \<open>Properties\<close>

text \<open>A server that decodes what \<open>param\<close> makes gets the names and the texts of the values that were added, all of them and in
  order, whatever characters they have; with \<open>traditional\<close> or without.\<close>

lemma param_roundtrip:
  "form_decode (param str a traditional) = map (\<lambda>(k, v). (k, value_text str v)) (param_adds a traditional)"
  by (rule param_decoded)

text \<open>C13: Nested arrays and objects can be told from the names: with names that have no brackets, decoding and taking the names apart
  gives every scalar of the argument with its place.\<close>

theorem param_places:
  assumes "list_all (\<lambda>(n, v). name_ok n \<and> names_ok v) ps"
  shows "map (\<lambda>(k, s). (key_path k, s)) (form_decode (param str (Params ps) False))
    = map (\<lambda>(p, v). (p, value_text str v)) (concat (map (\<lambda>(n, v). leaves [n] v) ps))"
proof -
  have "map (\<lambda>(k, v). (key_path k, value_text str v)) (buildParams n v False) = map (\<lambda>(p, v). (p, value_text str v)) (leaves [n] v)"
    if "(n, v) \<in> set ps" for n v
  proof -
    have ok: "names_ok v" "path_ok [n]" "array_place [n] v"
      using that assms by (auto simp: path_ok_def array_place_def list_all_iff)
    from build_leaves(1) [OF this] show ?thesis
      by (auto simp: key_path_text list_all_iff simp del: buildParams.simps)
  qed
  then have "concat (map (\<lambda>x. map (\<lambda>(k, v). (key_path k, value_text str v)) (case x of (n, v) \<Rightarrow> buildParams n v False)) ps)
      = concat (map (\<lambda>x. map (\<lambda>(p, v). (p, value_text str v)) (case x of (n, v) \<Rightarrow> leaves [n] v)) ps)"
    by (intro arg_cong [where f = concat] map_cong refl) (auto simp del: buildParams.simps)
  then show ?thesis
    by (simp add: param_decoded param_adds_def map_concat comp_def case_prod_unfold del: buildParams.simps)
qed

theorem param_places_witness:
  "map (\<lambda>(k, s). (key_path k, s))
      (form_decode (param (\<lambda>_. []) (Params [(''a b'', Arr [Prim ''1&'', Arr [Prim ''+'', Nullish]]), (''c'', Plain [(''d'', Prim ''%'')])]) False))
    = [([''a b'', ''''], ''1&''), ([''a b'', ''1'', ''''], ''+''), ([''a b'', ''1'', ''''], ''''), ([''c'', ''d''], ''%'')]"
proof -
  have "show_nat 1 = ''1''" by (simp add: show_nat.simps) code_simp
  then show ?thesis
    using param_places [of "[(''a b'', Arr [Prim ''1&'', Arr [Prim ''+'', Nullish]]), (''c'', Plain [(''d'', Prim ''%'')])]" "\<lambda>_. []"]
    by (simp add: name_ok_def is_object_def value_text_def del: buildParams.simps)
qed

end
