(* ===== verification/JqQueue.thy ===== *)
theory JqQueue
  imports JsMachine
begin

text \<open>
  The queues of an element (\<open>lib/jquery.js\<close>): \<open>queue\<close>, \<open>dequeue\<close>, \<open>_queueHooks\<close>, the methods \<open>queue\<close>,
  \<open>dequeue\<close>, \<open>clearQueue\<close>, \<open>delay\<close> and \<open>promise\<close>, what \<open>stop\<close> does to a queue, and the animations that
  run beside a queue. A function of a queue is called as the last thing that \<open>dequeue\<close> does, so what it
  does comes as further happenings; what the functions of a promise do between two of them
  likewise. Functions that throw are left out; the types of queues have no hyphens, at which the store of
  data joins names.
\<close>

section \<open>The code\<close>

text \<open>An element and the type of a queue; the code stores the queue under the type followed by \<open>queue\<close>.\<close>

type_synonym qkey = "nat \<times> string"

text \<open>What a queue holds: the functions of scripts, those of \<open>delay\<close>, and the sentinel \<open>inprogress\<close>.\<close>

datatype work = Fn nat | Wait nat

datatype entry = InProgress | Do work

text \<open>
  The hooks of a queue: the timeout that \<open>stop\<close> clears, the number of animations beside the queue, and what
  \<open>empty\<close> calls after it has removed the queue and the hooks.
\<close>

record hooks =
  stop_timer :: "nat option"
  unqueued :: "nat option"
  waiters :: "nat list"

text \<open>\<open>pending\<close> are the functions of an \<open>empty\<close> that is being fired, \<open>counts\<close> the variables \<open>count\<close> of the promises.\<close>

record queues =
  queue_data :: "qkey \<Rightarrow> entry list option"
  hooks_data :: "qkey \<Rightarrow> hooks option"
  pending :: "nat list"
  counts :: "int list"
  timeouts :: "(nat \<times> qkey) list"
  next_timeout :: nat

datatype queue_event = Called qkey work | Resolved nat | Raised

datatype queue_arg = Lookup | Push work | Replace "work list"

definition is_fx :: "qkey \<Rightarrow> bool" where
  "is_fx k \<longleftrightarrow> snd k = ''fx''"

definition queue :: "qkey \<Rightarrow> queue_arg \<Rightarrow> queues \<Rightarrow> entry list \<times> queues" where
  "queue k d w =
     (let q = (case queue_data w k of None \<Rightarrow> [] | Some q \<Rightarrow> q)
      in case d of
           Lookup \<Rightarrow> (q, w)
         | Push f \<Rightarrow> (q @ [Do f], w\<lparr>queue_data := (queue_data w)(k \<mapsto> q @ [Do f])\<rparr>)
         | Replace fs \<Rightarrow> (map Do fs, w\<lparr>queue_data := (queue_data w)(k \<mapsto> map Do fs)\<rparr>))"

definition queueHooks :: "qkey \<Rightarrow> queues \<Rightarrow> queues" where
  "queueHooks k w =
     (case hooks_data w k of
        Some h \<Rightarrow> w
      | None \<Rightarrow> w\<lparr>hooks_data := (hooks_data w)(k \<mapsto> \<lparr>stop_timer = None, unqueued = None, waiters = []\<rparr>)\<rparr>)"

definition change_hooks :: "qkey \<Rightarrow> (hooks \<Rightarrow> hooks) \<Rightarrow> queues \<Rightarrow> queues" where
  "change_hooks k f w = w\<lparr>hooks_data := (hooks_data w)(k := map_option f (hooks_data w k))\<rparr>"

text \<open>\<open>hooks.empty.fire\<close>, which an animation beside the queue replaces by a function that waits for it.\<close>

definition fire_empty :: "qkey \<Rightarrow> queues \<Rightarrow> queues" where
  "fire_empty k w =
     (case hooks_data w k of
        None \<Rightarrow> w
      | Some h \<Rightarrow>
          if unqueued h \<noteq> None \<and> unqueued h \<noteq> Some 0 then w
          else w\<lparr>queue_data := (queue_data w)(k := None), hooks_data := (hooks_data w)(k := None),
                 pending := waiters h @ pending w\<rparr>)"

fun shift :: "entry list \<Rightarrow> entry option \<times> entry list" where
  "shift [] = (None, [])"
| "shift (x # xs) = (Some x, xs)"

text \<open>The array of a queue is changed in place; where there is none the change goes to a new array that is dropped.\<close>

definition put_queue :: "qkey \<Rightarrow> entry list \<Rightarrow> queues \<Rightarrow> queues" where
  "put_queue k q w = w\<lparr>queue_data := (queue_data w)(k := map_option (\<lambda>_. q) (queue_data w k))\<rparr>"

text \<open>The function that \<open>delay\<close> queues sets a timeout and the hook that clears it.\<close>

definition call_work :: "qkey \<Rightarrow> work \<Rightarrow> queues \<Rightarrow> queue_event list \<times> queues" where
  "call_work k f w =
     ([Called k f],
      case f of
        Fn n \<Rightarrow> w
      | Wait t \<Rightarrow>
          change_hooks k (\<lambda>h. h\<lparr>stop_timer := Some (next_timeout w)\<rparr>)
            (w\<lparr>timeouts := timeouts w @ [(next_timeout w, k)], next_timeout := next_timeout w + 1\<rparr>))"

definition dequeue :: "qkey \<Rightarrow> queues \<Rightarrow> queue_event list \<times> queues" where
  "dequeue k w =
     (let q = fst (queue k Lookup w);
          startLength = int (length q);
          (fn, q) = shift q;
          w = queueHooks k w;
          (fn, q, startLength) =
            (if fn = Some InProgress then (fst (shift q), snd (shift q), startLength - 1) else (fn, q, startLength))
      in case fn of
           None \<Rightarrow> ([], if startLength = 0 then fire_empty k (put_queue k q w) else put_queue k q w)
         | Some e \<Rightarrow>
             let w = put_queue k (if is_fx k then InProgress # q else q) w;
                 w = change_hooks k (\<lambda>h. h\<lparr>stop_timer := None\<rparr>) w
             in case e of
                  InProgress \<Rightarrow> ([Raised], w)
                | Do f \<Rightarrow>
                    let (cs, w) = call_work k f w in (cs, if startLength = 0 then fire_empty k w else w))"

text \<open>The method \<open>queue\<close> with something to add, for one element; \<open>clearQueue\<close> and \<open>delay\<close> call it.\<close>

definition fn_queue :: "qkey \<Rightarrow> queue_arg \<Rightarrow> queues \<Rightarrow> queue_event list \<times> queues" where
  "fn_queue k d w =
     (let (q, w) = queue k d w; w = queueHooks k w
      in if is_fx k \<and> (q = [] \<or> hd q \<noteq> InProgress) then dequeue k w else ([], w))"

definition clearQueue :: "qkey \<Rightarrow> queues \<Rightarrow> queue_event list \<times> queues" where
  "clearQueue k = fn_queue k (Replace [])"

text \<open>A time is a number or the name of a speed; \<open>setTimeout\<close> takes other names for 0.\<close>

datatype span = Millis nat | Speed string

definition speeds :: "string \<Rightarrow> nat option" where
  "speeds = map_of [(''slow'', 600), (''fast'', 200), (''_default'', 400)]"

definition span_time :: "span \<Rightarrow> nat" where
  "span_time t = (case t of Millis n \<Rightarrow> n | Speed s \<Rightarrow> (case speeds s of None \<Rightarrow> 0 | Some n \<Rightarrow> n))"

definition delay :: "qkey \<Rightarrow> span \<Rightarrow> queues \<Rightarrow> queue_event list \<times> queues" where
  "delay k time = fn_queue k (Push (Wait (span_time time)))"

text \<open>\<open>promise\<close>, whose loop goes through the elements from the last to the first.\<close>

definition resolve_count :: "nat \<Rightarrow> queues \<Rightarrow> queue_event list \<times> queues" where
  "resolve_count p w =
     (let c = counts w ! p - 1
      in (if c = 0 then [Resolved p] else [], w\<lparr>counts := (counts w)[p := c]\<rparr>))"

fun await :: "nat \<Rightarrow> qkey list \<Rightarrow> int \<Rightarrow> queues \<Rightarrow> int \<times> queues" where
  "await p [] c w = (c, w)"
| "await p (k # ks) c w =
     (if hooks_data w k = None then await p ks c w
      else await p ks (c + 1) (change_hooks k (\<lambda>h. h\<lparr>waiters := waiters h @ [p]\<rparr>) w))"

definition fn_promise :: "nat list \<Rightarrow> string \<Rightarrow> queues \<Rightarrow> queue_event list \<times> queues" where
  "fn_promise elems t w =
     (let p = length (counts w);
          (c, w) = await p (map (\<lambda>e. (e, t)) (rev elems)) 1 w
      in resolve_count p (w\<lparr>counts := counts w @ [c]\<rparr>))"

text \<open>What \<open>stop\<close> does to the hooks of a queue: \<open>hooks.stop\<close> is deleted and called.\<close>

definition stopQueue :: "qkey \<Rightarrow> queues \<Rightarrow> queues" where
  "stopQueue k w =
     (case hooks_data w k of
        None \<Rightarrow> w
      | Some h \<Rightarrow>
          (case stop_timer h of
             None \<Rightarrow> w
           | Some i \<Rightarrow>
               (change_hooks k (\<lambda>h. h\<lparr>stop_timer := None\<rparr>) w)\<lparr>timeouts := filter (\<lambda>x. fst x \<noteq> i) (timeouts w)\<rparr>))"

text \<open>An animation with \<open>queue: false\<close> starts and ends.\<close>

definition start_beside :: "nat \<Rightarrow> queues \<Rightarrow> queues" where
  "start_beside e w =
     change_hooks (e, ''fx'') (\<lambda>h. h\<lparr>unqueued := Some (case unqueued h of None \<Rightarrow> 1 | Some n \<Rightarrow> n + 1)\<rparr>)
       (queueHooks (e, ''fx'') w)"

definition end_beside :: "nat \<Rightarrow> queues \<Rightarrow> queues" where
  "end_beside e w =
     (let w = change_hooks (e, ''fx'') (\<lambda>h. h\<lparr>unqueued := map_option (\<lambda>n. n - 1) (unqueued h)\<rparr>) w
      in if fst (queue (e, ''fx'') Lookup w) = [] then fire_empty (e, ''fx'') w else w)"

section \<open>Runs\<close>

text \<open>
  What scripts and the browser do: call the methods on an element or \<open>jQuery.queue\<close> itself, call the function
  \<open>next\<close> or \<open>dequeue\<close>, ask for a promise, start and end animations beside a queue; a timeout runs; the next
  function of a promise runs. An animation ends only where one runs.
\<close>

datatype happening =
    Queue qkey work | Delay qkey span | Reset qkey "work list" | Plain qkey queue_arg | Dequeue qkey
  | Promise "nat list" string | Resolve | Timeout nat | Stop qkey | StartBeside nat | EndBeside nat

fun happen :: "happening \<Rightarrow> queues \<Rightarrow> queue_event list \<times> queues" where
  "happen (Queue k f) w = fn_queue k (Push f) w"
| "happen (Delay k t) w = delay k t w"
| "happen (Reset k fs) w = fn_queue k (Replace fs) w"
| "happen (Plain k d) w = ([], snd (queue k d w))"
| "happen (Dequeue k) w = dequeue k w"
| "happen (Promise es t) w = fn_promise es t w"
| "happen Resolve w = (case pending w of [] \<Rightarrow> ([], w) | p # ps \<Rightarrow> resolve_count p (w\<lparr>pending := ps\<rparr>))"
| "happen (Timeout i) w =
     (case map_of (timeouts w) i of
        None \<Rightarrow> ([], w)
      | Some k \<Rightarrow> dequeue k (w\<lparr>timeouts := filter (\<lambda>x. fst x \<noteq> i) (timeouts w)\<rparr>))"
| "happen (Stop k) w = ([], stopQueue k w)"
| "happen (StartBeside e) w = ([], start_beside e w)"
| "happen (EndBeside e) w =
     (case hooks_data w (e, ''fx'') of
        None \<Rightarrow> ([], w)
      | Some h \<Rightarrow> if unqueued h = None \<or> unqueued h = Some 0 then ([], w) else ([], end_beside e w))"

definition no_queues :: queues where
  "no_queues = \<lparr>queue_data = (\<lambda>_. None), hooks_data = (\<lambda>_. None), pending = [], counts = [], timeouts = [],
     next_timeout = 0\<rparr>"

section \<open>The specification\<close>

text \<open>
  The contract: a queue calls its functions in the order in which they were queued; the queue \<open>fx\<close> starts
  by itself and calls nothing while a function runs. A promise watches the queues that have hooks when it is
  made; a queue that has nothing left releases its watchers, unless an animation runs beside it; a promise is
  resolved when its last watch has been released. There is no sentinel and nothing is counted.
\<close>

record job =
  running :: bool
  waiting :: "work list"

record hooked =
  alarm :: "nat option"
  beside :: "nat option"

record queue_spec =
  jobs :: "qkey \<Rightarrow> job option"
  hooking :: "qkey \<Rightarrow> hooked option"
  promises :: nat
  watches :: "(nat \<times> qkey) list"
  released :: "nat list"
  alarms :: "(nat \<times> qkey) list"
  next_alarm :: nat

definition spec_hook :: "qkey \<Rightarrow> queue_spec \<Rightarrow> queue_spec" where
  "spec_hook k a =
     (if hooking a k = None then a\<lparr>hooking := (hooking a)(k \<mapsto> \<lparr>alarm = None, beside = None\<rparr>)\<rparr> else a)"

definition attended :: "qkey \<Rightarrow> queue_spec \<Rightarrow> bool" where
  "attended k a \<longleftrightarrow> (case Option.bind (hooking a k) beside of None \<Rightarrow> False | Some n \<Rightarrow> n \<noteq> 0)"

definition release :: "qkey \<Rightarrow> queue_spec \<Rightarrow> queue_spec" where
  "release k a = a\<lparr>jobs := (jobs a)(k := None), hooking := (hooking a)(k := None),
     watches := filter (\<lambda>x. snd x \<noteq> k) (watches a),
     released := map fst (filter (\<lambda>x. snd x = k) (watches a)) @ released a\<rparr>"

definition nothing_left :: "qkey \<Rightarrow> queue_spec \<Rightarrow> queue_spec" where
  "nothing_left k a =
     (if attended k a then a\<lparr>jobs := (jobs a)(k := map_option (\<lambda>_. \<lparr>running = False, waiting = []\<rparr>) (jobs a k))\<rparr>
      else release k a)"

definition spec_alarm :: "qkey \<Rightarrow> nat option \<Rightarrow> queue_spec \<Rightarrow> queue_spec" where
  "spec_alarm k i a = a\<lparr>hooking := (hooking a)(k := map_option (\<lambda>h. h\<lparr>alarm := i\<rparr>) (hooking a k))\<rparr>"

definition spec_call :: "qkey \<Rightarrow> work \<Rightarrow> work list \<Rightarrow> queue_spec \<Rightarrow> queue_event list \<times> queue_spec" where
  "spec_call k f fs a =
     (let a = (spec_hook k a)\<lparr>jobs := (jobs a)(k \<mapsto> \<lparr>running = is_fx k, waiting = fs\<rparr>)\<rparr>
      in ([Called k f],
          case f of
            Fn n \<Rightarrow> spec_alarm k None a
          | Wait t \<Rightarrow> (spec_alarm k (Some (next_alarm a)) a)
              \<lparr>alarms := alarms a @ [(next_alarm a, k)], next_alarm := next_alarm a + 1\<rparr>))"

definition spec_next :: "qkey \<Rightarrow> queue_spec \<Rightarrow> queue_event list \<times> queue_spec" where
  "spec_next k a =
     (case jobs a k of
        None \<Rightarrow> ([], nothing_left k a)
      | Some j \<Rightarrow> (case waiting j of [] \<Rightarrow> ([], nothing_left k a) | f # fs \<Rightarrow> spec_call k f fs a))"

definition spec_put :: "qkey \<Rightarrow> queue_arg \<Rightarrow> queue_spec \<Rightarrow> queue_spec" where
  "spec_put k d a =
     (let j = (case jobs a k of None \<Rightarrow> \<lparr>running = False, waiting = []\<rparr> | Some j \<Rightarrow> j)
      in case d of
           Lookup \<Rightarrow> a
         | Push f \<Rightarrow> a\<lparr>jobs := (jobs a)(k \<mapsto> j\<lparr>waiting := waiting j @ [f]\<rparr>)\<rparr>
         | Replace fs \<Rightarrow> a\<lparr>jobs := (jobs a)(k \<mapsto> \<lparr>running = False, waiting = fs\<rparr>)\<rparr>)"

definition is_running :: "qkey \<Rightarrow> queue_spec \<Rightarrow> bool" where
  "is_running k a = (case jobs a k of None \<Rightarrow> False | Some j \<Rightarrow> running j)"

definition spec_queue :: "qkey \<Rightarrow> queue_arg \<Rightarrow> queue_spec \<Rightarrow> queue_event list \<times> queue_spec" where
  "spec_queue k d a =
     (let a = spec_hook k (spec_put k d a)
      in if is_fx k \<and> \<not> is_running k a then spec_next k a else ([], a))"

definition spec_settle :: "nat \<Rightarrow> queue_spec \<Rightarrow> queue_event list" where
  "spec_settle p a = (if p \<in> fst ` set (watches a) \<union> set (released a) then [] else [Resolved p])"

definition spec_beside :: "qkey \<Rightarrow> nat \<Rightarrow> queue_spec \<Rightarrow> queue_spec" where
  "spec_beside k n a = a\<lparr>hooking := (hooking a)(k := map_option (\<lambda>h. h\<lparr>beside := Some n\<rparr>) (hooking a k))\<rparr>"

fun spec_happen :: "happening \<Rightarrow> queue_spec \<Rightarrow> queue_event list \<times> queue_spec" where
  "spec_happen (Queue k f) a = spec_queue k (Push f) a"
| "spec_happen (Delay k t) a = spec_queue k (Push (Wait (span_time t))) a"
| "spec_happen (Reset k fs) a = spec_queue k (Replace fs) a"
| "spec_happen (Plain k d) a = ([], spec_put k d a)"
| "spec_happen (Dequeue k) a = spec_next k a"
| "spec_happen (Promise es t) a =
     (let p = promises a;
          ks = filter (\<lambda>k. hooking a k \<noteq> None) (map (\<lambda>e. (e, t)) (rev es));
          a = a\<lparr>promises := p + 1, watches := watches a @ map (Pair p) ks\<rparr>
      in (spec_settle p a, a))"
| "spec_happen Resolve a =
     (case released a of [] \<Rightarrow> ([], a) | p # ps \<Rightarrow> let a = a\<lparr>released := ps\<rparr> in (spec_settle p a, a))"
| "spec_happen (Timeout i) a =
     (case map_of (alarms a) i of
        None \<Rightarrow> ([], a)
      | Some k \<Rightarrow> spec_next k (a\<lparr>alarms := filter (\<lambda>x. fst x \<noteq> i) (alarms a)\<rparr>))"
| "spec_happen (Stop k) a =
     (case Option.bind (hooking a k) alarm of
        None \<Rightarrow> ([], a)
      | Some i \<Rightarrow> ([], (spec_alarm k None a)\<lparr>alarms := filter (\<lambda>x. fst x \<noteq> i) (alarms a)\<rparr>))"
| "spec_happen (StartBeside e) a =
     (let k = (e, ''fx''); a = spec_hook k a
      in ([], spec_beside k (case Option.bind (hooking a k) beside of None \<Rightarrow> 1 | Some n \<Rightarrow> n + 1) a))"
| "spec_happen (EndBeside e) a =
     (let k = (e, ''fx'')
      in if \<not> attended k a then ([], a)
         else
           let a = spec_beside k (the (Option.bind (hooking a k) beside) - 1) a
           in ([], if \<not> is_running k a \<and> (case jobs a k of None \<Rightarrow> True | Some j \<Rightarrow> waiting j = [])
                   then nothing_left k a else a))"

definition spec_start :: queue_spec where
  "spec_start = \<lparr>jobs = (\<lambda>_. None), hooking = (\<lambda>_. None), promises = 0, watches = [], released = [], alarms = [],
     next_alarm = 0\<rparr>"

section \<open>The code refines the specification\<close>

definition job_entries :: "job \<Rightarrow> entry list" where
  "job_entries j = (if running j then [InProgress] else []) @ map Do (waiting j)"

definition hooks_for :: "qkey \<Rightarrow> (nat \<times> qkey) list \<Rightarrow> hooked \<Rightarrow> hooks" where
  "hooks_for k ws h = \<lparr>stop_timer = alarm h, unqueued = beside h, waiters = map fst (filter (\<lambda>x. snd x = k) ws)\<rparr>"

definition open_watches :: "queue_spec \<Rightarrow> nat \<Rightarrow> nat" where
  "open_watches a p = count_list (map fst (watches a)) p + count_list (released a) p"

definition queues_rel :: "queue_spec \<Rightarrow> queues \<Rightarrow> bool" where
  "queues_rel a w \<longleftrightarrow>
     queue_data w = (\<lambda>k. map_option job_entries (jobs a k))
     \<and> hooks_data w = (\<lambda>k. map_option (hooks_for k (watches a)) (hooking a k))
     \<and> pending w = released a \<and> timeouts w = alarms a \<and> next_timeout w = next_alarm a
     \<and> counts w = map (\<lambda>p. int (open_watches a p)) [0..<promises a]
     \<and> (\<forall>k j. jobs a k = Some j \<longrightarrow> running j \<longrightarrow> is_fx k)
     \<and> (\<forall>x \<in> set (watches a). fst x < promises a \<and> hooking a (snd x) \<noteq> None)
     \<and> (\<forall>p \<in> set (released a). p < promises a)"


lemmas rel_simps = queues_rel_def job_entries_def hooks_for_def open_watches_def fun_eq_iff

lemma unwatched: "queues_rel a w \<Longrightarrow> hooking a k = None \<Longrightarrow> filter (\<lambda>x. snd x = k) (watches a) = []"
  by (auto simp: queues_rel_def filter_empty_conv)

lemma rel_hook: "queues_rel a w \<Longrightarrow> queues_rel (spec_hook k a) (queueHooks k w)"
  using unwatched [of a w k]
  by (auto simp: rel_simps spec_hook_def queueHooks_def split: option.splits)

lemma rel_data: "queues_rel a w \<Longrightarrow> queue_data w k = map_option job_entries (jobs a k)"
  by (simp add: queues_rel_def)

lemma rel_lookup:
  "queues_rel a w \<Longrightarrow> fst (queue k Lookup w) = (case jobs a k of None \<Rightarrow> [] | Some j \<Rightarrow> job_entries j)"
  by (simp add: queue_def rel_data Let_def split: option.split)

lemma rel_jobs:
  assumes "queues_rel a w" and "running j \<longrightarrow> is_fx k"
  shows "queues_rel (a\<lparr>jobs := (jobs a)(k \<mapsto> j)\<rparr>) (w\<lparr>queue_data := (queue_data w)(k \<mapsto> job_entries j)\<rparr>)"
  using assms by (auto simp: queues_rel_def open_watches_def fun_eq_iff simp del: split_paired_All)

lemma rel_put:
  assumes rel: "queues_rel a w"
  shows "queues_rel (spec_put k d a) (snd (queue k d w))"
proof (cases d)
  case Lookup
  with rel show ?thesis by (simp add: queue_def spec_put_def)
next
  case (Push f)
  define j where "j = (case jobs a k of None \<Rightarrow> \<lparr>running = False, waiting = []\<rparr> | Some j \<Rightarrow> j)"
  have "running j \<longrightarrow> is_fx k"
    using rel by (auto simp: queues_rel_def j_def simp del: split_paired_All split: option.split)
  moreover have "job_entries (j\<lparr>waiting := waiting j @ [f]\<rparr>)
      = (case queue_data w k of None \<Rightarrow> [] | Some q \<Rightarrow> q) @ [Do f]"
    by (simp add: rel_data [OF rel] j_def job_entries_def split: option.split)
  ultimately show ?thesis
    using rel_jobs [OF rel, where k = k and j = "j\<lparr>waiting := waiting j @ [f]\<rparr>"] Push
    by (simp add: queue_def spec_put_def Let_def flip: j_def)
next
  case (Replace fs)
  with rel_jobs [OF rel, where k = k and j = "\<lparr>running = False, waiting = fs\<rparr>"] show ?thesis
    by (simp add: queue_def spec_put_def job_entries_def)
qed

lemma count_released:
  "count_list (map fst (filter (\<lambda>x. snd x \<noteq> k) xs)) p + count_list (map fst (filter (\<lambda>x. snd x = k) xs)) p
     = count_list (map fst xs) p"
  by (induction xs) auto

lemma rel_release:
  assumes rel: "queues_rel a w" and h: "hooking a k \<noteq> None"
  shows "queues_rel (release k a)
    (w\<lparr>queue_data := (queue_data w)(k := None), hooks_data := (hooks_data w)(k := None),
       pending := waiters (the (hooks_data w k)) @ pending w\<rparr>)"
proof -
  have "waiters (the (hooks_data w k)) = map fst (filter (\<lambda>x. snd x = k) (watches a))"
    using rel h by (auto simp: queues_rel_def hooks_for_def)
  moreover have "open_watches (release k a) = open_watches a"
    by (simp add: fun_eq_iff open_watches_def release_def count_released add.assoc [symmetric])
  moreover have "map_option (hooks_for k' (filter (\<lambda>x. snd x \<noteq> k) (watches a))) h' = map_option (hooks_for k' (watches a)) h'"
    if "k' \<noteq> k" for k' h'
  proof -
    have "filter (\<lambda>x. snd x \<noteq> k \<and> snd x = k') (watches a) = filter (\<lambda>x. snd x = k') (watches a)"
      using that by (intro filter_cong) auto
    then show ?thesis by (simp add: hooks_for_def [abs_def])
  qed
  ultimately show ?thesis
    using rel by (auto simp: queues_rel_def release_def fun_eq_iff simp del: split_paired_All)
qed

lemma nothing_left_hook: "nothing_left k (spec_hook k a) = nothing_left k a"
  by (auto simp: nothing_left_def attended_def spec_hook_def release_def)

lemma fire_empty_eq:
  assumes rel: "queues_rel a w"
  shows "fire_empty k w = (if hooking a k = None \<or> attended k a then w
    else w\<lparr>queue_data := (queue_data w)(k := None), hooks_data := (hooks_data w)(k := None),
           pending := waiters (the (hooks_data w k)) @ pending w\<rparr>)"
  using rel by (auto simp: fire_empty_def queues_rel_def hooks_for_def attended_def split: option.split)

lemma rel_empty_put: "queues_rel a w \<Longrightarrow> queues_rel
    (a\<lparr>jobs := (jobs a)(k := map_option (\<lambda>_. \<lparr>running = False, waiting = []\<rparr>) (jobs a k))\<rparr>) (put_queue k [] w)"
  by (cases "jobs a k") (auto simp: queues_rel_def open_watches_def put_queue_def job_entries_def fun_eq_iff simp del: split_paired_All)

lemma rel_nothing_left:
  assumes rel: "queues_rel a w"
  shows "queues_rel (nothing_left k a) (fire_empty k (put_queue k [] (queueHooks k w)))"
proof -
  let ?a = "spec_hook k a"
  let ?b = "?a\<lparr>jobs := (jobs ?a)(k := map_option (\<lambda>_. \<lparr>running = False, waiting = []\<rparr>) (jobs ?a k))\<rparr>"
  have b: "queues_rel ?b (put_queue k [] (queueHooks k w))"
    by (rule rel_empty_put [OF rel_hook [OF rel]])
  have h: "hooking ?b k \<noteq> None" and att: "attended k ?b = attended k ?a" and "release k ?b = release k ?a"
    by (auto simp: spec_hook_def attended_def release_def)
  have "queues_rel (nothing_left k ?a) (fire_empty k (put_queue k [] (queueHooks k w)))"
    using rel_release [OF b h] b h \<open>release k ?b = release k ?a\<close>
    by (auto simp: fire_empty_eq [OF b] att nothing_left_def)
  then show ?thesis by (simp only: nothing_left_hook)
qed


lemma rel_change:
  assumes rel: "queues_rel a w" and f: "\<And>h. hooks_for k (watches a) (g h) = f (hooks_for k (watches a) h)"
  shows "queues_rel (a\<lparr>hooking := (hooking a)(k := map_option g (hooking a k))\<rparr>) (change_hooks k f w)"
  using rel by (cases "hooking a k") (auto simp: queues_rel_def open_watches_def change_hooks_def f fun_eq_iff simp del: split_paired_All)

lemma rel_alarm:
  assumes "queues_rel a w"
  shows "queues_rel (spec_alarm k i a) (change_hooks k (\<lambda>h. h\<lparr>stop_timer := i\<rparr>) w)"
  unfolding spec_alarm_def by (rule rel_change [OF assms]) (simp add: hooks_for_def)

lemma rel_beside:
  assumes "queues_rel a w" and "\<And>h. hooking a k = Some h \<Longrightarrow> f (beside h) = Some n"
  shows "queues_rel (spec_beside k n a) (change_hooks k (\<lambda>h. h\<lparr>unqueued := f (unqueued h)\<rparr>) w)"
  using assms by (cases "hooking a k")
    (auto simp: queues_rel_def open_watches_def change_hooks_def spec_beside_def hooks_for_def fun_eq_iff simp del: split_paired_All)

lemma rel_timeouts:
  assumes "queues_rel a w"
  shows "queues_rel (a\<lparr>alarms := ts, next_alarm := n\<rparr>) (w\<lparr>timeouts := ts, next_timeout := n\<rparr>)"
  using assms by (simp add: queues_rel_def open_watches_def)


lemma rel_alarms: "queues_rel a w \<Longrightarrow> queues_rel (a\<lparr>alarms := ts\<rparr>) (w\<lparr>timeouts := ts\<rparr>)"
  by (simp add: queues_rel_def open_watches_def)

lemma dequeue_call:
  assumes rel: "queues_rel a w" and j: "jobs a k = Some j" "waiting j = f # fs"
  shows "dequeue k w = call_work k f (change_hooks k (\<lambda>h. h\<lparr>stop_timer := None\<rparr>)
    (put_queue k (job_entries \<lparr>running = is_fx k, waiting = fs\<rparr>) (queueHooks k w)))"
  using j by (simp add: dequeue_def rel_lookup [OF rel] job_entries_def split_beta Let_def)

lemma dequeue_nothing:
  assumes rel: "queues_rel a w" and j: "\<And>j. jobs a k = Some j \<Longrightarrow> waiting j = []"
  shows "dequeue k w = ([], fire_empty k (put_queue k [] (queueHooks k w)))"
  using j by (auto simp: dequeue_def rel_lookup [OF rel] job_entries_def split_beta Let_def split: option.split)

lemma rel_called:
  assumes rel: "queues_rel a w" and j: "jobs a k = Some j"
  shows "queues_rel ((spec_hook k a)\<lparr>jobs := (jobs a)(k \<mapsto> \<lparr>running = is_fx k, waiting = fs\<rparr>)\<rparr>)
    (put_queue k (job_entries \<lparr>running = is_fx k, waiting = fs\<rparr>) (queueHooks k w))"
proof -
  have jobs: "jobs (spec_hook k a) = jobs a" by (simp add: spec_hook_def)
  then have "queue_data (queueHooks k w) k \<noteq> None"
    using rel_data [OF rel_hook [OF rel], of k k] j by simp
  with rel_jobs [OF rel_hook [OF rel], of "\<lparr>running = is_fx k, waiting = fs\<rparr>" k k] jobs show ?thesis
    by (auto simp: put_queue_def)
qed

lemma rel_call:
  assumes rel: "queues_rel a w" and j: "jobs a k = Some j" "waiting j = f # fs"
  shows "fst (dequeue k w) = fst (spec_call k f fs a) \<and> queues_rel (snd (spec_call k f fs a)) (snd (dequeue k w))"
proof -
  let ?b = "(spec_hook k a)\<lparr>jobs := (jobs a)(k \<mapsto> \<lparr>running = is_fx k, waiting = fs\<rparr>)\<rparr>"
  let ?w = "change_hooks k (\<lambda>h. h\<lparr>stop_timer := None\<rparr>)
    (put_queue k (job_entries \<lparr>running = is_fx k, waiting = fs\<rparr>) (queueHooks k w))"
  have b: "queues_rel (spec_alarm k None ?b) ?w"
    by (rule rel_alarm [OF rel_called [OF rel j(1)]])
  have jobs: "jobs (spec_hook k a) = jobs a" by (simp add: spec_hook_def)
  have "spec_alarm k i ((spec_alarm k None ?b)\<lparr>alarms := ts, next_alarm := n\<rparr>) = (spec_alarm k i ?b)\<lparr>alarms := ts, next_alarm := n\<rparr>"
    for i ts n by (simp add: spec_alarm_def option.map_comp comp_def)
  moreover have "timeouts ?w = alarms ?b" "next_timeout ?w = next_alarm ?b"
    using b by (simp_all add: queues_rel_def spec_alarm_def)
  ultimately show ?thesis
    using b rel_alarm [OF rel_timeouts [OF b, where ts = "alarms ?b @ [(next_alarm ?b, k)]" and n = "next_alarm ?b + 1"],
        of k "Some (next_alarm ?b)"]
    by (cases f) (simp_all add: dequeue_call [OF rel j] spec_call_def call_work_def jobs Let_def del: queue_spec.simps)
qed

lemma rel_next:
  assumes rel: "queues_rel a w"
  shows "fst (dequeue k w) = fst (spec_next k a) \<and> queues_rel (snd (spec_next k a)) (snd (dequeue k w))"
proof (cases "\<exists>j f fs. jobs a k = Some j \<and> waiting j = f # fs")
  case True
  with rel_call [OF rel, of k] show ?thesis by (auto simp: spec_next_def)
next
  case False
  then have "\<And>j. jobs a k = Some j \<Longrightarrow> waiting j = []" by (metis neq_Nil_conv)
  with dequeue_nothing [OF rel, of k] rel_nothing_left [OF rel, of k] False show ?thesis
    by (auto simp: spec_next_def split: option.split list.split)
qed

lemma rel_sentinel:
  assumes rel: "queues_rel a w"
  shows "(fst (queue k Lookup w) = [] \<or> hd (fst (queue k Lookup w)) \<noteq> InProgress) \<longleftrightarrow> \<not> is_running k a"
  by (auto simp: rel_lookup [OF rel] job_entries_def is_running_def hd_append map_eq_Cons_conv hd_map split: option.split)

lemma queue_result: "fst (queue k Lookup (queueHooks k (snd (queue k d w)))) = fst (queue k d w)"
  by (simp add: queue_def queueHooks_def Let_def split: queue_arg.split option.split)

lemma rel_queue:
  assumes rel: "queues_rel a w"
  shows "fst (fn_queue k d w) = fst (spec_queue k d a) \<and> queues_rel (snd (spec_queue k d a)) (snd (fn_queue k d w))"
proof -
  note r = rel_hook [OF rel_put [OF rel], of k k d]
  show ?thesis
    using rel_next [OF r, of k] rel_sentinel [OF r, of k] r
    by (auto simp: fn_queue_def spec_queue_def queue_result split_beta Let_def)
qed

lemma await_eq:
  assumes "hooks_data w = (\<lambda>k. map_option (hooks_for k ws) (hk k))"
  shows "await p ks c w = (c + int (length (filter (\<lambda>k. hk k \<noteq> None) ks)),
    w\<lparr>hooks_data := \<lambda>k. map_option (hooks_for k (ws @ map (Pair p) (filter (\<lambda>k. hk k \<noteq> None) ks))) (hk k)\<rparr>)"
  using assms
proof (induction ks arbitrary: c w ws)
  case Nil
  then show ?case by simp
next
  case (Cons k ks)
  show ?case
  proof (cases "hk k")
    case None
    with Cons show ?thesis by simp
  next
    case (Some h)
    let ?w = "change_hooks k (\<lambda>h. h\<lparr>waiters := waiters h @ [p]\<rparr>) w"
    have "hooks_data ?w = (\<lambda>k'. map_option (hooks_for k' (ws @ [(p, k)])) (hk k'))"
      using Some by (auto simp: change_hooks_def Cons.prems hooks_for_def [abs_def] fun_eq_iff option.map_comp comp_def simp del: split_paired_All)
    from Cons.IH [OF this, of "c + 1"] Some Cons.prems show ?thesis
      by (simp add: change_hooks_def)
  qed
qed


lemma settled_count:
  assumes rel: "queues_rel a (w\<lparr>pending := p # ps\<rparr>)"
  shows "fst (resolve_count p (w\<lparr>pending := ps\<rparr>)) = spec_settle p (a\<lparr>released := ps\<rparr>)
    \<and> queues_rel (a\<lparr>released := ps\<rparr>) (snd (resolve_count p (w\<lparr>pending := ps\<rparr>)))"
proof -
  have r: "released a = p # ps" and counts: "counts w = map (\<lambda>p. int (open_watches a p)) [0..<promises a]" and p: "p < promises a"
    using rel by (simp_all add: queues_rel_def) (metis list.set_intros(1))
  then have "counts w ! p - 1 = int (open_watches (a\<lparr>released := ps\<rparr>) p)"
    by (simp add: open_watches_def)
  moreover have "(counts w)[p := int (open_watches (a\<lparr>released := ps\<rparr>) p)]
      = map (\<lambda>p. int (open_watches (a\<lparr>released := ps\<rparr>) p)) [0..<promises a]"
    using counts r p by (intro nth_equalityI) (auto simp: open_watches_def nth_list_update)
  moreover have "(open_watches (a\<lparr>released := ps\<rparr>) p = 0) = (p \<notin> fst ` set (watches a) \<union> set ps)"
    by (auto simp: open_watches_def count_list_0_iff)
  ultimately show ?thesis
    using rel r by (auto simp: resolve_count_def spec_settle_def queues_rel_def Let_def simp del: split_paired_All)
qed

lemma count_list_const: "count_list (map (\<lambda>x. c) xs) c = length xs"
  by (induction xs) auto

lemma rel_promise:
  assumes rel: "queues_rel a w"
  shows "fst (happen (Promise es t) w) = fst (spec_happen (Promise es t) a)
    \<and> queues_rel (snd (spec_happen (Promise es t) a)) (snd (happen (Promise es t) w))"
proof -
  define keys where "keys = map (\<lambda>e. (e, t)) (rev es)"
  define ks where "ks = filter (\<lambda>k. hooking a k \<noteq> None) keys"
  let ?p = "promises a" and ?ws = "watches a @ map (Pair (promises a)) ks"
  define w' where "w' = w\<lparr>hooks_data := \<lambda>k. map_option (hooks_for k ?ws) (hooking a k), counts := counts w @ [int (length ks)]\<rparr>"
  have hooks: "hooks_data w = (\<lambda>k. map_option (hooks_for k (watches a)) (hooking a k))"
    and counts: "counts w = map (\<lambda>p. int (open_watches a p)) [0..<?p]"
    using rel by (simp_all add: queues_rel_def)
  have len: "length (counts w) = ?p" by (simp add: counts)
  have new: "?p \<notin> fst ` set (watches a)" "?p \<notin> set (released a)"
    using rel by (auto simp: queues_rel_def)
  have code: "fn_promise es t w = (if ks = [] then [Resolved ?p] else [], w')"
    unfolding fn_promise_def keys_def [symmetric] await_eq [OF hooks] ks_def [symmetric] w'_def len [symmetric]
    by (simp add: resolve_count_def)
  have spec: "spec_happen (Promise es t) a = (spec_settle ?p (a\<lparr>promises := ?p + 1, watches := ?ws\<rparr>), a\<lparr>promises := ?p + 1, watches := ?ws\<rparr>)"
    unfolding spec_happen.simps Let_def keys_def [symmetric] ks_def [symmetric] by (rule refl)
  have "counts w' = map (\<lambda>p. int (open_watches (a\<lparr>promises := ?p + 1, watches := ?ws\<rparr>) p)) [0..<?p + 1]"
    using counts new by (auto simp: w'_def open_watches_def comp_def count_list_0_iff count_list_const)
  moreover have "?p \<in> fst ` set ?ws \<longleftrightarrow> ks \<noteq> []" using new by (cases ks) auto
  moreover have "hooking a k \<noteq> None" if "k \<in> set ks" for k using that by (simp add: ks_def)
  ultimately show ?thesis
    using rel new unfolding spec happen.simps code
    by (auto simp: spec_settle_def queues_rel_def w'_def Let_def simp del: split_paired_All)
qed


lemma rel_stop:
  assumes rel: "queues_rel a w"
  shows "queues_rel (snd (spec_happen (Stop k) a)) (stopQueue k w)"
proof (cases "Option.bind (hooking a k) alarm")
  case None
  with rel show ?thesis by (auto simp: stopQueue_def queues_rel_def hooks_for_def split: option.split)
next
  case (Some i)
  then have h: "\<exists>h. hooks_data w k = Some h \<and> stop_timer h = Some i"
    using rel by (cases "hooking a k") (auto simp: queues_rel_def hooks_for_def)
  have "timeouts w = alarms a" "next_timeout w = next_alarm a" using rel by (simp_all add: queues_rel_def)
  with rel_alarms [OF rel_alarm [OF rel, of k None], of "filter (\<lambda>x. fst x \<noteq> i) (alarms a)"] h Some
  show ?thesis by (auto simp: stopQueue_def spec_alarm_def change_hooks_def)
qed

lemma rel_start_beside:
  assumes rel: "queues_rel a w"
  shows "queues_rel (snd (spec_happen (StartBeside e) a)) (start_beside e w)"
  unfolding start_beside_def spec_happen.simps Let_def snd_conv
  by (rule rel_beside [OF rel_hook [OF rel]]) (auto split: option.split)

lemma rel_attended:
  assumes rel: "queues_rel a w"
  shows "attended k a \<longleftrightarrow> (\<exists>h. hooks_data w k = Some h \<and> unqueued h \<noteq> None \<and> unqueued h \<noteq> Some 0)"
  using rel by (cases "hooking a k") (auto simp: queues_rel_def hooks_for_def attended_def split: option.splits)

lemma put_queue_same: "fst (queue k Lookup w) = [] \<Longrightarrow> put_queue k [] w = w"
  by (cases "queue_data w k") (auto simp: put_queue_def queue_def fun_eq_iff intro!: queues.equality)

lemma rel_end_beside:
  assumes rel: "queues_rel a w" and att: "attended (e, ''fx'') a"
  shows "queues_rel (snd (spec_happen (EndBeside e) a)) (end_beside e w)"
proof -
  let ?k = "(e, ''fx'')"
  define b where "b = spec_beside ?k (the (Option.bind (hooking a ?k) beside) - 1) a"
  define v where "v = change_hooks ?k (\<lambda>h. h\<lparr>unqueued := map_option (\<lambda>n. n - 1) (unqueued h)\<rparr>) w"
  have r: "queues_rel b v"
    unfolding b_def v_def by (rule rel_beside [OF rel]) (use att in \<open>auto simp: attended_def split: option.splits\<close>)
  have "hooks_data v ?k \<noteq> None" using att rel_attended [OF rel, of ?k] by (auto simp: v_def change_hooks_def)
  then have hooks: "queueHooks ?k v = v" by (auto simp: queueHooks_def)
  have same: "is_running ?k b = is_running ?k a" "jobs b = jobs a"
    by (simp_all add: b_def is_running_def spec_beside_def)
  have none: "(fst (queue ?k Lookup v) = []) = (\<not> is_running ?k a \<and> (case jobs a ?k of None \<Rightarrow> True | Some j \<Rightarrow> waiting j = []))"
    unfolding rel_lookup [OF r] same by (auto simp: job_entries_def is_running_def split: option.split)
  have code: "end_beside e w = (if fst (queue ?k Lookup v) = [] then fire_empty ?k v else v)"
    by (simp only: end_beside_def v_def Let_def)
  have spec: "snd (spec_happen (EndBeside e) a)
      = (if \<not> is_running ?k a \<and> (case jobs a ?k of None \<Rightarrow> True | Some j \<Rightarrow> waiting j = []) then nothing_left ?k b else b)"
    using att by (simp only: spec_happen.simps Let_def b_def [symmetric] same if_False not_not snd_conv not_True_eq_False)
  show ?thesis
  proof (cases "fst (queue ?k Lookup v) = []")
    case True
    show ?thesis
      unfolding code spec if_P [OF True] if_P [OF none [THEN iffD1, OF True]]
      using rel_nothing_left [OF r, of ?k] by (simp only: put_queue_same [OF True] hooks)
  next
    case False
    then show ?thesis unfolding code spec none using r by (simp only: if_False)
  qed
qed

lemma rel_happen:
  assumes rel: "queues_rel a w"
  shows "fst (happen x w) = fst (spec_happen x a) \<and> queues_rel (snd (spec_happen x a)) (snd (happen x w))"
proof (cases x)
  case Resolve
  show ?thesis
  proof (cases "released a")
    case Nil
    with rel Resolve show ?thesis by (simp add: queues_rel_def)
  next
    case (Cons p ps)
    with settled_count [where a = a and w = w and p = p and ps = ps] rel Resolve show ?thesis by (simp add: queues_rel_def Let_def)
  qed
next
  case (Timeout i)
  have "timeouts w = alarms a" using rel by (simp add: queues_rel_def)
  with rel rel_next [OF rel_alarms [OF rel]] Timeout show ?thesis by (auto split: option.split)
next
  case (EndBeside e)
  with rel rel_end_beside [OF rel, of e] rel_attended [OF rel, of "(e, ''fx'')"] show ?thesis
    by (auto simp: Let_def split: option.split)
next
  case (Promise es t)
  with rel_promise [OF rel] show ?thesis by (simp only:)
next
  case (Stop k)
  with rel_stop [OF rel, of k] show ?thesis by (simp split: option.split)
next
  case (StartBeside e)
  with rel_start_beside [OF rel, of e] show ?thesis by (simp add: Let_def)
qed (use rel_queue [OF rel] rel_put [OF rel] rel_next [OF rel] in \<open>simp_all add: delay_def\<close>)

interpretation queue_code: simulation happen spec_happen "\<lambda>x a. True" queues_rel
  by unfold_locales (rule rel_happen)


section \<open>What the contract gives\<close>

text \<open>The functions that are called on a queue, those given to it, and those that it holds.\<close>

fun called :: "qkey \<Rightarrow> queue_event list \<Rightarrow> work list" where
  "called k [] = []"
| "called k (Called k' f # es) = (if k' = k then f # called k es else called k es)"
| "called k (_ # es) = called k es"

fun queued :: "qkey \<Rightarrow> happening list \<Rightarrow> work list" where
  "queued k [] = []"
| "queued k (Queue k' f # xs) = (if k' = k then f # queued k xs else queued k xs)"
| "queued k (Delay k' t # xs) = (if k' = k then Wait (span_time t) # queued k xs else queued k xs)"
| "queued k (Plain k' (Push f) # xs) = (if k' = k then f # queued k xs else queued k xs)"
| "queued k (_ # xs) = queued k xs"

fun resets :: "qkey \<Rightarrow> happening \<Rightarrow> bool" where
  "resets k (Reset k' fs) = (k' = k)"
| "resets k (Plain k' (Replace fs)) = (k' = k)"
| "resets k x = False"

definition queued_work :: "qkey \<Rightarrow> queues \<Rightarrow> work list" where
  "queued_work k w = [f. Do f \<leftarrow> (case queue_data w k of None \<Rightarrow> [] | Some q \<Rightarrow> q)]"

definition job_work :: "qkey \<Rightarrow> queue_spec \<Rightarrow> work list" where
  "job_work k a = (case jobs a k of None \<Rightarrow> [] | Some j \<Rightarrow> waiting j)"

lemma queued_work_rel: "queues_rel a w \<Longrightarrow> queued_work k w = job_work k a"
  by (auto simp: queued_work_def job_work_def rel_data job_entries_def comp_def split: option.split)

lemma called_append: "called k (es @ fs) = called k es @ called k fs"
  by (induction k es rule: called.induct) auto

lemma queued_Cons: "queued k (x # xs) = queued k [x] @ queued k xs"
  by (cases x rule: queued.cases [of "(k, [x])" for x, simplified]) auto


lemma job_work_simps [simp]:
  "job_work k (spec_hook k' a) = job_work k a"
  "job_work k (spec_alarm k' i a) = job_work k a"
  "job_work k (spec_beside k' n a) = job_work k a"
  "job_work k (a\<lparr>hooking := hk\<rparr>) = job_work k a"
  "job_work k (a\<lparr>alarms := ts\<rparr>) = job_work k a"
  "job_work k (a\<lparr>next_alarm := n\<rparr>) = job_work k a"
  "job_work k (a\<lparr>released := ps\<rparr>) = job_work k a"
  "job_work k (a\<lparr>promises := m\<rparr>) = job_work k a"
  "job_work k (a\<lparr>watches := ws\<rparr>) = job_work k a"
  "job_work k (a\<lparr>jobs := (jobs a)(k' \<mapsto> j)\<rparr>) = (if k' = k then waiting j else job_work k a)"
  by (simp_all add: job_work_def spec_hook_def spec_alarm_def spec_beside_def)

lemma jobs_beside [simp]: "jobs (spec_beside k n a) = jobs a"
  by (simp add: spec_beside_def)

lemma job_work_nothing_left: "job_work k (nothing_left k' a) = (if k' = k then [] else job_work k a)"
  by (auto simp: job_work_def nothing_left_def release_def option.map_comp split: option.split)

lemma job_work_next: "called k (fst (spec_next k' a)) @ job_work k (snd (spec_next k' a)) = job_work k a"
  by (auto simp: spec_next_def spec_call_def job_work_nothing_left Let_def split: option.split list.split work.split)
    (simp_all add: job_work_def)

lemma job_work_put:
  "job_work k (spec_put k' d a) =
     (if k' \<noteq> k then job_work k a else case d of Lookup \<Rightarrow> job_work k a | Push f \<Rightarrow> job_work k a @ [f] | Replace fs \<Rightarrow> fs)"
  by (auto simp: spec_put_def Let_def split: queue_arg.split option.split) (simp_all add: job_work_def)

lemma job_work_queue: "called k (fst (spec_queue k' d a)) @ job_work k (snd (spec_queue k' d a)) = job_work k (spec_put k' d a)"
  using job_work_next [of k k' "spec_hook k' (spec_put k' d a)"] by (simp add: spec_queue_def Let_def)

lemma called_settle: "called k (spec_settle p a) = []"
  by (simp add: spec_settle_def)

lemma job_work_happen:
  assumes "\<not> resets k x"
  shows "called k (fst (spec_happen x a)) @ job_work k (snd (spec_happen x a)) = job_work k a @ queued k [x]"
proof (cases x)
  case (Plain k' d)
  with assms show ?thesis by (cases d) (auto simp: job_work_put)
next
  case (EndBeside e)
  then show ?thesis
    by (auto simp: job_work_nothing_left Let_def) (auto simp: job_work_def split: option.splits)
qed (use assms job_work_next [of k] in \<open>auto simp: job_work_queue job_work_put called_settle Let_def split: list.split option.split\<close>)

interpretation work_kept: machine spec_happen "\<lambda>x a. \<not> resets k x" "\<lambda>a. True" for k
  by unfold_locales simp

lemma guarded_all: "\<forall>x \<in> set xs. ok x \<Longrightarrow> guarded f (\<lambda>x s. ok x) xs s"
  by (induction xs arbitrary: s) auto

lemma spec_fifo:
  assumes "\<forall>x \<in> set xs. \<not> resets k x"
  shows "called k (fst (outputs spec_happen xs a)) @ job_work k (snd (outputs spec_happen xs a)) = job_work k a @ queued k xs"
proof (rule work_kept.adds_up [where k = k])
  show "guarded spec_happen (\<lambda>x a. \<not> resets k x) xs a" using assms by (rule guarded_all)
qed (rule queued_Cons | simp add: called_append job_work_happen del: spec_happen.simps)+

text \<open>A promise that is not resolved is one that still has watches, or is yet to be made.\<close>

definition unresolved :: "nat \<Rightarrow> queue_spec \<Rightarrow> queue_event list" where
  "unresolved p a = (if promises a \<le> p \<or> p \<in> fst ` set (watches a) \<union> set (released a) then [Resolved p] else [])"

definition watches_ok :: "queue_spec \<Rightarrow> bool" where
  "watches_ok a \<longleftrightarrow> (\<forall>p \<in> fst ` set (watches a) \<union> set (released a). p < promises a)"

definition same_watches :: "queue_spec \<Rightarrow> queue_spec \<Rightarrow> bool" where
  "same_watches a b \<longleftrightarrow> promises b = promises a
     \<and> fst ` set (watches b) \<union> set (released b) = fst ` set (watches a) \<union> set (released a)"

lemma same_watches_simps [simp]:
  "same_watches a a"
  "same_watches a (spec_hook k b) = same_watches a b"
  "same_watches a (spec_alarm k i b) = same_watches a b"
  "same_watches a (spec_beside k n b) = same_watches a b"
  "same_watches a (spec_put k d b) = same_watches a b"
  "same_watches a (b\<lparr>jobs := js\<rparr>) = same_watches a b"
  "same_watches a (b\<lparr>alarms := ts\<rparr>) = same_watches a b"
  "same_watches a (b\<lparr>next_alarm := m\<rparr>) = same_watches a b"
  by (simp_all add: same_watches_def spec_hook_def spec_alarm_def spec_beside_def spec_put_def Let_def split: queue_arg.split)

lemma same_watches_nothing_left [simp]: "same_watches a (nothing_left k b) = same_watches a b"
proof -
  have "fst ` set (watches (release k b)) \<union> set (released (release k b)) = fst ` set (watches b) \<union> set (released b)"
    by (auto simp: release_def image_iff)
  then show ?thesis by (auto simp: nothing_left_def same_watches_def) (simp_all add: release_def)
qed

lemma same_watches_next [simp]: "same_watches a (snd (spec_next k b)) = same_watches a b"
  by (simp add: spec_next_def spec_call_def Let_def split: option.split list.split work.split)

lemma same_watches_queue [simp]: "same_watches a (snd (spec_queue k d b)) = same_watches a b"
  by (simp add: spec_queue_def Let_def)


definition resolved_by :: "nat \<Rightarrow> queue_event list \<Rightarrow> queue_event list" where
  "resolved_by p es = filter (\<lambda>e. e = Resolved p) es"

lemma unresolved_same: "same_watches a b \<Longrightarrow> unresolved p b = unresolved p a \<and> (watches_ok a \<longrightarrow> watches_ok b)"
  by (simp add: same_watches_def unresolved_def watches_ok_def)

lemma next_resolves [simp]: "resolved_by p (fst (spec_next k a)) = []" "resolved_by p (fst (spec_queue k d a)) = []"
  by (auto simp: resolved_by_def spec_next_def spec_call_def spec_queue_def Let_def split: option.split list.split work.split)

lemma quiet_happen:
  assumes "x \<noteq> Resolve" and "\<forall>es t. x \<noteq> Promise es t"
  shows "resolved_by p (fst (spec_happen x a)) = [] \<and> same_watches a (snd (spec_happen x a))"
  by (cases x) (use assms in \<open>auto simp: Let_def split: option.split\<close>, simp_all add: resolved_by_def)

lemma unresolved_happen:
  assumes ok: "watches_ok a"
  shows "resolved_by p (fst (spec_happen x a)) @ unresolved p (snd (spec_happen x a)) = unresolved p a
    \<and> watches_ok (snd (spec_happen x a))"
proof (cases "x = Resolve \<or> (\<exists>es t. x = Promise es t)")
  case False
  with quiet_happen [of x p a] unresolved_same [of a "snd (spec_happen x a)" p] ok show ?thesis by auto
next
  case True
  then show ?thesis
  proof
    assume "x = Resolve"
    with ok show ?thesis
      by (cases "released a") (auto simp: resolved_by_def unresolved_def watches_ok_def spec_settle_def Let_def)
  next
    assume "\<exists>es t. x = Promise es t"
    then obtain es t where x: "x = Promise es t" by blast
    define ks where "ks = filter (\<lambda>k. hooking a k \<noteq> None) (map (\<lambda>e. (e, t)) (rev es))"
    define b where "b = a\<lparr>promises := promises a + 1, watches := watches a @ map (Pair (promises a)) ks\<rparr>"
    have step: "spec_happen x a = (spec_settle (promises a) b, b)"
      unfolding x spec_happen.simps Let_def ks_def [symmetric] b_def by (rule refl)
    have watched: "fst ` set (watches b) \<union> set (released b)
        = (fst ` set (watches a) \<union> set (released a)) \<union> (if ks = [] then {} else {promises a})"
      by (cases ks) (auto simp: b_def image_Un image_image)
    have "promises b = Suc (promises a)" by (simp add: b_def)
    moreover have "promises a \<notin> fst ` set (watches a) \<union> set (released a)" using ok by (auto simp: watches_ok_def)
    ultimately show ?thesis
      using ok unfolding step fst_conv snd_conv spec_settle_def unresolved_def watches_ok_def watched
      by (cases "ks = []"; cases "p = promises a") (simp_all add: resolved_by_def not_less_eq_eq less_Suc_eq le_Suc_eq)
  qed
qed

lemma resolved_by_append: "resolved_by p (es @ fs) = resolved_by p es @ resolved_by p fs"
  by (simp add: resolved_by_def)

interpretation promises_kept: machine spec_happen "\<lambda>x a. True" watches_ok
  by unfold_locales (simp add: unresolved_happen)

lemma spec_promises:
  assumes "watches_ok a"
  shows "resolved_by p (fst (outputs spec_happen xs a)) @ unresolved p (snd (outputs spec_happen xs a)) = unresolved p a"
proof -
  have "resolved_by p (fst (outputs spec_happen xs a)) @ unresolved p (snd (outputs spec_happen xs a)) = unresolved p a @ []"
  proof (rule promises_kept.adds_up [where given = "\<lambda>_. []"])
    show "resolved_by p (fst (spec_happen x s)) @ unresolved p (snd (spec_happen x s)) = unresolved p s @ []"
      if "watches_ok s" for x s using unresolved_happen [OF that] by simp
    show "resolved_by p [] = []" by (simp add: resolved_by_def)
  qed (use assms in \<open>simp_all only: resolved_by_append guarded_True append_Nil\<close>)
  then show ?thesis by simp
qed

lemma rel_start: "queues_rel spec_start no_queues"
  by (simp add: queues_rel_def spec_start_def no_queues_def)

definition queue_run :: "happening list \<Rightarrow> queue_event list \<times> queues" where
  "queue_run xs = outputs happen xs no_queues"

lemma queue_run_rel:
  "fst (queue_run xs) = fst (outputs spec_happen xs spec_start)"
  "queues_rel (snd (outputs spec_happen xs spec_start)) (snd (queue_run xs))"
  using queue_code.run_outputs [OF rel_start guarded_True, of xs] queue_code.run_related [OF rel_start guarded_True, of xs]
  by (simp_all add: queue_run_def)


text \<open>C14: the queues keep their contract: for every sequence of calls, timeouts and animations the code
  calls the same functions and resolves the same promises in the same order as the specification, in
  which a queue is a flag and a list of functions and a promise the list of the queues it waits for.
  The sentinel, the hooks and the counters of the promises never show; in particular the sentinel is
  never called as a function.\<close>

theorem queue_refines:
  "fst (queue_run xs) = fst (outputs spec_happen xs spec_start)"
  by (rule queue_run_rel)

text \<open>C16: a queue is first in, first out: as long as it is not replaced, the functions that have been called
  and those that it holds are the functions that were queued, each once and in their order, whatever
  happens on other queues, to promises and to timeouts.\<close>

theorem queue_fifo:
  assumes "\<forall>x \<in> set xs. \<not> resets k x"
  shows "called k (fst (queue_run xs)) @ queued_work k (snd (queue_run xs)) = queued k xs"
  using spec_fifo [OF assms, of spec_start] queue_run_rel [of xs]
  by (simp add: queued_work_rel) (simp add: job_work_def spec_start_def)

theorem queue_fifo_witness:
  "let k = (0, ''fx''); xs = [Delay k (Speed ''slow''), Queue k (Fn 1), Queue k (Fn 2), Stop k, Reset (1, ''fx'') [], Dequeue k]
   in called k (fst (queue_run xs)) @ queued_work k (snd (queue_run xs)) = [Wait 600, Fn 1, Fn 2]"
  unfolding Let_def by (subst queue_fifo) (simp_all add: span_time_def speeds_def)

definition hook_waiters :: "qkey \<Rightarrow> queues \<Rightarrow> nat list" where
  "hook_waiters k w = (case hooks_data w k of None \<Rightarrow> [] | Some h \<Rightarrow> waiters h)"

lemma hook_waiters_rel:
  assumes "queues_rel a w"
  shows "set (hook_waiters k w) = fst ` {x \<in> set (watches a). snd x = k}"
  using assms unwatched [OF assms, of k]
  by (cases "hooking a k") (auto simp: queues_rel_def hook_waiters_def hooks_for_def filter_empty_conv)

text \<open>C15: a promise is resolved once, and exactly when no queue that it waited for is left: in every
  reachable state a promise that has been made has been resolved if no hooks hold its function and none is
  due to be called, and otherwise it has not been. The counter that decides it is never off.\<close>

theorem queue_promise:
  "count_list (fst (queue_run xs)) (Resolved p) =
     (let w = snd (queue_run xs)
      in if length (counts w) \<le> p \<or> p \<in> set (pending w) \<or> (\<exists>k. p \<in> set (hook_waiters k w)) then 0 else 1)"
proof -
  define a where "a = snd (outputs spec_happen xs spec_start)"
  define w where "w = snd (queue_run xs)"
  have rel: "queues_rel a w" and out: "fst (queue_run xs) = fst (outputs spec_happen xs spec_start)"
    using queue_run_rel [of xs] by (simp_all add: a_def w_def)
  have "resolved_by p (fst (queue_run xs)) @ unresolved p a = [Resolved p]"
    using spec_promises [of spec_start p xs] by (simp add: out a_def watches_ok_def unresolved_def spec_start_def)
  then have "length (resolved_by p (fst (queue_run xs))) = (if unresolved p a = [] then 1 else 0)"
    by (cases "unresolved p a"; cases "resolved_by p (fst (queue_run xs))") auto
  moreover have "length (resolved_by p es) = count_list es (Resolved p)" for es
    by (induction es) (auto simp: resolved_by_def)
  moreover have "(unresolved p a = []) = (\<not> (length (counts w) \<le> p \<or> p \<in> set (pending w) \<or> (\<exists>k. p \<in> set (hook_waiters k w))))"
    using rel by (auto simp: unresolved_def hook_waiters_rel [OF rel] queues_rel_def image_iff simp del: split_paired_All split_paired_Ex)
  ultimately show ?thesis by (simp add: Let_def flip: w_def)
qed

lemma spec_drain:
  assumes "\<not> attended k a"
  shows "released (snd (outputs spec_happen (replicate (length (job_work k a) + 1) (Dequeue k)) a))
    = map fst (filter (\<lambda>x. snd x = k) (watches a)) @ released a"
  using assms
proof (induction "job_work k a" arbitrary: a)
  case Nil
  then have "spec_next k a = ([], release k a)"
    by (auto simp: spec_next_def job_work_def nothing_left_def split: option.splits list.split)
  with Nil show ?case by (simp add: release_def flip: Nil.hyps(1))
next
  case (Cons f fs)
  then obtain j where j: "jobs a k = Some j" "waiting j = f # fs" by (auto simp: job_work_def split: option.splits)
  define b where "b = snd (spec_next k a)"
  have b: "b = snd (spec_call k f fs a)" by (simp add: b_def spec_next_def j)
  have "attended k b = attended k a" "watches b = watches a" "released b = released a" "fs = job_work k b"
    unfolding b spec_call_def attended_def job_work_def
    by (auto simp: spec_hook_def spec_alarm_def Let_def bind_map_option comp_def split: work.split)
  with Cons.hyps(1) [of b] Cons.hyps(2) [symmetric] Cons.prems show ?case
    by (simp add: outputs_Cons b_def [symmetric] del: outputs.simps(2))
qed

text \<open>C19: every queue that is dequeued empties: when the functions that a queue holds have been called and the
  last one has called \<open>next\<close>, the functions of all promises that wait for it are due to be called, in
  the order in which the promises were made, unless an animation runs beside the queue.\<close>

theorem queue_drains:
  assumes "hooks_data (snd (queue_run xs)) k = Some h" and "unqueued h = None \<or> unqueued h = Some 0"
  shows "pending (snd (queue_run (xs @ replicate (length (queued_work k (snd (queue_run xs))) + 1) (Dequeue k))))
    = waiters h @ pending (snd (queue_run xs))"
proof -
  let ?a = "snd (outputs spec_happen xs spec_start)"
  let ?ys = "xs @ replicate (length (queued_work k (snd (queue_run xs))) + 1) (Dequeue k)"
  note rel = queue_run_rel(2) [of xs]
  have "\<not> attended k ?a" using assms rel_attended [OF rel, of k] by auto
  from spec_drain [OF this] queue_run_rel(2) [of ?ys] rel assms(1) show ?thesis
    by (simp add: outputs_append queued_work_rel [OF rel] del: outputs.simps) (auto simp: queues_rel_def hooks_for_def)
qed

theorem queue_drains_witness:
  "let k = (0, ''fx''); xs = [Queue k (Fn 1), Queue k (Fn 2), Promise [0] ''fx'']
   in pending (snd (queue_run (xs @ replicate (length (queued_work k (snd (queue_run xs))) + 1) (Dequeue k)))) = [0]"
proof -
  let ?k = "(0, ''fx'')" and ?h = "\<lparr>stop_timer = None, unqueued = None, waiters = [0]\<rparr>"
  let ?xs = "[Queue ?k (Fn 1), Queue ?k (Fn 2), Promise [0] ''fx'']"
  have "hooks_data (snd (queue_run ?xs)) ?k = Some ?h" "pending (snd (queue_run ?xs)) = []" by code_simp+
  with queue_drains [of ?xs ?k ?h] show ?thesis by (simp only: Let_def hooks.simps simp_thms append_Nil2)
qed

text \<open>What the contract leaves out shows when a queue is cleared while one of its functions runs: \<open>clearQueue\<close>
  drops the sentinel with the functions, and so \<open>empty\<close> is fired. The promise is resolved and the next
  function is called although the first one has not finished.\<close>

lemma clear_forgets_running:
  "let k = (0, ''fx'')
   in fst (queue_run [Queue k (Fn 1), Promise [0] ''fx'', Reset k [], Resolve, Queue k (Fn 2)])
      = [Called k (Fn 1), Resolved 0, Called k (Fn 2)]"
  by code_simp

end
