(* ===== verification/JqDom.thy ===== *)
theory JqDom
  imports JsPrelude
begin

text \<open>
  What the selector engine of \<open>lib/jquery.js\<close> reads of a document: a tree of nodes with types, names and
  attributes. A node is the path to it, read upwards: the head is its index among the children of its
  parent, the tail the parent; the empty path is the root. The filters that look at one
  node only are here, too.
\<close>

section \<open>Documents\<close>

datatype dom = Node (node_type: nat) (node_name: string) (node_attrs: "(string \<times> string) list") (kids: "dom list")

type_synonym node = "nat list"

fun node_at :: "dom \<Rightarrow> node \<Rightarrow> dom option" where
  "node_at doc [] = Some doc"
| "node_at doc (i # p) =
     (case node_at doc p of
        None \<Rightarrow> None
      | Some d \<Rightarrow> if i < length (kids d) then Some (kids d ! i) else None)"

definition node_type_of :: "dom \<Rightarrow> node \<Rightarrow> nat" where
  "node_type_of doc n = (case node_at doc n of None \<Rightarrow> 0 | Some d \<Rightarrow> node_type d)"

definition name_of :: "dom \<Rightarrow> node \<Rightarrow> string" where
  "name_of doc n = (case node_at doc n of None \<Rightarrow> [] | Some d \<Rightarrow> lower (node_name d))"

definition attr :: "dom \<Rightarrow> node \<Rightarrow> string \<Rightarrow> string option" where
  "attr doc n a = Option.bind (node_at doc n) (\<lambda>d. map_of (node_attrs d) a)"

definition is_element :: "dom \<Rightarrow> node \<Rightarrow> bool" where
  "is_element doc n \<longleftrightarrow> node_type_of doc n = 1"

definition child_nodes :: "dom \<Rightarrow> node \<Rightarrow> node list" where
  "child_nodes doc p = map (\<lambda>i. i # p) [0..<(case node_at doc p of None \<Rightarrow> 0 | Some d \<Rightarrow> length (kids d))]"

text \<open>Only the root of a document or of a fragment has children without being an element.\<close>

fun dom_ok :: "dom \<Rightarrow> bool" where
  "dom_ok (Node t name as ks) = list_all (\<lambda>k. (kids k = [] \<or> node_type k = 1) \<and> dom_ok k) ks"

lemma dom_ok_at:
  "dom_ok doc \<Longrightarrow> node_at doc p = Some d \<Longrightarrow> dom_ok d \<and> (p = [] \<or> kids d = [] \<or> node_type d = 1)"
proof (induction p arbitrary: d)
  case (Cons i p)
  then obtain e where e: "node_at doc p = Some e" "i < length (kids e)" "d = kids e ! i"
    by (auto split: option.splits if_splits)
  with Cons have "dom_ok e" by blast
  with e show ?case by (cases e) (auto simp: list_all_length)
qed simp

lemma dom_ok_parent: "dom_ok doc \<Longrightarrow> p \<noteq> [] \<Longrightarrow> node_at doc (i # p) \<noteq> None \<Longrightarrow> is_element doc p"
  using dom_ok_at [of doc p] by (auto simp: is_element_def node_type_of_def split: option.splits if_splits)

text \<open>\<open>elem[dir]\<close> for the directions that combinators use.\<close>

datatype dir = ParentNode | PreviousSibling

fun along :: "dir \<Rightarrow> node \<Rightarrow> node option" where
  "along d [] = None"
| "along ParentNode (i # p) = Some p"
| "along PreviousSibling (i # p) = (case i of 0 \<Rightarrow> None | Suc j \<Rightarrow> Some (j # p))"

text \<open>Every direction comes to an end.\<close>

definition depth :: "node \<Rightarrow> nat" where
  "depth n = sum_list n + length n"

lemma along_depth [termination_simp]: "along d n = Some m \<Longrightarrow> depth m < depth n"
  by (cases "(d, n)" rule: along.cases) (auto simp: depth_def split: nat.splits)

section \<open>Filters that look at one node\<close>

text \<open>
  The class filter matches \<open>(^|whitespace)name(whitespace|$)\<close> against the attribute; here for names in which
  no character means something to a regular expression.
\<close>

definition is_white :: "char \<Rightarrow> bool" where
  "is_white c \<longleftrightarrow> of_char c \<in> {32, 9, 13, 10, 12 :: nat}"

definition ends_here :: "string \<Rightarrow> bool" where
  "ends_here s \<longleftrightarrow> s = [] \<or> is_white (hd s)"

fun class_search :: "string \<Rightarrow> bool \<Rightarrow> string \<Rightarrow> bool" where
  "class_search name fresh [] = (fresh \<and> name = [])"
| "class_search name fresh (c # s) =
     (fresh \<and> starts_with name (c # s) \<and> ends_here (drop (length name) (c # s)) \<or> class_search name (is_white c) s)"

definition class_filter :: "dom \<Rightarrow> string \<Rightarrow> node \<Rightarrow> bool" where
  "class_filter doc name n = class_search name True (case attr doc n ''class'' of None \<Rightarrow> [] | Some v \<Rightarrow> v)"

definition tag_filter :: "dom \<Rightarrow> string \<Rightarrow> node \<Rightarrow> bool" where
  "tag_filter doc name n \<longleftrightarrow> name = ''*'' \<or> name_of doc n \<noteq> [] \<and> name_of doc n = lower name"

definition id_filter :: "dom \<Rightarrow> string \<Rightarrow> node \<Rightarrow> bool" where
  "id_filter doc v n \<longleftrightarrow> attr doc n ''id'' = Some v"

text \<open>The operators of attribute filters; for \<open>~=\<close> the front end has put spaces around the value.\<close>

datatype attr_op = Present | Equals | Differs | Begins | Contains | Ends | Word | Dash

fun has_infix :: "string \<Rightarrow> string \<Rightarrow> bool" where
  "has_infix t [] = (t = [])"
| "has_infix t (c # s) = (starts_with t (c # s) \<or> has_infix t s)"

text \<open>\<open>replace(rwhitespace, " ")\<close>; the flag says that the last character was white.\<close>

fun squash :: "bool \<Rightarrow> string \<Rightarrow> string" where
  "squash w [] = []"
| "squash w (c # s) =
     (if \<not> is_white c then c # squash False s else if w then squash True s else CHR '' '' # squash True s)"

definition attr_filter :: "dom \<Rightarrow> string \<Rightarrow> attr_op \<Rightarrow> string \<Rightarrow> node \<Rightarrow> bool" where
  "attr_filter doc a op check n =
     (case attr doc n a of
        None \<Rightarrow> op = Differs
      | Some r \<Rightarrow>
          (case op of
             Present \<Rightarrow> True
           | Equals \<Rightarrow> r = check
           | Differs \<Rightarrow> r \<noteq> check
           | Begins \<Rightarrow> check \<noteq> [] \<and> starts_with check r
           | Contains \<Rightarrow> check \<noteq> [] \<and> has_infix check r
           | Ends \<Rightarrow> check \<noteq> [] \<and> drop (length r - length check) r = check
           | Word \<Rightarrow> has_infix check ('' '' @ squash False r @ '' '')
           | Dash \<Rightarrow> r = check \<or> take (length check + 1) r = check @ ''-''))"

definition attr_prefilter :: "attr_op \<Rightarrow> string \<Rightarrow> string" where
  "attr_prefilter op v = (if op = Word then '' '' @ v @ '' '' else v)"

section \<open>Words\<close>

text \<open>The words of a list that whitespace separates, as the standard has them.\<close>

function white_words :: "string \<Rightarrow> string list" where
  "white_words [] = []"
| "white_words (c # s) =
     (if is_white c then white_words s
      else (c # takeWhile (\<lambda>x. \<not> is_white x) s) # white_words (dropWhile (\<lambda>x. \<not> is_white x) s))"
  by pat_completeness auto

termination
  by (relation "measure length") (auto simp: less_Suc_eq_le length_dropWhile_le)

definition plain_word :: "string \<Rightarrow> bool" where
  "plain_word w \<longleftrightarrow> w \<noteq> [] \<and> (\<forall>c \<in> set w. \<not> is_white c)"

lemma starts_with_word:
  assumes "\<forall>c \<in> set w. \<not> is_white c"
  shows "starts_with w s \<and> ends_here (drop (length w) s) \<longleftrightarrow> w = takeWhile (\<lambda>x. \<not> is_white x) s"
proof
  assume r: "starts_with w s \<and> ends_here (drop (length w) s)"
  then have s: "s = w @ drop (length w) s" by (metis append_eq_conv_conj starts_with_iff)
  have "takeWhile (\<lambda>x. \<not> is_white x) (drop (length w) s) = []"
    using r by (cases "drop (length w) s") (auto simp: ends_here_def)
  with s assms show "w = takeWhile (\<lambda>x. \<not> is_white x) s"
    by (metis append_Nil2 takeWhile_append2)
next
  assume w: "w = takeWhile (\<lambda>x. \<not> is_white x) s"
  then have "s = w @ dropWhile (\<lambda>x. \<not> is_white x) s" by simp
  moreover have "ends_here (dropWhile (\<lambda>x. \<not> is_white x) s)"
    using hd_dropWhile [of "\<lambda>x. \<not> is_white x" s] by (auto simp: ends_here_def)
  ultimately show "starts_with w s \<and> ends_here (drop (length w) s)"
    by (metis append_eq_conv_conj starts_with_append)
qed

lemma class_search_skip:
  assumes "plain_word w" and "\<forall>c \<in> set t. \<not> is_white c"
  shows "class_search w False (t @ s) = class_search w False s"
  using assms(2) by (induction t) auto

lemma class_search_words:
  assumes w: "plain_word w"
  shows "class_search w True s \<longleftrightarrow> w \<in> set (white_words s)"
proof (induction s rule: white_words.induct)
  case 1
  with w show ?case by (simp add: plain_word_def)
next
  case (2 c s)
  show ?case
  proof (cases "is_white c")
    case True
    with w starts_with_word [of w "c # s"] 2 show ?thesis by (auto simp: plain_word_def)
  next
    case False
    let ?t = "dropWhile (\<lambda>x. \<not> is_white x) s"
    have "class_search w False s = class_search w False ?t"
      using class_search_skip [OF w, of "takeWhile (\<lambda>x. \<not> is_white x) s" ?t] by (metis set_takeWhileD takeWhile_dropWhile_id)
    also have "\<dots> = (w \<in> set (white_words ?t))"
    proof (cases ?t)
      case Nil
      with w show ?thesis by (simp only: Nil) (simp add: plain_word_def)
    next
      case (Cons b u)
      then have "is_white b" by (simp add: dropWhile_eq_Cons_conv)
      with w starts_with_word [of w "b # u"] Cons 2(2) [OF False] show ?thesis by (auto simp: plain_word_def)
    qed
    finally show ?thesis
      using False starts_with_word [of w "c # s"] w by (auto simp: plain_word_def)
  qed
qed

lemma class_filter_words:
  "plain_word w \<Longrightarrow> class_filter doc w n \<longleftrightarrow> w \<in> set (white_words (case attr doc n ''class'' of None \<Rightarrow> [] | Some v \<Rightarrow> v))"
  by (simp add: class_filter_def class_search_words)


lemma infix_skip:
  assumes "\<forall>c \<in> set t. c \<noteq> x"
  shows "has_infix (x # w) (t @ s) = has_infix (x # w) s"
  using assms by (induction t) auto

lemma white_space: "is_white (CHR '' '')"
  by (simp add: is_white_def)

lemma squash_word: "\<forall>c \<in> set u. \<not> is_white c \<Longrightarrow> squash False (u @ v) = u @ squash False v"
  by (induction u) auto

lemma infix_word:
  assumes w: "plain_word w"
  shows "has_infix ('' '' @ w @ '' '') ('' '' @ squash True s @ '' '') \<longleftrightarrow> w \<in> set (white_words s)"
proof (induction s rule: white_words.induct)
  case 1
  from w show ?case by (cases w) (auto simp: plain_word_def white_space starts_with_iff)
next
  case (2 c s)
  show ?case
  proof (cases "is_white c")
    case True
    with 2 show ?thesis by simp
  next
    case False
    define t where "t = c # takeWhile (\<lambda>x. \<not> is_white x) s"
    define r where "r = dropWhile (\<lambda>x. \<not> is_white x) s"
    have t: "\<forall>x \<in> set t. \<not> is_white x" using False by (auto simp: t_def dest: set_takeWhileD)
    have "squash False (takeWhile (\<lambda>x. \<not> is_white x) s @ r) = takeWhile (\<lambda>x. \<not> is_white x) s @ squash False r"
      by (rule squash_word) (auto dest: set_takeWhileD)
    then have sq: "squash True (c # s) = t @ squash False r" using False by (simp add: t_def r_def)
    obtain q where q: "squash False r @ '' '' = '' '' @ q"
      and rest: "has_infix ('' '' @ w @ '' '') ('' '' @ q) = (w \<in> set (white_words r))"
    proof (cases r)
      case Nil
      with w show thesis by (intro that [of "[]"]) (auto simp: plain_word_def neq_Nil_conv starts_with_iff white_space)
    next
      case (Cons b u)
      then have "is_white b" by (simp add: r_def dropWhile_eq_Cons_conv)
      with 2(2) [OF False] Cons show thesis by (intro that [of "squash True u @ '' ''"]) (simp_all flip: r_def)
    qed
    have "starts_with (w @ '' '') (t @ '' '' @ q) = (w = t)"
    proof -
      have "takeWhile (\<lambda>x. \<not> is_white x) (t @ '' '' @ q) = t" using t by (simp add: white_space)
      then show ?thesis
        using w starts_with_word [of w "t @ '' '' @ q"] by (auto simp: plain_word_def starts_with_iff white_space ends_here_def)
    qed
    moreover have "has_infix ('' '' @ w @ '' '') (t @ '' '' @ q) = has_infix ('' '' @ w @ '' '') ('' '' @ q)"
      using infix_skip [of t "CHR '' ''" "w @ '' ''" "'' '' @ q"] t white_space by auto
    moreover have "white_words (c # s) = t # white_words r" using False by (simp add: t_def r_def)
    moreover have "has_infix ('' '' @ w @ '' '') ('' '' @ squash True (c # s) @ '' '')
        \<longleftrightarrow> starts_with (w @ '' '') (t @ '' '' @ q) \<or> has_infix ('' '' @ w @ '' '') (t @ '' '' @ q)"
      unfolding sq append_assoc q by simp
    ultimately show ?thesis using rest by (simp only: list.set insert_iff)
  qed
qed

lemma attr_filter_words:
  assumes "plain_word w" and "attr doc n a = Some v"
  shows "attr_filter doc a Word (attr_prefilter Word w) n \<longleftrightarrow> w \<in> set (white_words v)"
proof (cases v)
  case Nil
  with assms infix_word [OF assms(1), of "[]"] show ?thesis by (simp add: attr_filter_def attr_prefilter_def)
next
  case (Cons c s)
  obtain d w' where "w = d # w'" "d \<noteq> CHR '' ''" using assms(1) white_space by (cases w) (auto simp: plain_word_def)
  with assms infix_word [OF assms(1), of v] Cons show ?thesis
    by (cases "is_white c") (simp_all add: attr_filter_def attr_prefilter_def)
qed

end
