(* ===== verification/JqChild.thy ===== *)
theory JqChild
  imports JqDom
begin

text \<open>
  The filters \<open>:nth-child\<close>, \<open>:first-of-type\<close> and the like of the selector engine (\<open>lib/jquery.js\<close>). The positions
  that they count are kept on the nodes, marked with the number of the run, and used again in the same run.
\<close>

section \<open>The caches on the nodes\<close>

text \<open>
  \<open>elem[expando][elem.uniqueID]\<close> holds one entry for every direction, made of the number of the run, the name
  of the combinator and its result, which several nodes share; and one for each of \<open>nth\<close> and \<open>nth-last\<close>. The
  results are kept in a store, since they are written after the entries.
\<close>

record caches =
  dirruns :: nat
  slots :: "node \<times> dir \<Rightarrow> (nat \<times> nat \<times> nat) option"
  cells :: "bool list"
  nth_slot :: "node \<Rightarrow> (nat \<times> nat \<times> nat) option"
  last_slot :: "node \<Rightarrow> (nat \<times> nat) option"

section \<open>The code\<close>

datatype child_kind = Only | First | Last | Nth | NthLast

text \<open>The arguments of a filter: its kind, whether it is \<open>of-type\<close>, and the numbers \<open>first\<close> and \<open>last\<close>.\<close>

datatype child_filter = Child child_kind bool "(int \<times> int) option"

text \<open>
  \<open>preFilter.CHILD\<close>, from the groups of the regular expression; a group that took no part is empty. None is
  \<open>Sizzle.error\<close>.
\<close>

definition child_kinds :: "(string \<times> child_kind) list" where
  "child_kinds = [(''only'', Only), (''first'', First), (''last'', Last), (''nth'', Nth), (''nth-last'', NthLast)]"

definition signed :: "string \<Rightarrow> nat \<Rightarrow> int" where
  "signed sign n = (if sign = ''-'' then - int n else int n)"

definition child_prefilter ::
  "string \<Rightarrow> string \<Rightarrow> string \<Rightarrow> string \<Rightarrow> string \<Rightarrow> string \<Rightarrow> string \<Rightarrow> string \<Rightarrow> child_filter option" where
  "child_prefilter m1 m2 m3 m4 m5 m6 m7 m8 =
     (case map_of child_kinds (lower m1) of
        None \<Rightarrow> None
      | Some k \<Rightarrow>
          if k = Nth \<or> k = NthLast
          then if m3 = [] then None
               else Some (Child k (m2 = ''of-type'')
                 (Some (if m4 \<noteq> [] then signed m5 (if m6 = [] then 1 else read_nat m6)
                        else if m3 = ''even'' \<or> m3 = ''odd'' then 2 else 0,
                        if m7 @ m8 \<noteq> [] then signed m7 (read_nat m8) else if m3 = ''odd'' then 1 else 0)))
          else if m3 \<noteq> [] then None
          else Some (Child k (m2 = ''of-type'') None))"

definition same_kind :: "dom \<Rightarrow> bool \<Rightarrow> node \<Rightarrow> node \<Rightarrow> bool" where
  "same_kind doc of_type e m = (if of_type then name_of doc m = name_of doc e else is_element doc m)"

text \<open>The loop of \<open>:nth-child\<close>, on the nodes that are left; it counts nodes and elements.\<close>

fun seek :: "(node \<Rightarrow> bool) \<Rightarrow> node \<Rightarrow> node list \<Rightarrow> nat \<Rightarrow> nat \<Rightarrow> (nat \<times> nat) option" where
  "seek same e [] i d = None"
| "seek same e (n # ns) i d =
     (if same n then if n = e then Some (i, d + 1) else seek same e ns (i + 1) (d + 1) else seek same e ns (i + 1) d)"

text \<open>It goes on behind the node that was found last in this run, and when it comes to the end it starts again.\<close>

definition nth_cached :: "dom \<Rightarrow> node \<Rightarrow> node \<Rightarrow> caches \<Rightarrow> nat \<times> caches" where
  "nth_cached doc p e s =
     (let ns = child_nodes doc p;
          again = seek (is_element doc) e ns 0 0;
          found = (case nth_slot s p of
              None \<Rightarrow> again
            | Some (run, i, d) \<Rightarrow>
                if run = dirruns s \<and> i \<noteq> 0
                then (case seek (is_element doc) e (drop (i + 1) ns) (i + 1) d of None \<Rightarrow> again | Some r \<Rightarrow> Some r)
                else again)
      in case found of
           None \<Rightarrow> (0, s)
         | Some (i, d) \<Rightarrow> (d, s\<lparr>nth_slot := (nth_slot s)(p \<mapsto> (dirruns s, i, d))\<rparr>))"

text \<open>The loop of the other kinds, which keeps the position of every node that it passes.\<close>

fun scan :: "(node \<Rightarrow> bool) \<Rightarrow> bool \<Rightarrow> node \<Rightarrow> node list \<Rightarrow> nat \<Rightarrow> caches \<Rightarrow> nat \<times> caches" where
  "scan same use e [] d s = (0, s)"
| "scan same use e (n # ns) d s =
     (if same n
      then let s = (if use then s\<lparr>last_slot := (last_slot s)(n \<mapsto> (dirruns s, d + 1))\<rparr> else s)
           in if n = e then (d + 1, s) else scan same use e ns (d + 1) s
      else scan same use e ns d s)"

text \<open>
  It starts at one end of the children. But when the cache is used, \<open>node\<close> is still the element itself, so the
  loop first goes on from there and keeps what it counts, and only then starts at the end.
\<close>

definition nth_scanned :: "dom \<Rightarrow> bool \<Rightarrow> child_kind \<Rightarrow> bool \<Rightarrow> node \<Rightarrow> node \<Rightarrow> caches \<Rightarrow> nat \<times> caches" where
  "nth_scanned doc use k of_type p e s =
     (let same = same_kind doc of_type e;
          ns = (if k = Nth then child_nodes doc p else rev (child_nodes doc p));
          ahead = tl (dropWhile (\<lambda>m. m \<noteq> e) ns);
          fresh = scan same use e ns 0 (if use then snd (scan same use e ahead 0 s) else s)
      in if use
         then (case last_slot s e of
                 None \<Rightarrow> fresh
               | Some (run, d) \<Rightarrow> if run = dirruns s then (d, s) else fresh)
         else fresh)"

definition an_plus_b :: "int \<Rightarrow> int \<Rightarrow> nat \<Rightarrow> bool" where
  "an_plus_b a b d =
     (let diff = int d - b in diff = a \<or> a \<noteq> 0 \<and> diff mod a = 0 \<and> 0 \<le> diff div a)"

definition run_child :: "dom \<Rightarrow> bool \<Rightarrow> child_filter \<Rightarrow> node \<Rightarrow> caches \<Rightarrow> bool \<times> caches" where
  "run_child doc xml c e s =
     (case c of Child k of_type ab \<Rightarrow>
        if ab = Some (1, 0) then (e \<noteq> [], s)
        else case e of
          [] \<Rightarrow> (False, s)
        | i # p \<Rightarrow>
            let none = (\<lambda>ns. list_all (\<lambda>m. \<not> same_kind doc of_type e m) ns);
                use = (\<not> xml \<and> \<not> of_type);
                (a, b) = (case ab of None \<Rightarrow> (0, 0) | Some ab \<Rightarrow> ab)
            in case k of
                 First \<Rightarrow> (none (rev (take i (child_nodes doc p))), s)
               | Last \<Rightarrow> (none (drop (i + 1) (child_nodes doc p)), s)
               | Only \<Rightarrow> (none (rev (take i (child_nodes doc p))) \<and> none (drop (i + 1) (child_nodes doc p)), s)
               | _ \<Rightarrow>
                   let (d, s) = (if k = Nth \<and> use then nth_cached doc p e s else nth_scanned doc use k of_type p e s)
                   in (an_plus_b a b d, s))"

section \<open>What the filters mean\<close>

text \<open>
  The position of a node among the nodes of its kind, and the filters as the standard has them: the position
  is \<open>a * n + b\<close> for some natural \<open>n\<close>.
\<close>

definition place :: "(node \<Rightarrow> bool) \<Rightarrow> node \<Rightarrow> node list \<Rightarrow> nat" where
  "place same e ns = length (filter same (takeWhile (\<lambda>m. m \<noteq> e) ns)) + 1"

definition child_spec :: "dom \<Rightarrow> child_filter \<Rightarrow> node \<Rightarrow> bool" where
  "child_spec doc c e =
     (case c of Child k of_type ab \<Rightarrow> case e of
        [] \<Rightarrow> False
      | i # p \<Rightarrow>
          let ns = filter (same_kind doc of_type e) (child_nodes doc p);
              (a, b) = (case ab of None \<Rightarrow> (0, 0) | Some ab \<Rightarrow> ab)
          in case k of
               First \<Rightarrow> hd ns = e
             | Last \<Rightarrow> last ns = e
             | Only \<Rightarrow> ns = [e]
             | Nth \<Rightarrow> \<exists>n::nat. a * int n + b = int (place (\<lambda>_. True) e ns)
             | NthLast \<Rightarrow> \<exists>n::nat. a * int n + b = int (place (\<lambda>_. True) e (rev ns)))"

section \<open>The caches hold what they should\<close>

definition child_caches_ok :: "dom \<Rightarrow> caches \<Rightarrow> bool" where
  "child_caches_ok doc s \<longleftrightarrow>
     (\<forall>p i d. nth_slot s p = Some (dirruns s, i, d)
        \<longrightarrow> d = length (filter (is_element doc) (take (i + 1) (child_nodes doc p))))"

lemma same_kind_element [simp]: "same_kind doc False e = is_element doc"
  by (simp add: fun_eq_iff same_kind_def)

lemma child_nodes_simps [simp]:
  "distinct (child_nodes doc p)"
  "i # q \<in> set (child_nodes doc p) \<longleftrightarrow> q = p \<and> node_at doc (i # p) \<noteq> None"
  "[] \<notin> set (child_nodes doc p)"
  by (auto simp: child_nodes_def distinct_map inj_on_def split: option.splits)

lemma child_nodes_nth: "node_at doc (i # p) \<noteq> None \<Longrightarrow> i < length (child_nodes doc p) \<and> child_nodes doc p ! i = i # p"
  by (auto simp: child_nodes_def split: option.splits if_splits)

lemma child_nodes_split:
  "node_at doc (i # p) \<noteq> None \<Longrightarrow> child_nodes doc p = take i (child_nodes doc p) @ (i # p) # drop (Suc i) (child_nodes doc p)"
  by (metis child_nodes_nth id_take_nth_drop)

lemma seek_found:
  assumes "e \<notin> set us" and "same e"
  shows "seek same e (us @ e # vs) i d = Some (i + length us, d + length (filter same us) + 1)"
  using assms(1) by (induction us arbitrary: i d) (auto simp: assms(2))

lemma seek_missing: "e \<notin> set ns \<Longrightarrow> seek same e ns i d = None"
  by (induction ns arbitrary: i d) auto

lemma place_split: "e \<notin> set us \<Longrightarrow> place same e (us @ e # vs) = length (filter same us) + 1"
proof -
  assume "e \<notin> set us"
  then have "takeWhile (\<lambda>m. m \<noteq> e) (us @ e # vs) = us" by (induction us) auto
  then show ?thesis by (simp add: place_def)
qed

lemma nth_cached_place:
  assumes ok: "child_caches_ok doc s" and e: "node_at doc (i # p) \<noteq> None" "is_element doc (i # p)"
  shows "\<exists>s'. nth_cached doc p (i # p) s = (place (is_element doc) (i # p) (child_nodes doc p), s')
    \<and> child_caches_ok doc s' \<and> s' = s\<lparr>nth_slot := nth_slot s'\<rparr>"
proof -
  let ?ns = "child_nodes doc p"
  let ?us = "take i ?ns" and ?vs = "drop (Suc i) ?ns"
  let ?d = "length (filter (is_element doc) ?us) + 1"
  note split = child_nodes_split [OF e(1)]
  have "distinct (?us @ (i # p) # ?vs)" using split by (metis child_nodes_simps(1))
  then have u: "i # p \<notin> set ?us" "i # p \<notin> set ?vs" by auto
  have len: "length ?us = i" using child_nodes_nth [OF e(1)] by simp
  have again: "seek (is_element doc) (i # p) ?ns 0 0 = Some (i, ?d)"
    using seek_found [of "i # p" ?us "is_element doc" ?vs 0 0] u e len split by simp
  have d: "place (is_element doc) (i # p) ?ns = ?d"
    by (subst split) (rule place_split [OF u(1)])
  have behind: "seek (is_element doc) (i # p) (drop (j + 1) ?ns) (j + 1) c = Some (i, ?d)"
    if j: "j < i" and c: "c = length (filter (is_element doc) (take (j + 1) ?ns))" for j c
  proof -
    have "drop (j + 1) ?ns = drop (j + 1) ?us @ (i # p) # ?vs"
      using split len j by (metis Suc_eq_plus1 Suc_leI diff_is_0_eq drop0 drop_append)
    moreover have "i # p \<notin> set (drop (j + 1) ?us)" using u(1) by (meson in_set_dropD)
    moreover have "take (j + 1) ?ns = take (j + 1) ?us" using j by (simp add: min_def)
    moreover have "length (filter (is_element doc) (take (j + 1) ?us)) + length (filter (is_element doc) (drop (j + 1) ?us))
        = length (filter (is_element doc) ?us)"
      by (metis append_take_drop_id filter_append length_append)
    moreover have "length (drop (j + 1) ?us) = i - (j + 1)" using len by simp
    ultimately show ?thesis using seek_found [of "i # p" "drop (j + 1) ?us" "is_element doc" ?vs "j + 1" c] e j c by simp
  qed
  have missing: "seek (is_element doc) (i # p) (drop (j + 1) ?ns) k c = None" if "\<not> j < i" for j k c
  proof (rule seek_missing)
    have "set (drop (j + 1) ?ns) \<subseteq> set ?vs" using that by (simp add: set_drop_subset_set_drop)
    with u(2) show "i # p \<notin> set (drop (j + 1) ?ns)" by blast
  qed
  have "nth_cached doc p (i # p) s = (?d, s\<lparr>nth_slot := (nth_slot s)(p \<mapsto> (dirruns s, i, ?d))\<rparr>)"
  proof (cases "nth_slot s p")
    case None
    then show ?thesis by (simp add: nth_cached_def again Let_def)
  next
    case (Some r)
    obtain run j c where r: "r = (run, j, c)" by (cases r)
    show ?thesis
    proof (cases "run = dirruns s \<and> j \<noteq> 0")
      case True
      with Some r ok have "c = length (filter (is_element doc) (take (j + 1) ?ns))"
        by (auto simp: child_caches_ok_def)
      with Some r True behind [of j c] missing [of j "j + 1" c] show ?thesis
        by (cases "j < i") (simp_all add: nth_cached_def again Let_def)
    qed (auto simp: nth_cached_def again Some r Let_def)
  qed
  moreover have "child_caches_ok doc (s\<lparr>nth_slot := (nth_slot s)(p \<mapsto> (dirruns s, i, ?d))\<rparr>)"
  proof -
    have "take (i + 1) ?ns = ?us @ [i # p]" using split len by (metis (no_types) Suc_eq_plus1 child_nodes_nth e(1) take_Suc_conv_app_nth)
    with e ok show ?thesis by (auto simp: child_caches_ok_def)
  qed
  ultimately show ?thesis using d by simp
qed

lemma scan_place:
  assumes "e \<notin> set us" and "same e"
  shows "fst (scan same use e (us @ e # vs) d s) = d + length (filter same us) + 1"
  using assms by (induction us arbitrary: d s) (auto simp: Let_def)

definition children_only :: "caches \<Rightarrow> caches \<Rightarrow> bool" where
  "children_only s s' \<longleftrightarrow> (\<exists>f g. s' = s\<lparr>nth_slot := f, last_slot := g\<rparr>)"

lemma children_only_simps [simp]:
  "children_only s s"
  "children_only s (s\<lparr>nth_slot := f\<rparr>)"
  "children_only s (s\<lparr>last_slot := g\<rparr>)"
  unfolding children_only_def by (metis caches.surjective caches.update_convs(4,5))+

lemma scan_only: "\<exists>g. snd (scan same use e ns d s) = s\<lparr>last_slot := g\<rparr>"
proof (induction ns arbitrary: d s)
  case Nil
  then show ?case by (intro exI [of _ "last_slot s"]) simp
next
  case (Cons n ns)
  have "\<exists>g. snd (scan same use e ns d' (s\<lparr>last_slot := f\<rparr>)) = s\<lparr>last_slot := g\<rparr>" for d' f
    using Cons [of d' "s\<lparr>last_slot := f\<rparr>"] by auto
  moreover have "\<exists>g. s = s\<lparr>last_slot := g\<rparr>" by (intro exI [of _ "last_slot s"]) simp
  ultimately show ?case using Cons by (auto simp: Let_def)
qed

lemma place_filter: "same e \<Longrightarrow> place (\<lambda>_. True) e (filter same ns) = place same e ns"
  unfolding place_def by (induction ns) auto

lemma nth_scanned_place:
  assumes e: "node_at doc (i # p) \<noteq> None" "same_kind doc ot (i # p) (i # p)"
    and new: "use \<Longrightarrow> \<forall>d. last_slot s (i # p) \<noteq> Some (dirruns s, d)"
  shows "fst (nth_scanned doc use k ot p (i # p) s)
      = place (same_kind doc ot (i # p)) (i # p) (if k = Nth then child_nodes doc p else rev (child_nodes doc p))"
proof -
  let ?ns = "if k = Nth then child_nodes doc p else rev (child_nodes doc p)"
  let ?same = "same_kind doc ot (i # p)"
  have "i # p \<in> set ?ns" using e by auto
  then obtain us vs where ns: "?ns = us @ (i # p) # vs" and u: "i # p \<notin> set us"
    using split_list_first by metis
  then have "fst (scan ?same use (i # p) ?ns 0 t) = place ?same (i # p) ?ns" for t
    using scan_place [where e = "i # p" and us = us and vs = vs and same = ?same, OF u e(2)] by (simp add: place_split)
  with new show ?thesis by (auto simp: nth_scanned_def Let_def split: option.split)
qed

lemma children_only_trans: "children_only s t \<Longrightarrow> children_only t u \<Longrightarrow> children_only s u"
  unfolding children_only_def by (elim exE) (simp, blast)

lemma nth_scanned_only: "children_only s (snd (nth_scanned doc use k ot p e s)) \<and> nth_slot (snd (nth_scanned doc use k ot p e s)) = nth_slot s"
proof -
  have scan: "children_only s (snd (scan same use e ns d s)) \<and> nth_slot (snd (scan same use e ns d s)) = nth_slot s" for same ns d s
    using scan_only [of same use e ns d s] by auto
  then have "children_only s (snd (scan same use e ns d (snd (scan same' use e ns' d' s))))
      \<and> nth_slot (snd (scan same use e ns d (snd (scan same' use e ns' d' s)))) = nth_slot s" for same ns d same' ns' d'
    by (metis children_only_trans)
  with scan show ?thesis by (auto simp: nth_scanned_def Let_def split: option.split)
qed

lemma an_plus_b_iff: "an_plus_b a b d \<longleftrightarrow> (\<exists>n::nat. a * int n + b = int d)"
proof
  assume "an_plus_b a b d"
  then consider "int d - b = a" | "a \<noteq> 0" "(int d - b) mod a = 0" "0 \<le> (int d - b) div a"
    by (auto simp: an_plus_b_def Let_def)
  then show "\<exists>n::nat. a * int n + b = int d"
  proof cases
    case 1
    then show ?thesis by (intro exI [of _ 1]) simp
  next
    case 2
    then have "a * ((int d - b) div a) = int d - b" by (simp add: dvd_mult_div_cancel dvd_eq_mod_eq_0)
    with 2(3) show ?thesis by (intro exI [of _ "nat ((int d - b) div a)"]) simp
  qed
next
  assume "\<exists>n::nat. a * int n + b = int d"
  then obtain n :: nat where "int d - b = a * int n" by (metis add_diff_cancel_right')
  then show "an_plus_b a b d" by (cases "a = 0") (auto simp: an_plus_b_def Let_def)
qed


lemma filter_first: "e \<notin> set us \<Longrightarrow> same e \<Longrightarrow> hd (filter same (us @ e # vs)) = e \<longleftrightarrow> list_all (\<lambda>m. \<not> same m) us"
  by (induction us) auto

lemma filter_last: "e \<notin> set vs \<Longrightarrow> same e \<Longrightarrow> last (filter same (us @ e # vs)) = e \<longleftrightarrow> list_all (\<lambda>m. \<not> same m) vs"
proof -
  assume e: "e \<notin> set vs" "same e"
  have "last (filter same (us @ e # vs)) = hd (filter same (rev vs @ e # rev us))"
    by (simp add: hd_rev [symmetric] rev_filter)
  also have "(\<dots> = e) = list_all (\<lambda>m. \<not> same m) (rev vs)" using e by (intro filter_first) auto
  finally show ?thesis by (simp add: list_all_iff)
qed

lemma filter_only:
  assumes "e \<notin> set us" "e \<notin> set vs" "same e"
  shows "filter same (us @ e # vs) = [e] \<longleftrightarrow> list_all (\<lambda>m. \<not> same m) us \<and> list_all (\<lambda>m. \<not> same m) vs"
proof
  assume eq: "filter same (us @ e # vs) = [e]"
  then have "hd (filter same (us @ e # vs)) = e" "last (filter same (us @ e # vs)) = e" by simp_all
  with assms show "list_all (\<lambda>m. \<not> same m) us \<and> list_all (\<lambda>m. \<not> same m) vs"
    using filter_first [of e us same vs] filter_last [of e vs same us] by blast
next
  assume "list_all (\<lambda>m. \<not> same m) us \<and> list_all (\<lambda>m. \<not> same m) vs"
  then have "filter same us = []" "filter same vs = []" by (auto simp: list_all_iff filter_empty_conv)
  with assms(3) show "filter same (us @ e # vs) = [e]" by simp
qed

text \<open>
  The filters whose answers are right: all but \<open>:nth-last-child\<close> in documents that are not XML, unless it
  accepts every position.
\<close>

definition child_filter_ok :: "bool \<Rightarrow> child_filter \<Rightarrow> bool" where
  "child_filter_ok xml c = (case c of Child k ot ab \<Rightarrow>
     (ab \<noteq> None) = (k = Nth \<or> k = NthLast) \<and> (k = NthLast \<and> \<not> ot \<and> \<not> xml \<longrightarrow> ab = Some (1, 0)))"

lemma child_prefilter_ok:
  assumes "child_prefilter m1 m2 m3 m4 m5 m6 m7 m8 = Some c"
  shows "\<exists>k ot ab. c = Child k ot ab \<and> (ab \<noteq> None) = (k = Nth \<or> k = NthLast)"
  using assms by (auto simp: child_prefilter_def split: option.splits if_splits)

lemma run_child_ok:
  assumes ok: "child_caches_ok doc s" and e: "node_at doc e \<noteq> None" "is_element doc e" and c: "child_filter_ok xml c"
  shows "\<exists>s'. run_child doc xml c e s = (child_spec doc c e, s') \<and> child_caches_ok doc s' \<and> children_only s s'"
proof (cases e)
  case Nil
  obtain k ot ab where "c = Child k ot ab" by (cases c)
  with Nil ok show ?thesis by (auto simp: run_child_def child_spec_def)
next
  case (Cons i p)
  obtain k ot ab where ck: "c = Child k ot ab" by (cases c)
  let ?same = "same_kind doc ot (i # p)" and ?ns = "child_nodes doc p"
  let ?us = "take i ?ns" and ?vs = "drop (Suc i) ?ns"
  have same: "?same (i # p)" using e Cons by (auto simp: same_kind_def)
  have split: "?ns = ?us @ (i # p) # ?vs" using e Cons by (intro child_nodes_split) simp
  have "distinct (?us @ (i # p) # ?vs)" using split by (metis child_nodes_simps(1))
  then have u: "i # p \<notin> set ?us" "i # p \<notin> set ?vs" by auto
  have none: "list_all P (rev us) = list_all P us" for P and us :: "node list" by (simp add: list_all_iff)
  have siblings:
    "hd (filter ?same ?ns) = i # p \<longleftrightarrow> list_all (\<lambda>m. \<not> ?same m) ?us"
    "last (filter ?same ?ns) = i # p \<longleftrightarrow> list_all (\<lambda>m. \<not> ?same m) ?vs"
    "filter ?same ?ns = [i # p] \<longleftrightarrow> list_all (\<lambda>m. \<not> ?same m) ?us \<and> list_all (\<lambda>m. \<not> ?same m) ?vs"
    by (subst split, simp add: filter_first filter_last filter_only u same del: filter_append)+
  have all: "a = 1 \<Longrightarrow> b = 0 \<Longrightarrow> \<exists>n::nat. a * int n + b = int d" for a b d by (intro exI [of _ d]) simp
  define a b where "a = (case ab of None \<Rightarrow> 0 | Some ab \<Rightarrow> fst ab)" and "b = (case ab of None \<Rightarrow> 0 | Some ab \<Rightarrow> snd ab)"
  have ab: "(case ab of None \<Rightarrow> (0, 0) | Some ab \<Rightarrow> ab) = (a, b)" by (simp add: a_def b_def split: option.split)
  show ?thesis
  proof (cases "ab = Some (1, 0)")
    case True
    with c ck have "k = Nth \<or> k = NthLast" by (auto simp: child_filter_ok_def)
    with True ok show ?thesis
      by (auto simp: run_child_def child_spec_def ck Cons Let_def intro!: exI [of _ s] all)
  next
    case False
    show ?thesis
    proof (cases "k = Nth \<or> k = NthLast")
      case True
      let ?run = "if k = Nth \<and> (\<not> xml \<and> \<not> ot) then nth_cached doc p (i # p) s else nth_scanned doc (\<not> xml \<and> \<not> ot) k ot p (i # p) s"
      have "fst ?run = place ?same (i # p) (if k = Nth then ?ns else rev ?ns) \<and> child_caches_ok doc (snd ?run) \<and> children_only s (snd ?run)"
      proof (cases "k = Nth \<and> \<not> xml \<and> \<not> ot")
        case True
        with nth_cached_place [OF ok] e Cons obtain s' where
          "nth_cached doc p (i # p) s = (place (is_element doc) (i # p) ?ns, s')" "child_caches_ok doc s'" "s' = s\<lparr>nth_slot := nth_slot s'\<rparr>"
          by blast
        moreover have "children_only s s'" using calculation(3) children_only_simps(2) [of s "nth_slot s'"] by argo
        ultimately show ?thesis using True by simp
      next
        case no: False
        with c ck True False have use: "xml \<or> ot" by (auto simp: child_filter_ok_def)
        have "fst (nth_scanned doc (\<not> xml \<and> \<not> ot) k ot p (i # p) s) = place ?same (i # p) (if k = Nth then ?ns else rev ?ns)"
          by (rule nth_scanned_place) (use e Cons same use in auto)
        moreover have "child_caches_ok doc (snd (nth_scanned doc (\<not> xml \<and> \<not> ot) k ot p (i # p) s))"
          using nth_scanned_only [of s doc "\<not> xml \<and> \<not> ot" k ot p "i # p"] ok by (auto simp: child_caches_ok_def children_only_def)
        ultimately show ?thesis using no nth_scanned_only [of s doc "\<not> xml \<and> \<not> ot" k ot p "i # p"] by (simp only: if_False)
      qed
      then obtain s' where s': "?run = (place ?same (i # p) (if k = Nth then ?ns else rev ?ns), s')" "child_caches_ok doc s'" "children_only s s'"
        by (intro that [of "snd ?run"]) (simp_all only: prod_eq_iff fst_conv snd_conv)
      have "run_child doc xml c (i # p) s = (an_plus_b a b (place ?same (i # p) (if k = Nth then ?ns else rev ?ns)), s')"
        using True False s'(1) by (auto simp: run_child_def ck ab Let_def split: child_kind.split)
      with True s' show ?thesis
        by (auto simp: Cons child_spec_def ck ab an_plus_b_iff place_filter same rev_filter)
    next
      case k: False
      with False ok siblings none show ?thesis
        by (cases k) (auto simp: run_child_def child_spec_def ck Cons ab Let_def intro!: exI [of _ s])
    qed
  qed
qed

section \<open>Filters one after the other\<close>

text \<open>The entries on the nodes come from this run or from earlier ones.\<close>

definition child_slots_old :: "nat \<Rightarrow> caches \<Rightarrow> bool" where
  "child_slots_old r s \<longleftrightarrow> (\<forall>p run i d. nth_slot s p = Some (run, i, d) \<longrightarrow> run \<le> r)
     \<and> (\<forall>e run d. last_slot s e = Some (run, d) \<longrightarrow> run \<le> r)"

lemma scan_old: "child_slots_old (dirruns s) s \<Longrightarrow> child_slots_old (dirruns s) (snd (scan same use e ns d s)) \<and> dirruns (snd (scan same use e ns d s)) = dirruns s"
proof (induction ns arbitrary: d s)
  case (Cons n ns)
  have "child_slots_old (dirruns s) (s\<lparr>last_slot := (last_slot s)(n \<mapsto> (dirruns s, d + 1))\<rparr>)"
    using Cons.prems by (auto simp: child_slots_old_def)
  with Cons.prems Cons.IH [of "s\<lparr>last_slot := (last_slot s)(n \<mapsto> (dirruns s, d + 1))\<rparr>" "d + 1"] Cons.IH [of s] show ?case
    by (auto simp: Let_def)
qed simp

lemma run_child_old: "child_slots_old (dirruns s) s \<Longrightarrow> child_slots_old (dirruns s) (snd (run_child doc xml c e s))"
proof -
  assume old: "child_slots_old (dirruns s) s"
  then have "child_slots_old (dirruns s) (snd (nth_cached doc p e s))" for p
    by (auto simp: nth_cached_def Let_def child_slots_old_def split: option.split prod.split)
  moreover have "child_slots_old (dirruns s) (snd (nth_scanned doc use k ot p e s))" for use k ot p
    using old scan_old [OF old] scan_old [of "snd (scan _ _ _ _ _ s)"]
    by (auto simp: nth_scanned_def Let_def split: option.split)
  ultimately show ?thesis
    using old by (auto simp: run_child_def Let_def split_beta split: child_filter.split child_kind.split list.split option.split)
qed

fun run_children :: "dom \<Rightarrow> bool \<Rightarrow> (child_filter \<times> node) list \<Rightarrow> caches \<Rightarrow> bool list \<times> caches" where
  "run_children doc xml [] s = ([], s)"
| "run_children doc xml ((c, e) # qs) s =
     (let (r, s) = run_child doc xml c e s; (rs, s) = run_children doc xml qs s in (r # rs, s))"

lemma run_children_ok:
  assumes "child_caches_ok doc s" and "\<forall>(c, e) \<in> set qs. child_filter_ok xml c \<and> node_at doc e \<noteq> None \<and> is_element doc e"
  shows "fst (run_children doc xml qs s) = map (\<lambda>(c, e). child_spec doc c e) qs"
  using assms
proof (induction qs arbitrary: s)
  case (Cons q qs)
  obtain c e where q: "q = (c, e)" by (cases q)
  with Cons.prems have c: "child_filter_ok xml c" and e: "node_at doc e \<noteq> None" "is_element doc e" by auto
  have "\<exists>s'. run_child doc xml c e s = (child_spec doc c e, s') \<and> child_caches_ok doc s' \<and> children_only s s'"
    by (rule run_child_ok [OF Cons.prems(1) e c])
  then obtain s' where "run_child doc xml c e s = (child_spec doc c e, s')" "child_caches_ok doc s'"
    by (elim exE conjE)
  with Cons q show ?case by (simp add: split_beta)
qed simp

lemma new_run_ok: "child_slots_old r s \<Longrightarrow> r < dirruns s \<Longrightarrow> child_caches_ok doc s"
  by (fastforce simp: child_slots_old_def child_caches_ok_def)

text \<open>C17: the positions that \<open>:nth-child\<close> and its relatives keep on the nodes make no difference, except for
  \<open>:nth-last-child\<close>: whatever earlier runs left there, and whichever filters were applied to which elements
  before in this run, every other filter answers as the standard says, which counts the siblings of the same
  kind and asks whether the position is \<open>a * n + b\<close> for a natural \<open>n\<close>.\<close>

theorem child_filters_correct:
  assumes "child_slots_old r s" and "r < dirruns s"
    and "\<forall>(c, e) \<in> set qs. child_filter_ok xml c \<and> node_at doc e \<noteq> None \<and> is_element doc e"
  shows "fst (run_children doc xml qs s) = map (\<lambda>(c, e). child_spec doc c e) qs"
  by (rule run_children_ok [OF new_run_ok [OF assms(1,2)] assms(3)])

definition no_caches :: caches where
  "no_caches = \<lparr>dirruns = 0, slots = (\<lambda>_. None), cells = [], nth_slot = (\<lambda>_. None), last_slot = (\<lambda>_. None)\<rparr>"

definition sample_list :: dom where
  "sample_list = Node 9 ''#document'' [] [Node 1 ''UL'' []
     [Node 1 ''LI'' [] [], Node 3 ''#text'' [] [], Node 1 ''LI'' [] [], Node 1 ''P'' [] [], Node 1 ''LI'' [] []]]"

theorem child_filters_correct_witness:
  "let qs = [(Child Nth False (Some (2, 1)), [3, 0]), (Child Nth False (Some (2, 1)), [0, 0]),
             (Child NthLast True (Some (0, 1)), [4, 0]), (Child Last True None, [3, 0])]
   in map (\<lambda>(c, e). child_spec sample_list c e) qs = [True, True, True, True]"
proof -
  let ?qs = "[(Child Nth False (Some (2, 1)), [3, 0]), (Child Nth False (Some (2, 1)), [0, 0]),
    (Child NthLast True (Some (0, 1)), [4, 0]), (Child Last True None, [3, 0])]"
  let ?s = "no_caches\<lparr>dirruns := 1\<rparr>"
  have "fst (run_children sample_list False ?qs ?s) = [True, True, True, True]" by code_simp
  moreover have "child_slots_old 0 ?s" "0 < dirruns ?s" by (simp_all add: child_slots_old_def no_caches_def)
  moreover have "\<forall>(c, e) \<in> set ?qs. child_filter_ok False c \<and> node_at sample_list e \<noteq> None \<and> is_element sample_list e"
    by code_simp
  ultimately show ?thesis using child_filters_correct [of 0 ?s ?qs False sample_list] by (simp only: Let_def)
qed

text \<open>The regular expression of these filters ignores case, but only the name is converted: \<open>:nth-child(EVEN)\<close>
  asks for position 0, and \<open>:first-OF-TYPE\<close> is taken for \<open>:first-child\<close>.\<close>

lemma even_in_capitals:
  "child_prefilter ''nth'' ''child'' ''EVEN'' [] [] [] [] [] = Some (Child Nth False (Some (0, 0)))"
  "child_prefilter ''nth'' ''child'' ''even'' [] [] [] [] [] = Some (Child Nth False (Some (2, 0)))"
  "child_prefilter ''first'' ''OF-TYPE'' [] [] [] [] [] [] = child_prefilter ''first'' ''child'' [] [] [] [] [] []"
  by code_simp+

text \<open>
  \<open>:nth-last-child\<close> is right for an element that has no entry; but it leaves wrong entries on the siblings
  before it, which get their distance to it as their position. In a list of four elements the first is
  the fourth from the end; asked after the third it is taken for the second.
\<close>

lemma nth_last_first_time:
  assumes "node_at doc e \<noteq> None" and "is_element doc e" and "\<forall>d. last_slot s e \<noteq> Some (dirruns s, d)"
  shows "fst (run_child doc xml (Child NthLast False (Some (a, b))) e s) = child_spec doc (Child NthLast False (Some (a, b))) e"
proof (cases e)
  case (Cons i p)
  have same: "same_kind doc False (i # p) (i # p)" using assms(2) Cons by (simp add: same_kind_def)
  have "fst (nth_scanned doc (\<not> xml \<and> \<not> False) NthLast False p (i # p) s) = place (is_element doc) (i # p) (rev (child_nodes doc p))"
    using nth_scanned_place [OF _ same, of "\<not> xml \<and> \<not> False" s NthLast] assms Cons by simp
  moreover have "a = 1 \<Longrightarrow> b = 0 \<Longrightarrow> \<exists>n::nat. a * int n + b = int d" for d by (intro exI [of _ d]) simp
  ultimately show ?thesis
    using place_filter [where same = "same_kind doc False (i # p)", OF same, of "rev (child_nodes doc p)"]
    by (auto simp: run_child_def child_spec_def Cons an_plus_b_iff Let_def split_beta rev_filter)
qed (simp add: run_child_def child_spec_def)

lemma nth_last_child_wrong:
  "let last2 = Child NthLast False (Some (0, 2))
   in fst (run_children sample_list False [(last2, [0, 0])] no_caches) = [False]
      \<and> fst (run_children sample_list False [(last2, [3, 0]), (last2, [0, 0])] no_caches) = [True, True]"
  by code_simp

end
