(* ===== verification/JqMatch.thy ===== *)
theory JqMatch
  imports JqChild
begin

text \<open>
  How the selector engine of \<open>lib/jquery.js\<close> decides which elements a selector selects: \<open>matcherFromTokens\<close> makes
  a function of the tokens, which goes through them from right to left and walks the tree for the
  combinators; the results of walks are kept on the nodes. Selectors with positions (\<open>:first\<close>, \<open>:eq\<close>) and with
  selectors inside (\<open>:not\<close>, \<open>:has\<close>) are left out; the other pseudo-classes are a parameter.
\<close>

section \<open>Tokens and matchers\<close>

text \<open>\<open>Expr.relative\<close>: the combinators \<open>>\<close>, the space, \<open>+\<close> and \<open>~\<close>.\<close>

datatype comb = ChildOf | Descendant | Adjacent | Follows

definition comb_dir :: "comb \<Rightarrow> dir" where
  "comb_dir c = (if c = ChildOf \<or> c = Descendant then ParentNode else PreviousSibling)"

definition comb_first :: "comb \<Rightarrow> bool" where
  "comb_first c \<longleftrightarrow> c = ChildOf \<or> c = Adjacent"

datatype simple = Tag string | Id string | Class string | Attr string attr_op string | ChildF child_filter | Pseudo nat

datatype token = Rel comb | Filt simple

text \<open>
  The functions that the code makes: the foundation with the leading combinator and the names of its two
  walks, a filter, a walk with its name, and the conjunction of \<open>elementMatcher\<close>.
\<close>

datatype matcher = Foundation "comb option" nat nat | Filter simple | Combine comb nat matcher | Every "matcher list"

datatype ctx = ContextNode node | ContextNodes "node list"

text \<open>\<open>outermostContext\<close> may be \<open>true\<close>, which is no context.\<close>

datatype outermost = Anything | Outermost ctx

record env =
  env_doc :: dom
  env_xml :: bool
  env_pseudo :: "nat \<Rightarrow> node \<Rightarrow> bool"
  env_context :: ctx
  env_outermost :: outermost

type_synonym answer = "node \<Rightarrow> caches \<Rightarrow> bool \<times> caches"

section \<open>Walks\<close>

text \<open>\<open>addCombinator\<close>; \<open>all\<close> is \<open>checkNonElements\<close>. First the walk to the closest node.\<close>

function closest :: "dom \<Rightarrow> bool \<Rightarrow> dir \<Rightarrow> node \<Rightarrow> node option" where
  "closest doc all d e =
     (case along d e of
        None \<Rightarrow> None
      | Some m \<Rightarrow> if is_element doc m \<or> all then Some m else closest doc all d m)"
  by pat_completeness auto

termination
  by (relation "measure (\<lambda>(doc, all, d, e). depth e)") (auto simp: along_depth)

text \<open>The walk in a document of XML, which keeps nothing.\<close>

function walk_plain :: "dom \<Rightarrow> bool \<Rightarrow> dir \<Rightarrow> answer \<Rightarrow> answer" where
  "walk_plain doc all d m e s =
     (case along d e of
        None \<Rightarrow> (False, s)
      | Some n \<Rightarrow>
          if is_element doc n \<or> all
          then (case m n s of (r, s) \<Rightarrow> if r then (True, s) else walk_plain doc all d m n s)
          else walk_plain doc all d m n s)"
  by pat_completeness auto

termination
  by (relation "measure (\<lambda>(doc, all, d, m, e, s). depth e)") (auto simp: along_depth)

text \<open>
  The walk that keeps its result: every node that it passes gets the same entry \<open>newCache\<close>, whose result
  is written when it is known; an entry of this run and this combinator ends the walk.
\<close>

function walk_cached :: "dom \<Rightarrow> bool \<Rightarrow> dir \<Rightarrow> nat \<Rightarrow> nat \<Rightarrow> nat \<Rightarrow> answer \<Rightarrow> answer" where
  "walk_cached doc all d run name c m e s =
     (case along d e of
        None \<Rightarrow> (False, s)
      | Some n \<Rightarrow>
          if is_element doc n \<or> all
          then
            (let hit = (case slots s (n, d) of
                 None \<Rightarrow> None
               | Some (r, nm, c') \<Rightarrow> if r = dirruns s \<and> nm = name then Some (cells s ! c') else None)
             in case hit of
                  Some r \<Rightarrow> (r, s\<lparr>cells := (cells s)[c := r]\<rparr>)
                | None \<Rightarrow>
                    (case m n (s\<lparr>slots := (slots s)((n, d) \<mapsto> (run, name, c))\<rparr>) of
                       (r, s) \<Rightarrow>
                         let s = s\<lparr>cells := (cells s)[c := r]\<rparr>
                         in if r then (True, s) else walk_cached doc all d run name c m n s))
          else walk_cached doc all d run name c m n s)"
  by pat_completeness auto

termination
  by (relation "measure (\<lambda>(doc, all, d, run, name, c, m, e, s). depth e)") (auto simp: along_depth)

declare closest.simps [simp del] walk_plain.simps [simp del] walk_cached.simps [simp del]

definition combinator :: "env \<Rightarrow> comb \<Rightarrow> bool \<Rightarrow> nat \<Rightarrow> answer \<Rightarrow> answer" where
  "combinator v c base name m e s =
     (let d = comb_dir c; all = (base \<and> d = ParentNode)
      in if comb_first c
         then (case closest (env_doc v) all d e of None \<Rightarrow> (False, s) | Some n \<Rightarrow> m n s)
         else if env_xml v then walk_plain (env_doc v) all d m e s
         else walk_cached (env_doc v) all d (dirruns s) name (length (cells s)) m e (s\<lparr>cells := cells s @ [False]\<rparr>))"

section \<open>Matching\<close>

definition run_filter :: "env \<Rightarrow> simple \<Rightarrow> answer" where
  "run_filter v f e s =
     (case f of
        Tag t \<Rightarrow> (tag_filter (env_doc v) t e, s)
      | Id i \<Rightarrow> (id_filter (env_doc v) i e, s)
      | Class c \<Rightarrow> (class_filter (env_doc v) c e, s)
      | Attr a op x \<Rightarrow> (attr_filter (env_doc v) a op x e, s)
      | ChildF c \<Rightarrow> run_child (env_doc v) (env_xml v) c e s
      | Pseudo p \<Rightarrow> (env_pseudo v p e, s))"

text \<open>The foundation: the element is reached from the context, if that is the outermost one or a combinator leads.\<close>

definition foundation :: "env \<Rightarrow> comb option \<Rightarrow> nat \<Rightarrow> nat \<Rightarrow> answer" where
  "foundation v leading n1 n2 e s =
     (let c = (case leading of None \<Rightarrow> Descendant | Some c \<Rightarrow> c)
      in if leading = None \<and> (env_xml v \<or> env_outermost v \<noteq> Outermost (env_context v)) then (True, s)
         else case env_context v of
           ContextNode x \<Rightarrow> combinator v c True n1 (\<lambda>m s. (m = x, s)) e s
         | ContextNodes xs \<Rightarrow> combinator v c True n2 (\<lambda>m s. (m \<in> set xs, s)) e s)"

text \<open>\<open>elementMatcher\<close> goes through its matchers from the last to the first.\<close>

fun run :: "env \<Rightarrow> matcher \<Rightarrow> answer" and run_every :: "env \<Rightarrow> matcher list \<Rightarrow> answer" where
  "run v (Foundation leading n1 n2) = foundation v leading n1 n2"
| "run v (Filter f) = run_filter v f"
| "run v (Combine c name m) = combinator v c False name (run v m)"
| "run v (Every ms) = run_every v ms"
| "run_every v [] = (\<lambda>e s. (True, s))"
| "run_every v (m # ms) = (\<lambda>e s. case run_every v ms e s of (r, s) \<Rightarrow> if r then run v m e s else (False, s))"

definition elementMatcher :: "matcher list \<Rightarrow> matcher" where
  "elementMatcher ms = (if length ms > 1 then Every ms else hd ms)"

fun build :: "matcher list \<Rightarrow> nat \<Rightarrow> token list \<Rightarrow> matcher \<times> nat" where
  "build ms k [] = (elementMatcher ms, k)"
| "build ms k (Rel c # ts) = build [Combine c k (elementMatcher ms)] (k + 1) ts"
| "build ms k (Filt f # ts) = build (ms @ [Filter f]) k ts"

fun leading_comb :: "token list \<Rightarrow> comb option" where
  "leading_comb (Rel c # ts) = Some c"
| "leading_comb ts = None"

definition after_leading :: "token list \<Rightarrow> token list" where
  "after_leading ts = (if leading_comb ts = None then ts else tl ts)"

text \<open>\<open>matcherFromTokens\<close>; the number is the counter \<open>done\<close>, from which the names of walks are taken.\<close>

definition matcherFromTokens :: "token list \<Rightarrow> nat \<Rightarrow> matcher \<times> nat" where
  "matcherFromTokens ts k = build [Foundation (leading_comb ts) k (k + 1)] (k + 2) (after_leading ts)"

text \<open>\<open>compile\<close> on the groups of a selector, from the last to the first.\<close>

fun compile_groups :: "token list list \<Rightarrow> nat \<Rightarrow> matcher list \<times> nat" where
  "compile_groups [] k = ([], k)"
| "compile_groups (g # gs) k =
     (let (m, k) = matcherFromTokens g k; (ms, k) = compile_groups gs k in (m # ms, k))"

definition compile :: "token list list \<Rightarrow> nat \<Rightarrow> matcher list \<times> nat" where
  "compile gs k = compile_groups (rev gs) k"

fun first_match :: "env \<Rightarrow> matcher list \<Rightarrow> answer" where
  "first_match v [] e s = (False, s)"
| "first_match v (m # ms) e s = (case run v m e s of (r, s) \<Rightarrow> if r then (True, s) else first_match v ms e s)"

fun each_element :: "env \<Rightarrow> matcher list \<Rightarrow> node list \<Rightarrow> caches \<Rightarrow> node list \<times> caches" where
  "each_element v ms [] s = ([], s)"
| "each_element v ms (e # es) s =
     (let (r, s) = first_match v ms e s; (es, s) = each_element v ms es s in (if r then e # es else es, s))"

text \<open>
  The arguments of \<open>superMatcher\<close>: the elements are \<open>seed\<close> or all elements of the document; no context stands
  for the document, the root. \<open>outermost\<close> is given if it is truthy.
\<close>

record call =
  call_doc :: dom
  call_xml :: bool
  call_pseudo :: "nat \<Rightarrow> node \<Rightarrow> bool"
  call_context :: "ctx option"
  call_outermost :: "outermost option"
  call_elems :: "node list"

definition call_env :: "call \<Rightarrow> env" where
  "call_env q =
     \<lparr>env_doc = call_doc q, env_xml = call_xml q, env_pseudo = call_pseudo q,
      env_context = (case call_context q of None \<Rightarrow> ContextNode [] | Some c \<Rightarrow> c),
      env_outermost =
        (case call_outermost q of
           None \<Rightarrow> Anything
         | Some o' \<Rightarrow>
             (case call_context q of
                None \<Rightarrow> o'
              | Some c \<Rightarrow> if c = ContextNode [] \<and> node_type (call_doc q) = 9 then Anything else Outermost c))\<rparr>"

definition superMatcher :: "matcher list \<Rightarrow> call \<Rightarrow> caches \<Rightarrow> node list \<times> caches" where
  "superMatcher ms q s = each_element (call_env q) ms (call_elems q) (s\<lparr>dirruns := dirruns s + 1\<rparr>)"

section \<open>What selectors mean\<close>

text \<open>The relations of the combinators, between an element on the left and one on the right.\<close>

fun related :: "dom \<Rightarrow> comb \<Rightarrow> node \<Rightarrow> node \<Rightarrow> bool" where
  "related doc ChildOf m n = (is_element doc m \<and> (\<exists>i. n = i # m))"
| "related doc Descendant m n = (is_element doc m \<and> (\<exists>ps. ps \<noteq> [] \<and> n = ps @ m))"
| "related doc Follows m n = (is_element doc m \<and> (\<exists>i j p. m = i # p \<and> n = j # p \<and> i < j))"
| "related doc Adjacent m n =
     (is_element doc m \<and> (\<exists>i j p. m = i # p \<and> n = j # p \<and> i < j \<and> (\<forall>k. i < k \<and> k < j \<longrightarrow> \<not> is_element doc (k # p))))"

text \<open>The context need not be an element for the combinators that go upwards.\<close>

fun from_context :: "dom \<Rightarrow> comb \<Rightarrow> node \<Rightarrow> node \<Rightarrow> bool" where
  "from_context doc ChildOf m n = (\<exists>i. n = i # m)"
| "from_context doc Descendant m n = (\<exists>ps. ps \<noteq> [] \<and> n = ps @ m)"
| "from_context doc c m n = related doc c m n"

definition filter_holds :: "env \<Rightarrow> simple \<Rightarrow> node \<Rightarrow> bool" where
  "filter_holds v f e =
     (case f of
        Tag t \<Rightarrow> tag_filter (env_doc v) t e
      | Id i \<Rightarrow> id_filter (env_doc v) i e
      | Class c \<Rightarrow> class_filter (env_doc v) c e
      | Attr a op x \<Rightarrow> attr_filter (env_doc v) a op x e
      | ChildF c \<Rightarrow> child_spec (env_doc v) c e
      | Pseudo p \<Rightarrow> env_pseudo v p e)"

definition context_nodes :: "env \<Rightarrow> node set" where
  "context_nodes v = (case env_context v of ContextNode x \<Rightarrow> {x} | ContextNodes xs \<Rightarrow> set xs)"

definition reached :: "env \<Rightarrow> comb option \<Rightarrow> node \<Rightarrow> bool" where
  "reached v leading n =
     (case leading of
        None \<Rightarrow> env_xml v \<or> env_outermost v \<noteq> Outermost (env_context v)
          \<or> (\<exists>m \<in> context_nodes v. from_context (env_doc v) Descendant m n)
      | Some c \<Rightarrow> \<exists>m \<in> context_nodes v. from_context (env_doc v) c m n)"

text \<open>A selector is read from right to left.\<close>

fun satisfies :: "env \<Rightarrow> comb option \<Rightarrow> token list \<Rightarrow> node \<Rightarrow> bool" where
  "satisfies v leading [] n = reached v leading n"
| "satisfies v leading (Filt f # ts) n = (filter_holds v f n \<and> satisfies v leading ts n)"
| "satisfies v leading (Rel c # ts) n = (\<exists>m. related (env_doc v) c m n \<and> satisfies v leading ts m)"

definition selects :: "env \<Rightarrow> token list \<Rightarrow> node \<Rightarrow> bool" where
  "selects v ts n = satisfies v (leading_comb ts) (rev (after_leading ts)) n"

section \<open>Walks and relations\<close>

function beyond :: "dir \<Rightarrow> node \<Rightarrow> node list" where
  "beyond d e = (case along d e of None \<Rightarrow> [] | Some m \<Rightarrow> m # beyond d m)"
  by pat_completeness auto

termination
  by (relation "measure (\<lambda>(d, e). depth e)") (auto simp: along_depth)

declare beyond.simps [simp del]

lemma beyond_None [simp]: "along d e = None \<Longrightarrow> beyond d e = []"
  by (simp add: beyond.simps)

lemma beyond_Some: "along d e = Some m \<Longrightarrow> beyond d e = m # beyond d m"
  by (subst beyond.simps) simp

lemma beyond_parents: "m \<in> set (beyond ParentNode e) \<longleftrightarrow> (\<exists>ps. ps \<noteq> [] \<and> e = ps @ m)"
proof (induction e)
  case (Cons i p)
  have "(\<exists>ps. ps \<noteq> [] \<and> i # p = ps @ m) \<longleftrightarrow> m = p \<or> (\<exists>ps. ps \<noteq> [] \<and> p = ps @ m)"
    by (metis append_Cons append_Nil append_eq_Cons_conv list.distinct(1))
  with Cons show ?case by (simp add: beyond_Some [of ParentNode "i # p" p])
qed simp

lemma beyond_siblings: "beyond PreviousSibling (j # p) = map (\<lambda>i. i # p) (rev [0..<j])"
  by (induction j) (simp_all add: beyond_Some [of PreviousSibling "Suc _ # p"])

lemma beyond_depth: "m \<in> set (beyond d e) \<Longrightarrow> depth m < depth e"
proof (induction d e rule: beyond.induct)
  case (1 d e)
  show ?case
  proof (cases "along d e")
    case (Some n)
    with 1(2) consider "m = n" | "m \<in> set (beyond d n)" by (auto simp: beyond_Some)
    then show ?thesis using along_depth [OF Some] 1(1) [OF Some] by cases auto
  qed (use 1(2) in simp)
qed

lemma closest_find: "closest doc all d e = find (\<lambda>m. is_element doc m \<or> all) (beyond d e)"
proof (induction doc all d e rule: closest.induct)
  case (1 doc all d e)
  then show ?case by (cases "along d e") (auto simp: closest.simps [of doc all d e] beyond_Some)
qed

lemma find_previous:
  "find P (map (\<lambda>i. i # p) (rev [0..<j])) = Some m
     \<longleftrightarrow> (\<exists>i < j. m = i # p \<and> P m \<and> (\<forall>k. i < k \<and> k < j \<longrightarrow> \<not> P (k # p)))"
proof (induction j)
  case (Suc j)
  show ?case
  proof (cases "P (j # p)")
    case True
    then show ?thesis by (auto simp: less_Suc_eq)
  next
    case False
    with Suc show ?thesis by (auto simp: less_Suc_eq)
  qed
qed simp

text \<open>What a walk finds out from a node, without and with the node itself.\<close>

definition found_beyond :: "dom \<Rightarrow> bool \<Rightarrow> dir \<Rightarrow> (node \<Rightarrow> bool) \<Rightarrow> node \<Rightarrow> bool" where
  "found_beyond doc all d P e \<longleftrightarrow> (\<exists>m \<in> set (beyond d e). (is_element doc m \<or> all) \<and> P m)"

definition found_from :: "dom \<Rightarrow> bool \<Rightarrow> dir \<Rightarrow> (node \<Rightarrow> bool) \<Rightarrow> node \<Rightarrow> bool" where
  "found_from doc all d P e \<longleftrightarrow> (is_element doc e \<or> all) \<and> P e \<or> found_beyond doc all d P e"

lemma found_beyond_step:
  "found_beyond doc all d P e = (case along d e of None \<Rightarrow> False | Some m \<Rightarrow> found_from doc all d P m)"
  by (cases "along d e") (auto simp: found_beyond_def found_from_def beyond_Some)

definition combined :: "dom \<Rightarrow> bool \<Rightarrow> comb \<Rightarrow> (node \<Rightarrow> bool) \<Rightarrow> node \<Rightarrow> bool" where
  "combined doc all c P e =
     (if comb_first c then (\<exists>m. closest doc all (comb_dir c) e = Some m \<and> P m)
      else found_beyond doc all (comb_dir c) P e)"

lemma combined_siblings:
  assumes "comb_dir c = PreviousSibling"
  shows "combined doc False c P e \<longleftrightarrow> (\<exists>m. related doc c m e \<and> P m)"
proof (cases e)
  case Nil
  with assms show ?thesis
    by (cases c) (simp_all add: combined_def comb_first_def comb_dir_def found_beyond_def closest.simps)
next
  case (Cons j p)
  with assms show ?thesis
    by (cases c) (auto simp: combined_def comb_first_def comb_dir_def closest_find found_beyond_def beyond_siblings find_previous simp del: find.simps)
qed

lemma closest_parent: "closest doc all ParentNode (i # p) = (if is_element doc p \<or> all then Some p else closest doc all ParentNode p)"
  by (simp add: closest.simps)

lemma combined_related:
  assumes ok: "dom_ok doc" and e: "node_at doc e \<noteq> None"
  shows "combined doc False c P e \<longleftrightarrow> (\<exists>m. related doc c m e \<and> P m)"
proof (cases "comb_dir c")
  case ParentNode
  then consider "c = ChildOf" | "c = Descendant" by (auto simp: comb_dir_def split: if_splits)
  then show ?thesis
  proof cases
    case 1
    have "is_element doc p \<or> p = []" if "e = i # p" for i p using dom_ok_parent [OF ok, of p i] e that by blast
    with 1 show ?thesis
      by (cases e) (auto simp: combined_def comb_first_def comb_dir_def closest_parent closest.simps [of _ _ _ "[]"])
  next
    case 2
    then show ?thesis by (auto simp: combined_def comb_first_def comb_dir_def found_beyond_def beyond_parents)
  qed
qed (rule combined_siblings)

lemma combined_context:
  "combined doc (comb_dir c = ParentNode) c (\<lambda>m. m \<in> X) e \<longleftrightarrow> (\<exists>m \<in> X. from_context doc c m e)"
proof (cases "comb_dir c")
  case ParentNode
  then consider "c = ChildOf" | "c = Descendant" by (auto simp: comb_dir_def split: if_splits)
  then show ?thesis
  proof cases
    case 1
    then show ?thesis
      by (cases e) (auto simp: combined_def comb_first_def comb_dir_def closest_parent closest.simps [of _ _ _ "[]"])
  next
    case 2
    then show ?thesis by (auto simp: combined_def comb_first_def comb_dir_def found_beyond_def beyond_parents)
  qed
next
  case PreviousSibling
  then have "from_context doc c m e = related doc c m e" for m by (cases c) (simp_all add: comb_dir_def)
  with PreviousSibling combined_siblings [OF PreviousSibling, of doc "\<lambda>m. m \<in> X" e] show ?thesis by auto
qed

section \<open>Answers and what they leave on the nodes\<close>

text \<open>
  A fact says what the results that a walk keeps under its name and direction mean. The entries of a run
  are right for a set of facts if their results are what the facts say; the walks that are under
  way, whose results are not yet written, are left out of the set.
\<close>

type_synonym fact = "nat \<times> dir \<times> (node \<Rightarrow> bool)"

definition facts_ok :: "fact set \<Rightarrow> caches \<Rightarrow> bool" where
  "facts_ok F s \<longleftrightarrow>
     (\<forall>n d nm c. slots s (n, d) = Some (dirruns s, nm, c)
        \<longrightarrow> c < length (cells s) \<and> (\<forall>S. (nm, d, S) \<in> F \<longrightarrow> cells s ! c = S n))"

definition slots_old :: "caches \<Rightarrow> bool" where
  "slots_old s \<longleftrightarrow> (\<forall>x r nm c. slots s x = Some (r, nm, c) \<longrightarrow> r \<le> dirruns s) \<and> child_slots_old (dirruns s) s"

definition good :: "dom \<Rightarrow> fact set \<Rightarrow> caches \<Rightarrow> bool" where
  "good doc F s \<longleftrightarrow> facts_ok F s \<and> child_caches_ok doc s \<and> slots_old s"

text \<open>Only entries under the given names are new, with new results; the results below a mark stay.\<close>

definition frame :: "nat \<Rightarrow> nat set \<Rightarrow> caches \<Rightarrow> caches \<Rightarrow> bool" where
  "frame l N s s' \<longleftrightarrow>
     dirruns s' = dirruns s \<and> length (cells s) \<le> length (cells s')
     \<and> (\<forall>c < l. cells s' ! c = cells s ! c)
     \<and> (\<forall>x. slots s' x = slots s x \<or> (\<exists>nm \<in> N. \<exists>c \<ge> l. slots s' x = Some (dirruns s, nm, c)))"

definition answers :: "dom \<Rightarrow> (node \<Rightarrow> bool) \<Rightarrow> fact set \<Rightarrow> (node \<Rightarrow> bool) \<Rightarrow> answer \<Rightarrow> bool" where
  "answers doc D F P m \<longleftrightarrow>
     (\<forall>e s. D e \<longrightarrow> good doc F s
        \<longrightarrow> fst (m e s) = P e \<and> good doc F (snd (m e s)) \<and> frame (length (cells s)) (fst ` F) s (snd (m e s)))"

lemma frame_refl [simp]: "frame l N s s"
  by (simp add: frame_def)

lemma frame_trans:
  assumes a: "frame l N s s'" and b: "frame l N s' s''"
  shows "frame l N s s''"
proof -
  have "slots s'' x = slots s x \<or> (\<exists>nm \<in> N. \<exists>c \<ge> l. slots s'' x = Some (dirruns s, nm, c))" for x
  proof -
    have "slots s'' x = slots s' x \<or> (\<exists>nm \<in> N. \<exists>c \<ge> l. slots s'' x = Some (dirruns s', nm, c))"
      "slots s' x = slots s x \<or> (\<exists>nm \<in> N. \<exists>c \<ge> l. slots s' x = Some (dirruns s, nm, c))" "dirruns s' = dirruns s"
      using a b unfolding frame_def by blast+
    then show ?thesis by auto
  qed
  with a b show ?thesis unfolding frame_def by simp
qed

lemma frame_weaken: "frame l N s s' \<Longrightarrow> l' \<le> l \<Longrightarrow> N \<subseteq> N' \<Longrightarrow> frame l' N' s s'"
  unfolding frame_def by (meson order_trans less_le_trans subsetD)

lemma facts_okD:
  "facts_ok F s \<Longrightarrow> slots s (n, d) = Some (dirruns s, nm, c) \<Longrightarrow> c < length (cells s)"
  "facts_ok F s \<Longrightarrow> slots s (n, d) = Some (dirruns s, nm, c) \<Longrightarrow> (nm, d, S) \<in> F \<Longrightarrow> cells s ! c = S n"
  by (auto simp: facts_ok_def)

lemma facts_ok_subset: "facts_ok G s \<Longrightarrow> F \<subseteq> G \<Longrightarrow> facts_ok F s"
  unfolding facts_ok_def by blast

lemma facts_ok_frame:
  assumes U: "facts_ok U s" and F: "facts_ok F s'" and fr: "frame (length (cells s)) (fst ` F) s s'"
    and own: "\<And>x. x \<in> U \<Longrightarrow> fst x \<in> fst ` F \<Longrightarrow> x \<in> F"
  shows "facts_ok U s'"
  unfolding facts_ok_def
proof (intro allI impI conjI)
  fix n d nm c S
  assume sl: "slots s' (n, d) = Some (dirruns s', nm, c)"
  then show "c < length (cells s')" using facts_okD(1) [OF F] by blast
  assume f: "(nm, d, S) \<in> U"
  have run: "dirruns s' = dirruns s" using fr by (simp add: frame_def)
  show "cells s' ! c = S n"
  proof (cases "(nm, d, S) \<in> F")
    case True
    with facts_okD(2) [OF F sl] show ?thesis by blast
  next
    case False
    with own [OF f] have "nm \<notin> fst ` F" by auto
    moreover have "slots s' (n, d) = slots s (n, d)
        \<or> (\<exists>nm \<in> fst ` F. \<exists>c \<ge> length (cells s). slots s' (n, d) = Some (dirruns s, nm, c))"
      using fr unfolding frame_def by blast
    ultimately have "slots s (n, d) = Some (dirruns s, nm, c)" using sl run by auto
    with facts_okD [OF U this] f fr show ?thesis by (auto simp: frame_def)
  qed
qed

lemma answersD:
  assumes "answers doc D F P m" and "D e" and "good doc F s"
  shows "fst (m e s) = P e" "good doc F (snd (m e s))" "frame (length (cells s)) (fst ` F) s (snd (m e s))"
  using assms unfolding answers_def by blast+

text \<open>An answer keeps also the facts of others.\<close>

lemma answers_within:
  assumes m: "answers doc D F P m" and D: "D e" and U: "good doc U s" and "F \<subseteq> U"
    and own: "\<And>x. x \<in> U \<Longrightarrow> fst x \<in> fst ` F \<Longrightarrow> x \<in> F"
  shows "fst (m e s) = P e \<and> good doc U (snd (m e s)) \<and> frame (length (cells s)) (fst ` F) s (snd (m e s))"
proof -
  have "good doc F s" using U \<open>F \<subseteq> U\<close> facts_ok_subset by (auto simp: good_def)
  from answersD [OF m D this] facts_ok_frame [where U = U and F = F and s = s and s' = "snd (m e s)", OF _ _ _ own] U show ?thesis
    by (auto simp: good_def)
qed

lemma answers_cong: "answers doc D F P m \<Longrightarrow> (\<And>e. D' e \<Longrightarrow> D e \<and> P e = P' e) \<Longrightarrow> answers doc D' F P' m"
  unfolding answers_def by metis

lemma answers_pure: "answers doc D F P (\<lambda>e s. (P e, s))"
  by (simp add: answers_def)

lemma answers_both:
  assumes a: "answers doc D {} Q a" and b: "answers doc D F P b"
  shows "answers doc D F (\<lambda>e. P e \<and> Q e) (\<lambda>e s. case a e s of (r, s) \<Rightarrow> if r then b e s else (False, s))"
  unfolding answers_def
proof (intro allI impI)
  fix e s
  assume e: "D e" and s: "good doc F s"
  obtain r s' where r: "a e s = (r, s')" by (cases "a e s")
  have s': "r = Q e" "good doc F s'" "frame (length (cells s)) (fst ` F) s s'"
    using answers_within [OF a e s] r frame_weaken [of "length (cells s)" "{}" s s' "length (cells s)" "fst ` F"] by auto
  obtain t s'' where t: "b e s' = (t, s'')" by (cases "b e s'")
  have s'': "t = P e" "good doc F s''" "frame (length (cells s')) (fst ` F) s' s''"
    using answersD [OF b e s'(2)] t by auto
  have "frame (length (cells s)) (fst ` F) s s''"
    by (rule frame_trans [OF s'(3) frame_weaken [OF s''(3)]]) (use s'(3) in \<open>auto simp: frame_def\<close>)
  with s' s'' r t show "fst (case a e s of (r, s) \<Rightarrow> if r then b e s else (False, s)) = (P e \<and> Q e)
      \<and> good doc F (snd (case a e s of (r, s) \<Rightarrow> if r then b e s else (False, s)))
      \<and> frame (length (cells s)) (fst ` F) s (snd (case a e s of (r, s) \<Rightarrow> if r then b e s else (False, s)))"
    by auto
qed


section \<open>The walk that keeps its results\<close>

text \<open>
  What holds while the walk is under way: the facts of the matcher inside hold; the entries with the walk's own cell
  are its own, on nodes it has passed, from which it finds what it will find from here; its other entries
  are right.
\<close>

definition walking :: "dom \<Rightarrow> bool \<Rightarrow> dir \<Rightarrow> nat \<Rightarrow> nat \<Rightarrow> fact set \<Rightarrow> (node \<Rightarrow> bool) \<Rightarrow> node set \<Rightarrow> bool \<Rightarrow> nat \<Rightarrow> caches \<Rightarrow> bool" where
  "walking doc all d name c F P V b k s \<longleftrightarrow>
     good doc F s \<and> c < length (cells s) \<and> \<not> cells s ! c
     \<and> (\<forall>n d' nm. slots s (n, d') = Some (dirruns s, nm, c) \<longrightarrow> nm = name \<and> d' = d \<and> n \<in> V)
     \<and> (\<forall>n c'. slots s (n, d) = Some (dirruns s, name, c') \<longrightarrow> c' \<noteq> c \<longrightarrow> cells s ! c' = found_from doc all d P n)
     \<and> (\<forall>n \<in> V. found_from doc all d P n = b \<and> k \<le> depth n)"

lemma walking_done:
  assumes w: "walking doc all d name c F P V r k s" and nm: "name \<notin> fst ` F"
  shows "good doc (insert (name, d, found_from doc all d P) F) (s\<lparr>cells := (cells s)[c := r]\<rparr>)"
proof -
  have "facts_ok (insert (name, d, found_from doc all d P) F) (s\<lparr>cells := (cells s)[c := r]\<rparr>)"
    unfolding facts_ok_def
  proof (intro allI impI conjI)
    fix n d' nm' c' S
    assume sl: "slots (s\<lparr>cells := (cells s)[c := r]\<rparr>) (n, d') = Some (dirruns (s\<lparr>cells := (cells s)[c := r]\<rparr>), nm', c')"
    have f: "facts_ok F s" and c: "c < length (cells s)" using w by (auto simp: walking_def good_def)
    from sl facts_okD(1) [OF f] show "c' < length (cells (s\<lparr>cells := (cells s)[c := r]\<rparr>))" by auto
    assume S: "(nm', d', S) \<in> insert (name, d, found_from doc all d P) F"
    show "cells (s\<lparr>cells := (cells s)[c := r]\<rparr>) ! c' = S n"
    proof (cases "c' = c")
      case True
      with w sl have n: "nm' = name" "n \<in> V" by (auto simp: walking_def)
      then have "(nm', d', S) \<notin> F" using nm by (metis fst_conv imageI)
      with S have "S n = found_from doc all d P n" by simp
      also have "\<dots> = r" using w n unfolding walking_def by blast
      finally show ?thesis using True c by simp
    next
      case False
      show ?thesis
      proof (cases "(nm', d', S) \<in> F")
        case True
        with facts_okD(2) [OF f, of n d' nm' c' S] sl False show ?thesis by simp
      next
        case new: False
        with S have "nm' = name" "d' = d" "S = found_from doc all d P" by auto
        with w sl False show ?thesis by (auto simp: walking_def)
      qed
    qed
  qed
  with w show ?thesis by (simp add: good_def walking_def slots_old_def child_slots_old_def child_caches_ok_def)
qed

lemma walking_mark:
  assumes w: "walking doc all d name c F P V b k s" and nm: "name \<notin> fst ` F"
  shows "good doc F (s\<lparr>slots := (slots s)((n, d) \<mapsto> (dirruns s, name, c))\<rparr>)"
proof -
  have "facts_ok F (s\<lparr>slots := (slots s)((n, d) \<mapsto> (dirruns s, name, c))\<rparr>)"
    unfolding facts_ok_def
  proof (intro allI impI conjI)
    fix m d' nm' c' S
    assume sl: "slots (s\<lparr>slots := (slots s)((n, d) \<mapsto> (dirruns s, name, c))\<rparr>) (m, d')
      = Some (dirruns (s\<lparr>slots := (slots s)((n, d) \<mapsto> (dirruns s, name, c))\<rparr>), nm', c')"
    then have new: "nm' = name \<and> c' = c \<or> slots s (m, d') = Some (dirruns s, nm', c')" by (auto split: if_splits)
    have f: "facts_ok F s" "c < length (cells s)" using w by (auto simp: walking_def good_def)
    with new facts_okD(1) [OF f(1)] show "c' < length (cells (s\<lparr>slots := (slots s)((n, d) \<mapsto> (dirruns s, name, c))\<rparr>))" by auto
    assume S: "(nm', d', S) \<in> F"
    then have "nm' \<noteq> name" using nm by (metis fst_conv imageI)
    with new facts_okD(2) [OF f(1) _ S] show "cells (s\<lparr>slots := (slots s)((n, d) \<mapsto> (dirruns s, name, c))\<rparr>) ! c' = S m" by simp
  qed
  with w show ?thesis by (auto simp: good_def walking_def slots_old_def child_slots_old_def child_caches_ok_def)
qed

lemma walking_on:
  assumes w: "walking doc all d name c F P V b k s" and nm: "name \<notin> fst ` F"
    and n: "found_from doc all d P n = b" "depth n < k"
    and g: "good doc F s'" and fr: "frame (length (cells s)) (fst ` F) (s\<lparr>slots := (slots s)((n, d) \<mapsto> (dirruns s, name, c))\<rparr>) s'"
  shows "walking doc all d name c F P (insert n V) b (depth n) (s'\<lparr>cells := (cells s')[c := False]\<rparr>)"
proof -
  let ?t = "s\<lparr>slots := (slots s)((n, d) \<mapsto> (dirruns s, name, c))\<rparr>"
  have run: "dirruns s' = dirruns s" and len: "length (cells s) \<le> length (cells s')"
    and old: "\<forall>c' < length (cells s). cells s' ! c' = cells s ! c'"
    using fr by (simp_all add: frame_def)
  have sl: "slots s' x = ((slots s)((n, d) \<mapsto> (dirruns s, name, c))) x
      \<or> (\<exists>nm \<in> fst ` F. \<exists>c \<ge> length (cells s). slots s' x = Some (dirruns s, nm, c))" for x
  proof -
    have "slots s' x = slots ?t x \<or> (\<exists>nm \<in> fst ` F. \<exists>c \<ge> length (cells s). slots s' x = Some (dirruns ?t, nm, c))"
      using fr unfolding frame_def by blast
    then show ?thesis by simp
  qed
  have c: "c < length (cells s)" "facts_ok F s" using w by (auto simp: walking_def good_def)
  have cell: "slots s (m, d') = Some (dirruns s, nm', c) \<Longrightarrow> nm' = name \<and> d' = d \<and> m \<in> V" for m d' nm'
    using w unfolding walking_def by blast
  have kept: "slots s (m, d) = Some (dirruns s, name, c') \<Longrightarrow> c' \<noteq> c \<Longrightarrow> cells s ! c' = found_from doc all d P m" for m c'
    using w unfolding walking_def by blast
  have own: "slots s' (m, d') = Some (dirruns s', nm', c') \<Longrightarrow> nm' = name \<or> c' = c
      \<Longrightarrow> (m, d') = (n, d) \<and> c' = c \<and> nm' = name \<or> (m, d') \<noteq> (n, d) \<and> slots s (m, d') = Some (dirruns s, nm', c')" for m d' nm' c'
    using sl [of "(m, d')"] nm c run by (auto split: if_splits)
  have V: "\<forall>m \<in> insert n V. found_from doc all d P m = b \<and> depth n \<le> depth m"
    using w n by (auto simp: walking_def)
  have "good doc F (s'\<lparr>cells := (cells s')[c := False]\<rparr>)"
  proof -
    have "c' \<noteq> c" if sl': "slots s' (m, d') = Some (dirruns s', nm', c')" and f: "(nm', d', S) \<in> F" for m d' nm' c' S
    proof
      assume "c' = c"
      with own [OF sl'] cell have "nm' = name" by blast
      with f nm show False by (metis fst_conv imageI)
    qed
    then have "cells (s'\<lparr>cells := (cells s')[c := False]\<rparr>) ! c' = cells s' ! c'"
      if "slots s' (m, d') = Some (dirruns s', nm', c')" "(nm', d', S) \<in> F" for m d' nm' c' S
      using that by (metis (no_types, lifting) caches.select_convs(3) caches.surjective caches.update_convs(3) nth_list_update_neq)
    then have "facts_ok F (s'\<lparr>cells := (cells s')[c := False]\<rparr>)"
      using g unfolding facts_ok_def good_def by simp
    with g show ?thesis by (simp add: good_def slots_old_def child_slots_old_def child_caches_ok_def)
  qed
  moreover have "nm' = name \<and> d' = d \<and> m \<in> insert n V" if "slots s' (m, d') = Some (dirruns s', nm', c)" for m d' nm'
    using own [OF that] cell by blast
  moreover have "cells s' ! c' = found_from doc all d P m" if "slots s' (m, d) = Some (dirruns s', name, c')" "c' \<noteq> c" for m c'
    using own [OF that(1)] that(2) kept old facts_okD(1) [OF c(2)] by auto
  ultimately show ?thesis using V c len unfolding walking_def by simp
qed


lemma frame_cell:
  assumes "frame l N s s'" and "l \<le> c"
  shows "frame l N s (s'\<lparr>cells := (cells s')[c := r]\<rparr>)"
proof -
  have "slots s' x = slots s x \<or> (\<exists>nm \<in> N. \<exists>c \<ge> l. slots s' x = Some (dirruns s, nm, c))" for x
    using assms(1) unfolding frame_def by blast
  with assms show ?thesis unfolding frame_def by simp
qed

lemma frame_mark:
  assumes "name \<in> N" and "l \<le> c" and "frame l N (s\<lparr>slots := (slots s)(x \<mapsto> (dirruns s, name, c))\<rparr>) s'"
  shows "frame l N s s'"
proof -
  have "frame l N s (s\<lparr>slots := (slots s)(x \<mapsto> (dirruns s, name, c))\<rparr>)"
    using assms(1,2) by (auto simp: frame_def)
  with assms(3) show ?thesis by (rule frame_trans [rotated])
qed

lemma walk_cached_ok:
  assumes m: "answers doc D F P m" and nm: "name \<notin> fst ` F" and D: "\<And>n. is_element doc n \<or> all \<Longrightarrow> D n"
    and w: "walking doc all d name c F P V (found_beyond doc all d P e) (depth e) s"
  shows "fst (walk_cached doc all d (dirruns s) name c m e s) = found_beyond doc all d P e
    \<and> good doc (insert (name, d, found_from doc all d P) F) (snd (walk_cached doc all d (dirruns s) name c m e s))
    \<and> frame c (insert name (fst ` F)) s (snd (walk_cached doc all d (dirruns s) name c m e s))"
  using w
proof (induction e arbitrary: s V rule: measure_induct_rule [of depth])
  case (less e)
  note w = less.prems
  let ?F = "insert (name, d, found_from doc all d P) F"
  show ?case
  proof (cases "along d e")
    case None
    then have no: "found_beyond doc all d P e = False" by (simp add: found_beyond_step)
    have "walk_cached doc all d (dirruns s) name c m e s = (False, s)"
      using None by (subst walk_cached.simps) simp
    moreover have "s\<lparr>cells := (cells s)[c := False]\<rparr> = s" using w by (auto simp: walking_def list_update_same_conv)
    ultimately show ?thesis using walking_done [OF w nm] no by simp
  next
    case (Some n)
    have n: "depth n < depth e" by (rule along_depth [OF Some])
    show ?thesis
    proof (cases "is_element doc n \<or> all")
      case False
      then have skip: "walk_cached doc all d (dirruns s) name c m e s = walk_cached doc all d (dirruns s) name c m n s"
        using Some by (subst walk_cached.simps) simp
      have same: "found_beyond doc all d P e = found_beyond doc all d P n"
        using False unfolding found_beyond_step [of doc all d P e] Some found_from_def by simp
      with w n have "walking doc all d name c F P V (found_beyond doc all d P n) (depth n) s" by (auto simp: walking_def)
      from less.IH [OF n this] show ?thesis by (simp add: skip same)
    next
      case elig: True
      define hit where "hit = (case slots s (n, d) of None \<Rightarrow> None
        | Some (r, nm, c') \<Rightarrow> if r = dirruns s \<and> nm = name then Some (cells s ! c') else None)"
      have here: "found_beyond doc all d P e = found_from doc all d P n"
        using Some by (simp add: found_beyond_step [of doc all d P e])
      show ?thesis
      proof (cases hit)
        case hit: (Some r)
        then obtain c' where c': "slots s (n, d) = Some (dirruns s, name, c')" and r: "r = cells s ! c'"
          by (auto simp: hit_def split: option.splits if_splits)
        have "c' \<noteq> c"
        proof
          assume "c' = c"
          with w c' have "n \<in> V" unfolding walking_def by blast
          with w n show False by (auto simp: walking_def)
        qed
        with w c' r have r': "r = found_beyond doc all d P e" by (auto simp: walking_def here)
        have "walk_cached doc all d (dirruns s) name c m e s = (r, s\<lparr>cells := (cells s)[c := r]\<rparr>)"
          using Some elig hit by (subst walk_cached.simps) (simp add: hit_def)
        with walking_done [OF w nm] r' show ?thesis
          by (simp add: frame_cell)
      next
        case miss: None
        let ?t = "s\<lparr>slots := (slots s)((n, d) \<mapsto> (dirruns s, name, c))\<rparr>"
        obtain r s1 where m1: "m n ?t = (r, s1)" by (cases "m n ?t")
        let ?s2 = "s1\<lparr>cells := (cells s1)[c := r]\<rparr>"
        have a: "r = P n" "good doc F s1" "frame (length (cells s)) (fst ` F) ?t s1"
          using answersD [OF m D [OF elig] walking_mark [OF w nm, of n]] m1 by simp_all
        have c: "c < length (cells s)" using w by (simp add: walking_def)
        have "frame c (insert name (fst ` F)) ?t s1"
          by (rule frame_weaken [OF a(3)]) (use c in auto)
        then have fr: "frame c (insert name (fst ` F)) s ?s2"
          by (intro frame_cell frame_mark [of name _ c c s "(n, d)" s1]) auto
        have run: "dirruns s1 = dirruns s" using a(3) by (simp add: frame_def)
        have step: "walk_cached doc all d (dirruns s) name c m e s
            = (if r then (True, ?s2) else walk_cached doc all d (dirruns s) name c m n ?s2)"
          using Some elig miss m1 by (subst walk_cached.simps) (simp add: hit_def)
        have w': "walking doc all d name c F P (insert n V) (found_beyond doc all d P e) (depth n) (s1\<lparr>cells := (cells s1)[c := False]\<rparr>)"
          by (rule walking_on [OF w nm here [symmetric] n a(2,3)])
        show ?thesis
        proof (cases r)
          case True
          then have yes: "found_beyond doc all d P e" using a(1) elig by (simp add: here found_from_def)
          with walking_done [OF w' nm] True step fr show ?thesis by simp
        next
          case False
          have same: "found_beyond doc all d P e = found_beyond doc all d P n"
            using False a(1) by (simp add: here found_from_def)
          from less.IH [OF n w' [unfolded same]] False step fr show ?thesis
            by (auto simp: run same intro: frame_trans)
        qed
      qed
    qed
  qed
qed


lemma walk_plain_ok:
  assumes m: "answers doc D F P m" and D: "\<And>n. is_element doc n \<or> all \<Longrightarrow> D n" and s: "good doc F s"
  shows "fst (walk_plain doc all d m e s) = found_beyond doc all d P e \<and> good doc F (snd (walk_plain doc all d m e s))
    \<and> frame (length (cells s)) (fst ` F) s (snd (walk_plain doc all d m e s))"
  using s
proof (induction e arbitrary: s rule: measure_induct_rule [of depth])
  case (less e)
  show ?case
  proof (cases "along d e")
    case None
    then have "walk_plain doc all d m e s = (False, s)" by (subst walk_plain.simps) simp
    with None less.prems show ?thesis by (simp add: found_beyond_step)
  next
    case (Some n)
    have n: "depth n < depth e" by (rule along_depth [OF Some])
    have here: "found_beyond doc all d P e = found_from doc all d P n"
      unfolding found_beyond_step [of doc all d P e] Some by simp
    show ?thesis
    proof (cases "is_element doc n \<or> all")
      case False
      then have "walk_plain doc all d m e s = walk_plain doc all d m n s"
        using Some by (subst walk_plain.simps) simp
      moreover have "found_from doc all d P n = found_beyond doc all d P n" using False by (auto simp: found_from_def)
      ultimately show ?thesis using less.IH [OF n less.prems] here by simp
    next
      case True
      obtain r s1 where m1: "m n s = (r, s1)" by (cases "m n s")
      have a: "r = P n" "good doc F s1" "frame (length (cells s)) (fst ` F) s s1"
        using answersD [OF m D [OF True] less.prems] m1 by simp_all
      have step: "walk_plain doc all d m e s = (if r then (True, s1) else walk_plain doc all d m n s1)"
        using Some True m1 by (subst walk_plain.simps) simp
      have "length (cells s) \<le> length (cells s1)" using a(3) by (simp add: frame_def)
      with less.IH [OF n a(2)] have rest: "frame (length (cells s)) (fst ` F) s1 (snd (walk_plain doc all d m n s1))"
        by (blast intro: frame_weaken)
      show ?thesis
      proof (cases r)
        case True
        with a step \<open>is_element doc n \<or> all\<close> show ?thesis by (simp add: here found_from_def)
      next
        case False
        with a(1) have "found_from doc all d P n = found_beyond doc all d P n" by (simp add: found_from_def)
        with False a step less.IH [OF n a(2)] frame_trans [OF a(3) rest] show ?thesis by (simp add: here)
      qed
    qed
  qed
qed

lemma found_all [simp]: "closest doc all d e = Some n \<Longrightarrow> is_element doc n \<or> all"
  by (auto simp: closest_find find_Some_iff)

lemma combinator_ok:
  assumes m: "answers (env_doc v) D F P m" and nm: "name \<notin> fst ` F"
    and D: "\<And>n. is_element (env_doc v) n \<or> (base \<and> comb_dir c = ParentNode) \<Longrightarrow> D n"
  shows "\<exists>F'. fst ` F' \<subseteq> insert name (fst ` F)
    \<and> answers (env_doc v) (\<lambda>_. True) F' (combined (env_doc v) (base \<and> comb_dir c = ParentNode) c P) (combinator v c base name m)"
proof -
  let ?doc = "env_doc v" and ?d = "comb_dir c" and ?all = "base \<and> comb_dir c = ParentNode"
  consider "comb_first c" | "\<not> comb_first c" "env_xml v" | "\<not> comb_first c" "\<not> env_xml v" by blast
  then show ?thesis
  proof cases
    case 1
    have "answers ?doc (\<lambda>_. True) F (combined ?doc ?all c P) (combinator v c base name m)"
      unfolding answers_def
    proof (intro allI impI)
      fix e s
      assume s: "good ?doc F s"
      show "fst (combinator v c base name m e s) = combined ?doc ?all c P e \<and> good ?doc F (snd (combinator v c base name m e s))
        \<and> frame (length (cells s)) (fst ` F) s (snd (combinator v c base name m e s))"
      proof (cases "closest ?doc ?all ?d e")
        case None
        with 1 s show ?thesis by (simp add: combinator_def combined_def Let_def)
      next
        case (Some n)
        with answersD [OF m D s, of n] found_all [OF Some] 1 show ?thesis
          by (simp add: combinator_def combined_def Let_def)
      qed
    qed
    then show ?thesis by (intro exI [of _ F]) auto
  next
    case 2
    then have "answers ?doc (\<lambda>_. True) F (combined ?doc ?all c P) (combinator v c base name m)"
      using walk_plain_ok [OF m D] by (simp add: answers_def combinator_def combined_def Let_def)
    then show ?thesis by (intro exI [of _ F]) auto
  next
    case 3
    let ?F = "insert (name, ?d, found_from ?doc ?all ?d P) F"
    have "answers ?doc (\<lambda>_. True) ?F (combined ?doc ?all c P) (combinator v c base name m)"
      unfolding answers_def
    proof (intro allI impI)
      fix e s
      assume s: "good ?doc ?F s"
      let ?s = "s\<lparr>cells := cells s @ [False]\<rparr>"
      have f: "facts_ok ?F s" using s by (simp add: good_def)
      have "facts_ok F ?s"
        using f by (fastforce simp: facts_ok_def nth_append)
      then have "good ?doc F ?s"
        using s by (simp add: good_def slots_old_def child_slots_old_def child_caches_ok_def)
      moreover have "c' < length (cells s)" if "slots s (n, d') = Some (dirruns s, nm, c')" for n d' nm c'
        using facts_okD(1) [OF f that] .
      moreover have "cells s ! c' = found_from ?doc ?all ?d P n" if "slots s (n, ?d) = Some (dirruns s, name, c')" for n c'
        using facts_okD(2) [OF f that] by blast
      ultimately have w: "walking ?doc ?all ?d name (length (cells s)) F P {} (found_beyond ?doc ?all ?d P e) (depth e) ?s"
        by (fastforce simp: walking_def nth_append)
      have eq: "combinator v c base name m e s = walk_cached ?doc ?all ?d (dirruns ?s) name (length (cells s)) m e ?s"
        using 3 by (simp add: combinator_def Let_def)
      have "frame (length (cells s)) (fst ` ?F) s ?s" by (simp add: frame_def nth_append)
      with walk_cached_ok [OF m nm D w] 3 show "fst (combinator v c base name m e s) = combined ?doc ?all c P e
        \<and> good ?doc ?F (snd (combinator v c base name m e s))
        \<and> frame (length (cells s)) (fst ` ?F) s (snd (combinator v c base name m e s))"
        unfolding eq by (auto simp: combined_def intro: frame_trans)
    qed
    then show ?thesis by (intro exI [of _ ?F]) auto
  qed
qed


section \<open>The compiled functions answer what selectors mean\<close>

definition simple_ok :: "bool \<Rightarrow> simple \<Rightarrow> bool" where
  "simple_ok xml f = (case f of ChildF c \<Rightarrow> child_filter_ok xml c | _ \<Rightarrow> True)"

fun token_ok :: "bool \<Rightarrow> token \<Rightarrow> bool" where
  "token_ok xml (Rel c) = True"
| "token_ok xml (Filt f) = simple_ok xml f"

lemma element_exists: "is_element doc e \<Longrightarrow> node_at doc e \<noteq> None"
  by (auto simp: is_element_def node_type_of_def split: option.splits)

lemma run_filter_ok:
  assumes f: "simple_ok (env_xml v) f"
  shows "answers (env_doc v) (is_element (env_doc v)) {} (filter_holds v f) (run_filter v f)"
  unfolding answers_def
proof (intro allI impI)
  fix e s
  assume e: "is_element (env_doc v) e" and s: "good (env_doc v) {} s"
  show "fst (run_filter v f e s) = filter_holds v f e \<and> good (env_doc v) {} (snd (run_filter v f e s))
    \<and> frame (length (cells s)) (fst ` {}) s (snd (run_filter v f e s))"
  proof (cases "\<exists>c. f = ChildF c")
    case True
    then obtain c where c: "f = ChildF c" by blast
    have "\<exists>s'. run_child (env_doc v) (env_xml v) c e s = (child_spec (env_doc v) c e, s')
        \<and> child_caches_ok (env_doc v) s' \<and> children_only s s'"
      by (rule run_child_ok) (use s e f c element_exists in \<open>auto simp: good_def simple_ok_def\<close>)
    then obtain s' where r: "run_child (env_doc v) (env_xml v) c e s = (child_spec (env_doc v) c e, s')"
      "child_caches_ok (env_doc v) s'" "children_only s s'"
      by (elim exE conjE)
    have "child_slots_old (dirruns s) s'"
      using run_child_old [of s "env_doc v" "env_xml v" c e] s r(1) by (simp add: good_def slots_old_def)
    moreover obtain f' g' where s': "s' = s\<lparr>nth_slot := f', last_slot := g'\<rparr>" using r(3) by (auto simp: children_only_def)
    ultimately have "slots_old s'" using s unfolding good_def slots_old_def by simp
    moreover have "facts_ok {} s'" using s s' by (simp add: good_def facts_ok_def)
    moreover have "frame (length (cells s)) {} s s'" using s' by (simp add: frame_def)
    ultimately show ?thesis
      using r by (simp add: run_filter_def filter_holds_def c good_def)
  next
    case False
    with s show ?thesis by (auto simp: run_filter_def filter_holds_def split: simple.split)
  qed
qed

lemma foundation_ok:
  "\<exists>F. fst ` F \<subseteq> {n1, n2} \<and> answers (env_doc v) (\<lambda>_. True) F (reached v leading) (foundation v leading n1 n2)"
proof (cases "leading = None \<and> (env_xml v \<or> env_outermost v \<noteq> Outermost (env_context v))")
  case True
  then have "foundation v leading n1 n2 = (\<lambda>e s. (True, s))" "reached v leading = (\<lambda>e. True)"
    by (auto simp: foundation_def reached_def fun_eq_iff)
  then show ?thesis using answers_pure [of "env_doc v" "\<lambda>_. True" "{}" "\<lambda>e. True"] by (intro exI [of _ "{}"]) simp
next
  case False
  define c where "c = (case leading of None \<Rightarrow> Descendant | Some c \<Rightarrow> c)"
  have r: "reached v leading e = (\<exists>m \<in> context_nodes v. from_context (env_doc v) c m e)" for e
    using False by (auto simp: reached_def c_def split: option.split)
  have walk: "\<exists>F. fst ` F \<subseteq> {n} \<and> answers (env_doc v) (\<lambda>_. True) F (reached v leading) (combinator v c True n (\<lambda>m s. (m \<in> X, s)))"
    if X: "X = context_nodes v" for n X
  proof -
    obtain F where "fst ` F \<subseteq> {n}"
      "answers (env_doc v) (\<lambda>_. True) F (combined (env_doc v) (comb_dir c = ParentNode) c (\<lambda>m. m \<in> X)) (combinator v c True n (\<lambda>m s. (m \<in> X, s)))"
      using combinator_ok [OF answers_pure [of "env_doc v" "\<lambda>_. True" "{}" "\<lambda>m. m \<in> X"], of n True c] by auto
    then show ?thesis unfolding combined_context X r [abs_def, symmetric] by blast
  qed
  show ?thesis
  proof (cases "env_context v")
    case (ContextNode x)
    then have "foundation v leading n1 n2 = combinator v c True n1 (\<lambda>m s. (m \<in> {x}, s))"
      using False by (auto simp: foundation_def c_def Let_def fun_eq_iff)
    with walk [of "{x}" n1] ContextNode show ?thesis by (auto simp: context_nodes_def)
  next
    case (ContextNodes xs)
    then have "foundation v leading n1 n2 = combinator v c True n2 (\<lambda>m s. (m \<in> set xs, s))"
      using False by (auto simp: foundation_def c_def Let_def fun_eq_iff)
    with walk [of "set xs" n2] ContextNodes show ?thesis by (auto simp: context_nodes_def)
  qed
qed

lemma every_filters:
  "\<forall>f \<in> set fs. simple_ok (env_xml v) f
    \<Longrightarrow> answers (env_doc v) (is_element (env_doc v)) {} (\<lambda>e. \<forall>f \<in> set fs. filter_holds v f e) (run_every v (map Filter fs))"
proof (induction fs)
  case Nil
  then show ?case using answers_pure [of "env_doc v" "is_element (env_doc v)" "{}" "\<lambda>e. True"] by simp
next
  case (Cons f fs)
  then have "answers (env_doc v) (is_element (env_doc v)) {} (\<lambda>e. \<forall>f \<in> set fs. filter_holds v f e) (run_every v (map Filter fs))"
    "answers (env_doc v) (is_element (env_doc v)) {} (filter_holds v f) (run v (Filter f))"
    using run_filter_ok [of v f] by simp_all
  from answers_both [OF this] show ?case by simp
qed

lemma elementMatcher_ok:
  assumes m: "answers (env_doc v) (is_element (env_doc v)) F P (run v m)" and fs: "\<forall>f \<in> set fs. simple_ok (env_xml v) f"
  shows "answers (env_doc v) (is_element (env_doc v)) F (\<lambda>e. P e \<and> (\<forall>f \<in> set fs. filter_holds v f e))
    (run v (elementMatcher (m # map Filter fs)))"
proof (cases fs)
  case Nil
  with m show ?thesis by (simp add: elementMatcher_def)
next
  case (Cons f gs)
  then have "run v (elementMatcher (m # map Filter fs)) = run_every v (m # map Filter fs)"
    by (simp add: elementMatcher_def)
  with answers_both [OF every_filters [OF fs] m] show ?thesis by simp
qed

lemma build_ok:
  assumes ok: "dom_ok (env_doc v)" and ts: "\<forall>t \<in> set ts. token_ok (env_xml v) t" "\<forall>f \<in> set fs. simple_ok (env_xml v) f"
    and F: "fst ` F \<subseteq> {a..<k}" "a \<le> k"
    and m: "answers (env_doc v) (is_element (env_doc v)) F P (run v m)"
    and P: "\<And>e. is_element (env_doc v) e \<Longrightarrow> (P e \<and> (\<forall>f \<in> set fs. filter_holds v f e)) = satisfies v leading rts e"
  shows "\<exists>F'. k \<le> snd (build (m # map Filter fs) k ts) \<and> fst ` F' \<subseteq> {a..<snd (build (m # map Filter fs) k ts)}
    \<and> answers (env_doc v) (is_element (env_doc v)) F' (satisfies v leading (rev ts @ rts)) (run v (fst (build (m # map Filter fs) k ts)))"
  using ts F m P
proof (induction ts arbitrary: m fs F P k rts)
  case Nil
  have "answers (env_doc v) (is_element (env_doc v)) F (satisfies v leading rts) (run v (elementMatcher (m # map Filter fs)))"
    by (rule answers_cong [OF elementMatcher_ok [OF Nil.prems(5,2)]]) (use Nil.prems(6) in blast)
  with Nil.prems(3) show ?case by auto
next
  case (Cons t ts)
  show ?case
  proof (cases t)
    case (Filt f)
    have "\<forall>t \<in> set ts. token_ok (env_xml v) t" "\<forall>g \<in> set (fs @ [f]). simple_ok (env_xml v) g" using Cons.prems(1,2) Filt by auto
    moreover have "(P e \<and> (\<forall>g \<in> set (fs @ [f]). filter_holds v g e)) = satisfies v leading (Filt f # rts) e"
      if "is_element (env_doc v) e" for e
      using Cons.prems(6) [OF that] by auto
    ultimately show ?thesis
      using Cons.IH [OF _ _ Cons.prems(3,4,5), of "fs @ [f]" "Filt f # rts"] Filt by simp
  next
    case (Rel c)
    have e: "answers (env_doc v) (is_element (env_doc v)) F (satisfies v leading rts) (run v (elementMatcher (m # map Filter fs)))"
      by (rule answers_cong [OF elementMatcher_ok [OF Cons.prems(5,2)]]) (use Cons.prems(6) in blast)
    have "k \<notin> fst ` F" using Cons.prems(3) by auto
    from combinator_ok [OF e this, of False c] obtain F' where F': "fst ` F' \<subseteq> insert k (fst ` F)"
      and c: "answers (env_doc v) (\<lambda>_. True) F' (combined (env_doc v) False c (satisfies v leading rts))
        (combinator v c False k (run v (elementMatcher (m # map Filter fs))))"
      by auto
    let ?m = "Combine c k (elementMatcher (m # map Filter fs))"
    have "answers (env_doc v) (is_element (env_doc v)) F' (satisfies v leading (Rel c # rts)) (run v ?m)"
      unfolding run.simps
      by (rule answers_cong [OF c]) (use combined_related [OF ok] element_exists in auto)
    moreover have "fst ` F' \<subseteq> {a..<k + 1}" using F' Cons.prems(3,4) by fastforce
    moreover have "\<forall>t \<in> set ts. token_ok (env_xml v) t" using Cons.prems(1) by simp
    ultimately have "\<exists>F''. k + 1 \<le> snd (build (?m # map Filter []) (k + 1) ts)
      \<and> fst ` F'' \<subseteq> {a..<snd (build (?m # map Filter []) (k + 1) ts)}
      \<and> answers (env_doc v) (is_element (env_doc v)) F'' (satisfies v leading (rev ts @ Rel c # rts))
          (run v (fst (build (?m # map Filter []) (k + 1) ts)))"
      using Cons.prems(4)
      by (intro Cons.IH [where P = "satisfies v leading (Rel c # rts)" and F = F']) (simp_all add: le_SucI del: satisfies.simps)
    with Rel show ?thesis by auto
  qed
qed


lemma matcherFromTokens_ok:
  assumes ok: "dom_ok (env_doc v)" and ts: "\<forall>t \<in> set ts. token_ok (env_xml v) t"
  shows "\<exists>F. k \<le> snd (matcherFromTokens ts k) \<and> fst ` F \<subseteq> {k..<snd (matcherFromTokens ts k)}
    \<and> answers (env_doc v) (is_element (env_doc v)) F (selects v ts) (run v (fst (matcherFromTokens ts k)))"
proof -
  obtain F where F: "fst ` F \<subseteq> {k, k + 1}"
    and a: "answers (env_doc v) (\<lambda>_. True) F (reached v (leading_comb ts)) (foundation v (leading_comb ts) k (k + 1))"
    using foundation_ok [of k "k + 1" v "leading_comb ts"] by auto
  have "\<forall>t \<in> set (after_leading ts). token_ok (env_xml v) t"
    using ts by (cases ts) (auto simp: after_leading_def)
  moreover have "answers (env_doc v) (is_element (env_doc v)) F (reached v (leading_comb ts)) (run v (Foundation (leading_comb ts) k (k + 1)))"
    unfolding run.simps by (rule answers_cong [OF a]) simp
  moreover have "fst ` F \<subseteq> {k..<k + 2}" using F by auto
  ultimately have "\<exists>F'. k + 2 \<le> snd (build (Foundation (leading_comb ts) k (k + 1) # map Filter []) (k + 2) (after_leading ts))
      \<and> fst ` F' \<subseteq> {k..<snd (build (Foundation (leading_comb ts) k (k + 1) # map Filter []) (k + 2) (after_leading ts))}
      \<and> answers (env_doc v) (is_element (env_doc v)) F' (satisfies v (leading_comb ts) (rev (after_leading ts) @ []))
          (run v (fst (build (Foundation (leading_comb ts) k (k + 1) # map Filter []) (k + 2) (after_leading ts))))"
    by (intro build_ok [OF ok, where P = "reached v (leading_comb ts)" and F = F]) simp_all
  moreover have "satisfies v (leading_comb ts) (rev (after_leading ts) @ []) = selects v ts"
    by (simp add: selects_def fun_eq_iff)
  ultimately show ?thesis by (auto simp: matcherFromTokens_def)
qed

text \<open>The matchers of a list answer for the predicates of another, with facts that do not meet.\<close>

definition answer_all :: "env \<Rightarrow> fact set \<Rightarrow> matcher list \<Rightarrow> (node \<Rightarrow> bool) list \<Rightarrow> bool" where
  "answer_all v U ms Ps \<longleftrightarrow> list_all2 (\<lambda>m P. \<exists>F \<subseteq> U. (\<forall>x \<in> U. fst x \<in> fst ` F \<longrightarrow> x \<in> F)
     \<and> answers (env_doc v) (is_element (env_doc v)) F P (run v m)) ms Ps"

lemma answer_all_more:
  "answer_all v U ms Ps \<Longrightarrow> fst ` U \<inter> fst ` W = {} \<Longrightarrow> answer_all v (U \<union> W) ms Ps"
  unfolding answer_all_def
proof (erule list_all2_mono)
  fix m P
  assume dis: "fst ` U \<inter> fst ` W = {}"
    and "\<exists>F \<subseteq> U. (\<forall>x \<in> U. fst x \<in> fst ` F \<longrightarrow> x \<in> F) \<and> answers (env_doc v) (is_element (env_doc v)) F P (run v m)"
  then obtain F where F: "F \<subseteq> U" "\<forall>x \<in> U. fst x \<in> fst ` F \<longrightarrow> x \<in> F" "answers (env_doc v) (is_element (env_doc v)) F P (run v m)"
    by blast
  have "x \<in> F" if "x \<in> W" "fst x \<in> fst ` F" for x using that dis F(1) by blast
  with F show "\<exists>F \<subseteq> U \<union> W. (\<forall>x \<in> U \<union> W. fst x \<in> fst ` F \<longrightarrow> x \<in> F) \<and> answers (env_doc v) (is_element (env_doc v)) F P (run v m)"
    by (intro exI [of _ F]) blast
qed

lemma compile_groups_ok:
  assumes ok: "dom_ok (env_doc v)" and gs: "\<forall>g \<in> set gs. \<forall>t \<in> set g. token_ok (env_xml v) t"
  shows "\<exists>U. k \<le> snd (compile_groups gs k) \<and> fst ` U \<subseteq> {k..<snd (compile_groups gs k)}
    \<and> answer_all v U (fst (compile_groups gs k)) (map (selects v) gs)"
  using gs
proof (induction gs arbitrary: k)
  case Nil
  then show ?case by (intro exI [of _ "{}"]) (simp add: answer_all_def)
next
  case (Cons g gs)
  define k1 where "k1 = snd (matcherFromTokens g k)"
  obtain F where F: "k \<le> k1" "fst ` F \<subseteq> {k..<k1}"
    "answers (env_doc v) (is_element (env_doc v)) F (selects v g) (run v (fst (matcherFromTokens g k)))"
    using matcherFromTokens_ok [OF ok, of g k] Cons.prems by (auto simp: k1_def)
  obtain U where U: "k1 \<le> snd (compile_groups gs k1)" "fst ` U \<subseteq> {k1..<snd (compile_groups gs k1)}"
    "answer_all v U (fst (compile_groups gs k1)) (map (selects v) gs)"
    using Cons.IH [of k1] Cons.prems by auto
  have "fst ` U \<inter> fst ` F = {}" using F(2) U(2) by fastforce
  then have "\<forall>x \<in> U \<union> F. fst x \<in> fst ` F \<longrightarrow> x \<in> F" by blast
  with answer_all_more [OF U(3) \<open>fst ` U \<inter> fst ` F = {}\<close>] F(3)
  have "answer_all v (U \<union> F) (fst (matcherFromTokens g k) # fst (compile_groups gs k1)) (map (selects v) (g # gs))"
    unfolding answer_all_def by auto
  moreover have "compile_groups (g # gs) k = (fst (matcherFromTokens g k) # fst (compile_groups gs k1), snd (compile_groups gs k1))"
    by (simp add: split_beta k1_def Let_def)
  moreover have "fst ` (U \<union> F) \<subseteq> {k..<snd (compile_groups gs k1)}" using F(1,2) U(1,2) by fastforce
  ultimately show ?case using F(1) U(1) by (intro exI [of _ "U \<union> F"]) simp
qed

lemma first_match_ok:
  assumes "answer_all v U ms Ps" and "is_element (env_doc v) e" and "good (env_doc v) U s"
  shows "fst (first_match v ms e s) = (\<exists>P \<in> set Ps. P e) \<and> good (env_doc v) U (snd (first_match v ms e s))
    \<and> dirruns (snd (first_match v ms e s)) = dirruns s"
  using assms(1,3)
proof (induction ms arbitrary: Ps s)
  case Nil
  then show ?case by (simp add: answer_all_def)
next
  case (Cons m ms)
  from Cons.prems(1) obtain P Qs F where Ps: "Ps = P # Qs" and rest: "answer_all v U ms Qs"
    and F: "F \<subseteq> U" "\<forall>x \<in> U. fst x \<in> fst ` F \<longrightarrow> x \<in> F" "answers (env_doc v) (is_element (env_doc v)) F P (run v m)"
    by (auto simp: answer_all_def list_all2_Cons1)
  have "fst (run v m e s) = P e \<and> good (env_doc v) U (snd (run v m e s)) \<and> frame (length (cells s)) (fst ` F) s (snd (run v m e s))"
    by (rule answers_within [OF F(3) assms(2) Cons.prems(2) F(1)]) (use F(2) in blast)
  with Cons.IH [OF rest, of "snd (run v m e s)"] Ps show ?case
    by (auto simp: frame_def split_beta)
qed

lemma each_element_ok:
  assumes "answer_all v U ms Ps" and "\<forall>e \<in> set es. is_element (env_doc v) e" and "good (env_doc v) U s"
  shows "fst (each_element v ms es s) = filter (\<lambda>e. \<exists>P \<in> set Ps. P e) es
    \<and> slots_old (snd (each_element v ms es s))"
  using assms(2,3)
proof (induction es arbitrary: s)
  case Nil
  then show ?case by (simp add: good_def)
next
  case (Cons e es)
  with first_match_ok [OF assms(1), of e s] Cons.IH [of "snd (first_match v ms e s)"] show ?case
    by (simp add: split_beta)
qed

lemma new_run_good: "slots_old s \<Longrightarrow> good doc F (s\<lparr>dirruns := dirruns s + 1\<rparr>)"
proof -
  assume old: "slots_old s"
  let ?s = "s\<lparr>dirruns := dirruns s + 1\<rparr>"
  have le: "r \<le> dirruns s" if "slots s x = Some (r, nm, c)" for x r nm c
    using old that unfolding slots_old_def by blast
  then have "slots s x \<noteq> Some (Suc (dirruns s), nm, c)" for x nm c by (metis not_less_eq_eq order_refl)
  then have "facts_ok F ?s" by (simp add: facts_ok_def)
  moreover have c: "child_slots_old (dirruns s) ?s" using old by (simp add: slots_old_def child_slots_old_def)
  then have "child_caches_ok doc ?s" by (rule new_run_ok) simp
  moreover have "child_slots_old (Suc (dirruns s)) ?s" using c unfolding child_slots_old_def by (meson le_SucI)
  ultimately show ?thesis using le by (auto simp: good_def slots_old_def intro: le_SucI simp del: split_paired_All)
qed


text \<open>
  Selections one after the other: each compiles its selector and runs the result, on a document that may
  have changed since the last; the entries on the nodes stay.
\<close>

fun selections :: "(token list list \<times> call) list \<Rightarrow> nat \<Rightarrow> caches \<Rightarrow> node list list" where
  "selections [] k s = []"
| "selections ((gs, q) # qs) k s =
     (let (ms, k) = compile gs k; (es, s) = superMatcher ms q s in es # selections qs k s)"

definition selection_ok :: "token list list \<times> call \<Rightarrow> bool" where
  "selection_ok x = (case x of (gs, q) \<Rightarrow>
     dom_ok (call_doc q) \<and> (\<forall>g \<in> set gs. g \<noteq> [] \<and> (\<forall>t \<in> set g. token_ok (call_xml q) t)) \<and> (\<forall>e \<in> set (call_elems q). is_element (call_doc q) e))"

lemma superMatcher_ok:
  assumes q: "selection_ok (gs, q)" and s: "slots_old s"
  shows "fst (superMatcher (fst (compile gs k)) q s) = filter (\<lambda>e. \<exists>g \<in> set gs. selects (call_env q) g e) (call_elems q)
    \<and> slots_old (snd (superMatcher (fst (compile gs k)) q s))"
proof -
  have doc: "env_doc (call_env q) = call_doc q" "env_xml (call_env q) = call_xml q" by (simp_all add: call_env_def)
  obtain U where "answer_all (call_env q) U (fst (compile gs k)) (map (selects (call_env q)) (rev gs))"
    using compile_groups_ok [of "call_env q" "rev gs" k] q by (auto simp: selection_ok_def doc compile_def)
  from each_element_ok [OF this _ new_run_good [OF s], of "call_elems q"] q show ?thesis
    by (simp add: superMatcher_def selection_ok_def doc)
qed

text \<open>C8: selecting is right whatever the caches hold. In every sequence of selections, each with its selector,
  context and document, exactly those elements are selected, in their order, that one of the groups of the
  selector selects, read from right to left as the standard has it: the filters hold, and for every
  combinator there is an element in its relation that the rest selects; the first compound must be reached
  from the context. Left out is \<open>:nth-last-child\<close> in documents that are not XML. No entry that an earlier walk left on a node, in this run or a former one, is ever taken for another.\<close>

theorem selections_correct:
  assumes "\<forall>x \<in> set qs. selection_ok x" and "slots_old s"
  shows "selections qs k s
    = map (\<lambda>(gs, q). filter (\<lambda>e. \<exists>g \<in> set gs. selects (call_env q) g e) (call_elems q)) qs"
  using assms
proof (induction qs arbitrary: k s)
  case (Cons x qs)
  obtain gs q where x: "x = (gs, q)" by (cases x)
  from Cons superMatcher_ok [of gs q s k] show ?case by (simp add: x split_beta)
qed simp

definition sample_page :: dom where
  "sample_page = Node 9 ''#document'' [] [Node 1 ''DIV'' [(''class'', ''a b'')]
     [Node 1 ''P'' [] [], Node 3 ''#text'' [] [], Node 1 ''DIV'' [] [Node 1 ''P'' [(''id'', ''x'')] []], Node 1 ''P'' [] []]]"

definition sample_call :: "ctx \<Rightarrow> call" where
  "sample_call c = \<lparr>call_doc = sample_page, call_xml = False, call_pseudo = (\<lambda>_ _. False), call_context = Some c,
     call_outermost = Some (Outermost c), call_elems = [[0], [0, 0], [2, 0], [0, 2, 0], [3, 0]]\<rparr>"

text \<open>\<open>.b div > p, div ~ p\<close> in the document, \<open>> p:nth-child(2n+1)\<close> and \<open>div p\<close> in the first division.\<close>

theorem selections_correct_witness:
  "let a = ([[Filt (Class ''b''), Rel Descendant, Filt (Tag ''div''), Rel ChildOf, Filt (Tag ''p'')],
             [Filt (Tag ''div''), Rel Follows, Filt (Tag ''p'')]], sample_call (ContextNode []));
       b = ([[Rel ChildOf, Filt (Tag ''p''), Filt (ChildF (Child Nth False (Some (2, 1))))]], sample_call (ContextNode [0]));
       c = ([[Filt (Tag ''div''), Rel Descendant, Filt (Tag ''p'')]], sample_call (ContextNode [0]))
   in map (\<lambda>(gs, q). filter (\<lambda>e. \<exists>g \<in> set gs. selects (call_env q) g e) (call_elems q)) [a, b, c]
      = [[[0, 2, 0], [3, 0]], [[0, 0], [3, 0]], [[0, 2, 0]]]"
proof -
  let ?a = "([[Filt (Class ''b''), Rel Descendant, Filt (Tag ''div''), Rel ChildOf, Filt (Tag ''p'')],
     [Filt (Tag ''div''), Rel Follows, Filt (Tag ''p'')]], sample_call (ContextNode []))"
  let ?b = "([[Rel ChildOf, Filt (Tag ''p''), Filt (ChildF (Child Nth False (Some (2, 1))))]], sample_call (ContextNode [0]))"
  let ?c = "([[Filt (Tag ''div''), Rel Descendant, Filt (Tag ''p'')]], sample_call (ContextNode [0]))"
  have run: "selections [?a, ?b, ?c] 0 no_caches = [[[0, 2, 0], [3, 0]], [[0, 0], [3, 0]], [[0, 2, 0]]]"
    by code_simp
  have "\<forall>x \<in> set [?a, ?b, ?c]. selection_ok x"
    by code_simp
  moreover have "slots_old no_caches" by (simp add: slots_old_def child_slots_old_def no_caches_def)
  ultimately show ?thesis using selections_correct [of "[?a, ?b, ?c]" no_caches 0] run by (simp only: Let_def)
qed

text \<open>
  With \<open>:nth-last-child\<close> the wrong positions show: in a list of the elements \<open>li li p li\<close> the selector
  \<open>li:nth-last-child(4) ~ p\<close> selects nothing, although the first element is the fourth from the end; without the cache,
  as in XML, it selects the paragraph.
\<close>

lemma nth_last_selects_nothing:
  "let gs = [[Filt (Tag ''li''), Filt (ChildF (Child NthLast False (Some (0, 4)))), Rel Follows, Filt (Tag ''p'')]];
       q = \<lparr>call_doc = sample_list, call_xml = False, call_pseudo = (\<lambda>_ _. False), call_context = None,
            call_outermost = Some Anything, call_elems = [[0], [0, 0], [2, 0], [3, 0], [4, 0]]\<rparr>
   in selections [(gs, q)] 0 no_caches = [[]] \<and> selections [(gs, q\<lparr>call_xml := True\<rparr>)] 0 no_caches = [[[3, 0]]]"
  by code_simp

end
