(* ===== verification/JsDate.thy ===== *)
theory JsDate
  imports JsPrelude
begin

text \<open>
  The \<open>Date\<close> of the language, as far as the date picker uses it. A date is its time value, milliseconds since the
  beginning of 1970 in universal time; local time is ahead of it by \<open>tz\<close>, the same at all times: zones that
  change their offset are left out. The limits of time values, about 270000 years, are left out too.
\<close>

definition ms_per_day :: int where
  "ms_per_day = 86400000"

section \<open>Years and months\<close>

definition leap :: "int \<Rightarrow> bool" where
  "leap y \<longleftrightarrow> y mod 4 = 0 \<and> (y mod 100 \<noteq> 0 \<or> y mod 400 = 0)"

text \<open>The number of the first day of a year.\<close>

definition day_from_year :: "int \<Rightarrow> int" where
  "day_from_year y = 365 * (y - 1970) + (y - 1969) div 4 - (y - 1901) div 100 + (y - 1601) div 400"

text \<open>The year of a day: a guess by the mean length of a year is off by one at most.\<close>

definition year_from_day :: "int \<Rightarrow> int" where
  "year_from_day d =
     (let g = 1970 + (400 * d) div 146097
      in if d < day_from_year g then g - 1 else if day_from_year (g + 1) \<le> d then g + 1 else g)"

definition month_lengths :: "bool \<Rightarrow> int list" where
  "month_lengths l = [31, if l then 29 else 28, 31, 30, 31, 30, 31, 31, 30, 31, 30, 31]"

fun split_day :: "int list \<Rightarrow> int \<Rightarrow> int \<times> int" where
  "split_day [] d = (0, d)"
| "split_day (l # ls) d = (if d < l then (0, d) else case split_day ls (d - l) of (m, r) \<Rightarrow> (m + 1, r))"

text \<open>Month, from 0, and day of the month, from 1.\<close>

definition month_day :: "int \<Rightarrow> int \<times> int" where
  "month_day d =
     (case split_day (month_lengths (leap (year_from_day d))) (d - day_from_year (year_from_day d)) of
        (m, r) \<Rightarrow> (m, r + 1))"

definition month_start :: "bool \<Rightarrow> int \<Rightarrow> int" where
  "month_start l m = sum_list (take (nat m) (month_lengths l))"

text \<open>The day with a year, a month and a day of the month, all of which may be out of range.\<close>

definition make_day :: "int \<Rightarrow> int \<Rightarrow> int \<Rightarrow> int" where
  "make_day y m d =
     (let ym = y + m div 12
      in day_from_year ym + month_start (leap ym) (m mod 12) + d - 1)"

section \<open>The methods\<close>

definition local_day :: "int \<Rightarrow> int \<Rightarrow> int" where
  "local_day tz t = (t + tz) div ms_per_day"

definition time_in_day :: "int \<Rightarrow> int \<Rightarrow> int" where
  "time_in_day tz t = (t + tz) mod ms_per_day"

definition getFullYear :: "int \<Rightarrow> int \<Rightarrow> int" where
  "getFullYear tz t = year_from_day (local_day tz t)"

definition getMonth :: "int \<Rightarrow> int \<Rightarrow> int" where
  "getMonth tz t = fst (month_day (local_day tz t))"

definition getDate :: "int \<Rightarrow> int \<Rightarrow> int" where
  "getDate tz t = snd (month_day (local_day tz t))"

definition getDay :: "int \<Rightarrow> int \<Rightarrow> int" where
  "getDay tz t = (local_day tz t + 4) mod 7"

definition getHours :: "int \<Rightarrow> int \<Rightarrow> int" where
  "getHours tz t = time_in_day tz t div 3600000"

text \<open>\<open>new Date(y, m, d)\<close> takes years below 100 for years of the last century.\<close>

definition full_year :: "int \<Rightarrow> int" where
  "full_year y = (if 0 \<le> y \<and> y \<le> 99 then 1900 + y else y)"

definition new_Date :: "int \<Rightarrow> int \<Rightarrow> int \<Rightarrow> int \<Rightarrow> int" where
  "new_Date tz y m d = make_day (full_year y) m d * ms_per_day - tz"

definition setHours :: "int \<Rightarrow> int \<Rightarrow> int \<Rightarrow> int" where
  "setHours tz h t = local_day tz t * ms_per_day + h * 3600000 + time_in_day tz t mod 3600000 - tz"

definition setDate :: "int \<Rightarrow> int \<Rightarrow> int \<Rightarrow> int" where
  "setDate tz d t = make_day (getFullYear tz t) (getMonth tz t) d * ms_per_day + time_in_day tz t - tz"

definition setMonth :: "int \<Rightarrow> int \<Rightarrow> int \<Rightarrow> int" where
  "setMonth tz m t = make_day (getFullYear tz t) m (getDate tz t) * ms_per_day + time_in_day tz t - tz"

section \<open>The year of a day\<close>

lemma div_Suc:
  fixes a n :: int
  assumes "0 < n"
  shows "(a + 1) div n = a div n + (if (a + 1) mod n = 0 then 1 else 0)"
proof (cases "a mod n + 1 = n")
  case True
  have "a + 1 = a div n * n + (a mod n + 1)" by simp
  also have "\<dots> = (a div n + 1) * n" unfolding True by (simp add: algebra_simps)
  finally show ?thesis using assms by simp
next
  case False
  then have r: "0 < a mod n + 1" "a mod n + 1 < n"
    using pos_mod_bound [OF assms, of a] pos_mod_sign [OF assms, of a] by simp_all
  have sum: "a + 1 = n * (a div n) + (a mod n + 1)" by simp
  have "(a + 1) div n = a div n" by (rule int_div_pos_eq [OF sum]) (use r in simp_all)
  moreover have "(a + 1) mod n = a mod n + 1" by (rule int_mod_pos_eq [OF sum]) (use r in simp_all)
  ultimately show ?thesis using r by simp
qed

lemma mod_shift: "(y - k * n + 1 - 1) mod n = y mod n" for y k n :: int
  using mod_mult_self1 [of "y - k * n" k n] by simp

lemma day_from_year_Suc: "day_from_year (y + 1) = day_from_year y + (if leap y then 366 else 365)"
proof -
  have a: "(y + 1 - 1969) div 4 = (y - 1969) div 4 + (if y mod 4 = 0 then 1 else 0)"
    using div_Suc [of 4 "y - 1969"] mod_shift [of y 492 4] by simp
  have b: "(y + 1 - 1901) div 100 = (y - 1901) div 100 + (if y mod 100 = 0 then 1 else 0)"
    using div_Suc [of 100 "y - 1901"] mod_shift [of y 19 100] by simp
  have c: "(y + 1 - 1601) div 400 = (y - 1601) div 400 + (if y mod 400 = 0 then 1 else 0)"
    using div_Suc [of 400 "y - 1601"] mod_shift [of y 4 400] by simp
  have "y mod 400 = 0 \<Longrightarrow> y mod 100 = 0"
    unfolding mod_eq_0_iff_dvd by (rule dvd_trans [of 100 400]) simp
  moreover have "y mod 100 = 0 \<Longrightarrow> y mod 4 = 0"
    unfolding mod_eq_0_iff_dvd by (rule dvd_trans [of 4 100]) simp
  moreover have "day_from_year (y + 1) = day_from_year y + 365 + (if y mod 4 = 0 then 1 else 0)
      - (if y mod 100 = 0 then 1 else 0) + (if y mod 400 = 0 then 1 else 0)"
    unfolding day_from_year_def a b c by simp
  ultimately show ?thesis unfolding leap_def by (simp only: split: if_split) linarith
qed

lemma day_from_year_near:
  "146097 * (y - 1970) - 800 \<le> 400 * day_from_year y" "400 * day_from_year y \<le> 146097 * (y - 1970) + 800"
proof -
  define a b c where "a = (y - 1969) div 4" and "b = (y - 1901) div 100" and "c = (y - 1601) div 400"
  have "4 * a \<le> y - 1969" "y - 1969 < 4 * a + 4" "100 * b \<le> y - 1901" "y - 1901 < 100 * b + 100"
    "400 * c \<le> y - 1601" "y - 1601 < 400 * c + 400"
    by (simp_all add: a_def b_def c_def)
  moreover have "day_from_year y = 365 * (y - 1970) + a - b + c" by (simp add: day_from_year_def a_def b_def c_def)
  ultimately have "400 * day_from_year y = 146000 * (y - 1970) + 400 * a - 400 * b + 400 * c"
    "400 * a \<le> 100 * y - 196900" "100 * y - 196900 < 400 * a + 400" "400 * b \<le> 4 * y - 7604" "4 * y - 7604 < 400 * b + 400"
    "400 * c \<le> y - 1601" "y - 1601 < 400 * c + 400"
    by simp_all
  then show "146097 * (y - 1970) - 800 \<le> 400 * day_from_year y" "400 * day_from_year y \<le> 146097 * (y - 1970) + 800"
    by (simp_all add: algebra_simps)
qed

lemma year_from_day_bounds: "day_from_year (year_from_day d) \<le> d" "d < day_from_year (year_from_day d + 1)"
proof -
  define k where "k = (400 * d) div 146097"
  have k: "146097 * k \<le> 400 * d" "400 * d < 146097 * k + 146097"
    using div_mult_mod_eq [of "400 * d" 146097] pos_mod_bound [of 146097 "400 * d"] pos_mod_sign [of 146097 "400 * d"]
    by (simp_all add: k_def)
  have g: "400 * day_from_year (1970 + k) \<le> 146097 * k + 800" "146097 * k - 800 \<le> 400 * day_from_year (1970 + k)"
    using day_from_year_near [of "1970 + k"] by simp_all
  have "day_from_year (1970 + k - 1) \<le> d" "d < day_from_year (1970 + k + 2)"
    using day_from_year_near [of "1970 + k - 1"] day_from_year_near [of "1970 + k + 2"] k by simp_all
  then show "day_from_year (year_from_day d) \<le> d" "d < day_from_year (year_from_day d + 1)"
    by (auto simp: year_from_day_def Let_def k_def [symmetric] add.commute)
qed

lemma day_from_year_mono: "y \<le> y' \<Longrightarrow> day_from_year y \<le> day_from_year y'"
proof (induction y' rule: int_ge_induct)
  case (step i)
  then show ?case using day_from_year_Suc [of i] by (auto split: if_splits)
qed simp

lemma year_from_day_unique:
  assumes "day_from_year y \<le> d" and "d < day_from_year (y + 1)"
  shows "year_from_day d = y"
proof (rule ccontr)
  assume "year_from_day d \<noteq> y"
  then consider "year_from_day d + 1 \<le> y" | "y + 1 \<le> year_from_day d" by linarith
  then show False
    using day_from_year_mono [of "year_from_day d + 1" y] day_from_year_mono [of "y + 1" "year_from_day d"]
      year_from_day_bounds [of d] assms by cases linarith+
qed


section \<open>Month and day of the month\<close>

lemma split_day_make:
  assumes "k < length ls" and "0 \<le> r" and "r < ls ! k" and "list_all (\<lambda>l. 0 \<le> l) ls"
  shows "split_day ls (sum_list (take k ls) + r) = (int k, r)"
  using assms
proof (induction ls arbitrary: k)
  case (Cons l ls)
  show ?case
  proof (cases k)
    case (Suc j)
    have "0 \<le> sum_list (take j ls)"
      using Cons.prems(4) by (intro sum_list_nonneg) (auto simp: list_all_iff dest: in_set_takeD)
    with Cons Suc show ?thesis by simp
  qed (use Cons.prems in simp)
qed simp

lemma split_day_some:
  fixes ls :: "int list"
  assumes "list_all (\<lambda>l. 0 \<le> l) ls" and "0 \<le> d" and "d < sum_list ls"
  shows "\<exists>k < length ls. \<exists>r. 0 \<le> r \<and> r < ls ! k \<and> d = sum_list (take k ls) + r"
  using assms
proof (induction ls arbitrary: d)
  case (Cons l ls)
  show ?case
  proof (cases "d < l")
    case True
    with Cons.prems show ?thesis by (intro exI [of _ 0]) simp
  next
    case False
    then have "0 \<le> d - l" "d - l < sum_list ls" "list_all (\<lambda>l. 0 \<le> l) ls" using Cons.prems by simp_all
    from Cons.IH [OF this(3,1,2)] obtain k r
      where "k < length ls" "0 \<le> r" "r < ls ! k" "d - l = sum_list (take k ls) + r" by blast
    then show ?thesis by (intro exI [of _ "Suc k"] conjI exI [of _ r]) simp_all
  qed
qed simp

definition month_length :: "bool \<Rightarrow> int \<Rightarrow> int" where
  "month_length l m = month_lengths l ! nat m"

lemma month_lengths_ok: "list_all (\<lambda>l. 0 \<le> l) (month_lengths l)" "length (month_lengths l) = 12"
  "sum_list (month_lengths l) = (if l then 366 else 365)"
  by (simp_all add: month_lengths_def)

lemma month_length_bounds:
  assumes "0 \<le> m" and "m < 12"
  shows "28 \<le> month_length l m" and "month_length l m \<le> 31"
proof -
  have "nat m \<in> set [0..<12]" using assms by simp
  then have "28 \<le> month_length l m \<and> month_length l m \<le> 31"
    by (auto simp: month_length_def month_lengths_def upt_rec)
  then show "28 \<le> month_length l m" and "month_length l m \<le> 31" by simp_all
qed

lemma take_sum_le:
  fixes ls :: "int list"
  assumes "k < length ls" and "list_all (\<lambda>l. 0 \<le> l) ls"
  shows "sum_list (take k ls) + ls ! k \<le> sum_list ls" and "0 \<le> sum_list (take k ls)"
proof -
  have "sum_list ls = sum_list (take k ls) + (ls ! k + sum_list (drop (Suc k) ls))"
    using assms(1) by (metis append_take_drop_id Cons_nth_drop_Suc sum_list.Cons sum_list_append)
  moreover have "0 \<le> sum_list (drop (Suc k) ls)" "0 \<le> sum_list (take k ls)"
    using assms(2) by (auto intro!: sum_list_nonneg simp: list_all_iff dest: in_set_takeD in_set_dropD)
  ultimately show "sum_list (take k ls) + ls ! k \<le> sum_list ls" and "0 \<le> sum_list (take k ls)" by simp_all
qed

text \<open>A day that is made from a date in range has that date, and every day is made from its date.\<close>

lemma made_day:
  assumes "0 \<le> m" and "m < 12" and "1 \<le> d" and "d \<le> month_length (leap y) m"
  shows "year_from_day (make_day y m d) = y" and "month_day (make_day y m d) = (m, d)"
proof -
  let ?ls = "month_lengths (leap y)"
  have k: "nat m < length ?ls" using assms by (simp add: month_lengths_ok)
  have make: "make_day y m d = day_from_year y + (sum_list (take (nat m) ?ls) + (d - 1))"
    using assms by (simp add: make_day_def month_start_def)
  have "d \<le> ?ls ! nat m" using assms(4) by (simp add: month_length_def)
  with take_sum_le [OF k month_lengths_ok(1)] assms(3)
  have range: "0 \<le> sum_list (take (nat m) ?ls) + (d - 1)" "sum_list (take (nat m) ?ls) + (d - 1) < sum_list ?ls"
    by simp_all
  with make show y: "year_from_day (make_day y m d) = y"
    using day_from_year_Suc [of y] by (intro year_from_day_unique) (simp_all add: month_lengths_ok)
  have "split_day ?ls (sum_list (take (nat m) ?ls) + (d - 1)) = (int (nat m), d - 1)"
    using assms k by (intro split_day_make) (simp_all add: month_lengths_ok month_length_def)
  with y make assms(1) show "month_day (make_day y m d) = (m, d)" by (simp add: month_day_def)
qed

lemma month_day_range:
  obtains m d where "month_day D = (m, d)" and "0 \<le> m" and "m < 12" and "1 \<le> d"
    and "d \<le> month_length (leap (year_from_day D)) m" and "make_day (year_from_day D) m d = D"
proof -
  define y where "y = year_from_day D"
  let ?ls = "month_lengths (leap y)"
  have "0 \<le> D - day_from_year y" "D - day_from_year y < sum_list ?ls"
    using year_from_day_bounds [of D] day_from_year_Suc [of y] by (simp_all add: y_def month_lengths_ok)
  then obtain k r where k: "k < length ?ls" "0 \<le> r" "r < ?ls ! k" "D - day_from_year y = sum_list (take k ?ls) + r"
    using split_day_some month_lengths_ok(1) by blast
  have "split_day ?ls (D - day_from_year y) = (int k, r)"
    using k month_lengths_ok(1) by (simp add: split_day_make)
  then have "month_day D = (int k, r + 1)" by (simp add: month_day_def y_def [symmetric])
  moreover have "make_day y (int k) (r + 1) = D"
    using k by (simp add: make_day_def month_start_def month_lengths_ok)
  ultimately show ?thesis
    using k that [of "int k" "r + 1"] by (simp add: y_def [symmetric] month_length_def month_lengths_ok)
qed

section \<open>Dates at midnight\<close>

definition midnight :: "int \<Rightarrow> int \<Rightarrow> bool" where
  "midnight tz t \<longleftrightarrow> time_in_day tz t = 0"

lemma local_day_made [simp]: "local_day tz (D * ms_per_day - tz) = D"
  by (simp add: local_day_def ms_per_day_def)

lemma midnight_made [simp]: "midnight tz (D * ms_per_day - tz)"
  by (simp add: midnight_def time_in_day_def)

lemma midnight_time: "midnight tz t \<Longrightarrow> local_day tz t * ms_per_day - tz = t"
  by (simp add: midnight_def time_in_day_def local_day_def) (metis add_diff_cancel_right' minus_mod_eq_div_mult diff_zero)

text \<open>The fields of a date: its year, month and day are in range, and make it.\<close>

lemma date_fields:
  shows "0 \<le> getMonth tz t" and "getMonth tz t < 12" and "1 \<le> getDate tz t"
    and "getDate tz t \<le> month_length (leap (getFullYear tz t)) (getMonth tz t)"
    and "make_day (getFullYear tz t) (getMonth tz t) (getDate tz t) = local_day tz t"
  by (rule month_day_range [of "local_day tz t"], simp add: getMonth_def getDate_def getFullYear_def)+

lemma new_Date_day: "local_day tz (new_Date tz y m d) = make_day (full_year y) m d"
  by (simp add: new_Date_def)

lemma midnight_new_Date [simp]: "midnight tz (new_Date tz y m d)"
  by (simp add: new_Date_def)

lemma new_Date_fields:
  assumes "0 \<le> m" and "m < 12" and "1 \<le> d" and "d \<le> month_length (leap (full_year y)) m"
  shows "getFullYear tz (new_Date tz y m d) = full_year y" and "getMonth tz (new_Date tz y m d) = m"
    and "getDate tz (new_Date tz y m d) = d"
  using made_day [OF assms] by (simp_all add: getFullYear_def getMonth_def getDate_def new_Date_day)

lemma new_Date_same:
  assumes "midnight tz t" and "full_year (getFullYear tz t) = getFullYear tz t"
  shows "new_Date tz (getFullYear tz t) (getMonth tz t) (getDate tz t) = t"
  using assms(2) midnight_time [OF assms(1)] date_fields(5) [of tz t] by (simp add: new_Date_def)

lemma setHours_midnight: "midnight tz t \<Longrightarrow> setHours tz 0 t = t"
  using midnight_time [of tz t] by (simp add: setHours_def midnight_def)

lemma getHours_midnight [simp]: "midnight tz t \<Longrightarrow> getHours tz t = 0"
  by (simp add: getHours_def midnight_def)

end
