(* ===== verification/UiDate.thy ===== *)
theory UiDate
  imports JsDate "HOL-Library.Sublist"
begin

text \<open>
  The dates of the date picker (\<open>lib/jquery-ui.js\<close>): \<open>formatDate\<close>, \<open>parseDate\<close>, \<open>iso8601Week\<close>, \<open>_getDaysInMonth\<close> and
  \<open>_possibleChars\<close>. The offset of the time zone and the year of today are parameters. What \<open>parseDate\<close> throws is a string;
  it is a datatype here, with what the string tells.
\<close>

section \<open>Settings\<close>

record date_names =
  dayNamesShort :: "string list"
  dayNames :: "string list"
  monthNamesShort :: "string list"
  monthNames :: "string list"

definition default_names :: date_names where
  "default_names =
     \<lparr>dayNamesShort = [''Sun'', ''Mon'', ''Tue'', ''Wed'', ''Thu'', ''Fri'', ''Sat''],
      dayNames = [''Sunday'', ''Monday'', ''Tuesday'', ''Wednesday'', ''Thursday'', ''Friday'', ''Saturday''],
      monthNamesShort = [''Jan'', ''Feb'', ''Mar'', ''Apr'', ''May'', ''Jun'', ''Jul'', ''Aug'', ''Sep'', ''Oct'', ''Nov'', ''Dec''],
      monthNames = [''January'', ''February'', ''March'', ''April'', ''May'', ''June'', ''July'', ''August'', ''September'',
        ''October'', ''November'', ''December'']\<rparr>"

definition ticksTo1970 :: int where
  "ticksTo1970 = ((1970 - 1) * 365 + 1970 div 4 - 1970 div 100 + 1970 div 400) * 24 * 60 * 60 * 10000000"

definition show_int :: "int \<Rightarrow> string" where
  "show_int i = (if i < 0 then CHR ''-'' # show_nat (nat (- i)) else show_nat (nat i))"

text \<open>The operator \<open>%\<close>, whose result has the sign of the dividend.\<close>

definition js_rem :: "int \<Rightarrow> int \<Rightarrow> int" where
  "js_rem a b = (if a < 0 then - ((- a) mod b) else a mod b)"

section \<open>Formats\<close>

text \<open>
  The loops of \<open>formatDate\<close> and \<open>parseDate\<close> read a format in the same way: a letter, and with \<open>lookAhead\<close> whether it is
  doubled; after a quote literal text up to the next one, two quotes being one. They differ in \<open>@\<close> and \<open>!\<close>, after which
  only \<open>parseDate\<close> looks ahead; this is the first argument.
\<close>

datatype directive =
    DayNumber bool | DayName bool | DayOfYear bool | MonthNumber bool | MonthName bool | Year bool
  | Timestamp | Ticks | Literal char

definition lookAhead :: "char \<Rightarrow> string \<Rightarrow> bool \<times> string" where
  "lookAhead c f = (case f of [] \<Rightarrow> (False, f) | x # f' \<Rightarrow> if x = c then (True, f') else (False, f))"

lemma length_lookAhead: "(b, f') = lookAhead c f \<Longrightarrow> length f' < Suc (length f)"
  by (auto simp: lookAhead_def split: list.splits if_splits)

lemma length_snd_lookAhead: "length (snd (lookAhead c f)) < Suc (length f)"
  by (auto simp: lookAhead_def split: list.splits)

function directives :: "bool \<Rightarrow> bool \<Rightarrow> string \<Rightarrow> directive list" where
  "directives ahead literal [] = []"
| "directives ahead literal (c # f) =
     (if literal then
        (if c = squote then
           (let f' = snd (lookAhead squote f)
            in if fst (lookAhead squote f) then Literal squote # directives ahead True f' else directives ahead False f')
         else Literal c # directives ahead True f)
      else if c = CHR ''d'' then (case lookAhead c f of (b, f') \<Rightarrow> DayNumber b # directives ahead False f')
      else if c = CHR ''D'' then (case lookAhead c f of (b, f') \<Rightarrow> DayName b # directives ahead False f')
      else if c = CHR ''o'' then (case lookAhead c f of (b, f') \<Rightarrow> DayOfYear b # directives ahead False f')
      else if c = CHR ''m'' then (case lookAhead c f of (b, f') \<Rightarrow> MonthNumber b # directives ahead False f')
      else if c = CHR ''M'' then (case lookAhead c f of (b, f') \<Rightarrow> MonthName b # directives ahead False f')
      else if c = CHR ''y'' then (case lookAhead c f of (b, f') \<Rightarrow> Year b # directives ahead False f')
      else if c = CHR ''@'' then
        (if ahead then (case lookAhead c f of (b, f') \<Rightarrow> Timestamp # directives ahead False f')
         else Timestamp # directives ahead False f)
      else if c = CHR ''!'' then
        (if ahead then (case lookAhead c f of (b, f') \<Rightarrow> Ticks # directives ahead False f')
         else Ticks # directives ahead False f)
      else if c = squote then
        (let f' = snd (lookAhead squote f)
         in if fst (lookAhead squote f) then Literal squote # directives ahead False f' else directives ahead True f')
      else Literal c # directives ahead False f)"
  by pat_completeness auto
termination
  by (relation "measure (\<lambda>(_, _, f). length f)") (auto dest: length_lookAhead simp: length_snd_lookAhead)

section \<open>\<open>formatDate\<close>\<close>

definition formatNumber :: "bool \<Rightarrow> int \<Rightarrow> nat \<Rightarrow> string" where
  "formatNumber doubled value len =
     (let num = show_int value in if doubled then replicate (len - length num) CHR ''0'' @ num else num)"

definition formatName :: "bool \<Rightarrow> int \<Rightarrow> string list \<Rightarrow> string list \<Rightarrow> string" where
  "formatName doubled value shortNames longNames =
     (let names = if doubled then longNames else shortNames
      in if nat value < length names then names ! nat value else ''undefined'')"

definition day_of_year :: "int \<Rightarrow> int \<Rightarrow> int" where
  "day_of_year tz t =
     (new_Date tz (getFullYear tz t) (getMonth tz t) (getDate tz t) - new_Date tz (getFullYear tz t) 0 0
      + ms_per_day div 2) div ms_per_day"

definition format_directive :: "date_names \<Rightarrow> int \<Rightarrow> int \<Rightarrow> directive \<Rightarrow> string" where
  "format_directive ns tz t d =
     (case d of
        DayNumber b \<Rightarrow> formatNumber b (getDate tz t) 2
      | DayName b \<Rightarrow> formatName b (getDay tz t) (dayNamesShort ns) (dayNames ns)
      | DayOfYear b \<Rightarrow> formatNumber b (day_of_year tz t) 3
      | MonthNumber b \<Rightarrow> formatNumber b (getMonth tz t + 1) 2
      | MonthName b \<Rightarrow> formatName b (getMonth tz t) (monthNamesShort ns) (monthNames ns)
      | Year b \<Rightarrow>
          if b then show_int (getFullYear tz t)
          else (let y = js_rem (getFullYear tz t) 100 in (if y < 10 then ''0'' else []) @ show_int y)
      | Timestamp \<Rightarrow> show_int t
      | Ticks \<Rightarrow> show_int (t * 10000 + ticksTo1970)
      | Literal c \<Rightarrow> [c])"

definition formatDate :: "date_names \<Rightarrow> int \<Rightarrow> string \<Rightarrow> int option \<Rightarrow> string" where
  "formatDate ns tz format date =
     (case date of
        None \<Rightarrow> []
      | Some t \<Rightarrow> concat (map (format_directive ns tz t) (directives False False format)))"

section \<open>\<open>parseDate\<close>\<close>

datatype parse_error =
    MissingNumber nat | UnknownName nat | UnexpectedLiteral nat | ExtraCharacters string | InvalidDate

type_synonym 'a parsed = "parse_error + 'a"

definition bindP :: "'a parsed \<Rightarrow> ('a \<Rightarrow> 'b parsed) \<Rightarrow> 'b parsed" where
  "bindP m f = (case m of Inl e \<Rightarrow> Inl e | Inr x \<Rightarrow> f x)"

lemma bindP_simps [simp]: "bindP (Inl e) f = Inl e" "bindP (Inr x) f = f x"
  by (simp_all add: bindP_def)

text \<open>The variables: \<open>iValue\<close>, what is left of the value from there, and the fields, which are \<open>-1\<close> until they are set.\<close>

record date_parse =
  iValue :: nat
  unread :: string
  year :: int
  month :: int
  day :: int
  doy :: int

definition consume :: "nat \<Rightarrow> date_parse \<Rightarrow> date_parse" where
  "consume n p = p\<lparr>iValue := iValue p + n, unread := drop n (unread p)\<rparr>"

definition getNumber :: "nat \<Rightarrow> nat \<Rightarrow> date_parse \<Rightarrow> (int \<times> date_parse) parsed" where
  "getNumber minSize maxSize p =
     (let ds = take maxSize (takeWhile is_digit (unread p))
      in if length ds < minSize then Inl (MissingNumber (iValue p))
         else Inr (int (read_nat ds), consume (length ds) p))"

definition getName :: "string list \<Rightarrow> date_parse \<Rightarrow> (int \<times> date_parse) parsed" where
  "getName names p =
     (case find (\<lambda>(k, name). lower (take (length name) (unread p)) = lower name)
         (sort_key (\<lambda>(k, name). - int (length name)) (enumerate 0 names)) of
        Some (k, name) \<Rightarrow> Inr (int k + 1, consume (length name) p)
      | None \<Rightarrow> Inl (UnknownName (iValue p)))"

definition checkLiteral :: "char \<Rightarrow> date_parse \<Rightarrow> date_parse parsed" where
  "checkLiteral c p =
     (case unread p of
        x # _ \<Rightarrow> if x = c then Inr (consume 1 p) else Inl (UnexpectedLiteral (iValue p))
      | [] \<Rightarrow> Inl (UnexpectedLiteral (iValue p)))"

definition take_date :: "int \<Rightarrow> int \<Rightarrow> date_parse \<Rightarrow> date_parse" where
  "take_date tz t p = p\<lparr>year := getFullYear tz t, month := getMonth tz t + 1, day := getDate tz t\<rparr>"

text \<open>The argument of \<open>new Date\<close> is truncated to an integer.\<close>

definition trunc_div :: "int \<Rightarrow> int \<Rightarrow> int" where
  "trunc_div a b = (if a < 0 then - ((- a) div b) else a div b)"

definition parse_directive :: "date_names \<Rightarrow> int \<Rightarrow> directive \<Rightarrow> date_parse \<Rightarrow> date_parse parsed" where
  "parse_directive ns tz d p =
     (case d of
        DayNumber b \<Rightarrow> bindP (getNumber 1 2 p) (\<lambda>(n, p). Inr (p\<lparr>day := n\<rparr>))
      | DayName b \<Rightarrow> bindP (getName (if b then dayNames ns else dayNamesShort ns) p) (\<lambda>(n, p). Inr p)
      | DayOfYear b \<Rightarrow> bindP (getNumber 1 3 p) (\<lambda>(n, p). Inr (p\<lparr>doy := n\<rparr>))
      | MonthNumber b \<Rightarrow> bindP (getNumber 1 2 p) (\<lambda>(n, p). Inr (p\<lparr>month := n\<rparr>))
      | MonthName b \<Rightarrow> bindP (getName (if b then monthNames ns else monthNamesShort ns) p) (\<lambda>(n, p). Inr (p\<lparr>month := n\<rparr>))
      | Year b \<Rightarrow> (let n = if b then 4 else 2 in bindP (getNumber n n p) (\<lambda>(n, p). Inr (p\<lparr>year := n\<rparr>)))
      | Timestamp \<Rightarrow> bindP (getNumber 1 14 p) (\<lambda>(n, p). Inr (take_date tz n p))
      | Ticks \<Rightarrow> bindP (getNumber 1 20 p) (\<lambda>(n, p). Inr (take_date tz (trunc_div (n - ticksTo1970) 10000) p))
      | Literal c \<Rightarrow> checkLiteral c p)"

fun parse_directives :: "date_names \<Rightarrow> int \<Rightarrow> directive list \<Rightarrow> date_parse \<Rightarrow> date_parse parsed" where
  "parse_directives ns tz [] p = Inr p"
| "parse_directives ns tz (d # ds) p = bindP (parse_directive ns tz d p) (parse_directives ns tz ds)"

definition daylightSavingAdjust :: "int \<Rightarrow> int \<Rightarrow> int" where
  "daylightSavingAdjust tz t = setHours tz (if getHours tz t > 12 then getHours tz t + 2 else 0) t"

definition getDaysInMonth :: "int \<Rightarrow> int \<Rightarrow> int \<Rightarrow> int" where
  "getDaysInMonth tz y m = 32 - getDate tz (daylightSavingAdjust tz (new_Date tz y m 32))"

definition getFirstDayOfMonth :: "int \<Rightarrow> int \<Rightarrow> int \<Rightarrow> int" where
  "getFirstDayOfMonth tz y m = getDay tz (new_Date tz y m 1)"

text \<open>The century of a short year.\<close>

definition resolve_year :: "int \<Rightarrow> int \<Rightarrow> int \<Rightarrow> int" where
  "resolve_year now cutoff y =
     (if y = - 1 then now
      else if y < 100 then y + (now - js_rem now 100) + (if y \<le> cutoff then 0 else - 100)
      else y)"


section \<open>The length of a month\<close>

lemma make_day_month: "make_day y m d = make_day (y + m div 12) (m mod 12) d"
  by (simp add: make_day_def)

lemma take_snoc_sum: "k < length ls \<Longrightarrow> sum_list (take (Suc k) ls) = sum_list (take k ls) + ls ! k" for ls :: "int list"
  by (simp add: take_Suc_conv_app_nth)

text \<open>Days after the last of a month belong to the next one.\<close>

lemma make_day_carry:
  assumes "0 \<le> m" and "m < 12"
  shows "make_day y m (month_length (leap y) m + d) = make_day y (m + 1) d"
proof -
  let ?ls = "month_lengths (leap y)"
  have sum: "sum_list (take (Suc (nat m)) ?ls) = sum_list (take (nat m) ?ls) + month_length (leap y) m"
    using assms by (simp add: take_snoc_sum month_lengths_ok month_length_def)
  have later: "Suc (nat m) = nat (m + 1)" using assms by simp
  show ?thesis
  proof (cases "m = 11")
    case True
    have "sum_list (take (Suc (nat m)) ?ls) = (if leap y then 366 else 365)"
      using True month_lengths_ok(2,3) [of "leap y"] by simp
    with sum True day_from_year_Suc [of y] show ?thesis
      by (simp add: make_day_def month_start_def)
  next
    case False
    with assms have "m div 12 = 0" "(m + 1) div 12 = 0" "m mod 12 = m" "(m + 1) mod 12 = m + 1" by simp_all
    with sum show ?thesis by (simp add: make_day_def month_start_def later)
  qed
qed

lemma getDaysInMonth_length:
  "getDaysInMonth tz y m = month_length (leap (full_year y + m div 12)) (m mod 12)"
proof -
  define y' m' L where "y' = full_year y + m div 12" and "m' = m mod 12" and "L = month_length (leap y') m'"
  have m': "0 \<le> m'" "m' < 12" by (simp_all add: m'_def)
  have L: "28 \<le> L" "L \<le> 31" using month_length_bounds [OF m'] by (simp_all add: L_def)
  have "make_day (full_year y) m 32 = make_day y' m' (L + (32 - L))"
    using make_day_month [of "full_year y" m 32] by (simp add: y'_def m'_def)
  also have "\<dots> = make_day y' (m' + 1) (32 - L)" using make_day_carry [OF m', of y' "32 - L"] by (simp add: L_def)
  also have "\<dots> = make_day (y' + (m' + 1) div 12) ((m' + 1) mod 12) (32 - L)" by (rule make_day_month)
  finally have "month_day (make_day (full_year y) m 32) = ((m' + 1) mod 12, 32 - L)"
    using L month_length_bounds(1) [of "(m' + 1) mod 12" "leap (y' + (m' + 1) div 12)"] by (simp add: made_day(2))
  then show ?thesis
    by (simp add: getDaysInMonth_def daylightSavingAdjust_def setHours_midnight getDate_def new_Date_day
        y'_def [symmetric] m'_def [symmetric] L_def [symmetric])
qed

lemma getDaysInMonth_bounds: "28 \<le> getDaysInMonth tz y m" "getDaysInMonth tz y m \<le> 31"
  by (simp_all add: getDaysInMonth_length month_length_bounds)

section \<open>The rest of \<open>parseDate\<close>\<close>

function doy_loop :: "int \<Rightarrow> int \<Rightarrow> int \<Rightarrow> int \<Rightarrow> int \<times> int" where
  "doy_loop tz y m d =
     (let dim = getDaysInMonth tz y (m - 1) in if d \<le> dim then (m, d) else doy_loop tz y (m + 1) (d - dim))"
  by pat_completeness auto
termination
proof (relation "measure (\<lambda>(_, _, _, d). nat d)", simp)
  fix tz y m d dim :: int
  assume "dim = getDaysInMonth tz y (m - 1)" and "\<not> d \<le> dim"
  with getDaysInMonth_bounds(1) [of tz y "m - 1"]
  show "((tz, y, m + 1, d - dim), tz, y, m, d) \<in> measure (\<lambda>(_, _, _, d). nat d)" by simp
qed

declare doy_loop.simps [simp del]

definition parseDate :: "date_names \<Rightarrow> int \<Rightarrow> int \<Rightarrow> int \<Rightarrow> string \<Rightarrow> string \<Rightarrow> int option parsed" where
  "parseDate ns tz now cutoff format value =
     (if value = [] then Inr None
      else bindP (parse_directives ns tz (directives True False format)
          \<lparr>iValue = 0, unread = value, year = - 1, month = - 1, day = - 1, doy = - 1\<rparr>) (\<lambda>p.
        if unread p \<noteq> [] \<and> \<not> is_space (hd (unread p)) then Inl (ExtraCharacters (unread p))
        else
          let y = resolve_year now cutoff (year p);
              (m, d) = (if doy p > - 1 then doy_loop tz y 1 (doy p) else (month p, day p));
              t = daylightSavingAdjust tz (new_Date tz y (m - 1) d)
          in if getFullYear tz t \<noteq> y \<or> getMonth tz t + 1 \<noteq> m \<or> getDate tz t \<noteq> d then Inl InvalidDate
             else Inr (Some t)))"

section \<open>Weeks, and the characters of a format\<close>

definition iso8601Week :: "int \<Rightarrow> int \<Rightarrow> int" where
  "iso8601Week tz t =
     (let time = setDate tz (getDate tz t + 4 - (if getDay tz t = 0 then 7 else getDay tz t)) t;
          checkDate = setDate tz 1 (setMonth tz 0 time)
      in ((time - checkDate + ms_per_day div 2) div ms_per_day) div 7 + 1)"

function possibleChars :: "bool \<Rightarrow> string \<Rightarrow> string option" where
  "possibleChars literal [] = Some []"
| "possibleChars literal (c # f) =
     (if literal then
        (if c = squote then
           (let f' = snd (lookAhead squote f)
            in if fst (lookAhead squote f) then map_option ((@) [squote]) (possibleChars True f') else possibleChars False f')
         else map_option ((@) [c]) (possibleChars True f))
      else if c = CHR ''d'' \<or> c = CHR ''m'' \<or> c = CHR ''y'' \<or> c = CHR ''@'' then
        map_option ((@) ''0123456789'') (possibleChars False f)
      else if c = CHR ''D'' \<or> c = CHR ''M'' then None
      else if c = squote then
        (let f' = snd (lookAhead squote f)
         in if fst (lookAhead squote f) then map_option ((@) [squote]) (possibleChars False f') else possibleChars True f')
      else map_option ((@) [c]) (possibleChars False f))"
  by pat_completeness auto
termination
  by (relation "measure (\<lambda>(_, f). length f)") (simp_all add: length_snd_lookAhead)


section \<open>Numbers and names are read back\<close>

lemma show_nat_length_le: "n < 10 ^ k \<Longrightarrow> 0 < k \<Longrightarrow> length (show_nat n) \<le> k"
proof (induction n arbitrary: k rule: show_nat.induct)
  case (1 n)
  show ?case
  proof (cases "n < 10")
    case True
    with 1(3) show ?thesis by (subst show_nat.simps) simp
  next
    case False
    then obtain j where k: "k = Suc j" "0 < j"
      using 1(2,3) by (cases k; cases "k - 1") auto
    moreover have "n div 10 < 10 ^ j" using 1(2) k by (simp add: less_mult_imp_div_less mult.commute)
    ultimately show ?thesis using False 1(1) [of j] by (subst show_nat.simps) simp
  qed
qed

lemma show_nat_length_gt: "10 ^ k \<le> n \<Longrightarrow> k < length (show_nat n)"
proof (induction k arbitrary: n)
  case (Suc k)
  then have le: "10 ^ k * 10 \<le> n" by (simp add: mult.commute)
  have "(1 :: nat) \<le> 10 ^ k" by simp
  with le have "10 \<le> n" by linarith
  moreover have "10 ^ k \<le> n div 10" using div_le_mono [OF le, of 10] by simp
  ultimately show ?case using Suc.IH [of "n div 10"] by (subst show_nat.simps) simp
qed simp

lemma show_nat_length: "10 ^ k \<le> n \<Longrightarrow> n < 10 ^ Suc k \<Longrightarrow> length (show_nat n) = Suc k"
  using show_nat_length_le [of n "Suc k"] show_nat_length_gt [of k n] by simp

lemma read_nat_zeros: "read_nat (replicate k CHR ''0'' @ s) = read_nat s"
  by (induction k) (simp_all add: read_nat_def digit_val_def)

text \<open>A text that is a number of a width.\<close>

definition reads_as :: "int \<Rightarrow> nat \<Rightarrow> string \<Rightarrow> bool" where
  "reads_as v n s \<longleftrightarrow> s \<noteq> [] \<and> list_all is_digit s \<and> length s \<le> n \<and> int (read_nat s) = v"

lemma reads_as_show: "0 \<le> v \<Longrightarrow> v < 10 ^ n \<Longrightarrow> 0 < n \<Longrightarrow> reads_as v n (show_int v)"
proof -
  assume v: "0 \<le> v" "v < 10 ^ n" and n: "0 < n"
  then have "nat v < 10 ^ n" by (simp add: nat_less_iff)
  with v n show ?thesis
    using show_nat_length_le [of "nat v" n] by (simp add: reads_as_def show_int_def show_nat_digits)
qed

lemma reads_as_number:
  assumes "0 \<le> v" and "v < 10 ^ n" and "0 < n"
  shows "reads_as v n (formatNumber b v n)" and "b \<Longrightarrow> length (formatNumber b v n) = n"
proof -
  have shown: "reads_as v n (show_int v)" using assms by (rule reads_as_show)
  with assms(3) show "reads_as v n (formatNumber b v n)"
    by (auto simp: formatNumber_def Let_def reads_as_def read_nat_zeros list_all_iff is_digit_def char_in_def)
  show "b \<Longrightarrow> length (formatNumber b v n) = n" using shown by (simp add: formatNumber_def Let_def reads_as_def)
qed

definition ends_number :: "string \<Rightarrow> bool" where
  "ends_number r \<longleftrightarrow> (case r of [] \<Rightarrow> True | c # _ \<Rightarrow> \<not> is_digit c)"

lemma getNumber_read:
  assumes "reads_as v n s" and "unread p = s @ r" and "m \<le> length s" and "length s = n \<or> ends_number r"
  shows "getNumber m n p = Inr (v, consume (length s) p)"
proof -
  have "takeWhile is_digit (s @ r) = s @ takeWhile is_digit r"
    using assms(1) by (intro takeWhile_append2) (auto simp: reads_as_def list_all_iff)
  moreover have "takeWhile is_digit r = []" if "ends_number r" using that by (cases r) (auto simp: ends_number_def)
  ultimately have "take n (takeWhile is_digit (unread p)) = s"
    using assms by (auto simp: reads_as_def)
  with assms show ?thesis by (simp add: getNumber_def reads_as_def)
qed

text \<open>None of the texts begins with another.\<close>

fun prefix_free :: "string list \<Rightarrow> bool" where
  "prefix_free [] = True"
| "prefix_free (a # as) = (list_all (\<lambda>b. \<not> prefix a b \<and> \<not> prefix b a) as \<and> prefix_free as)"

lemma prefix_free_nth:
  "prefix_free xs \<Longrightarrow> i < length xs \<Longrightarrow> j < length xs \<Longrightarrow> i \<noteq> j \<Longrightarrow> \<not> prefix (xs ! i) (xs ! j)"
  by (induction xs arbitrary: i j) (auto simp: nth_Cons list_all_iff split: nat.splits)

definition name_list_ok :: "nat \<Rightarrow> string list \<Rightarrow> bool" where
  "name_list_ok n names \<longleftrightarrow> length names = n \<and> list_all (\<lambda>a. a \<noteq> [] \<and> \<not> is_digit (hd a)) names
     \<and> prefix_free (map lower names)"

lemma find_only:
  assumes "x \<in> set xs" and "P x" and "\<And>y. y \<in> set xs \<Longrightarrow> P y \<Longrightarrow> y = x"
  shows "find P xs = Some x"
proof (cases "find P xs")
  case None
  with assms(1,2) show ?thesis by (simp add: find_None_iff)
next
  case (Some y)
  then have "y \<in> set xs" and "P y" by (auto simp: find_Some_iff)
  with assms(3) Some show ?thesis by simp
qed

lemma take_lower: "take n (lower s) = lower (take n s)"
  by (simp add: lower_def take_map)

lemma lower_append: "lower (s @ t) = lower s @ lower t"
  by (simp add: lower_def)

lemma length_lower [simp]: "length (lower s) = length s"
  by (simp add: lower_def)

lemma same_start_prefix:
  assumes "lower (take (length b) (a @ r)) = lower b"
  shows "prefix (lower a) (lower b) \<or> prefix (lower b) (lower a)"
proof (cases "length b \<le> length a")
  case True
  with assms have "lower b = take (length b) (lower a)" by (simp add: take_lower)
  then show ?thesis using take_is_prefix by metis
next
  case False
  with assms have "lower b = lower a @ lower (take (length b - length a) r)" by (simp add: lower_append)
  then show ?thesis by simp
qed

lemma getName_read:
  assumes "name_list_ok n names" and "i < n" and "unread p = names ! i @ r"
  shows "getName names p = Inr (int i + 1, consume (length (names ! i)) p)"
proof -
  let ?P = "\<lambda>(k :: nat, name). lower (take (length name) (unread p)) = lower name"
  have "find ?P (sort_key (\<lambda>(k, name). - int (length name)) (enumerate 0 names)) = Some (i, names ! i)"
  proof (rule find_only)
    show "(i, names ! i) \<in> set (sort_key (\<lambda>(k, name). - int (length name)) (enumerate 0 names))"
      using assms(1,2) by (simp add: in_set_enumerate_eq name_list_ok_def)
    show "?P (i, names ! i)" using assms(3) by simp
    fix y assume y: "y \<in> set (sort_key (\<lambda>(k, name). - int (length name)) (enumerate 0 names))" "?P y"
    obtain k name where kn: "y = (k, name)" by (cases y)
    with y(1) have k: "k < n" "name = names ! k"
      using assms(1) by (auto simp: in_set_enumerate_eq name_list_ok_def)
    with y(2) kn assms(3) have "prefix (lower (names ! i)) (lower name) \<or> prefix (lower name) (lower (names ! i))"
      by (intro same_start_prefix [of _ _ r]) simp
    with k have "\<not> (i \<noteq> k)"
      using assms(1,2) prefix_free_nth [of "map lower names" i k] prefix_free_nth [of "map lower names" k i]
      by (auto simp: name_list_ok_def)
    then show "y = (i, names ! i)" using kn k by simp
  qed
  then show ?thesis by (simp add: getName_def)
qed


section \<open>A directive is read back\<close>

definition names_ok :: "date_names \<Rightarrow> bool" where
  "names_ok ns \<longleftrightarrow> name_list_ok 7 (dayNamesShort ns) \<and> name_list_ok 7 (dayNames ns)
     \<and> name_list_ok 12 (monthNamesShort ns) \<and> name_list_ok 12 (monthNames ns)"

text \<open>The day of the year, and that the loop of \<open>parseDate\<close> finds month and day again.\<close>

lemma day_of_year_eq:
  assumes "full_year (getFullYear tz t) = getFullYear tz t"
  shows "day_of_year tz t = month_start (leap (getFullYear tz t)) (getMonth tz t) + getDate tz t"
proof -
  have half: "(n * ms_per_day + ms_per_day div 2) div ms_per_day = n" for n by (simp add: ms_per_day_def)
  have "day_of_year tz t = make_day (getFullYear tz t) (getMonth tz t) (getDate tz t) - make_day (getFullYear tz t) 0 0"
    using assms half [of "make_day (getFullYear tz t) (getMonth tz t) (getDate tz t) - make_day (getFullYear tz t) 0 0"]
    by (simp add: day_of_year_def new_Date_def left_diff_distrib)
  then show ?thesis using date_fields(1,2) [of tz t] by (simp add: make_day_def month_start_def Let_def)
qed

lemma month_start_Suc: "0 \<le> m \<Longrightarrow> m < 12 \<Longrightarrow> month_start l (m + 1) = month_start l m + month_length l m"
proof -
  assume m: "0 \<le> m" "m < 12"
  then have "nat (m + 1) = Suc (nat m)" by simp
  with m show ?thesis by (simp add: month_start_def month_length_def take_snoc_sum month_lengths_ok)
qed

lemma month_start_mono: "k \<le> m \<Longrightarrow> 0 \<le> k \<Longrightarrow> m \<le> 12 \<Longrightarrow> month_start l k \<le> month_start l m"
proof (induction m rule: int_ge_induct)
  case base
  then show ?case by simp
next
  case (step i)
  then show ?case using month_start_Suc [of i l] month_length_bounds(1) [of i l] by simp
qed

lemma day_of_year_bounds:
  assumes "full_year (getFullYear tz t) = getFullYear tz t"
  shows "1 \<le> day_of_year tz t" and "day_of_year tz t \<le> 366"
proof -
  let ?l = "leap (getFullYear tz t)"
  note fields = date_fields [of tz t]
  have "month_start ?l (getMonth tz t) + month_length ?l (getMonth tz t) \<le> month_start ?l 12"
    using month_start_mono [of "getMonth tz t + 1" 12 ?l] month_start_Suc [of "getMonth tz t" ?l] fields by simp
  moreover have "month_start ?l 12 \<le> 366" by (simp add: month_start_def month_lengths_def)
  moreover have "0 \<le> month_start ?l (getMonth tz t)"
    using month_start_mono [of 0 "getMonth tz t" ?l] fields by (simp add: month_start_def)
  ultimately show "1 \<le> day_of_year tz t" and "day_of_year tz t \<le> 366"
    using fields by (simp_all add: day_of_year_eq [OF assms])
qed

lemma doy_loop_finds:
  assumes "full_year y = y" and "0 \<le> m" and "m < 12" and "1 \<le> d" and "d \<le> month_length (leap y) m"
    and "0 \<le> k" and "k \<le> m"
  shows "doy_loop tz y (k + 1) (month_start (leap y) m - month_start (leap y) k + d) = (m + 1, d)"
  using assms(6,7)
proof (induction "nat (m - k)" arbitrary: k)
  case 0
  then have "k = m" by simp
  with assms show ?case by (simp add: doy_loop.simps [of tz y] getDaysInMonth_length)
next
  case (Suc n)
  then have k: "k < m" "k < 12" using assms(3) by simp_all
  have dim: "getDaysInMonth tz y (k + 1 - 1) = month_length (leap y) k"
    using assms(1) Suc.prems k by (simp add: getDaysInMonth_length)
  have start: "month_start (leap y) (k + 1) = month_start (leap y) k + month_length (leap y) k"
    using Suc.prems k by (simp add: month_start_Suc)
  have "month_start (leap y) (k + 1) \<le> month_start (leap y) m"
    using Suc.prems k assms(3) by (intro month_start_mono) simp_all
  then have "\<not> month_start (leap y) m - month_start (leap y) k + d \<le> month_length (leap y) k"
    using start assms(4) by simp
  moreover have "doy_loop tz y (k + 1 + 1) (month_start (leap y) m - month_start (leap y) (k + 1) + d) = (m + 1, d)"
    using Suc.hyps(1) [of "k + 1"] Suc.hyps(2) Suc.prems k by simp
  ultimately show ?case
    using start dim by (subst doy_loop.simps) (simp add: Let_def algebra_simps)
qed

text \<open>What a directive stores, and when its text can be told from what follows.\<close>

definition stored :: "int \<Rightarrow> int \<Rightarrow> directive \<Rightarrow> date_parse \<Rightarrow> date_parse" where
  "stored tz t d p =
     (case d of
        DayNumber _ \<Rightarrow> p\<lparr>day := getDate tz t\<rparr>
      | DayName _ \<Rightarrow> p
      | DayOfYear _ \<Rightarrow> p\<lparr>doy := day_of_year tz t\<rparr>
      | MonthNumber _ \<Rightarrow> p\<lparr>month := getMonth tz t + 1\<rparr>
      | MonthName _ \<Rightarrow> p\<lparr>month := getMonth tz t + 1\<rparr>
      | Year b \<Rightarrow> p\<lparr>year := if b then getFullYear tz t else getFullYear tz t mod 100\<rparr>
      | Timestamp \<Rightarrow> take_date tz t p
      | Ticks \<Rightarrow> take_date tz t p
      | Literal _ \<Rightarrow> p)"

fun open_ended :: "directive \<Rightarrow> bool" where
  "open_ended (DayNumber b) = (\<not> b)"
| "open_ended (DayOfYear b) = (\<not> b)"
| "open_ended (MonthNumber b) = (\<not> b)"
| "open_ended Timestamp = True"
| "open_ended Ticks = True"
| "open_ended _ = False"

fun fits :: "int \<Rightarrow> directive \<Rightarrow> bool" where
  "fits t Timestamp = (0 \<le> t \<and> t < 10 ^ 14)"
| "fits t Ticks = (0 \<le> t * 10000 + ticksTo1970 \<and> t * 10000 + ticksTo1970 < 10 ^ 20)"
| "fits t _ = True"

lemma consume_simps [simp]:
  "year (consume n p) = year p" "month (consume n p) = month p" "day (consume n p) = day p" "doy (consume n p) = doy p"
  "unread (consume n p) = drop n (unread p)"
  by (simp_all add: consume_def)

lemma short_year_text:
  assumes "0 \<le> y"
  shows "(let z = js_rem y 100 in (if z < 10 then ''0'' else []) @ show_int z) = formatNumber True (y mod 100) 2"
proof -
  define z where "z = y mod 100"
  have z: "0 \<le> z" "z < 100" "js_rem y 100 = z" using assms by (simp_all add: z_def js_rem_def)
  have "length (show_nat (nat z)) = (if z < 10 then 1 else 2)"
    using z show_nat_length [of 0 "nat z"] show_nat_length [of 1 "nat z"] by (cases "z = 0") (auto simp: show_0)
  with z show ?thesis by (simp add: z_def [symmetric] formatNumber_def show_int_def Let_def)
qed

lemma trunc_div_mult: "trunc_div (t * 10000) 10000 = t"
  using nonzero_mult_div_cancel_right [of 10000 "- t"] by (auto simp: trunc_div_def)

lemma parse_directive_read:
  assumes names: "names_ok ns" and y: "1000 \<le> getFullYear tz t" "getFullYear tz t \<le> 9999"
    and fits: "fits t d" and p: "unread p = format_directive ns tz t d @ r" and r: "open_ended d \<longrightarrow> ends_number r"
  shows "parse_directive ns tz d p = Inr (consume (length (format_directive ns tz t d)) (stored tz t d p))"
proof -
  have full: "full_year (getFullYear tz t) = getFullYear tz t" using y by (simp add: full_year_def)
  note fields = date_fields [of tz t] month_length_bounds(2) [OF date_fields(1,2), of "leap (getFullYear tz t)" tz t]
  note doy = day_of_year_bounds [OF full]
  have swap: "consume n (p\<lparr>day := x\<rparr>) = (consume n p)\<lparr>day := x\<rparr>" "consume n (p\<lparr>doy := x\<rparr>) = (consume n p)\<lparr>doy := x\<rparr>"
    "consume n (p\<lparr>month := x\<rparr>) = (consume n p)\<lparr>month := x\<rparr>" "consume n (p\<lparr>year := x\<rparr>) = (consume n p)\<lparr>year := x\<rparr>"
    "consume n (take_date tz x p) = take_date tz x (consume n p)" for n x
    by (simp_all add: consume_def take_date_def)
  have number: "getNumber 1 n p = Inr (v, consume (length (formatNumber b v n)) p)"
    if "0 \<le> v" "v < 10 ^ n" "0 < n" "unread p = formatNumber b v n @ r" "\<not> b \<longrightarrow> ends_number r" for b v n
    using reads_as_number [OF that(1-3), of b] that(4,5)
    by (intro getNumber_read [where r = r]) (auto simp: reads_as_def Suc_le_eq)
  have name: "getName (if b then ls else ss) p = Inr (v + 1, consume (length (formatName b v ss ls)) p)"
    if "name_list_ok n ss" "name_list_ok n ls" "0 \<le> v" "v < int n" "unread p = formatName b v ss ls @ r" for b v ss ls n
  proof -
    have ok: "name_list_ok n (if b then ls else ss)" "nat v < n" using that by simp_all
    then have "formatName b v ss ls = (if b then ls else ss) ! nat v"
      using that(3,4) by (simp add: formatName_def name_list_ok_def Let_def)
    with getName_read [OF ok, of p r] that(3,5) show ?thesis by simp
  qed
  show ?thesis
  proof (cases d)
    case (DayNumber b)
    with number [of "getDate tz t" 2 b] p r fields show ?thesis
      by (simp add: parse_directive_def stored_def format_directive_def swap)
  next
    case (DayName b)
    with name [of 7 "dayNamesShort ns" "dayNames ns" "getDay tz t" b] p names show ?thesis
      by (simp add: parse_directive_def stored_def format_directive_def names_ok_def getDay_def)
  next
    case (DayOfYear b)
    with number [of "day_of_year tz t" 3 b] p r doy show ?thesis
      by (simp add: parse_directive_def stored_def format_directive_def swap)
  next
    case (MonthNumber b)
    with number [of "getMonth tz t + 1" 2 b] p r fields show ?thesis
      by (simp add: parse_directive_def stored_def format_directive_def swap)
  next
    case (MonthName b)
    with name [of 12 "monthNamesShort ns" "monthNames ns" "getMonth tz t" b] p names fields show ?thesis
      by (simp add: parse_directive_def stored_def format_directive_def names_ok_def swap)
  next
    case (Year b)
    show ?thesis
    proof (cases b)
      case True
      have "reads_as (getFullYear tz t) 4 (show_int (getFullYear tz t))" using y by (intro reads_as_show) simp_all
      moreover have "length (show_int (getFullYear tz t)) = 4"
        using y show_nat_length [of 3 "nat (getFullYear tz t)"] by (simp add: show_int_def)
      ultimately have "getNumber 4 4 p = Inr (getFullYear tz t, consume 4 p)"
        using getNumber_read [of _ 4 _ p r 4] p Year True by (simp add: format_directive_def)
      with Year True \<open>length _ = 4\<close> show ?thesis
        by (simp add: parse_directive_def stored_def format_directive_def swap)
    next
      case False
      have shown: "format_directive ns tz t d = formatNumber True (getFullYear tz t mod 100) 2"
        using short_year_text [of "getFullYear tz t"] y Year False by (simp add: format_directive_def)
      have "reads_as (getFullYear tz t mod 100) 2 (formatNumber True (getFullYear tz t mod 100) 2)"
        "length (formatNumber True (getFullYear tz t mod 100) 2) = 2"
        by (intro reads_as_number, simp_all)+
      then have "getNumber 2 2 p = Inr (getFullYear tz t mod 100, consume 2 p)"
        using getNumber_read [of _ 2 _ p r 2] p shown by simp
      with Year False shown \<open>length _ = 2\<close> show ?thesis
        by (simp add: parse_directive_def stored_def swap)
    qed
  next
    case Timestamp
    with fits have "reads_as t 14 (show_int t)" by (intro reads_as_show) simp_all
    with getNumber_read [OF this, of p r 1] p r Timestamp show ?thesis
      by (simp add: parse_directive_def stored_def format_directive_def swap reads_as_def Suc_le_eq)
  next
    case Ticks
    let ?n = "t * 10000 + ticksTo1970"
    from Ticks fits have "reads_as ?n 20 (show_int ?n)" by (intro reads_as_show) simp_all
    with getNumber_read [OF this, of p r 1] p r Ticks show ?thesis
      by (simp add: parse_directive_def stored_def format_directive_def swap reads_as_def Suc_le_eq trunc_div_mult)
  next
    case (Literal c)
    with p show ?thesis by (simp add: parse_directive_def stored_def format_directive_def checkLiteral_def)
  qed
qed


section \<open>A format that can be read back\<close>

fun opens_without_digit :: "directive \<Rightarrow> bool" where
  "opens_without_digit (Literal c) = (\<not> is_digit c)"
| "opens_without_digit (DayName b) = True"
| "opens_without_digit (MonthName b) = True"
| "opens_without_digit _ = False"

fun separated :: "directive list \<Rightarrow> bool" where
  "separated (d # d' # ds) = ((open_ended d \<longrightarrow> opens_without_digit d') \<and> separated (d' # ds))"
| "separated _ = True"

fun gives_year :: "directive \<Rightarrow> bool" where
  "gives_year (Year b) = True"
| "gives_year Timestamp = True"
| "gives_year Ticks = True"
| "gives_year _ = False"

fun gives_month :: "directive \<Rightarrow> bool" where
  "gives_month (MonthNumber b) = True"
| "gives_month (MonthName b) = True"
| "gives_month Timestamp = True"
| "gives_month Ticks = True"
| "gives_month _ = False"

fun gives_day :: "directive \<Rightarrow> bool" where
  "gives_day (DayNumber b) = True"
| "gives_day Timestamp = True"
| "gives_day Ticks = True"
| "gives_day _ = False"

fun gives_doy :: "directive \<Rightarrow> bool" where
  "gives_doy (DayOfYear b) = True"
| "gives_doy _ = False"

text \<open>The parts of a date that a format gives make up the date.\<close>

definition complete :: "directive list \<Rightarrow> bool" where
  "complete ds \<longleftrightarrow> (\<exists>d \<in> set ds. gives_year d)
     \<and> ((\<exists>d \<in> set ds. gives_doy d) \<or> (\<exists>d \<in> set ds. gives_month d) \<and> (\<exists>d \<in> set ds. gives_day d))"

lemma formatName_starts:
  assumes "name_list_ok n (if b then ls else ss)" and "0 \<le> v" and "v < int n"
  shows "formatName b v ss ls \<noteq> []" and "\<not> is_digit (hd (formatName b v ss ls))"
proof -
  have "nat v < n" using assms(2,3) by simp
  then have "formatName b v ss ls = (if b then ls else ss) ! nat v" "nat v < length (if b then ls else ss)"
    using assms by (simp_all add: formatName_def name_list_ok_def Let_def split: if_splits)
  then have "formatName b v ss ls \<in> set (if b then ls else ss)" by (metis nth_mem)
  with assms(1) show "formatName b v ss ls \<noteq> []" and "\<not> is_digit (hd (formatName b v ss ls))"
    by (auto simp: name_list_ok_def list_all_iff)
qed

lemma opens_text:
  assumes "names_ok ns" and "opens_without_digit d"
  shows "ends_number (format_directive ns tz t d @ r)"
proof -
  have starts: "s \<noteq> [] \<Longrightarrow> \<not> is_digit (hd s) \<Longrightarrow> ends_number (s @ r)" for s
    by (cases s) (simp_all add: ends_number_def)
  show ?thesis
  proof (cases d)
    case (DayName b)
    then show ?thesis
      using assms formatName_starts [of 7 b "dayNames ns" "dayNamesShort ns" "getDay tz t"]
      by (intro starts) (auto simp: format_directive_def names_ok_def getDay_def)
  next
    case (MonthName b)
    then show ?thesis
      using assms date_fields(1,2) [of tz t] formatName_starts [of 12 b "monthNames ns" "monthNamesShort ns" "getMonth tz t"]
      by (intro starts) (auto simp: format_directive_def names_ok_def)
  qed (use assms in \<open>simp_all add: format_directive_def ends_number_def\<close>)
qed

lemma parse_directives_read:
  assumes "names_ok ns" and "1000 \<le> getFullYear tz t" and "getFullYear tz t \<le> 9999"
  shows "separated ds \<Longrightarrow> list_all (fits t) ds \<Longrightarrow> unread p = concat (map (format_directive ns tz t) ds) \<Longrightarrow>
    \<exists>p'. parse_directives ns tz ds p = Inr p' \<and> unread p' = []
      \<and> year p' = year (fold (stored tz t) ds p) \<and> month p' = month (fold (stored tz t) ds p)
      \<and> day p' = day (fold (stored tz t) ds p) \<and> doy p' = doy (fold (stored tz t) ds p)"
proof (induction ds arbitrary: p)
  case (Cons d ds)
  let ?n = "length (format_directive ns tz t d)" and ?r = "concat (map (format_directive ns tz t) ds)"
  have "open_ended d \<longrightarrow> ends_number ?r"
    using Cons.prems(1) assms(1) opens_text by (cases ds) (auto simp: ends_number_def)
  with Cons.prems assms have step: "parse_directive ns tz d p = Inr (consume ?n (stored tz t d p))"
    by (intro parse_directive_read [where r = ?r]) simp_all
  have same: "fold (stored tz t) ds (consume ?n q) = consume ?n (fold (stored tz t) ds q)" for q
  proof (induction ds arbitrary: q)
    case (Cons d ds)
    have "stored tz t d (consume n q) = consume n (stored tz t d q)" for n
      by (cases d) (simp_all add: stored_def consume_def take_date_def)
    with Cons show ?case by simp
  qed simp
  have "unread (stored tz t d p) = unread p" by (cases d) (simp_all add: stored_def take_date_def)
  then have "unread (consume ?n (stored tz t d p)) = ?r" using Cons.prems(3) by simp
  moreover have "separated ds" using Cons.prems(1) by (cases ds) simp_all
  ultimately obtain p' where "parse_directives ns tz ds (consume ?n (stored tz t d p)) = Inr p'" "unread p' = []"
    "year p' = year (fold (stored tz t) ds (consume ?n (stored tz t d p)))"
    "month p' = month (fold (stored tz t) ds (consume ?n (stored tz t d p)))"
    "day p' = day (fold (stored tz t) ds (consume ?n (stored tz t d p)))"
    "doy p' = doy (fold (stored tz t) ds (consume ?n (stored tz t d p)))"
    using Cons.IH [of "consume ?n (stored tz t d p)"] Cons.prems(2) by auto
  then show ?case by (simp add: step same)
qed simp

text \<open>What has been stored in the end.\<close>

lemma stored_year:
  "(\<not> (\<exists>d \<in> set ds. gives_year d) \<and> year (fold (stored tz t) ds p) = year p)
   \<or> (\<exists>d \<in> set ds. gives_year d) \<and> year (fold (stored tz t) ds p) \<in>
       insert (getFullYear tz t) (if Year False \<in> set ds then {getFullYear tz t mod 100} else {})"
proof (induction ds arbitrary: p)
  case (Cons d ds)
  have "year (stored tz t d p) = (if gives_year d then if d = Year False then getFullYear tz t mod 100 else getFullYear tz t else year p)"
    by (cases d) (auto simp: stored_def take_date_def)
  with Cons [of "stored tz t d p"] show ?case by (auto split: if_splits)
qed simp

lemma stored_month:
  "month (fold (stored tz t) ds p) = (if \<exists>d \<in> set ds. gives_month d then getMonth tz t + 1 else month p)"
proof (induction ds arbitrary: p)
  case (Cons d ds)
  have "month (stored tz t d p) = (if gives_month d then getMonth tz t + 1 else month p)"
    by (cases d) (auto simp: stored_def take_date_def)
  with Cons show ?case by simp
qed simp

lemma stored_day:
  "day (fold (stored tz t) ds p) = (if \<exists>d \<in> set ds. gives_day d then getDate tz t else day p)"
proof (induction ds arbitrary: p)
  case (Cons d ds)
  have "day (stored tz t d p) = (if gives_day d then getDate tz t else day p)"
    by (cases d) (auto simp: stored_def take_date_def)
  with Cons show ?case by simp
qed simp

lemma stored_doy:
  "doy (fold (stored tz t) ds p) = (if \<exists>d \<in> set ds. gives_doy d then day_of_year tz t else doy p)"
proof (induction ds arbitrary: p)
  case (Cons d ds)
  have "doy (stored tz t d p) = (if gives_doy d then day_of_year tz t else doy p)"
    by (cases d) (auto simp: stored_def take_date_def)
  with Cons show ?case by simp
qed simp

lemma year_text_nonempty: "gives_year d \<Longrightarrow> format_directive ns tz t d \<noteq> []"
  by (cases d) (auto simp: format_directive_def show_int_def Let_def)

definition readable_format :: "string \<Rightarrow> bool" where
  "readable_format f \<longleftrightarrow> directives True False f = directives False False f \<and> separated (directives False False f)
     \<and> complete (directives False False f)"

text \<open>C20: \<open>parseDate\<close> reads back what \<open>formatDate\<close> writes: for a format in which no number of variable width is followed by another
  digit and which gives year and day, and for names of which none begins with another, every midnight of the years
  1000 to 9999 comes back, in every order of the parts and with the day of the year instead of month and
  day; short years as far as the cutoff lets them.\<close>

theorem parse_format_date:
  assumes "names_ok ns" and "midnight tz t" and "1000 \<le> getFullYear tz t" and "getFullYear tz t \<le> 9999"
    and "readable_format f" and "list_all (fits t) (directives False False f)"
    and "Year False \<in> set (directives False False f) \<longrightarrow> resolve_year now cutoff (getFullYear tz t mod 100) = getFullYear tz t"
  shows "parseDate ns tz now cutoff f (formatDate ns tz f (Some t)) = Inr (Some t)"
proof -
  define ds where "ds = directives False False f"
  define v where "v = concat (map (format_directive ns tz t) ds)"
  define y m d where "y = getFullYear tz t" and "m = getMonth tz t" and "d = getDate tz t"
  have f: "directives True False f = ds" "separated ds" "complete ds"
    using assms(5) by (simp_all add: readable_format_def ds_def)
  have full: "full_year y = y" using assms(3) by (simp add: full_year_def y_def)
  let ?p = "\<lparr>iValue = 0, unread = v, year = - 1, month = - 1, day = - 1, doy = - 1\<rparr>"
  obtain p where p: "parse_directives ns tz ds ?p = Inr p" "unread p = []"
    "year p = year (fold (stored tz t) ds ?p)" "month p = month (fold (stored tz t) ds ?p)"
    "day p = day (fold (stored tz t) ds ?p)" "doy p = doy (fold (stored tz t) ds ?p)"
    using parse_directives_read [OF assms(1,3,4) f(2), of ?p] assms(6) by (auto simp: v_def ds_def [symmetric])
  have "year p = y \<or> Year False \<in> set ds \<and> year p = y mod 100"
    using stored_year [of ds tz t ?p] f(3) p(3) by (auto simp: complete_def y_def split: if_splits)
  then have year: "resolve_year now cutoff (year p) = y"
    using assms(3,7) by (auto simp: ds_def [symmetric] y_def resolve_year_def)
  have "doy_loop tz y 1 (day_of_year tz t) = (m + 1, d)"
    using doy_loop_finds [OF full date_fields(1,2,3,4) [of tz t, folded y_def m_def d_def], of 0 tz]
      date_fields(1) [of tz t] day_of_year_eq [of tz t] full
    by (simp add: y_def m_def d_def month_start_def)
  then have md: "(if doy p > - 1 then doy_loop tz y 1 (doy p) else (month p, day p)) = (m + 1, d)"
    using f(3) p(4-6) day_of_year_bounds(1) [of tz t] full
    by (auto simp: stored_month stored_day stored_doy complete_def y_def m_def d_def)
  have "new_Date tz y m d = t" using new_Date_same [OF assms(2)] full by (simp add: y_def m_def d_def)
  then have date: "daylightSavingAdjust tz (new_Date tz y (m + 1 - 1) d) = t"
    using assms(2) by (simp add: daylightSavingAdjust_def setHours_midnight)
  obtain x where "x \<in> set ds" "gives_year x" using f(3) by (auto simp: complete_def)
  then have "v \<noteq> []" using year_text_nonempty [of x] by (auto simp: v_def)
  then show ?thesis
    using p(1,2) year md date
    by (simp add: formatDate_def parseDate_def f(1) Let_def flip: ds_def v_def y_def m_def d_def)
qed


section \<open>Years of fewer than four digits\<close>

text \<open>\<open>yy\<close> is documented as the year in four digits, and \<open>parseDate\<close> wants four, but \<open>formatDate\<close> does not pad: what the standard
  format \<open>yy-mm-dd\<close> gives for a year before 1000 is refused.\<close>

lemma short_years_unreadable:
  assumes "0 \<le> getFullYear tz t" and "getFullYear tz t < 1000"
  shows "parseDate ns tz now cutoff ''yy-mm-dd'' (formatDate ns tz ''yy-mm-dd'' (Some t)) = Inl (MissingNumber 0)"
proof -
  define s where "s = show_int (getFullYear tz t)"
  have ds: "directives True False ''yy-mm-dd'' = [Year True, Literal CHR ''-'', MonthNumber True, Literal CHR ''-'', DayNumber True]"
    "directives False False ''yy-mm-dd'' = [Year True, Literal CHR ''-'', MonthNumber True, Literal CHR ''-'', DayNumber True]"
    by (simp_all add: lookAhead_def)
  have "reads_as (getFullYear tz t) 3 s" using assms by (simp add: s_def reads_as_show)
  then have s: "s \<noteq> []" "list_all is_digit s" "length s \<le> 3" by (simp_all add: reads_as_def)
  have "takeWhile is_digit (s @ CHR ''-'' # r) = s" for r
    using s(2) by (subst takeWhile_append2) (auto simp: list_all_iff is_digit_def char_in_def)
  with s show ?thesis
    by (simp add: parseDate_def formatDate_def ds format_directive_def s_def [symmetric] parse_directive_def getNumber_def
        del: directives.simps)
qed

section \<open>The week of the year\<close>

definition monday :: "int \<Rightarrow> int" where
  "monday D = D - (D + 3) mod 7"

definition iso_year :: "int \<Rightarrow> int" where
  "iso_year D = year_from_day (monday D + 3)"

text \<open>The first week of a year is the one with the fourth of January.\<close>

definition first_week :: "int \<Rightarrow> int" where
  "first_week y = monday (make_day y 0 4)"

lemma monday_eq: "\<exists>k r. monday D = 7 * k - 3 \<and> D = 7 * k - 3 + r \<and> 0 \<le> r \<and> r \<le> 6"
proof (intro exI conjI)
  show "monday D = 7 * ((D + 3) div 7) - 3" by (simp add: monday_def minus_mod_eq_mult_div [symmetric])
  show "D = 7 * ((D + 3) div 7) - 3 + (D + 3) mod 7" by (simp add: minus_mod_eq_mult_div [symmetric])
  show "0 \<le> (D + 3) mod 7" "(D + 3) mod 7 \<le> 6" using pos_mod_bound [of 7 "D + 3"] by simp_all
qed

lemma local_parts:
  assumes "0 \<le> x" and "x < ms_per_day"
  shows "local_day tz (n * ms_per_day + x - tz) = n" and "time_in_day tz (n * ms_per_day + x - tz) = x"
  using assms by (simp_all add: local_day_def time_in_day_def ms_per_day_def)

lemma time_in_day_range: "0 \<le> time_in_day tz t" "time_in_day tz t < ms_per_day"
  by (simp_all add: time_in_day_def ms_per_day_def)

lemma setDate_day: "local_day tz (setDate tz d t) = local_day tz t - getDate tz t + d"
  "time_in_day tz (setDate tz d t) = time_in_day tz t"
proof -
  have "make_day (getFullYear tz t) (getMonth tz t) d = local_day tz t - getDate tz t + d"
    using date_fields(5) [of tz t] by (simp add: make_day_def Let_def)
  then show "local_day tz (setDate tz d t) = local_day tz t - getDate tz t + d"
    "time_in_day tz (setDate tz d t) = time_in_day tz t"
    by (simp_all only: setDate_def local_parts time_in_day_range)
qed

lemma setMonth_day: "local_day tz (setMonth tz m t) = make_day (getFullYear tz t) m (getDate tz t)"
  "time_in_day tz (setMonth tz m t) = time_in_day tz t"
  by (simp_all only: setMonth_def local_parts time_in_day_range)

lemma day_and_time: "t = local_day tz t * ms_per_day + time_in_day tz t - tz"
  by (simp add: local_day_def time_in_day_def)

lemma iso8601Week_thursday:
  fixes tz t :: int
  defines "thursday \<equiv> monday (local_day tz t) + 3"
  shows "iso8601Week tz t = (thursday - day_from_year (year_from_day thursday)) div 7 + 1"
proof -
  define time where "time = setDate tz (getDate tz t + 4 - (if getDay tz t = 0 then 7 else getDay tz t)) t"
  define jan where "jan = setMonth tz 0 time"
  have weekday: "4 - (if (D + 4) mod 7 = 0 then 7 else (D + 4) mod 7) = 3 - (D + 3) mod 7" for D :: int
  proof -
    have "(D + 4) mod 7 = ((D + 3) mod 7 + 1) mod 7" using mod_add_left_eq [of "D + 3" 7 1] by (simp add: add.assoc)
    moreover have "(D + 3) mod 7 < 7" "0 \<le> (D + 3) mod 7" by simp_all
    ultimately show ?thesis by (cases "(D + 3) mod 7 = 6") (simp_all add: mod_pos_pos_trivial)
  qed
  have thu: "local_day tz time = thursday"
    unfolding time_def setDate_day thursday_def monday_def getDay_def using weekday [of "local_day tz t"] by linarith
  have range: "1 \<le> getDate tz time" "getDate tz time \<le> 31"
    using date_fields [of tz time] month_length_bounds(2) [of "getMonth tz time"] by (simp, meson order_trans)
  have "month_day (make_day (getFullYear tz time) 0 (getDate tz time)) = (0, getDate tz time)"
    using range by (intro made_day) (simp_all add: month_length_def month_lengths_def)
  then have "getDate tz jan = getDate tz time" unfolding jan_def by (simp add: getDate_def [of tz "setMonth tz 0 time"] setMonth_day)
  then have day: "local_day tz (setDate tz 1 jan) = day_from_year (year_from_day thursday)"
    using thu by (simp add: setDate_day jan_def setMonth_day make_day_def month_start_def getFullYear_def)
  have "time - setDate tz 1 jan = (thursday - day_from_year (year_from_day thursday)) * ms_per_day"
    using day_and_time [of time tz] day_and_time [of "setDate tz 1 jan" tz] thu day
    by (simp add: setDate_day(2) jan_def setMonth_day(2) left_diff_distrib)
  moreover have "(n * ms_per_day + ms_per_day div 2) div ms_per_day = n" for n by (simp add: ms_per_day_def)
  ultimately show ?thesis by (simp add: iso8601Week_def Let_def time_def [symmetric] jan_def [symmetric])
qed

text \<open>C21: \<open>iso8601Week\<close> is the week of the standard, for every date and time of day: counted from the week with the fourth of January
  of the year to which most of the days of the week belong, and always from 1 to 53.\<close>

theorem iso8601Week_correct:
  "let D = local_day tz t; Y = iso_year D; w = iso8601Week tz t
   in first_week Y \<le> D \<and> D < first_week (Y + 1) \<and> w = (D - first_week Y) div 7 + 1 \<and> 1 \<le> w \<and> w \<le> 53"
proof -
  define D where "D = local_day tz t"
  define Y where "Y = iso_year D"
  have fourth: "make_day y 0 4 = day_from_year y + 3" for y by (simp add: make_day_def month_start_def)
  obtain k r where k: "monday D = 7 * k - 3" "D = 7 * k - 3 + r" "0 \<le> r" "r \<le> 6"
    using monday_eq [of D] by blast
  obtain i u where i: "first_week Y = 7 * i - 3" "day_from_year Y + 3 = 7 * i - 3 + u" "0 \<le> u" "u \<le> 6"
    using monday_eq [of "make_day Y 0 4"] unfolding fourth first_week_def by blast
  obtain j v where j: "first_week (Y + 1) = 7 * j - 3" "day_from_year (Y + 1) + 3 = 7 * j - 3 + v" "0 \<le> v" "v \<le> 6"
    using monday_eq [of "make_day (Y + 1) 0 4"] unfolding fourth first_week_def by blast
  have year: "day_from_year Y \<le> 7 * k" "7 * k < day_from_year (Y + 1)" "day_from_year (Y + 1) \<le> day_from_year Y + 366"
    using year_from_day_bounds [of "7 * k"] day_from_year_Suc [of Y] k(1) by (simp_all add: Y_def iso_year_def)
  have "7 * k - day_from_year Y = (6 - u) + 7 * (k - i)" using i(2) by simp
  then have week: "(7 * k - day_from_year Y) div 7 = k - i" using i(3,4) by (simp only: div_mult_self2)
  have "iso8601Week tz t = (7 * k - day_from_year Y) div 7 + 1"
    using iso8601Week_thursday [of tz t] k(1) by (simp add: D_def [symmetric] Y_def iso_year_def)
  then have w: "iso8601Week tz t = k - i + 1" using week by simp
  have order: "i \<le> k" "k < j" "k - i \<le> 52" using i(2-4) j(2-4) year by linarith+
  have "D - first_week Y = r + 7 * (k - i)" using k(2) i(1) by simp
  then have "(D - first_week Y) div 7 = k - i" using k(3,4) by (simp only: div_mult_self2)
  then have "first_week Y \<le> D \<and> D < first_week (Y + 1) \<and> iso8601Week tz t = (D - first_week Y) div 7 + 1
      \<and> 1 \<le> iso8601Week tz t \<and> iso8601Week tz t \<le> 53"
    using w order k(2-4) i(1) j(1) by (intro conjI) linarith+
  then show ?thesis by (simp add: Let_def D_def Y_def)
qed

section \<open>Characters that may be typed\<close>

fun typeable :: "int \<Rightarrow> directive \<Rightarrow> bool" where
  "typeable t (DayOfYear b) = False"
| "typeable t Ticks = False"
| "typeable t Timestamp = (0 \<le> t)"
| "typeable t _ = True"

lemma show_int_digits: "0 \<le> v \<Longrightarrow> set (show_int v) \<subseteq> set ''0123456789''"
proof
  fix c assume "0 \<le> v" "c \<in> set (show_int v)"
  then have "is_digit c" using show_nat_digits [of "nat v"] by (auto simp: show_int_def list_all_iff)
  then have "(of_char c :: nat) \<in> set [48..<58]" unfolding set_upt by (simp add: is_digit_def char_in_def)
  then have "c \<in> set (map char_of [48..<58 :: nat])" by (metis char_of_char image_eqI list.set_map)
  moreover have "map char_of [48..<58 :: nat] = ''0123456789''" by code_simp
  ultimately show "c \<in> set ''0123456789''" by simp
qed


lemma formatNumber_digits: "0 \<le> v \<Longrightarrow> set (formatNumber b v n) \<subseteq> set ''0123456789''"
  using show_int_digits [of v] by (auto simp: formatNumber_def Let_def)

lemma number_chars:
  assumes "0 \<le> getFullYear tz t" and "d \<in> {DayNumber b, MonthNumber b, Year b, Timestamp}" and "typeable t d"
  shows "set (format_directive ns tz t d) \<subseteq> set ''0123456789''"
proof -
  note fields = date_fields [of tz t]
  show ?thesis
  proof (cases d)
    case (Year c)
    with assms(1) short_year_text [of "getFullYear tz t"] show ?thesis
      by (cases c) (simp_all add: format_directive_def show_int_digits formatNumber_digits del: set_simps list.set)
  qed (use assms fields in \<open>auto simp: format_directive_def simp del: list.set intro!: formatNumber_digits show_int_digits\<close>)
qed

lemma possible_after:
  "possibleChars False g = Some cs \<Longrightarrow> c \<in> {CHR ''d'', CHR ''m'', CHR ''y''} \<Longrightarrow>
     \<exists>cs'. possibleChars False (snd (lookAhead c g)) = Some cs' \<and> set cs' \<subseteq> set cs"
  by (cases g) (auto simp: lookAhead_def)

lemma possible_covers:
  assumes "0 \<le> getFullYear tz t"
  shows "possibleChars lit f = Some cs \<Longrightarrow> list_all (typeable t) (directives False lit f) \<Longrightarrow>
    set (concat (map (format_directive ns tz t) (directives False lit f))) \<subseteq> set cs"
proof (induction "length f" arbitrary: lit f cs rule: less_induct)
  case less
  note IH = less.hyps
  let ?out = "\<lambda>ds. set (concat (map (format_directive ns tz t) ds))"
  show ?case
  proof (cases f)
    case (Cons c g)
    have shorter: "length g < length f" "length (snd (lookAhead x g)) < length f" for x
      using length_snd_lookAhead [of x g] Cons by simp_all
    show ?thesis
    proof (cases "lit \<or> c \<notin> {CHR ''d'', CHR ''m'', CHR ''y'', CHR ''@''}")
      case True
      have step: ?thesis
        if "map_option ((@) out) (possibleChars l h) = Some cs" "length h < length f"
          "directives False lit f = map Literal out @ directives False l h" for l h out
      proof -
        from that(1) obtain cs1 where cs1: "possibleChars l h = Some cs1" "cs = out @ cs1" by auto
        have "list_all (typeable t) (directives False l h)" using less.prems(2) that(3) by simp
        from IH [OF that(2) cs1(1) this] show ?thesis
          by (auto simp: that(3) cs1(2) format_directive_def)
      qed
      consider (lit) "lit" "c \<noteq> squote" | (lit_two) "lit" "c = squote" "fst (lookAhead squote g)"
        | (lit_end) "lit" "c = squote" "\<not> fst (lookAhead squote g)"
        | (two) "\<not> lit" "c = squote" "fst (lookAhead squote g)" | (start) "\<not> lit" "c = squote" "\<not> fst (lookAhead squote g)"
        | (other) "\<not> lit" "c \<noteq> squote" by blast
      then show ?thesis
      proof cases
        case lit
        with less.prems(1) Cons shorter show ?thesis by (intro step [of "[c]" True g]) simp_all
      next
        case lit_two
        with less.prems(1) Cons shorter show ?thesis
          by (intro step [of "[squote]" True "snd (lookAhead squote g)"]) (simp_all add: Let_def)
      next
        case lit_end
        with less.prems(1) Cons shorter show ?thesis
          by (intro step [of "[]" False "snd (lookAhead squote g)"]) (simp_all add: Let_def option.map_ident)
      next
        case two
        with less.prems(1) Cons shorter show ?thesis
          by (intro step [of "[squote]" False "snd (lookAhead squote g)"]) (simp_all add: Let_def)
      next
        case start
        with less.prems(1) Cons shorter show ?thesis
          by (intro step [of "[]" True "snd (lookAhead squote g)"]) (simp_all add: Let_def option.map_ident)
      next
        case other
        have "c \<noteq> CHR ''D''" "c \<noteq> CHR ''M''" using less.prems(1) Cons other by auto
        moreover have "c \<noteq> CHR ''o''" "c \<noteq> CHR ''!''"
          using less.prems(2) Cons other by (auto split: prod.splits)
        ultimately show ?thesis
          using True less.prems(1) Cons shorter other by (intro step [of "[c]" False g]) simp_all
      qed
    next
      case False
      then obtain cs1 where cs1: "possibleChars False g = Some cs1" "cs = ''0123456789'' @ cs1"
        using less.prems(1) Cons by auto
      obtain b g' where look: "lookAhead c g = (b, g')" by (cases "lookAhead c g")
      define d g1 where "d = (if c = CHR ''d'' then DayNumber b else if c = CHR ''m'' then MonthNumber b
        else if c = CHR ''y'' then Year b else Timestamp)" and "g1 = (if c = CHR ''@'' then g else g')"
      have ds: "directives False lit f = d # directives False False g1"
      proof -
        have "\<not> lit" "c = CHR ''d'' \<or> c = CHR ''m'' \<or> c = CHR ''y'' \<or> c = CHR ''@''" using False by auto
        then show ?thesis using Cons look by (elim disjE) (simp_all add: d_def g1_def)
      qed
      obtain cs' where cs': "possibleChars False g1 = Some cs'" "set cs' \<subseteq> set cs1"
        using possible_after [OF cs1(1), of c] cs1(1) look False by (auto simp: g1_def)
      have "length g1 < length f" using shorter(1) shorter(2) [of c] look by (simp add: g1_def)
      then have "?out (directives False False g1) \<subseteq> set cs'"
        using IH cs'(1) less.prems(2) ds by simp
      moreover have "set (format_directive ns tz t d) \<subseteq> set ''0123456789''"
        using less.prems(2) ds by (intro number_chars [OF assms, of _ b]) (auto simp: d_def)
      moreover have "?out (directives False lit f) = set (format_directive ns tz t d) \<union> ?out (directives False False g1)"
        by (simp only: ds list.map concat.simps set_append)
      moreover have "set cs = set ''0123456789'' \<union> set cs1" by (simp only: cs1(2) set_append)
      ultimately show ?thesis using cs'(2) by blast
    qed
  qed (use less.prems in simp)
qed

text \<open>C40: The keyboard filter of the date picker lets through every character of a formatted date, for formats without \<open>o\<close> and \<open>!\<close>.\<close>

theorem possibleChars_cover:
  assumes "possibleChars False f = Some cs" and "list_all (typeable t) (directives False False f)" and "0 \<le> getFullYear tz t"
  shows "set (formatDate ns tz f (Some t)) \<subseteq> set cs"
  using possible_covers [OF assms(3,1,2)] by (simp add: formatDate_def)

text \<open>It does not for the standard format \<open>!\<close> (ticks) and for the day of the year \<open>oo\<close>: no digit can be typed.\<close>

lemma ticks_untypeable:
  assumes "0 \<le> t * 10000 + ticksTo1970" and "full_year (getFullYear tz t) = getFullYear tz t" and "f \<in> {''!'', ''oo''}"
  shows "\<exists>cs. possibleChars False f = Some cs \<and> formatDate ns tz f (Some t) \<noteq> []
    \<and> set (formatDate ns tz f (Some t)) \<inter> set cs = {}"
proof -
  have digits: "set s \<inter> set ''!oo'' = {}" if "set s \<subseteq> set ''0123456789''" for s :: string using that by auto
  have "1 \<le> day_of_year tz t" using assms(2) by (rule day_of_year_bounds)
  then have "set (formatNumber True (day_of_year tz t) 3) \<subseteq> set ''0123456789''" by (intro formatNumber_digits) simp
  moreover have "set (show_int (t * 10000 + ticksTo1970)) \<subseteq> set ''0123456789''" using assms(1) by (rule show_int_digits)
  moreover have "show_int v \<noteq> []" "formatNumber True v 3 \<noteq> []" for v
    by (auto simp: show_int_def formatNumber_def Let_def)
  ultimately show ?thesis
    using assms(3) digits by (auto simp: formatDate_def lookAhead_def format_directive_def)
qed

section \<open>Sample dates\<close>

text \<open>The fourth of January 2021, a Monday, in a zone an hour ahead.\<close>

definition sample_zone :: int where "sample_zone = 3600000"

definition sample_date :: int where "sample_date = new_Date sample_zone 2021 0 4"

lemma default_names_ok: "names_ok default_names"
  by code_simp


lemma sample_date_fields:
  "getFullYear sample_zone sample_date = 2021" "midnight sample_zone sample_date" "getMonth sample_zone sample_date = 0"
  "getDate sample_zone sample_date = 4"
  using new_Date_fields [of 0 4 2021 sample_zone]
  by (simp_all add: sample_date_def full_year_def month_length_def month_lengths_def)

lemma sample_format: "readable_format ''D, dd M yy''"
  by code_simp

theorem parse_format_date_witness:
  "formatDate default_names sample_zone ''D, dd M yy'' (Some sample_date) = ''Mon, 04 Jan 2021''
    \<and> parseDate default_names sample_zone 2026 36 ''D, dd M yy'' ''Mon, 04 Jan 2021'' = Inr (Some sample_date)"
proof -
  have "formatDate default_names sample_zone ''D, dd M yy'' (Some sample_date) = ''Mon, 04 Jan 2021''" by code_simp
  moreover have "Year False \<notin> set (directives False False ''D, dd M yy'')"
    "list_all (fits sample_date) (directives False False ''D, dd M yy'')" by code_simp+
  ultimately show ?thesis
    using parse_format_date [of default_names sample_zone sample_date "''D, dd M yy''" 2026 36]
    by (simp only: sample_date_fields default_names_ok sample_format) simp
qed

theorem possibleChars_cover_witness:
  "\<exists>cs. possibleChars False ''d/m/yy'' = Some cs
    \<and> set (formatDate default_names sample_zone ''d/m/yy'' (Some sample_date)) \<subseteq> set cs"
proof -
  have "possibleChars False ''d/m/yy'' = Some ''0123456789/0123456789/01234567890123456789''"
    "list_all (typeable sample_date) (directives False False ''d/m/yy'')" by code_simp+
  from this(1) possibleChars_cover [OF this, of sample_zone default_names] show ?thesis
    by (intro exI conjI) (simp_all only: sample_date_fields, simp)
qed

end
