(* ===== verification/Spec2Isabelle.thy ===== *)
theory Spec2Isabelle
  imports HbPipeline HbParser HbVisitor JqPromise JqReady JqDispatch JqAjax JqConvert JqParam JqQueue JqMatch UiDate
begin

text \<open>
  A verification library for the scripts of the a-sync web client,
  \<open>a-sync-webclient/src/main/resources/web\<close>. Three of them are modelled, two in part: the template engine
  \<open>lib/handlebars.js\<close>, which turns the templates of the page into the text it shows, and of \<open>lib/jquery.js\<close> what
  the client's own script \<open>webclient.js\<close> stands on: the functions it passes to \<open>$\<close>, the events it binds with
  \<open>on\<close>, and the deferreds behind both and behind its requests; and of \<open>lib/jquery-ui.js\<close> the dates of the
  date picker. The manifest gives the lines.

  \<^bold>\<open>The template engine.\<close> The file is a bundle of numbered modules. \<open>Handlebars.compile\<close> takes a template. The generated parser (module 23) drives the
  lexer and builds a syntax tree with the constructors of modules 21 and 26; whitespace control
  (module 24) strips the tree; the compiler (module 27) turns it into opcodes, one environment for every
  program of the tree; the JavaScript compiler (module 28) runs the opcodes on a stack and writes
  the text of one function for every environment, with the code generator (module 29). The runtime
  (module 19) executes the resulting specification: it wraps programs, runs decorators (module 16),
  resolves partials and calls the helpers (modules 8 to 14) that the environment (module 4) registers.

  \<^bold>\<open>jQuery.\<close> A callback list keeps functions and calls them when it is fired; a deferred is three of
  them that lock each other; \<open>ready\<close> resolves one deferred when the document is ready. Handlers of
  events are kept per element and type; one native listener per type hands an event to
  \<open>dispatch\<close>, which finds out which handlers it concerns and calls them. \<open>ajax\<close> makes requests, settles
  a deferred for each and keeps a counter of the active ones. Functions wait in queues of elements; selectors are
  compiled to functions that find elements.

  \<^bold>\<open>The theories.\<close>
  \<^item> \<open>JsPrelude\<close>: the values of computations that may throw (\<open>exn + 'a\<close>), the monad of
    computations on a state, JavaScript strings, numbers and objects, and the rewriting collections.
  \<^item> \<open>HbUtils\<close>: \<open>extend\<close>, \<open>escapeExpression\<close>, \<open>isEmpty\<close>, \<open>createFrame\<close>, the exception (modules 5, 6, 18).
  \<^item> \<open>HbEnv\<close>: the record \<open>environment\<close> with the three registries and one function for each of
    their operations, the logger, \<open>noConflict\<close> (modules 4, 7, 15, 17, 20). The locale \<open>registry\<close> states
    what a client of a registry may rely on and is interpreted on all three.
  \<^item> \<open>HbAst\<close>: one constructor for every node type of the tree, and \<open>preparePath\<close>,
    \<open>prepareMustache\<close>, \<open>prepareBlock\<close> and the others under their names.
  \<^item> \<open>HbLexer\<close>: the 45 rules, the five start conditions, \<open>next\<close> and \<open>lex\<close> on the record \<open>lexer\<close>.
  \<^item> \<open>HbGrammar\<close> and \<open>HbParser\<close>: the tables, the semantic actions and the loop of \<open>parse\<close>.
  \<^item> \<open>HbWhitespace\<close>: \<open>omitLeft\<close>, \<open>omitRight\<close>, the standalone tests and the pass. The locale
    \<open>trimming\<close> carries what two of its properties share.
  \<^item> \<open>HbVisitor\<close>: \<open>accept\<close>, \<open>acceptKey\<close>, \<open>acceptArray\<close> and the methods for the node types (module 25).
  \<^item> \<open>HbCompiler\<close>: opcodes as a datatype, environments as \<open>compiled\<close>, the compiler as functions on the
    record \<open>comp\<close>; \<open>equals\<close> as \<open>env_equals\<close>; \<open>compile\<close> and its lazily filled variable.
  \<^item> \<open>HbCodeGen\<close>: chunks of text and \<open>quotedString\<close>.
  \<^item> \<open>HbJsCompiler\<close>: the record \<open>jsc\<close> holds the state of a \<open>JavaScriptCompiler\<close>; every opcode is a
    function on it; \<open>compile_spec\<close> assembles the specification.
  \<^item> \<open>HbBuiltins\<close>: the default helpers.
  \<^item> \<open>HbRuntime\<close>: \<open>template\<close>, \<open>wrapProgram\<close>, the partials,
    decorators and the container, which is the state.
  \<^item> \<open>HbPipeline\<close>: properties of all of it together.

  \<^item> \<open>JqCallbacks\<close>: \<open>jQuery.Callbacks\<close>; the variables of its closure are the record \<open>cblist\<close>.
  \<^item> \<open>JqDeferred\<close>: \<open>Deferred\<close>, \<open>then\<close> and \<open>when\<close>. A callback may use any list while it runs, so
    the program is a machine with a stack of the running \<open>fire\<close> loops and functions; the functions of
    the page are arbitrary. \<open>runs\<close> are its runs.
  \<^item> \<open>JqPromise\<close>: what deferreds promise, for every page.
  \<^item> \<open>JsMachine\<close>: code that answers to happenings, with the locale \<open>machine\<close> for what every run keeps and
    the locale \<open>simulation\<close> for code that puts out what a specification puts out; \<open>JqReady\<close> and \<open>JqQueue\<close>
    interpret them.
  \<^item> \<open>JqReady\<close>: \<open>ready\<close>, \<open>holdReady\<close> and how the library learns that the document is ready, with the
    contract as a state machine that the code refines.
  \<^item> \<open>JqNamespace\<close>: the types and namespaces of events and the regular expression made of them.
  \<^item> \<open>JqEvent\<close>: \<open>on\<close>, \<open>one\<close>, \<open>off\<close>, \<open>event.add\<close>, \<open>event.remove\<close> on the record \<open>registry\<close>.
  \<^item> \<open>JqDispatch\<close>: \<open>dispatch\<close>, \<open>handlers\<close> and \<open>trigger\<close>.
  \<^item> \<open>JqAjax\<close>: the life of requests made with \<open>ajax\<close>. The record \<open>request\<close> holds the variables of the closure;
    \<open>resume\<close> says how the code goes on after each function of the page that it calls; \<open>ajax_runs\<close> are the runs.
  \<^item> \<open>JqConvert\<close>: \<open>ajaxHandleResponses\<close> and \<open>ajaxConvert\<close>, and as \<open>spec_ajaxConvert\<close> the conversion that is meant.
  \<^item> \<open>JqQueue\<close>: the queues of elements with \<open>delay\<close> and \<open>promise\<close> on the record \<open>queues\<close>, and as \<open>spec_happen\<close> their
    contract, which has neither the sentinel nor the counters of the code.
  \<^item> \<open>JqDom\<close>: documents as trees, nodes as paths, and the filters of selectors that look at one node.
  \<^item> \<open>JqChild\<close>: \<open>:nth-child\<close> and its relatives, with the positions that they keep on the nodes in the record \<open>caches\<close>.
  \<^item> \<open>JqMatch\<close>: \<open>matcherFromTokens\<close>, \<open>addCombinator\<close> with the results of walks on the nodes, \<open>compile\<close> and
    \<open>superMatcher\<close>; a closure of the code is a value of the datatype \<open>matcher\<close>, run by \<open>run\<close>. \<open>selects\<close> is the
    meaning of a selector, without any cache.
  \<^item> \<open>JsDate\<close>: the \<open>Date\<close> of the language, in zones without daylight saving.
  \<^item> \<open>UiDate\<close>: \<open>formatDate\<close>, \<open>parseDate\<close>, \<open>iso8601Week\<close> and the smaller functions on dates.
  \<^item> \<open>JqParam\<close>: \<open>param\<close> and \<open>buildParams\<close>, and how a server reads what they make.

  \<^bold>\<open>What the lemmas show.\<close> The lexer comes to an end and keeps its invariant; the parser is
  executable and its two defects are computed. Whitespace control is total on what the parser delivers and
  removes nothing but whitespace. The compiler's opcodes are balanced, and from that balance the
  JavaScript compiler never fails on its stack, so compiling a parsed template returns. Literals and
  escaped text can be read back. A visitor accepts every node once. The loops of \<open>each\<close> equal an
  indexed map. The runtime restores the partials of a block, caches programs and compiles a partial once.
  A text without tags goes through all phases to a function that returns it.
  The functions given to a deferred are called in order, once, with the same values and on one side only,
  whatever the page does; an exception in one of them silences its list for ever. The ready functions are called
  exactly when the document is ready and nothing holds them. The event registry stays consistent, \<open>off\<close> removes
  exactly what it should, and a dispatch calls what is specified, in order, and stops as it should; three defects of
  the registry are computed. A request is sent, settled and completed at most once and in this order, and the counter is
  right, as long as nothing throws; an exception at the wrong time breaks the counter for ever. A response is converted as specified if no converter is switched
  off; with one that is, the conversion may not return, and that is proved. Decoding the text of parameters gives them back.
  Queues are first in, first out and refine their contract, and a promise of queues is resolved once, when the last of them
  has emptied. Selections are those that the selectors mean, in whatever order the walks use the entries of others; the one
  filter for which that fails, \<open>:nth-last-child\<close>, is shown to select wrongly.
  A date that was formatted is parsed as the same date, if the format lets numbers be told apart, and weeks are those of the
  standard.

  \<^bold>\<open>Termination.\<close> The parser's loop is \<open>partial_function (option)\<close>: there are templates on which it
  does not return, and that is proved. \<open>lex\<close> ends by a measure on the remaining input and the
  start condition; the pass of whitespace control, both compilers, \<open>equals\<close> and the visitor end by the
  size of the tree. No definition uses fuel.

  \<^bold>\<open>Parameters.\<close> Functions of the host program (helpers, lambdas, \<open>toString\<close> of its objects) are the
  argument \<open>host\<close>; the functions that the generated code would become are the arguments \<open>exec\<close> and
  \<open>deco\<close> of the runtime, because the \<open>Function\<close> constructor is outside the file.

  \<^bold>\<open>Not modelled.\<close> The module loader (modules 0 to 3) and the global object. Source maps: the build
  has no source-map library, so a source node is its text. Identity of objects, except for the
  objects \<open>props\<close> of decorators, the partials' registry and the cache of programs, which are state.
  That \<open>invokePartial\<close> writes \<open>contextPath\<close> into the frame of its caller is visible in the options
  of the call only. In a visitor, a node replaced by one of another sort, and a partial block whose
  program is removed. The options \<open>stringParams\<close> and \<open>trackIds\<close> together, or either with
  \<open>explicitPartialContext\<close>, are modelled but excluded from the theorems on the stack, because the
  code fails there. Of jQuery: the tokenizer of selectors, selectors with positions or inside selectors, changes of the document, data, effects except their queues, and the headers and addresses of requests; of its events the
  handlers for old browsers (\<open>submit\<close>, \<open>change\<close>, \<open>attachEvent\<close>), the properties that \<open>fix\<close> copies, and
  namespaces with characters that mean something in a regular expression. Of jQuery UI everything but the dates, and less, are not modelled;
  nor are the Java modules of the repository (block exchange, discovery, relay, repository, clients).
\<close>

end
